(* ===== verification/Prelude.thy ===== *)
theory Prelude
  imports Main "HOL-Library.Word"
begin

text \<open>
  Shared vocabulary of the development: the fixed-width integer types of
  \<^verbatim>\<open>kernel/types.h\<close>, the constants of \<^verbatim>\<open>kernel/param.h\<close>, the outcome of a kernel
  routine (it returns, it panics, it gives up the CPU, or it spins), its sequencing
  operator, little-endian encoding of words as bytes, and byte-addressed memory with
  64-bit loads and stores.
\<close>

unbundle bit_operations_syntax

section \<open>Types and constants\<close>

type_synonym byte = "8 word"
type_synonym ushort = "16 word"
type_synonym uint32 = "32 word"
type_synonym uint64 = "64 word"
type_synonym memory = "uint64 \<Rightarrow> byte"

definition NPROC :: nat where "NPROC = 64"
definition NCPU :: nat where "NCPU = 8"
definition NOFILE :: nat where "NOFILE = 16"
definition NFILE :: nat where "NFILE = 100"
definition NINODE :: nat where "NINODE = 50"
definition NDEV :: nat where "NDEV = 10"
definition ROOTDEV :: uint32 where "ROOTDEV = 1"
definition MAXARG :: nat where "MAXARG = 32"
definition MAXOPBLOCKS :: nat where "MAXOPBLOCKS = 10"
definition LOGSIZE :: nat where "LOGSIZE = MAXOPBLOCKS * 3"
definition NBUF :: nat where "NBUF = MAXOPBLOCKS * 3"
definition FSSIZE :: nat where "FSSIZE = 1000"
definition MAXPATH :: nat where "MAXPATH = 128"

lemmas param_defs = NPROC_def NCPU_def NOFILE_def NFILE_def NINODE_def NDEV_def ROOTDEV_def
  MAXARG_def MAXOPBLOCKS_def LOGSIZE_def NBUF_def FSSIZE_def MAXPATH_def

section \<open>Outcomes of kernel routines\<close>

text \<open>
  A routine run by one kernel thread ends in one of four ways.  \<open>Ret a s\<close>: it returns
  the value \<open>a\<close> in state \<open>s\<close>.  \<open>Panic msg\<close>: it calls \<^verbatim>\<open>panic(msg)\<close>, which never
  returns.  \<open>Swtch s\<close>: it reaches the call of \<^verbatim>\<open>swtch\<close> in \<^verbatim>\<open>sched()\<close> and leaves the CPU
  with the kernel in state \<open>s\<close> (it sleeps, yields or has exited).  \<open>Spin s\<close>: it busy-waits
  on something only another hart or a device can change.
\<close>

datatype ('a, 's) outcome = Ret 'a 's | Panic string | Swtch 's | Spin 's

fun bnd :: "('a, 's) outcome \<Rightarrow> ('a \<Rightarrow> 's \<Rightarrow> ('b, 's) outcome) \<Rightarrow> ('b, 's) outcome" where
  "bnd (Ret a s) f = f a s"
| "bnd (Panic msg) f = Panic msg"
| "bnd (Swtch s) f = Swtch s"
| "bnd (Spin s) f = Spin s"

lemma bnd_cong [fundef_cong]:
  assumes "m = m'" and "\<And>a s. m' = Ret a s \<Longrightarrow> f a s = g a s"
  shows "bnd m f = bnd m' g"
  using assms by (cases m') auto

lemma bnd_Ret_iff: "bnd m f = Ret b t \<longleftrightarrow> (\<exists>a s. m = Ret a s \<and> f a s = Ret b t)"
  by (cases m) auto

lemma bnd_RetE [elim!]:
  assumes "bnd m f = Ret b t"
  obtains a s where "m = Ret a s" and "f a s = Ret b t"
  using assms by (auto simp: bnd_Ret_iff)

lemma bnd_assoc: "bnd (bnd m f) g = bnd m (\<lambda>a s. bnd (f a s) g)"
  by (cases m) auto

text \<open>Every state in which a routine can leave the CPU for another thread or return.\<close>

fun out_state :: "('a, 's) outcome \<Rightarrow> 's option" where
  "out_state (Ret a s) = Some s"
| "out_state (Panic msg) = None"
| "out_state (Swtch s) = Some s"
| "out_state (Spin s) = Some s"

section \<open>Wrap-around address ranges\<close>

text \<open>
  The byte \<open>a\<close> lies in the \<open>n\<close> bytes from \<open>d\<close> on exactly if its distance from \<open>d\<close>,
  computed modulo $2^{64}$ as C computes it, is below \<open>n\<close>.
\<close>

lemma unat_of_nat64: "n < 2 ^ 64 \<Longrightarrow> unat (of_nat n :: uint64) = n"
  by (simp add: unat_of_nat take_bit_nat_eq_self)

lemma unat_lt64: "unat (a :: uint64) < 2 ^ 64"
proof -
  have "unat a < 2 ^ LENGTH(64)" by (rule unsigned_less)
  then show ?thesis by simp
qed

lemma unat_pow64: "k < 64 \<Longrightarrow> unat (2 ^ k :: uint64) = 2 ^ k"
proof -
  assume "k < 64"
  then have "(2 :: nat) ^ k < 2 ^ 64" by (rule power_strict_increasing) simp
  then show ?thesis using unat_of_nat64 [of "2 ^ k"] by simp
qed

lemma range_Suc:
  assumes "n < 2 ^ 64"
  shows "unat (a - d :: uint64) < Suc n \<longleftrightarrow> unat (a - d) < n \<or> a = d + of_nat n"
proof -
  have "unat (a - d) = n \<longleftrightarrow> a - d = of_nat n"
    using unat_of_nat64 [OF assms] by (simp add: word_unat_eq_iff)
  then show ?thesis by (auto simp: less_Suc_eq algebra_simps)
qed

lemma range_step:
  fixes a d :: uint64
  assumes "a \<noteq> d"
  shows "unat (a - (d + 1)) = unat (a - d) - 1"
proof -
  have eq: "a - (d + 1) = (a - d) - 1" by (simp add: algebra_simps)
  from assms have "a - d \<noteq> 0" by simp
  then show ?thesis unfolding eq by (rule unat_minus_one)
qed

lemma range_nth: "n < 2 ^ 64 \<Longrightarrow> unat (d + of_nat n - d :: uint64) = n"
  by (simp add: unat_of_nat64)

lemma range_shift:
  assumes "unat (a - d :: uint64) < n" and "n \<le> 2 ^ 64"
  obtains i where "i < n" and "a = d + of_nat i"
proof
  show "unat (a - d) < n" by fact
  show "a = d + of_nat (unat (a - d))" by (simp add: unsigned_word_eqI)
qed

section \<open>Little-endian encoding\<close>

text \<open>RISC-V is little-endian: byte \<open>i\<close> of a stored word holds its bits \<open>8i .. 8i+7\<close>.\<close>

primrec dec :: "byte list \<Rightarrow> 'a::len word" where
  "dec [] = 0"
| "dec (b # bs) = ucast b OR push_bit 8 (dec bs)"

primrec enc :: "nat \<Rightarrow> 'a::len word \<Rightarrow> byte list" where
  "enc 0 v = []"
| "enc (Suc k) v = ucast v # enc k (drop_bit 8 v)"

lemma length_enc [simp]: "length (enc k v) = k"
  by (induction k arbitrary: v) auto

lemma dec_enc: "dec (enc k v) = take_bit (8 * k) v"
proof (induction k arbitrary: v)
  case (Suc k)
  then show ?case by (auto intro!: bit_word_eqI simp: bit_simps)
qed simp

lemma dec_enc_full: "LENGTH('a) \<le> 8 * k \<Longrightarrow> dec (enc k (v :: 'a::len word)) = v"
  by (simp add: dec_enc take_bit_word_eq_self)

lemma bit_dec_bound: "bit (dec bs :: 'a::len word) n \<Longrightarrow> n < 8 * length bs"
proof (induction bs arbitrary: n)
  case (Cons b bs)
  then show ?case
    by (auto simp: bit_simps dest: bit_imp_le_length) (metis Nat.le_diff_conv2 add.commute
      diff_add_inverse2 le_add_diff_inverse2 less_diff_conv2 not_less_iff_gr_or_eq)
qed simp

lemma enc_dec:
  assumes "8 * length bs \<le> LENGTH('a)"
  shows "enc (length bs) (dec bs :: 'a::len word) = bs"
  using assms
proof (induction bs)
  case (Cons b bs)
  have hd: "ucast (ucast b OR push_bit 8 (dec bs) :: 'a word) = b"
    using Cons.prems by (auto intro!: bit_word_eqI simp: bit_simps)
  have tl: "drop_bit 8 (ucast b OR push_bit 8 (dec bs) :: 'a word) = dec bs"
    using Cons.prems
    by (fastforce intro!: bit_word_eqI simp: bit_simps dest: bit_imp_le_length bit_dec_bound)
  have "enc (length bs) (dec bs :: 'a word) = bs" using Cons by simp
  then show ?case by (simp only: list.size add_Suc_right add_0_right enc.simps dec.simps hd tl)
qed simp

lemma dec_zeros [simp]: "dec (replicate n 0) = 0"
  by (induction n) simp_all

section \<open>64-bit loads and stores\<close>

definition bytes_at :: "memory \<Rightarrow> uint64 \<Rightarrow> nat \<Rightarrow> byte list" where
  "bytes_at m a n = map (\<lambda>i. m (a + of_nat i)) [0..<n]"

primrec put_bytes :: "memory \<Rightarrow> uint64 \<Rightarrow> byte list \<Rightarrow> memory" where
  "put_bytes m a [] = m"
| "put_bytes m a (b # bs) = put_bytes (m(a := b)) (a + 1) bs"

definition load64 :: "memory \<Rightarrow> uint64 \<Rightarrow> uint64" where
  "load64 m a = dec (bytes_at m a 8)"

definition store64 :: "memory \<Rightarrow> uint64 \<Rightarrow> uint64 \<Rightarrow> memory" where
  "store64 m a v = put_bytes m a (enc 8 v)"

lemma length_bytes_at [simp]: "length (bytes_at m a n) = n"
  by (simp add: bytes_at_def)

lemma bytes_at_cong:
  assumes "\<And>i. i < n \<Longrightarrow> m (a + of_nat i) = m' (a + of_nat i)"
  shows "bytes_at m a n = bytes_at m' a n"
  using assms by (simp add: bytes_at_def)

lemma put_bytes_eq:
  assumes "length bs \<le> 2 ^ 64"
  shows "put_bytes m a bs x = (if unat (x - a) < length bs then bs ! unat (x - a) else m x)"
  using assms
proof (induction bs arbitrary: m a)
  case (Cons b bs)
  show ?case
  proof (cases "x = a")
    case True
    have "unat (-1 :: uint64) = 2 ^ 64 - 1" by (simp add: unsigned_minus_1_eq_mask mask_eq_exp_minus_1)
    with Cons True show ?thesis by simp
  next
    case False
    then have "unat (x - a) \<noteq> 0" by (simp add: unat_eq_0)
    moreover have "unat (x - (a + 1)) = unat (x - a) - 1"
      using False by (rule range_step)
    ultimately show ?thesis using Cons False by (auto simp: nth_Cons')
  qed
qed simp

lemma bytes_at_put_same:
  assumes "length bs \<le> 2 ^ 64"
  shows "bytes_at (put_bytes m a bs) a (length bs) = bs"
proof (rule nth_equalityI)
  fix i assume i: "i < length (bytes_at (put_bytes m a bs) a (length bs))"
  with assms have "i < 2 ^ 64" by simp
  with i assms show "bytes_at (put_bytes m a bs) a (length bs) ! i = bs ! i"
    by (simp add: bytes_at_def put_bytes_eq unat_of_nat64)
qed simp

lemma load_store_same [simp]: "load64 (store64 m a v) a = v"
  using bytes_at_put_same [of "enc 8 v" m a]
  by (simp add: load64_def store64_def dec_enc_full)

lemma store64_frame: "8 \<le> unat (x - a) \<Longrightarrow> store64 m a v x = m x"
  by (simp add: store64_def put_bytes_eq)

lemma load64_cong:
  assumes "\<And>i. i < 8 \<Longrightarrow> m (a + of_nat i) = m' (a + of_nat i)"
  shows "load64 m a = load64 m' a"
  using bytes_at_cong [of 8 m a m'] assms by (simp add: load64_def)

section \<open>Control flow\<close>

text \<open>
  \<open>deref p\<close>: reading through a null pointer faults, and a fault in the kernel ends in
  \<^verbatim>\<open>panic("kerneltrap")\<close>.  \<open>foreach xs f\<close>: a \<^verbatim>\<open>for\<close> loop whose body may return from the
  enclosing function with a value.
\<close>

definition deref :: "'b option \<Rightarrow> 's \<Rightarrow> ('b, 's) outcome" where
  "deref p s = (case p of None \<Rightarrow> Panic ''kerneltrap'' | Some x \<Rightarrow> Ret x s)"

lemma deref_simps [simp]: "deref (Some x) s = Ret x s" "deref None s = Panic ''kerneltrap''"
  by (simp_all add: deref_def)

primrec foreach :: "'i list \<Rightarrow> ('i \<Rightarrow> 's \<Rightarrow> ('b option, 's) outcome) \<Rightarrow> 's \<Rightarrow> ('b option, 's) outcome" where
  "foreach [] f s = Ret None s"
| "foreach (x # xs) f s =
     bnd (f x s) (\<lambda>r s. case r of Some b \<Rightarrow> Ret (Some b) s | None \<Rightarrow> foreach xs f s)"

lemma foreach_append:
  "foreach (xs @ ys) f s =
     bnd (foreach xs f s) (\<lambda>r s. case r of Some b \<Rightarrow> Ret (Some b) s | None \<Rightarrow> foreach ys f s)"
  by (induction xs arbitrary: s) (auto simp: bnd_assoc split: option.splits intro: bnd_cong)

lemma foreach_fold:
  assumes "\<forall>x\<in>set xs. \<forall>s. P s \<longrightarrow> f x s = Ret None (g x s) \<and> P (g x s)" and "P s"
  shows "foreach xs f s = Ret None (fold g xs s) \<and> P (fold g xs s)"
  using assms by (induction xs arbitrary: s) simp_all

text \<open>The loop stops at the first element whose body returns.\<close>

lemma foreach_stop:
  assumes "\<forall>x\<in>set xs. \<forall>s. P s \<longrightarrow> f x s = Ret None (g x s) \<and> P (g x s)" and "P s"
  shows "foreach (xs @ y # ys) f s = bnd (f y (fold g xs s))
    (\<lambda>r s. case r of Some b \<Rightarrow> Ret (Some b) s | None \<Rightarrow> foreach ys f s)"
  using foreach_fold [of xs P f g, OF assms] by (simp add: foreach_append)

text \<open>A search of a table that leaves the entries it passes over as they are.\<close>

lemma foreach_find:
  assumes "\<forall>x\<in>set xs. f x s = (if P x then Ret (Some (b x)) (g x) else Ret None s)"
  shows "foreach xs f s = (case find P xs of None \<Rightarrow> Ret None s | Some x \<Rightarrow> Ret (Some (b x)) (g x))"
  using assms by (induction xs) auto

section \<open>C integers and byte arrays\<close>

text \<open>The value of a C \<^verbatim>\<open>int\<close> after wrap-around to 32 bits.\<close>

definition i32 :: "int \<Rightarrow> int" where
  "i32 x = signed_take_bit 31 x"

lemma i32_id: "- (2 ^ 31) \<le> x \<Longrightarrow> x < 2 ^ 31 \<Longrightarrow> i32 x = x"
  by (simp add: i32_def signed_take_bit_int_eq_self)

text \<open>Reading and writing at an offset of an array of bytes.\<close>

definition sub_bytes :: "nat \<Rightarrow> nat \<Rightarrow> byte list \<Rightarrow> byte list" where
  "sub_bytes off n bs = take n (drop off bs)"

definition put_at :: "nat \<Rightarrow> byte list \<Rightarrow> byte list \<Rightarrow> byte list" where
  "put_at off new bs = take off bs @ new @ drop (off + length new) bs"

lemma length_put_at [simp]: "off + length new \<le> length bs \<Longrightarrow> length (put_at off new bs) = length bs"
  by (simp add: put_at_def)

lemma length_sub_bytes [simp]: "off + n \<le> length bs \<Longrightarrow> length (sub_bytes off n bs) = n"
  by (simp add: sub_bytes_def)

lemma sub_put_same [simp]:
  "off + length new \<le> length bs \<Longrightarrow> n = length new \<Longrightarrow> sub_bytes off n (put_at off new bs) = new"
  by (simp add: sub_bytes_def put_at_def)

lemma sub_put_other:
  assumes "off + length new \<le> length bs" and "i + n \<le> off \<or> off + length new \<le> i" and "i + n \<le> length bs"
  shows "sub_bytes i n (put_at off new bs) = sub_bytes i n bs"
proof (rule nth_equalityI)
  show "length (sub_bytes i n (put_at off new bs)) = length (sub_bytes i n bs)" using assms by simp
  fix k assume "k < length (sub_bytes i n (put_at off new bs))"
  then have "k < n" using assms by simp
  then show "sub_bytes i n (put_at off new bs) ! k = sub_bytes i n bs ! k"
    using assms by (auto simp: sub_bytes_def put_at_def nth_append)
qed

lemma put_sub_same: "off + n \<le> length bs \<Longrightarrow> put_at off (sub_bytes off n bs) bs = bs"
  by (simp add: put_at_def sub_bytes_def) (metis append_take_drop_id drop_drop add.commute)

definition get32 :: "nat \<Rightarrow> byte list \<Rightarrow> uint32" where
  "get32 off bs = dec (sub_bytes off 4 bs)"

definition put32 :: "nat \<Rightarrow> uint32 \<Rightarrow> byte list \<Rightarrow> byte list" where
  "put32 off v bs = put_at off (enc 4 v) bs"

lemma length_put32 [simp]: "off + 4 \<le> length bs \<Longrightarrow> length (put32 off v bs) = length bs"
  by (simp add: put32_def)

lemma get_put32 [simp]: "off + 4 \<le> length bs \<Longrightarrow> get32 off (put32 off v bs) = v"
  by (simp add: get32_def put32_def dec_enc_full)

lemma get_put32_other:
  "off + 4 \<le> length bs \<Longrightarrow> i + 4 \<le> length bs \<Longrightarrow> i + 4 \<le> off \<or> off + 4 \<le> i \<Longrightarrow>
   get32 i (put32 off v bs) = get32 i bs"
  by (simp add: get32_def put32_def sub_put_other)

text \<open>Small unsigned integers are the same as signed ones.\<close>

lemma sint_small: "unat (n :: uint32) < 2 ^ 31 \<Longrightarrow> sint n = int (unat n)"
proof -
  assume "unat n < 2 ^ 31"
  then have "uint n < 2 ^ 31" by transfer auto
  then have "signed_take_bit 31 (uint n) = uint n" using order_trans [OF _ uint_ge_0 [of n], of "- (2 ^ 31)"] by (intro signed_take_bit_int_eq_self) auto
  then show ?thesis by (simp add: sint_uint)
qed

end
