(* ===== verification/Cstring.thy ===== *)
theory Cstring
  imports Prelude
begin

text \<open>
  The byte and string routines of \<^verbatim>\<open>kernel/string.c\<close> over byte-addressed memory.  Each
  loop is a recursion on the number of iterations left; lengths are natural numbers (the
  C parameters are \<^verbatim>\<open>uint\<close>), addresses are 64-bit words and wrap as in C.  The lemmas say
  what memory holds afterwards, byte by byte, and that nothing outside the destination
  changes.
\<close>

section \<open>Definitions\<close>

text \<open>\<^verbatim>\<open>memset\<close>: after \<open>n\<close> iterations of \<^verbatim>\<open>cdst[i] = c\<close>.\<close>

primrec memset :: "memory \<Rightarrow> uint64 \<Rightarrow> byte \<Rightarrow> nat \<Rightarrow> memory" where
  "memset m dst c 0 = m"
| "memset m dst c (Suc i) = (memset m dst c i)(dst + of_nat i := c)"

primrec memcmp :: "memory \<Rightarrow> uint64 \<Rightarrow> uint64 \<Rightarrow> nat \<Rightarrow> int" where
  "memcmp m s1 s2 0 = 0"
| "memcmp m s1 s2 (Suc n) =
     (if m s1 \<noteq> m s2 then uint (m s1) - uint (m s2) else memcmp m (s1 + 1) (s2 + 1) n)"

text \<open>The two loops of \<^verbatim>\<open>memmove\<close>: upwards, and downwards from the ends.\<close>

primrec copy_fwd :: "memory \<Rightarrow> uint64 \<Rightarrow> uint64 \<Rightarrow> nat \<Rightarrow> memory" where
  "copy_fwd m d s 0 = m"
| "copy_fwd m d s (Suc n) = copy_fwd (m(d := m s)) (d + 1) (s + 1) n"

primrec copy_bwd :: "memory \<Rightarrow> uint64 \<Rightarrow> uint64 \<Rightarrow> nat \<Rightarrow> memory" where
  "copy_bwd m d s 0 = m"
| "copy_bwd m d s (Suc n) = copy_bwd (m(d - 1 := m (s - 1))) (d - 1) (s - 1) n"

definition memmove :: "memory \<Rightarrow> uint64 \<Rightarrow> uint64 \<Rightarrow> nat \<Rightarrow> memory" where
  "memmove m dst src n =
     (if src < dst \<and> src + of_nat n > dst
      then copy_bwd m (dst + of_nat n) (src + of_nat n) n
      else copy_fwd m dst src n)"

definition memcpy :: "memory \<Rightarrow> uint64 \<Rightarrow> uint64 \<Rightarrow> nat \<Rightarrow> memory" where
  "memcpy m dst src n = memmove m dst src n"

text \<open>\<^verbatim>\<open>strncmp\<close>: the loop stops at the count, at the end of \<open>p\<close>, or at a difference.\<close>

primrec strncmp :: "memory \<Rightarrow> uint64 \<Rightarrow> uint64 \<Rightarrow> nat \<Rightarrow> int" where
  "strncmp m p q 0 = 0"
| "strncmp m p q (Suc n) =
     (if m p \<noteq> 0 \<and> m p = m q then strncmp m (p + 1) (q + 1) n
      else uint (m p) - uint (m q))"

text \<open>
  \<^verbatim>\<open>strncpy\<close>: copy up to and including the terminator, then pad with zeros.  A count
  \<open>\<le> 0\<close> copies nothing, so the signed C count is truncated to a natural number.
\<close>

primrec strncpy_loop :: "memory \<Rightarrow> uint64 \<Rightarrow> uint64 \<Rightarrow> nat \<Rightarrow> memory" where
  "strncpy_loop m s t 0 = m"
| "strncpy_loop m s t (Suc n) =
     (if m t \<noteq> 0 then strncpy_loop (m(s := m t)) (s + 1) (t + 1) n
      else memset (m(s := m t)) (s + 1) 0 n)"

definition strncpy :: "memory \<Rightarrow> uint64 \<Rightarrow> uint64 \<Rightarrow> int \<Rightarrow> memory" where
  "strncpy m s t n = strncpy_loop m s t (nat n)"

text \<open>
  \<^verbatim>\<open>safestrcpy\<close>: the argument \<open>n\<close> of the loop is the value of \<^verbatim>\<open>n\<close> after \<^verbatim>\<open>--n\<close>; when it
  reaches 0, or after the terminator was copied (and \<open>s\<close> advanced past it), a zero is
  stored at \<open>s\<close>.
\<close>

primrec safestrcpy_loop :: "memory \<Rightarrow> uint64 \<Rightarrow> uint64 \<Rightarrow> nat \<Rightarrow> memory" where
  "safestrcpy_loop m s t 0 = m(s := 0)"
| "safestrcpy_loop m s t (Suc n) =
     (if m t \<noteq> 0 then safestrcpy_loop (m(s := m t)) (s + 1) (t + 1) n
      else (m(s := m t))(s + 1 := 0))"

definition safestrcpy :: "memory \<Rightarrow> uint64 \<Rightarrow> uint64 \<Rightarrow> int \<Rightarrow> memory" where
  "safestrcpy m s t n = (if n \<le> 0 then m else safestrcpy_loop m s t (nat (n - 1)))"

text \<open>\<^verbatim>\<open>strlen\<close> runs until it meets a zero byte; \<open>None\<close> is a run that never ends.\<close>

partial_function (option) strlen_from :: "memory \<Rightarrow> uint64 \<Rightarrow> nat \<Rightarrow> nat option" where
  "strlen_from m s n = (if m (s + of_nat n) = 0 then Some n else strlen_from m s (Suc n))"

definition strlen :: "memory \<Rightarrow> uint64 \<Rightarrow> nat option" where
  "strlen m s = strlen_from m s 0"

section \<open>Library lemmas\<close>

lemma memset_eq:
  assumes "n \<le> 2 ^ 64"
  shows "memset m d c n = (\<lambda>a. if unat (a - d) < n then c else m a)"
  using assms
proof (induction n)
  case (Suc n)
  then show ?case by (auto simp: fun_eq_iff range_Suc)
qed simp

lemma memset_4096: "memset m d c 4096 = (\<lambda>a. if unat (a - d) < 4096 then c else m a)"
  by (rule memset_eq) simp

lemma copy_fwd_eq:
  assumes "n \<le> 2 ^ 64" and "d = s \<or> n \<le> unat (d - s)"
  shows "copy_fwd m d s n = (\<lambda>a. if unat (a - d) < n then m (s + (a - d)) else m a)"
  using assms
proof (induction n arbitrary: m d s)
  case (Suc n)
  have "copy_fwd m d s (Suc n)
      = (\<lambda>a. if unat (a - (d + 1)) < n then (m(d := m s)) (s + 1 + (a - (d + 1)))
             else (m(d := m s)) a)"
    using Suc.prems by (simp only: copy_fwd.simps, intro Suc.IH) auto
  also have "\<dots> = (\<lambda>a. if unat (a - d) < Suc n then m (s + (a - d)) else m a)"
  proof
    fix a
    consider "a = d" | "a \<noteq> d" by blast
    then show "(if unat (a - (d + 1)) < n then (m(d := m s)) (s + 1 + (a - (d + 1)))
             else (m(d := m s)) a) = (if unat (a - d) < Suc n then m (s + (a - d)) else m a)"
    proof cases
      case 1
      have "unat (-1 :: uint64) = 2 ^ 64 - 1"
        by (simp add: unsigned_minus_1_eq_mask mask_eq_exp_minus_1)
      with 1 Suc.prems show ?thesis by simp
    next
      case 2
      then have nz: "unat (a - d) \<noteq> 0" by (simp add: unat_eq_0)
      have m1: "unat (a - (d + 1)) = unat (a - d) - 1"
        using 2 by (rule range_step)
      have "s + (a - d) \<noteq> d" if "unat (a - d) < Suc n"
      proof
        assume "s + (a - d) = d"
        then have "a - d = d - s" by (simp add: algebra_simps)
        with Suc.prems(2) that 2 show False by auto
      qed
      with 2 nz m1 show ?thesis by (auto simp: algebra_simps)
    qed
  qed
  finally show ?case .
qed simp

lemma copy_bwd_eq:
  assumes "n \<le> 2 ^ 64" and "d = s \<or> n \<le> unat (s - d)"
  shows "copy_bwd m (d + of_nat n) (s + of_nat n) n
    = (\<lambda>a. if unat (a - d) < n then m (s + (a - d)) else m a)"
  using assms
proof (induction n arbitrary: m)
  case (Suc n)
  let ?m = "m(d + of_nat n := m (s + of_nat n))"
  have "copy_bwd m (d + of_nat (Suc n)) (s + of_nat (Suc n)) (Suc n)
      = copy_bwd ?m (d + of_nat n) (s + of_nat n) n"
    by (simp add: algebra_simps)
  also have "\<dots> = (\<lambda>a. if unat (a - d) < n then ?m (s + (a - d)) else ?m a)"
    using Suc by auto
  also have "\<dots> = (\<lambda>a. if unat (a - d) < Suc n then m (s + (a - d)) else m a)"
  proof
    fix a
    have n: "n < 2 ^ 64" using Suc.prems by simp
    have "s + (a - d) \<noteq> d + of_nat n" if "unat (a - d) < n"
    proof
      assume eq: "s + (a - d) = d + of_nat n"
      show False
      proof (cases "d = s")
        case True
        with eq n that show ?thesis by (simp add: unat_of_nat64)
      next
        case False
        from eq have sd: "s - d = of_nat n - (a - d)" by (simp add: algebra_simps)
        have "unat (of_nat n - (a - d)) = n - unat (a - d)"
          using that n by (subst unat_sub) (auto simp: word_le_nat_alt unat_of_nat64)
        then have "unat (s - d) = n - unat (a - d)" unfolding sd .
        with Suc.prems(2) False show ?thesis by linarith
      qed
    qed
    then show "(if unat (a - d) < n then ?m (s + (a - d)) else ?m a)
      = (if unat (a - d) < Suc n then m (s + (a - d)) else m a)"
      using n by (auto simp: range_Suc algebra_simps unat_of_nat64)
  qed
  finally show ?case .
qed simp

lemma unat_diff_less: "a < b \<Longrightarrow> unat (a - b :: uint64) = 2 ^ 64 - (unat b - unat a)"
  using unat_sub_if' [of a b] by (simp add: word_le_nat_alt word_less_nat_alt)

lemma memmove_overlap:
  fixes src dst :: uint64
  assumes "unat src + n \<le> 2 ^ 64" and "unat dst + n \<le> 2 ^ 64" and "n < 2 ^ 64"
  shows "src < dst \<and> src + of_nat n > dst \<Longrightarrow> n \<le> unat (src - dst)"
    and "\<not> (src < dst \<and> src + of_nat n > dst) \<Longrightarrow>
      dst = src \<or> n \<le> unat (dst - src) \<or> unat src + n = 2 ^ 64"
proof -
  show "n \<le> unat (src - dst)" if "src < dst \<and> src + of_nat n > dst"
    using that assms unat_diff_less [of src dst] by (auto simp: word_less_nat_alt)
  have add: "unat (src + of_nat n) = unat src + n" if "unat src + n < 2 ^ 64"
    using that by (simp add: unat_word_ariths unat_of_nat64)
  show "dst = src \<or> n \<le> unat (dst - src) \<or> unat src + n = 2 ^ 64"
    if "\<not> (src < dst \<and> src + of_nat n > dst)"
  proof (cases "dst < src")
    case True
    then show ?thesis using assms unat_diff_less [of dst src] by (auto simp: word_less_nat_alt)
  next
    case False
    with that assms add show ?thesis
      by (auto simp: word_less_nat_alt unat_sub_if' not_less word_unat_eq_iff)
  qed
qed

lemma memmove_eq:
  assumes "unat src + n < 2 ^ 64" and "unat dst + n \<le> 2 ^ 64"
  shows "memmove m dst src n = (\<lambda>a. if unat (a - dst) < n then m (src + (a - dst)) else m a)"
  using memmove_overlap [of src n dst] assms
  by (auto simp: memmove_def copy_fwd_eq copy_bwd_eq)

lemma memmove_frame:
  assumes "unat src + n < 2 ^ 64" and "unat dst + n \<le> 2 ^ 64" and "n \<le> unat (a - dst)"
  shows "memmove m dst src n a = m a"
  using assms by (simp add: memmove_eq)

lemma strlen_from_step:
  assumes "\<And>i. n \<le> i \<Longrightarrow> i < n + k \<Longrightarrow> m (s + of_nat i) \<noteq> 0" and "m (s + of_nat (n + k)) = 0"
  shows "strlen_from m s n = Some (n + k)"
  using assms
proof (induction k arbitrary: n)
  case 0
  then show ?case by (simp add: strlen_from.simps)
next
  case (Suc k)
  have "m (s + of_nat n) \<noteq> 0" using Suc.prems(1) [of n] by simp
  moreover have "strlen_from m s (Suc n) = Some (Suc n + k)"
    using Suc.prems by (intro Suc.IH) auto
  ultimately show ?case by (subst strlen_from.simps) simp
qed

lemma strlen_from_sound:
  assumes "strlen_from m s n = Some r"
  shows "n \<le> r \<and> m (s + of_nat r) = 0 \<and> (\<forall>i. n \<le> i \<and> i < r \<longrightarrow> m (s + of_nat i) \<noteq> 0)"
proof (rule strlen_from.raw_induct [where P = "\<lambda>m s n r. n \<le> r \<and> m (s + of_nat r) = 0 \<and>
    (\<forall>i. n \<le> i \<and> i < r \<longrightarrow> m (s + of_nat i) \<noteq> 0)", OF _ assms])
  fix f :: "memory \<Rightarrow> uint64 \<Rightarrow> nat \<Rightarrow> nat option" and m s n r
  assume IH: "\<And>m s n r. f m s n = Some r \<Longrightarrow> n \<le> r \<and> m (s + of_nat r) = 0 \<and>
      (\<forall>i. n \<le> i \<and> i < r \<longrightarrow> m (s + of_nat i) \<noteq> 0)"
    and eq: "(if m (s + of_nat n) = 0 then Some n else f m s (Suc n)) = Some r"
  show "n \<le> r \<and> m (s + of_nat r) = 0 \<and> (\<forall>i. n \<le> i \<and> i < r \<longrightarrow> m (s + of_nat i) \<noteq> 0)"
  proof (cases "m (s + of_nat n) = 0")
    case True
    with eq show ?thesis by auto
  next
    case False
    with eq have H: "f m s (Suc n) = Some r" by simp
    have "m (s + of_nat i) \<noteq> 0" if "n \<le> i" and "i < r" for i
      using IH [OF H] False that by (cases "i = n") auto
    with IH [OF H] show ?thesis by auto
  qed
qed

lemma safestrcpy_loop_frame:
  assumes "Suc n < 2 ^ 64" and "Suc n \<le> unat (a - s)"
  shows "safestrcpy_loop m s t n a = m a"
  using assms
proof (induction n arbitrary: m s t)
  case (Suc n)
  have "a \<noteq> s" "a \<noteq> s + 1" using Suc.prems by auto
  moreover have "unat (a - (s + 1)) = unat (a - s) - 1"
    using \<open>a \<noteq> s\<close> by (rule range_step)
  ultimately show ?case using Suc by auto
qed auto

lemma safestrcpy_loop_nul:
  assumes "n < 2 ^ 63"
  shows "\<exists>i\<le>n. safestrcpy_loop m s t n (s + of_nat i) = 0"
  using assms
proof (induction n arbitrary: m s t)
  case (Suc n)
  then obtain i where "i \<le> n"
      and "safestrcpy_loop (m(s := m t)) (s + 1) (t + 1) n (s + 1 + of_nat i) = 0"
    by (meson Suc_lessD)
  moreover have "s + 1 + of_nat i = s + of_nat (Suc i)" by (simp add: algebra_simps)
  ultimately have *: "i \<le> n" "safestrcpy_loop (m(s := m t)) (s + 1) (t + 1) n (s + of_nat (Suc i)) = 0"
    by simp_all
  show ?case
  proof (cases "m t = 0")
    case True
    then show ?thesis by (intro exI [of _ 0]) simp
  next
    case False
    with * show ?thesis by (intro exI [of _ "Suc i"]) simp
  qed
qed simp

section \<open>Properties\<close>

text \<open>
  C13: \<^verbatim>\<open>memmove\<close> copies correctly whether or not the regions overlap: as long as neither
  region runs past the end of the address space, every destination byte ends up with what
  the corresponding source byte held before the call, and no other byte changes.
\<close>

theorem memmove_correct:
  assumes "unat src + n < 2 ^ 64" and "unat dst + n \<le> 2 ^ 64"
  shows "(\<forall>i<n. memmove m dst src n (dst + of_nat i) = m (src + of_nat i)) \<and>
    (\<forall>a. n \<le> unat (a - dst) \<longrightarrow> memmove m dst src n a = m a)"
  using assms by (simp add: memmove_eq unat_of_nat64)

theorem memmove_correct_witness:
  "memmove (\<lambda>a. ucast a) 102 100 4 103 = 101 \<and> memmove (\<lambda>a. ucast a) 102 100 4 106 = 106"
proof -
  have "unat (100 :: uint64) + 4 < 2 ^ 64" and "unat (102 :: uint64) + 4 \<le> 2 ^ 64" by simp_all
  note c = memmove_correct [OF this, of "\<lambda>a. ucast a"]
  from conjunct1 [OF c, rule_format, of 1] conjunct2 [OF c, rule_format, of 106]
  show ?thesis by simp
qed

text \<open>
  C14: \<^verbatim>\<open>safestrcpy\<close> with a positive count always leaves a terminated string inside the
  destination buffer and never writes outside its \<open>n\<close> bytes.
\<close>

theorem safestrcpy_terminated:
  assumes "0 < n" and "n < 2 ^ 31"
  shows "(\<exists>i < nat n. safestrcpy m s t n (s + of_nat i) = 0) \<and>
    (\<forall>a. nat n \<le> unat (a - s) \<longrightarrow> safestrcpy m s t n a = m a)"
proof
  have b: "nat (n - 1) < 2 ^ 63" "Suc (nat (n - 1)) < 2 ^ 64" "Suc (nat (n - 1)) = nat n"
    using assms by auto
  from safestrcpy_loop_nul [OF b(1), of m s t]
  show "\<exists>i < nat n. safestrcpy m s t n (s + of_nat i) = 0"
    using assms unfolding b(3) [symmetric] by (auto simp: safestrcpy_def less_Suc_eq_le)
  show "\<forall>a. nat n \<le> unat (a - s) \<longrightarrow> safestrcpy m s t n a = m a"
    using assms safestrcpy_loop_frame [OF b(2)] b(3) by (simp add: safestrcpy_def)
qed

theorem safestrcpy_terminated_witness:
  "\<exists>i < 3. safestrcpy (\<lambda>_. 7) 0 50 3 (0 + of_nat i) = 0"
  using safestrcpy_terminated [of 3 "\<lambda>_. 7" 0 50] by simp

end
