(* ===== verification/Riscv.thy ===== *)
theory Riscv
  imports Cstring
begin

text \<open>
  The machine as \<^verbatim>\<open>kernel/riscv.h\<close> and \<^verbatim>\<open>kernel/memlayout.h\<close> present it: the control
  registers of each hart and their accessors, interrupt enabling, the Sv39 page-table
  arithmetic (page rounding, page-table indices, page-table entries) and the memory layout.
  The lemmas relate the bit-level macros to arithmetic on natural numbers.
\<close>

section \<open>Control registers\<close>

text \<open>
  One record per hart; \<open>hart\<close> names the hart whose code is running.  The accessors are the
  one-instruction inline functions of \<^verbatim>\<open>riscv.h\<close>.
\<close>

record csr =
  mhartid_reg :: uint64
  mstatus_reg :: uint64
  mepc_reg :: uint64
  sstatus_reg :: uint64
  sip_reg :: uint64
  sie_reg :: uint64
  mie_reg :: uint64
  sepc_reg :: uint64
  medeleg_reg :: uint64
  mideleg_reg :: uint64
  stvec_reg :: uint64
  mtvec_reg :: uint64
  satp_reg :: uint64
  sscratch_reg :: uint64
  mscratch_reg :: uint64
  scause_reg :: uint64
  stval_reg :: uint64
  mcounteren_reg :: uint64
  time_reg :: uint64
  sp_reg :: uint64
  tp_reg :: uint64
  ra_reg :: uint64

record machine =
  hart :: nat
  csrs :: "nat \<Rightarrow> csr"

definition upd_csr :: "(csr \<Rightarrow> csr) \<Rightarrow> 'a machine_scheme \<Rightarrow> 'a machine_scheme" where
  "upd_csr f s = s\<lparr>csrs := (csrs s)(hart s := f (csrs s (hart s)))\<rparr>"

definition r_mhartid :: "'a machine_scheme \<Rightarrow> uint64" where
  "r_mhartid s = mhartid_reg (csrs s (hart s))"

definition r_mstatus :: "'a machine_scheme \<Rightarrow> uint64" where
  "r_mstatus s = mstatus_reg (csrs s (hart s))"

definition r_sstatus :: "'a machine_scheme \<Rightarrow> uint64" where
  "r_sstatus s = sstatus_reg (csrs s (hart s))"

definition r_sip :: "'a machine_scheme \<Rightarrow> uint64" where
  "r_sip s = sip_reg (csrs s (hart s))"

definition r_sie :: "'a machine_scheme \<Rightarrow> uint64" where
  "r_sie s = sie_reg (csrs s (hart s))"

definition r_mie :: "'a machine_scheme \<Rightarrow> uint64" where
  "r_mie s = mie_reg (csrs s (hart s))"

definition r_sepc :: "'a machine_scheme \<Rightarrow> uint64" where
  "r_sepc s = sepc_reg (csrs s (hart s))"

definition r_medeleg :: "'a machine_scheme \<Rightarrow> uint64" where
  "r_medeleg s = medeleg_reg (csrs s (hart s))"

definition r_mideleg :: "'a machine_scheme \<Rightarrow> uint64" where
  "r_mideleg s = mideleg_reg (csrs s (hart s))"

definition r_stvec :: "'a machine_scheme \<Rightarrow> uint64" where
  "r_stvec s = stvec_reg (csrs s (hart s))"

definition r_satp :: "'a machine_scheme \<Rightarrow> uint64" where
  "r_satp s = satp_reg (csrs s (hart s))"

definition r_scause :: "'a machine_scheme \<Rightarrow> uint64" where
  "r_scause s = scause_reg (csrs s (hart s))"

definition r_stval :: "'a machine_scheme \<Rightarrow> uint64" where
  "r_stval s = stval_reg (csrs s (hart s))"

definition r_mcounteren :: "'a machine_scheme \<Rightarrow> uint64" where
  "r_mcounteren s = mcounteren_reg (csrs s (hart s))"

definition r_time :: "'a machine_scheme \<Rightarrow> uint64" where
  "r_time s = time_reg (csrs s (hart s))"

definition r_sp :: "'a machine_scheme \<Rightarrow> uint64" where
  "r_sp s = sp_reg (csrs s (hart s))"

definition r_tp :: "'a machine_scheme \<Rightarrow> uint64" where
  "r_tp s = tp_reg (csrs s (hart s))"

definition r_ra :: "'a machine_scheme \<Rightarrow> uint64" where
  "r_ra s = ra_reg (csrs s (hart s))"

definition w_mstatus :: "uint64 \<Rightarrow> 'a machine_scheme \<Rightarrow> 'a machine_scheme" where
  "w_mstatus x = upd_csr (mstatus_reg_update (\<lambda>_. x))"

definition w_mepc :: "uint64 \<Rightarrow> 'a machine_scheme \<Rightarrow> 'a machine_scheme" where
  "w_mepc x = upd_csr (mepc_reg_update (\<lambda>_. x))"

definition w_sstatus :: "uint64 \<Rightarrow> 'a machine_scheme \<Rightarrow> 'a machine_scheme" where
  "w_sstatus x = upd_csr (sstatus_reg_update (\<lambda>_. x))"

definition w_sip :: "uint64 \<Rightarrow> 'a machine_scheme \<Rightarrow> 'a machine_scheme" where
  "w_sip x = upd_csr (sip_reg_update (\<lambda>_. x))"

definition w_sie :: "uint64 \<Rightarrow> 'a machine_scheme \<Rightarrow> 'a machine_scheme" where
  "w_sie x = upd_csr (sie_reg_update (\<lambda>_. x))"

definition w_mie :: "uint64 \<Rightarrow> 'a machine_scheme \<Rightarrow> 'a machine_scheme" where
  "w_mie x = upd_csr (mie_reg_update (\<lambda>_. x))"

definition w_sepc :: "uint64 \<Rightarrow> 'a machine_scheme \<Rightarrow> 'a machine_scheme" where
  "w_sepc x = upd_csr (sepc_reg_update (\<lambda>_. x))"

definition w_medeleg :: "uint64 \<Rightarrow> 'a machine_scheme \<Rightarrow> 'a machine_scheme" where
  "w_medeleg x = upd_csr (medeleg_reg_update (\<lambda>_. x))"

definition w_mideleg :: "uint64 \<Rightarrow> 'a machine_scheme \<Rightarrow> 'a machine_scheme" where
  "w_mideleg x = upd_csr (mideleg_reg_update (\<lambda>_. x))"

definition w_stvec :: "uint64 \<Rightarrow> 'a machine_scheme \<Rightarrow> 'a machine_scheme" where
  "w_stvec x = upd_csr (stvec_reg_update (\<lambda>_. x))"

definition w_mtvec :: "uint64 \<Rightarrow> 'a machine_scheme \<Rightarrow> 'a machine_scheme" where
  "w_mtvec x = upd_csr (mtvec_reg_update (\<lambda>_. x))"

definition w_satp :: "uint64 \<Rightarrow> 'a machine_scheme \<Rightarrow> 'a machine_scheme" where
  "w_satp x = upd_csr (satp_reg_update (\<lambda>_. x))"

definition w_sscratch :: "uint64 \<Rightarrow> 'a machine_scheme \<Rightarrow> 'a machine_scheme" where
  "w_sscratch x = upd_csr (sscratch_reg_update (\<lambda>_. x))"

definition w_mscratch :: "uint64 \<Rightarrow> 'a machine_scheme \<Rightarrow> 'a machine_scheme" where
  "w_mscratch x = upd_csr (mscratch_reg_update (\<lambda>_. x))"

definition w_mcounteren :: "uint64 \<Rightarrow> 'a machine_scheme \<Rightarrow> 'a machine_scheme" where
  "w_mcounteren x = upd_csr (mcounteren_reg_update (\<lambda>_. x))"

definition w_tp :: "uint64 \<Rightarrow> 'a machine_scheme \<Rightarrow> 'a machine_scheme" where
  "w_tp x = upd_csr (tp_reg_update (\<lambda>_. x))"

lemmas csr_defs = upd_csr_def r_mhartid_def r_mstatus_def r_sstatus_def r_sip_def r_sie_def r_mie_def r_sepc_def r_medeleg_def r_mideleg_def
  r_stvec_def r_satp_def r_scause_def r_stval_def r_mcounteren_def r_time_def r_sp_def r_tp_def r_ra_def
  w_mstatus_def w_mepc_def w_sstatus_def w_sip_def w_sie_def w_mie_def w_sepc_def w_medeleg_def
  w_mideleg_def w_stvec_def w_mtvec_def w_satp_def w_sscratch_def w_mscratch_def w_mcounteren_def w_tp_def

text \<open>Status bits.\<close>

definition MSTATUS_MPP_MASK :: uint64 where "MSTATUS_MPP_MASK = push_bit 11 3"
definition MSTATUS_MPP_S :: uint64 where "MSTATUS_MPP_S = push_bit 11 1"
definition MSTATUS_MIE :: uint64 where "MSTATUS_MIE = push_bit 3 1"
definition SSTATUS_SPP :: uint64 where "SSTATUS_SPP = push_bit 8 1"
definition SSTATUS_SPIE :: uint64 where "SSTATUS_SPIE = push_bit 5 1"
definition SSTATUS_SIE :: uint64 where "SSTATUS_SIE = push_bit 1 1"
definition SIE_SEIE :: uint64 where "SIE_SEIE = push_bit 9 1"
definition SIE_STIE :: uint64 where "SIE_STIE = push_bit 5 1"
definition SIE_SSIE :: uint64 where "SIE_SSIE = push_bit 1 1"
definition MIE_MTIE :: uint64 where "MIE_MTIE = push_bit 7 1"

definition intr_on :: "'a machine_scheme \<Rightarrow> 'a machine_scheme" where
  "intr_on s = w_sstatus (r_sstatus s OR SSTATUS_SIE) s"

definition intr_off :: "'a machine_scheme \<Rightarrow> 'a machine_scheme" where
  "intr_off s = w_sstatus (r_sstatus s AND NOT SSTATUS_SIE) s"

definition intr_get :: "'a machine_scheme \<Rightarrow> bool" where
  "intr_get s \<longleftrightarrow> r_sstatus s AND SSTATUS_SIE \<noteq> 0"

text \<open>The model has no TLB, so flushing it changes nothing.\<close>

definition sfence_vma :: "'a machine_scheme \<Rightarrow> 'a machine_scheme" where
  "sfence_vma s = s"

lemma bit_and_pow: "(x :: uint64) AND push_bit n 1 \<noteq> 0 \<longleftrightarrow> bit x n"
  using and_exp_eq_0_iff_not_bit [of x n] by (simp add: push_bit_of_1)

lemma intr_get_iff: "intr_get s \<longleftrightarrow> bit (r_sstatus s) 1"
  by (simp only: intr_get_def SSTATUS_SIE_def bit_and_pow)

lemma intr_get_on [simp]: "intr_get (intr_on s)"
  by (simp add: intr_get_iff intr_on_def csr_defs SSTATUS_SIE_def bit_or_iff bit_push_bit_iff)

lemma intr_get_off [simp]: "\<not> intr_get (intr_off s)"
  by (simp add: intr_get_iff intr_off_def csr_defs SSTATUS_SIE_def bit_and_iff bit_not_iff
      bit_push_bit_iff)

lemma intr_on_off: "intr_get s \<Longrightarrow> intr_on (intr_off s) = s"
proof -
  assume "intr_get s"
  then have "bit (sstatus_reg (csrs s (hart s))) 1" by (simp add: intr_get_iff csr_defs)
  then have "(sstatus_reg (csrs s (hart s)) AND NOT SSTATUS_SIE) OR SSTATUS_SIE
      = sstatus_reg (csrs s (hart s))"
    by (intro bit_word_eqI) (auto simp: SSTATUS_SIE_def bit_simps)
  then show ?thesis by (simp add: intr_on_def intr_off_def csr_defs)
qed

lemma intr_off_idle: "\<not> intr_get s \<Longrightarrow> intr_off s = s"
proof -
  assume "\<not> intr_get s"
  then have "\<not> bit (sstatus_reg (csrs s (hart s))) 1" by (simp add: intr_get_iff csr_defs)
  then have "sstatus_reg (csrs s (hart s)) AND NOT SSTATUS_SIE = sstatus_reg (csrs s (hart s))"
    by (intro bit_word_eqI) (auto simp: SSTATUS_SIE_def bit_simps)
  then show ?thesis by (simp add: intr_off_def csr_defs)
qed

section \<open>Pages and page-table entries\<close>

definition PGSIZE :: uint64 where "PGSIZE = 4096"
definition PGSHIFT :: nat where "PGSHIFT = 12"

definition PGROUNDUP :: "uint64 \<Rightarrow> uint64" where
  "PGROUNDUP sz = (sz + PGSIZE - 1) AND NOT (PGSIZE - 1)"

definition PGROUNDDOWN :: "uint64 \<Rightarrow> uint64" where
  "PGROUNDDOWN a = a AND NOT (PGSIZE - 1)"

definition PTE_V :: uint64 where "PTE_V = push_bit 0 1"
definition PTE_R :: uint64 where "PTE_R = push_bit 1 1"
definition PTE_W :: uint64 where "PTE_W = push_bit 2 1"
definition PTE_X :: uint64 where "PTE_X = push_bit 3 1"
definition PTE_U :: uint64 where "PTE_U = push_bit 4 1"

definition PA2PTE :: "uint64 \<Rightarrow> uint64" where
  "PA2PTE pa = push_bit 10 (drop_bit 12 pa)"

definition PTE2PA :: "uint64 \<Rightarrow> uint64" where
  "PTE2PA pte = push_bit 12 (drop_bit 10 pte)"

definition PTE_FLAGS :: "uint64 \<Rightarrow> uint64" where
  "PTE_FLAGS pte = pte AND 0x3FF"

definition PXMASK :: uint64 where "PXMASK = 0x1FF"

definition PXSHIFT :: "nat \<Rightarrow> nat" where
  "PXSHIFT level = PGSHIFT + 9 * level"

definition PX :: "nat \<Rightarrow> uint64 \<Rightarrow> uint64" where
  "PX level va = drop_bit (PXSHIFT level) va AND PXMASK"

definition MAXVA :: uint64 where "MAXVA = push_bit (9 + 9 + 9 + 12 - 1) 1"

definition SATP_SV39 :: uint64 where "SATP_SV39 = push_bit 60 8"

definition MAKE_SATP :: "uint64 \<Rightarrow> uint64" where
  "MAKE_SATP pagetable = SATP_SV39 OR drop_bit 12 pagetable"

text \<open>The physical memory layout of \<^verbatim>\<open>memlayout.h\<close>.\<close>

definition UART0 :: uint64 where "UART0 = 0x10000000"
definition UART0_IRQ :: int where "UART0_IRQ = 10"
definition VIRTIO0 :: uint64 where "VIRTIO0 = 0x10001000"
definition VIRTIO0_IRQ :: int where "VIRTIO0_IRQ = 1"
definition CLINT :: uint64 where "CLINT = 0x2000000"
definition CLINT_MTIMECMP :: "uint64 \<Rightarrow> uint64" where
  "CLINT_MTIMECMP hartid = CLINT + 0x4000 + 8 * hartid"
definition CLINT_MTIME :: uint64 where "CLINT_MTIME = CLINT + 0xBFF8"
definition PLIC :: uint64 where "PLIC = 0x0c000000"
definition PLIC_SENABLE :: "uint64 \<Rightarrow> uint64" where
  "PLIC_SENABLE h = PLIC + 0x2080 + h * 0x100"
definition PLIC_SPRIORITY :: "uint64 \<Rightarrow> uint64" where
  "PLIC_SPRIORITY h = PLIC + 0x201000 + h * 0x2000"
definition PLIC_SCLAIM :: "uint64 \<Rightarrow> uint64" where
  "PLIC_SCLAIM h = PLIC + 0x201004 + h * 0x2000"
definition KERNBASE :: uint64 where "KERNBASE = 0x80000000"
definition PHYSTOP :: uint64 where "PHYSTOP = KERNBASE + 128 * 1024 * 1024"
definition TRAMPOLINE :: uint64 where "TRAMPOLINE = MAXVA - PGSIZE"
definition KSTACK :: "uint64 \<Rightarrow> uint64" where
  "KSTACK p = TRAMPOLINE - (p + 1) * 2 * PGSIZE"
definition TRAPFRAME :: uint64 where "TRAPFRAME = TRAMPOLINE - PGSIZE"

lemma MAXVA_num: "MAXVA = 0x4000000000"
  by (simp add: MAXVA_def push_bit_of_1)

lemma PHYSTOP_num: "PHYSTOP = 0x88000000"
  by (simp add: PHYSTOP_def KERNBASE_def)

lemma PTE_V_num: "PTE_V = 1" and PTE_R_num: "PTE_R = 2" and PTE_W_num: "PTE_W = 4"
  and PTE_X_num: "PTE_X = 8" and PTE_U_num: "PTE_U = 16"
  by (simp_all add: PTE_V_def PTE_R_def PTE_W_def PTE_X_def PTE_U_def push_bit_of_1)

lemmas layout_nums = MAXVA_num PHYSTOP_num PTE_V_num PTE_R_num PTE_W_num PTE_X_num PTE_U_num
  PGSIZE_def KERNBASE_def

subsection \<open>Page arithmetic\<close>

lemma mask12: "(4095 :: uint64) = mask 12"
  by (simp add: mask_eq_exp_minus_1)

lemma PGROUNDDOWN_eq: "PGROUNDDOWN a = push_bit 12 (drop_bit 12 a)"
proof -
  have "PGROUNDDOWN a = a AND NOT (mask 12)" by (simp add: PGROUNDDOWN_def PGSIZE_def mask12)
  also have "\<dots> = push_bit 12 (drop_bit 12 a)"
    by (rule bit_word_eqI) (auto simp: bit_simps)
  finally show ?thesis .
qed

lemma unat_PGROUNDDOWN: "unat (PGROUNDDOWN a) = unat a div 4096 * 4096"
proof -
  have d: "unat (drop_bit 12 a) = unat a div 4096"
    by (simp add: drop_bit_eq_div unat_div_distrib)
  have "unat a div 4096 * 4096 < 2 ^ 64"
    using unat_lt64 [of a] by (simp add: le_less_trans [OF div_times_less_eq_dividend])
  then show ?thesis
    by (simp add: PGROUNDDOWN_eq push_bit_eq_mult unat_word_ariths d mult.commute)
qed

lemma PGROUNDDOWN_aligned [simp]: "unat (PGROUNDDOWN a) mod 4096 = 0"
  by (simp add: unat_PGROUNDDOWN)

lemma PGROUNDUP_eq: "PGROUNDUP a = PGROUNDDOWN (a + 4095)"
  by (simp add: PGROUNDUP_def PGROUNDDOWN_def PGSIZE_def add.commute)

lemma unat_PGROUNDUP:
  assumes "unat a + 4095 < 2 ^ 64"
  shows "unat (PGROUNDUP a) = (unat a + 4095) div 4096 * 4096"
proof -
  have "unat (a + 4095) = unat a + 4095" using assms by (simp add: unat_word_ariths)
  then show ?thesis by (simp add: PGROUNDUP_eq unat_PGROUNDDOWN)
qed

lemma mod_PGSIZE: "a mod PGSIZE = 0 \<longleftrightarrow> unat a mod 4096 = 0"
  by (simp add: PGSIZE_def word_unat_eq_iff unat_mod_distrib)

lemma PX_less: "unat (PX l va) < 512"
proof -
  have "PX l va = take_bit 9 (drop_bit (PXSHIFT l) va)"
    by (simp add: PX_def PXMASK_def take_bit_eq_mask mask_eq_exp_minus_1)
  then have "unat (PX l va) = take_bit 9 (unat (drop_bit (PXSHIFT l) va))"
    by (simp add: unsigned_take_bit_eq)
  then show ?thesis using take_bit_nat_less_exp [of 9] by simp
qed

lemma PX_eq: "unat (PX l va) = unat va div 2 ^ (12 + 9 * l) mod 512"
proof -
  have "PX l va = take_bit 9 (drop_bit (PXSHIFT l) va)"
    by (simp add: PX_def PXMASK_def take_bit_eq_mask mask_eq_exp_minus_1)
  then have "unat (PX l va) = take_bit 9 (drop_bit (12 + 9 * l) (unat va))"
    by (simp add: unsigned_take_bit_eq unat_drop_bit_eq PXSHIFT_def PGSHIFT_def)
  then show ?thesis by (simp add: take_bit_eq_mod drop_bit_eq_div)
qed

text \<open>Below \<open>MAXVA\<close> the three indices and the page offset determine the address.\<close>

lemma same_page_PX:
  assumes "va < MAXVA" and "va' < MAXVA"
    and "PX 2 va = PX 2 va'" and "PX 1 va = PX 1 va'" and "PX 0 va = PX 0 va'"
  shows "unat va div 4096 = unat va' div 4096"
proof -
  have split: "n div 4096 = n div 2 ^ 30 mod 512 * 262144 + n div 2 ^ 21 mod 512 * 512 + n div 2 ^ 12 mod 512"
    if "n < 2 ^ 38" for n :: nat
  proof -
    let ?x = "n div 4096"
    have "n div 2 ^ 30 = ?x div 512 div 512" "n div 2 ^ 21 = ?x div 512"
      by (simp_all add: div_mult2_eq [symmetric])
    moreover have "?x div 512 div 512 < 512" using that by (simp add: div_mult2_eq [symmetric] div_less_iff_less_mult)
    ultimately have e: "n div 2 ^ 30 mod 512 = ?x div 512 div 512" "n div 2 ^ 21 mod 512 = ?x div 512 mod 512"
        "n div 2 ^ 12 mod 512 = ?x mod 512"
      by simp_all
    have "?x = ?x div 512 * 512 + ?x mod 512"
      and "?x div 512 = ?x div 512 div 512 * 512 + ?x div 512 mod 512"
      by (simp_all only: div_mult_mod_eq)
    then show ?thesis unfolding e by linarith
  qed
  have "unat va < 2 ^ 38" "unat va' < 2 ^ 38"
    using assms(1,2) by (simp_all add: MAXVA_num word_less_nat_alt)
  moreover have "unat va div 2 ^ 30 mod 512 = unat va' div 2 ^ 30 mod 512"
    using assms(3) PX_eq [of 2 va] PX_eq [of 2 va'] by simp
  moreover have "unat va div 2 ^ 21 mod 512 = unat va' div 2 ^ 21 mod 512"
    using assms(4) PX_eq [of 1 va] PX_eq [of 1 va'] by simp
  moreover have "unat va div 2 ^ 12 mod 512 = unat va' div 2 ^ 12 mod 512"
    using assms(5) PX_eq [of 0 va] PX_eq [of 0 va'] by simp
  ultimately show ?thesis using split by metis
qed

lemma PX_same_page:
  assumes "unat va div 4096 = unat va' div 4096"
  shows "PX l va = PX l va'"
proof -
  have "unat va div 2 ^ (12 + 9 * l) = unat va' div 2 ^ (12 + 9 * l)"
    using assms by (simp add: power_add div_mult2_eq)
  then show ?thesis by (simp add: word_unat_eq_iff PX_eq)
qed

subsection \<open>Entries\<close>

lemma small_bit: "(x :: uint64) < 2 ^ k \<Longrightarrow> k \<le> n \<Longrightarrow> \<not> bit x n"
proof
  assume x: "x < 2 ^ k" and k: "k \<le> n" and b: "bit x n"
  then have n: "n < 64" by (auto dest: bit_imp_le_length)
  with k have "unat x < 2 ^ k" using x by (simp add: word_less_nat_alt unat_pow64)
  then have "take_bit k (unat x) = unat x" by (simp add: take_bit_nat_eq_self)
  moreover from b n have "bit (unat x) n" by (simp add: bit_unsigned_iff)
  ultimately show False using k by (metis bit_take_bit_iff not_less)
qed

lemma aligned_bit:
  assumes "unat (pa :: uint64) mod 2 ^ k = 0" and "n < k"
  shows "\<not> bit pa n"
proof
  assume b: "bit pa n"
  then have "bit (unat pa) n" by (auto simp: bit_unsigned_iff dest: bit_imp_le_length)
  then have "bit (take_bit k (unat pa)) n" using assms(2) by (simp add: bit_take_bit_iff)
  then show False using assms(1) by (simp add: take_bit_eq_mod)
qed

lemma PTE2PA_PA2PTE:
  assumes "unat pa mod 4096 = 0" and "pa < 2 ^ 54" and "flags < 1024"
  shows "PTE2PA (PA2PTE pa OR flags) = pa"
proof -
  have lo: "\<not> bit pa n" if "n < 12" for n
    using aligned_bit [of pa 12 n] assms(1) that by simp
  have hi: "\<not> bit pa n" if "54 \<le> n" for n
    using small_bit [OF assms(2)] that by blast
  have fl: "\<not> bit flags n" if "10 \<le> n" for n
    using small_bit [of flags 10 n] assms(3) that by simp
  show ?thesis
  proof (rule bit_word_eqI)
    fix n :: nat
    assume n: "n < LENGTH(64)"
    show "bit (PTE2PA (PA2PTE pa OR flags)) n = bit pa n"
    proof (cases "12 \<le> n")
      case True
      then have *: "n - 12 + 10 + 2 = n" "10 \<le> n - 12 + 10" by simp_all
      from True n show ?thesis
        using hi [of n] fl [OF *(2)] by (auto simp: PTE2PA_def PA2PTE_def bit_simps)
    next
      case False
      then show ?thesis using lo [of n] by (auto simp: PTE2PA_def bit_simps)
    qed
  qed
qed

lemma PTE_FLAGS_PA2PTE: "flags < 1024 \<Longrightarrow> PTE_FLAGS (PA2PTE pa OR flags) = flags"
proof -
  assume "flags < 1024"
  then have fl: "n < 10" if "bit flags n" for n
    using small_bit [of flags 10 n] that by (cases "10 \<le> n") auto
  have m: "(0x3FF :: uint64) = mask 10" by (simp add: mask_eq_exp_minus_1)
  show ?thesis
    unfolding PTE_FLAGS_def m
    by (rule bit_word_eqI) (auto simp: PA2PTE_def bit_simps dest: fl)
qed

lemma PTE2PA_aligned: "unat (PTE2PA pte) mod 4096 = 0"
proof -
  have "take_bit 12 (PTE2PA pte) = 0"
    by (rule bit_word_eqI) (auto simp: PTE2PA_def bit_simps)
  then have "take_bit 12 (unat (PTE2PA pte)) = 0"
    by (simp only: unsigned_take_bit_eq [symmetric] unsigned_0)
  then show ?thesis by (simp add: take_bit_eq_mod)
qed

end
