(* ===== verification/Spinlock.thy ===== *)
theory Spinlock
  imports Riscv
begin

text \<open>
  \<^verbatim>\<open>kernel/spinlock.c\<close>: spin locks, and the matched disabling of interrupts by
  \<^verbatim>\<open>push_off\<close> and \<^verbatim>\<open>pop_off\<close>.  Every spin lock of the kernel has a name in \<open>lockid\<close>; the
  state of all of them, and of the \<^verbatim>\<open>cpus\<close> array, extends the machine.  A call of
  \<^verbatim>\<open>acquire\<close> on a lock another hart holds spins.
\<close>

section \<open>Locks and CPUs\<close>

text \<open>
  The kernel's spin locks: \<^verbatim>\<open>kmem.lock\<close>, \<^verbatim>\<open>pid_lock\<close>, the lock of \<^verbatim>\<open>proc[i]\<close>,
  \<^verbatim>\<open>bcache.lock\<close>, the lock inside the sleep lock of buffer or inode \<open>i\<close>, \<^verbatim>\<open>log.lock\<close>,
  \<^verbatim>\<open>icache.lock\<close>, \<^verbatim>\<open>ftable.lock\<close>, the lock of the pipe at a given address, \<^verbatim>\<open>tickslock\<close>,
  \<^verbatim>\<open>cons.lock\<close>, \<^verbatim>\<open>uart_tx_lock\<close>, \<^verbatim>\<open>pr.lock\<close> and \<^verbatim>\<open>disk.vdisk_lock\<close>.
\<close>

datatype lockid =
    Kmem_lock | Pid_lock | Proc_lock nat | Bcache_lock | Buf_lk nat | Log_lock | Icache_lock
  | Inode_lk nat | Ftable_lock | Pipe_lock uint64 | Ticks_lock | Cons_lock | Uart_lock | Pr_lock
  | Vdisk_lock

record spinlock =
  locked :: bool
  lname :: string
  lcpu :: "nat option"

record cpu =
  cproc :: "nat option"
  noff :: int
  intena :: bool

record kcore = machine +
  cpus :: "nat \<Rightarrow> cpu"
  lk :: "lockid \<Rightarrow> spinlock"

definition cpuid :: "'a machine_scheme \<Rightarrow> int" where
  "cpuid s = sint (ucast (r_tp s) :: uint32)"

definition mycpu :: "'a kcore_scheme \<Rightarrow> nat" where
  "mycpu s = nat (cpuid s)"

definition upd_cpu :: "(cpu \<Rightarrow> cpu) \<Rightarrow> 'a kcore_scheme \<Rightarrow> 'a kcore_scheme" where
  "upd_cpu f s = s\<lparr>cpus := (cpus s)(mycpu s := f (cpus s (mycpu s)))\<rparr>"

definition upd_lk :: "lockid \<Rightarrow> (spinlock \<Rightarrow> spinlock) \<Rightarrow> 'a kcore_scheme \<Rightarrow> 'a kcore_scheme" where
  "upd_lk l f s = s\<lparr>lk := (lk s)(l := f (lk s l))\<rparr>"

definition initlock :: "lockid \<Rightarrow> string \<Rightarrow> 'a kcore_scheme \<Rightarrow> 'a kcore_scheme" where
  "initlock l nm s = upd_lk l (\<lambda>k. k\<lparr>lname := nm, locked := False, lcpu := None\<rparr>) s"

definition holding :: "lockid \<Rightarrow> 'a kcore_scheme \<Rightarrow> bool" where
  "holding l s \<longleftrightarrow> locked (lk s l) \<and> lcpu (lk s l) = Some (mycpu s)"

definition push_off :: "'a kcore_scheme \<Rightarrow> 'a kcore_scheme" where
  "push_off s =
     (let old = intr_get s;
          s = intr_off s;
          s = (if noff (cpus s (mycpu s)) = 0 then upd_cpu (\<lambda>c. c\<lparr>intena := old\<rparr>) s else s)
      in upd_cpu (\<lambda>c. c\<lparr>noff := noff c + 1\<rparr>) s)"

definition pop_off :: "'a kcore_scheme \<Rightarrow> (unit, 'a kcore_scheme) outcome" where
  "pop_off s =
     (if intr_get s then Panic ''pop_off - interruptible''
      else if noff (cpus s (mycpu s)) < 1 then Panic ''pop_off''
      else let s = upd_cpu (\<lambda>c. c\<lparr>noff := noff c - 1\<rparr>) s
           in if noff (cpus s (mycpu s)) = 0 \<and> intena (cpus s (mycpu s))
              then Ret () (intr_on s) else Ret () s)"

text \<open>
  \<^verbatim>\<open>acquire\<close>: the loop on the atomic swap either takes the free lock or spins on a lock
  that is taken.
\<close>

definition acquire :: "lockid \<Rightarrow> 'a kcore_scheme \<Rightarrow> (unit, 'a kcore_scheme) outcome" where
  "acquire l s =
     (let s = push_off s
      in if holding l s then Panic ''acquire''
         else if locked (lk s l) then Spin s
         else let s = upd_lk l (\<lambda>k. k\<lparr>locked := True\<rparr>) s
              in Ret () (upd_lk l (\<lambda>k. k\<lparr>lcpu := Some (mycpu s)\<rparr>) s))"

definition release :: "lockid \<Rightarrow> 'a kcore_scheme \<Rightarrow> (unit, 'a kcore_scheme) outcome" where
  "release l s =
     (if \<not> holding l s then Panic ''release''
      else let s = upd_lk l (\<lambda>k. k\<lparr>lcpu := None\<rparr>) s;
               s = upd_lk l (\<lambda>k. k\<lparr>locked := False\<rparr>) s
           in pop_off s)"

section \<open>What a critical section leaves behind\<close>

text \<open>
  \<open>cpu_ok\<close>: the nesting depth of this CPU is sane and interrupts are off when it is
  positive.  \<open>lockable l s\<close>: this hart can take \<open>l\<close> at once.  \<open>acquired l s\<close> and
  \<open>touched s\<close> are the states after \<^verbatim>\<open>acquire\<close>, and after an \<^verbatim>\<open>acquire\<close>/\<^verbatim>\<open>release\<close> pair: the
  pair only records in \<^verbatim>\<open>intena\<close> whether interrupts were on.
\<close>

definition cpu_ok :: "'a kcore_scheme \<Rightarrow> bool" where
  "cpu_ok s \<longleftrightarrow> 0 \<le> noff (cpus s (mycpu s)) \<and> (0 < noff (cpus s (mycpu s)) \<longrightarrow> \<not> intr_get s)"

definition lock_free :: "lockid \<Rightarrow> 'a kcore_scheme \<Rightarrow> bool" where
  "lock_free l s \<longleftrightarrow> \<not> locked (lk s l) \<and> lcpu (lk s l) = None"

definition lockable :: "lockid \<Rightarrow> 'a kcore_scheme \<Rightarrow> bool" where
  "lockable l s \<longleftrightarrow> cpu_ok s \<and> lock_free l s"

definition touched :: "'a kcore_scheme \<Rightarrow> 'a kcore_scheme" where
  "touched s = (if noff (cpus s (mycpu s)) = 0 then upd_cpu (\<lambda>c. c\<lparr>intena := intr_get s\<rparr>) s else s)"

definition acquired :: "lockid \<Rightarrow> 'a kcore_scheme \<Rightarrow> 'a kcore_scheme" where
  "acquired l s = upd_lk l (\<lambda>k. k\<lparr>locked := True, lcpu := Some (mycpu s)\<rparr>) (push_off s)"

definition released :: "lockid \<Rightarrow> 'a kcore_scheme \<Rightarrow> 'a kcore_scheme" where
  "released l s =
     (let s = upd_lk l (\<lambda>k. k\<lparr>lcpu := None, locked := False\<rparr>) s;
          s = upd_cpu (\<lambda>c. c\<lparr>noff := noff c - 1\<rparr>) s
      in if noff (cpus s (mycpu s)) = 0 \<and> intena (cpus s (mycpu s)) then intr_on s else s)"

lemmas cpu_defs = mycpu_def cpuid_def upd_cpu_def upd_lk_def

text \<open>Register writes other than to \<^verbatim>\<open>tp\<close> do not change which CPU this is.\<close>

lemma tp_w_sstatus [simp]: "r_tp (w_sstatus x s) = r_tp s"
  by (simp add: csr_defs)

lemma mycpu_simps [simp]:
  "mycpu (intr_on s) = mycpu s" "mycpu (intr_off s) = mycpu s"
  "mycpu (upd_cpu f s) = mycpu s" "mycpu (upd_lk l g s) = mycpu s"
  "mycpu (push_off s) = mycpu s" "mycpu (touched s) = mycpu s"
  "mycpu (acquired l s) = mycpu s" "mycpu (released l s) = mycpu s"
  by (simp_all add: cpu_defs csr_defs intr_on_def intr_off_def push_off_def touched_def
      acquired_def released_def Let_def)

lemma intr_get_frame [simp]:
  "intr_get (upd_cpu f s) = intr_get s" "intr_get (upd_lk l g s) = intr_get s"
  by (simp_all add: intr_get_def csr_defs cpu_defs)

lemma lk_frame [simp]: "lk (intr_on s) = lk s" "lk (intr_off s) = lk s" "lk (upd_cpu f s) = lk s"
    "lk (push_off s) = lk s" "lk (touched s) = lk s"
    "lk (upd_lk l g s) = (lk s)(l := g (lk s l))"
  by (simp_all add: cpu_defs csr_defs intr_on_def intr_off_def push_off_def touched_def Let_def)

lemma cpus_frame [simp]: "cpus (intr_on s) = cpus s" "cpus (intr_off s) = cpus s"
    "cpus (upd_lk l g s) = cpus s"
    "cpus (upd_cpu f s) = (cpus s)(mycpu s := f (cpus s (mycpu s)))"
  by (simp_all add: csr_defs intr_on_def intr_off_def upd_cpu_def upd_lk_def)

lemma intr_get_push_off [simp]: "\<not> intr_get (push_off s)"
  by (simp add: push_off_def Let_def)

lemma noff_push_off: "noff (cpus (push_off s) (mycpu s)) = noff (cpus s (mycpu s)) + 1"
  by (simp add: push_off_def Let_def)

lemma mycpu_upd [simp]: "mycpu (s\<lparr>lk := x\<rparr>) = mycpu s" "mycpu (s\<lparr>cpus := y\<rparr>) = mycpu s"
  by (simp_all add: cpu_defs csr_defs)

text \<open>
  A normal form for the updates of this layer: interrupt switching outermost, then CPU
  updates, then lock updates.
\<close>

lemma core_normal:
  "upd_cpu f (intr_off s) = intr_off (upd_cpu f s)"
  "upd_cpu f (intr_on s) = intr_on (upd_cpu f s)"
  "upd_lk l g (intr_off s) = intr_off (upd_lk l g s)"
  "upd_lk l g (intr_on s) = intr_on (upd_lk l g s)"
  "upd_lk l g (upd_cpu f s) = upd_cpu f (upd_lk l g s)"
  "upd_cpu f (upd_cpu f' s) = upd_cpu (f o f') s"
  "upd_lk l g (upd_lk l g' s) = upd_lk l (g o g') s"
  by (simp_all add: intr_off_def intr_on_def csr_defs upd_cpu_def upd_lk_def mycpu_def cpuid_def)

lemma upd_cpu_cong: "f (cpus s (mycpu s)) = g (cpus s (mycpu s)) \<Longrightarrow> upd_cpu f s = upd_cpu g s"
  by (simp add: upd_cpu_def)

lemma upd_cpu_id: "f (cpus s (mycpu s)) = cpus s (mycpu s) \<Longrightarrow> upd_cpu f s = s"
  by (simp add: upd_cpu_def)

lemma upd_lk_id: "g (lk s l) = lk s l \<Longrightarrow> upd_lk l g s = s"
  by (simp add: upd_lk_def)

lemma acquire_ok:
  assumes "lockable l s"
  shows "acquire l s = Ret () (acquired l s)"
  using assms by (simp add: acquire_def acquired_def lockable_def lock_free_def holding_def Let_def
      upd_lk_def)

lemma release_ok:
  assumes "holding l s" and "\<not> intr_get s" and "1 \<le> noff (cpus s (mycpu s))"
  shows "release l s = Ret () (released l s)"
  using assms by (auto simp: release_def released_def pop_off_def Let_def core_normal comp_def)

lemma pop_push_off:
  assumes "cpu_ok s"
  shows "pop_off (push_off s) = Ret () (touched s)"
proof (cases "noff (cpus s (mycpu s)) = 0")
  case True
  then show ?thesis
    by (cases "intr_get s")
      (auto simp: push_off_def pop_off_def touched_def core_normal comp_def Let_def
        intr_on_off intr_off_idle intro: upd_cpu_cong)
next
  case False
  with assms have "0 < noff (cpus s (mycpu s))" "\<not> intr_get s" by (auto simp: cpu_ok_def)
  then show ?thesis
    by (auto simp: push_off_def pop_off_def touched_def core_normal comp_def Let_def
        intr_off_idle intro: upd_cpu_id)
qed

lemma released_acquired:
  assumes "lockable l s"
  shows "released l (acquired l s) = touched s"
proof -
  have ok: "cpu_ok s" and l: "(lk s l)\<lparr>lcpu := None, locked := False\<rparr> = lk s l"
    using assms by (auto simp: lockable_def lock_free_def)
  have eq: "upd_lk l (\<lambda>k. k\<lparr>lcpu := None, locked := False\<rparr>) (acquired l s) = push_off s"
    using l by (auto simp: acquired_def core_normal comp_def intro!: upd_lk_id)
  have "pop_off (push_off s) = Ret () (released l (acquired l s))"
    unfolding released_def eq using ok noff_push_off [of s]
    by (auto simp: pop_off_def Let_def cpu_ok_def)
  then show ?thesis using pop_push_off [OF ok] by simp
qed

text \<open>
  The shape of the states around a critical section: only the fields of this layer differ.
\<close>

lemma acquired_form:
  "acquired l s = s\<lparr>csrs := csrs (acquired l s), cpus := cpus (acquired l s), lk := lk (acquired l s)\<rparr>"
  by (simp add: acquired_def push_off_def Let_def intr_off_def csr_defs upd_cpu_def upd_lk_def)

lemma touched_form: "touched s = s\<lparr>cpus := cpus (touched s)\<rparr>"
  by (simp add: touched_def upd_cpu_def)

lemma acquired_holding [simp]: "holding l (acquired l s)"
  by (simp add: acquired_def holding_def)

lemma acquired_intr [simp]: "\<not> intr_get (acquired l s)"
  by (simp add: acquired_def)

lemma acquired_noff: "noff (cpus (acquired l s) (mycpu s)) = noff (cpus s (mycpu s)) + 1"
  by (simp add: acquired_def noff_push_off)

definition tcpus :: "'a kcore_scheme \<Rightarrow> nat \<Rightarrow> cpu" where
  "tcpus s = cpus (touched s)"

lemma mycpu_cong: "hart t = hart s \<Longrightarrow> csrs t = csrs s \<Longrightarrow> mycpu t = mycpu s"
  by (simp add: mycpu_def cpuid_def csr_defs)

lemma intr_get_cong: "hart t = hart s \<Longrightarrow> csrs t = csrs s \<Longrightarrow> intr_get t = intr_get s"
  by (simp add: intr_get_def csr_defs)

lemma released_form:
  assumes "hart t = hart u" "csrs t = csrs u" "cpus t = cpus u" "lk t = lk u"
  shows "released l t = t\<lparr>csrs := csrs (released l u), cpus := cpus (released l u), lk := lk (released l u)\<rparr>"
proof -
  have "mycpu t = mycpu u" using assms(1,2) by (rule mycpu_cong)
  with assms show ?thesis
    by (simp add: released_def Let_def upd_cpu_def upd_lk_def intr_on_def csr_defs mycpu_def cpuid_def)
qed

lemma critical:
  assumes l: "lockable l s"
    and body: "\<And>cs cp k. body (s\<lparr>csrs := cs, cpus := cp, lk := k\<rparr>)
      = (body s)\<lparr>csrs := cs, cpus := cp, lk := k\<rparr>"
    and core: "hart (body s) = hart s" "csrs (body s) = csrs s" "lk (body s) = lk s"
  shows "release l (body (acquired l s)) = Ret () ((body s)\<lparr>cpus := tcpus s\<rparr>)"
proof -
  let ?a = "acquired l s" and ?t = "body (acquired l s)"
  have t: "?t = (body s)\<lparr>csrs := csrs ?a, cpus := cpus ?a, lk := lk ?a\<rparr>"
    by (subst (1) acquired_form) (rule body)
  have "hart ?a = hart s" by (subst acquired_form) simp
  then have eqs: "hart ?t = hart ?a" "csrs ?t = csrs ?a" "cpus ?t = cpus ?a" "lk ?t = lk ?a"
    unfolding t using core by simp_all
  have my: "mycpu ?t = mycpu ?a" using eqs(1,2) by (rule mycpu_cong)
  have "intr_get ?t = intr_get ?a" using eqs(1,2) by (rule intr_get_cong)
  moreover have "holding l ?t = holding l ?a" using my eqs(4) by (simp add: holding_def)
  moreover have "1 \<le> noff (cpus ?t (mycpu ?t))"
    using l my eqs(3) acquired_noff [of l s] by (simp add: lockable_def cpu_ok_def)
  ultimately have "release l ?t = Ret () (released l ?t)"
    by (intro release_ok) simp_all
  also have "released l ?t = ?t\<lparr>csrs := csrs (touched s), cpus := cpus (touched s), lk := lk (touched s)\<rparr>"
    using released_form [OF eqs] released_acquired [OF l] by simp
  also have "\<dots> = (body s)\<lparr>csrs := csrs (touched s), cpus := cpus (touched s), lk := lk (touched s)\<rparr>"
    unfolding t by simp
  also have "\<dots> = (body s)\<lparr>cpus := tcpus s\<rparr>"
    using core by (subst (1 3) touched_form) (simp add: tcpus_def)
  finally show ?thesis .
qed

text \<open>
  \<open>core_eq s t\<close>: going from \<open>s\<close> to \<open>t\<close> the locks, the registers and the CPUs are as
  before, up to the note in \<^verbatim>\<open>intena\<close>.
\<close>

definition core_eq :: "'a kcore_scheme \<Rightarrow> 'a kcore_scheme \<Rightarrow> bool" where
  "core_eq s t \<longleftrightarrow> hart t = hart s \<and> csrs t = csrs s \<and> lk t = lk s \<and>
     (cpus t = cpus s \<or> cpus t = tcpus s)"

lemma tcpus_eq: "tcpus s = (if noff (cpus s (mycpu s)) = 0
    then (cpus s)(mycpu s := (cpus s (mycpu s))\<lparr>intena := intr_get s\<rparr>) else cpus s)"
  by (simp add: tcpus_def touched_def)

lemma tcpus_cong:
  assumes "hart t = hart s" "csrs t = csrs s" "cpus t = cpus s \<or> cpus t = tcpus s"
  shows "tcpus t = tcpus s"
  using assms mycpu_cong [OF assms(1,2)] intr_get_cong [OF assms(1,2)] by (auto simp: tcpus_eq)

lemma core_eq_refl [simp]: "core_eq s s"
  by (simp add: core_eq_def)

lemma core_eq_trans [trans]: "core_eq s t \<Longrightarrow> core_eq t u \<Longrightarrow> core_eq s u"
  using tcpus_cong [of t s] by (auto simp: core_eq_def)

lemma core_eq_noff: "core_eq s t \<Longrightarrow> noff (cpus t h) = noff (cpus s h)"
  by (auto simp: core_eq_def tcpus_eq)

lemma core_eq_mycpu: "core_eq s t \<Longrightarrow> mycpu t = mycpu s"
  by (auto simp: core_eq_def intro: mycpu_cong)

lemma core_eq_cpu_ok: "core_eq s t \<Longrightarrow> cpu_ok t = cpu_ok s"
  using core_eq_noff [of s t] core_eq_mycpu [of s t] intr_get_cong [of t s]
  by (auto simp: cpu_ok_def core_eq_def)

lemma core_eq_lockable: "core_eq s t \<Longrightarrow> lockable l t = lockable l s"
  using core_eq_cpu_ok [of s t] by (auto simp: lockable_def lock_free_def core_eq_def)

text \<open>The layers above change none of the fields this layer reads.\<close>

lemma core_cong:
  assumes "hart t = hart s" "csrs t = csrs s" "cpus t = cpus s" "lk t = lk s"
  shows "mycpu t = mycpu s" "intr_get t = intr_get s" "cpu_ok t = cpu_ok s"
    "lockable l t = lockable l s" "tcpus t = tcpus s" "holding l t = holding l s"
    "core_eq s t" "core_eq s u = core_eq t u" "core_eq u s = core_eq u t"
proof -
  show my: "mycpu t = mycpu s" using assms(1,2) by (rule mycpu_cong)
  show ig: "intr_get t = intr_get s" using assms(1,2) by (rule intr_get_cong)
  show "cpu_ok t = cpu_ok s" "tcpus t = tcpus s" "holding l t = holding l s"
    using my ig assms by (simp_all add: cpu_ok_def tcpus_eq holding_def)
  then show "lockable l t = lockable l s" "core_eq s t" "core_eq s u = core_eq t u"
    "core_eq u s = core_eq u t"
    using assms by (simp_all add: lockable_def lock_free_def core_eq_def)
qed

section \<open>Harts running in parallel\<close>

text \<open>
  \<^verbatim>\<open>myproc()\<close>: which process runs on this CPU, read with interrupts off.
\<close>

definition myproc :: "'a kcore_scheme \<Rightarrow> (nat option, 'a kcore_scheme) outcome" where
  "myproc s =
     (let s = push_off s; p = cproc (cpus s (mycpu s))
      in bnd (pop_off s) (\<lambda>_ s. Ret p s))"

text \<open>
  Any hart, at any time, takes or releases a lock or reads its process; it switches its
  interrupts on or off directly only outside critical sections, as the scheduler and the
  trap code do.
\<close>

inductive lstep :: "nat \<Rightarrow> kcore \<Rightarrow> kcore \<Rightarrow> bool" where
  acq: "h < NCPU \<Longrightarrow> acquire l (s\<lparr>hart := h\<rparr>) = Ret () t \<Longrightarrow> lstep h s t"
| rel: "h < NCPU \<Longrightarrow> release l (s\<lparr>hart := h\<rparr>) = Ret () t \<Longrightarrow> lstep h s t"
| my: "h < NCPU \<Longrightarrow> myproc (s\<lparr>hart := h\<rparr>) = Ret p t \<Longrightarrow> lstep h s t"
| on: "h < NCPU \<Longrightarrow> noff (cpus s h) = 0 \<Longrightarrow> lstep h s (intr_on (s\<lparr>hart := h\<rparr>))"
| off: "h < NCPU \<Longrightarrow> noff (cpus s h) = 0 \<Longrightarrow> lstep h s (intr_off (s\<lparr>hart := h\<rparr>))"

definition boot_core :: "kcore \<Rightarrow> bool" where
  "boot_core s \<longleftrightarrow> (\<forall>h<NCPU. tp_reg (csrs s h) = of_nat h \<and> noff (cpus s h) = 0) \<and>
     (\<forall>l. \<not> locked (lk s l) \<and> lcpu (lk s l) = None)"

inductive lreach :: "kcore \<Rightarrow> bool" where
  boot: "boot_core s \<Longrightarrow> lreach s"
| step: "lreach s \<Longrightarrow> lstep h s t \<Longrightarrow> lreach t"

definition held :: "'a kcore_scheme \<Rightarrow> nat \<Rightarrow> lockid set" where
  "held s h = {l. locked (lk s l) \<and> lcpu (lk s l) = Some h}"

definition lock_inv :: "kcore \<Rightarrow> bool" where
  "lock_inv s \<longleftrightarrow> (\<forall>l. locked (lk s l) \<longleftrightarrow> lcpu (lk s l) \<noteq> None) \<and>
     (\<forall>h<NCPU. tp_reg (csrs s h) = of_nat h \<and> finite (held s h) \<and>
        noff (cpus s h) = int (card (held s h)) \<and>
        (0 < noff (cpus s h) \<longrightarrow> \<not> bit (sstatus_reg (csrs s h)) 1))"

lemma mycpu_hart:
  assumes "h < NCPU" and "tp_reg (csrs s h) = of_nat h"
  shows "mycpu (s\<lparr>hart := h\<rparr>) = h"
proof -
  have "h < 8" using assms(1) by (simp add: NCPU_def)
  then have "h \<in> {0, 1, 2, 3, 4, 5, 6, 7}" by auto
  then show ?thesis using assms(2) by (auto simp: mycpu_def cpuid_def csr_defs)
qed

lemma acquire_Ret: "acquire l s = Ret u t \<Longrightarrow> t = acquired l s \<and> \<not> locked (lk s l)"
  by (auto simp: acquire_def acquired_def Let_def upd_lk_def split: if_splits)

lemma release_Ret:
  "release l s = Ret u t \<Longrightarrow> holding l s \<and> t = released l s \<and> \<not> intr_get s \<and> 1 \<le> noff (cpus s (mycpu s))"
  by (auto simp: release_def pop_off_def released_def Let_def core_normal comp_def split: if_splits)

lemma myproc_eq: "cpu_ok s \<Longrightarrow> myproc s = Ret (cproc (cpus s (mycpu s))) (touched s)"
  by (auto simp: myproc_def Let_def pop_push_off) (simp add: push_off_def Let_def)

lemma sstatus_intr_off:
  "sstatus_reg (csrs (intr_off s) h) = (if h = hart s then sstatus_reg (csrs s h) AND NOT SSTATUS_SIE
     else sstatus_reg (csrs s h))"
  "sstatus_reg (csrs (intr_on s) h) = (if h = hart s then sstatus_reg (csrs s h) OR SSTATUS_SIE
     else sstatus_reg (csrs s h))"
  by (simp_all add: intr_off_def intr_on_def csr_defs)

lemma tp_intr: "tp_reg (csrs (intr_off s) h) = tp_reg (csrs s h)"
    "tp_reg (csrs (intr_on s) h) = tp_reg (csrs s h)"
  by (simp_all add: intr_off_def intr_on_def csr_defs)

lemma csrs_frame [simp]: "csrs (upd_cpu f s) = csrs s" "csrs (upd_lk l g s) = csrs s"
  "hart (upd_cpu f s) = hart s" "hart (upd_lk l g s) = hart s" "hart (intr_on s) = hart s"
  "hart (intr_off s) = hart s"
  by (simp_all add: upd_cpu_def upd_lk_def intr_on_def intr_off_def csr_defs)

lemma bit1_off [simp]: "\<not> bit (x AND NOT SSTATUS_SIE) (Suc 0)"
  by (simp add: SSTATUS_SIE_def bit_simps)

lemma csrs_push_off: "csrs (push_off s) = csrs (intr_off s)"
  by (simp add: push_off_def Let_def)

lemma noff_push_off_hart:
  "noff (cpus (push_off s) h) = (if h = mycpu s then noff (cpus s h) + 1 else noff (cpus s h))"
  by (simp add: push_off_def Let_def)

lemma acquired_core:
  "lk (acquired l s) = (lk s)(l := (lk s l)\<lparr>locked := True, lcpu := Some (mycpu s)\<rparr>)"
  "noff (cpus (acquired l s) h) = (if h = mycpu s then noff (cpus s h) + 1 else noff (cpus s h))"
  "csrs (acquired l s) = csrs (intr_off s)"
  by (simp_all add: acquired_def csrs_push_off noff_push_off_hart)

lemma released_core:
  "lk (released l s) = (lk s)(l := (lk s l)\<lparr>lcpu := None, locked := False\<rparr>)"
  "noff (cpus (released l s) h) = (if h = mycpu s then noff (cpus s h) - 1 else noff (cpus s h))"
  "csrs (released l s) = (if noff (cpus s (mycpu s)) = 1 \<and> intena (cpus s (mycpu s))
     then csrs (intr_on s) else csrs s)"
  by (auto simp: released_def Let_def core_normal)
    (auto simp: intr_on_def csr_defs)

lemma touched_core:
  "lk (touched s) = lk s" "noff (cpus (touched s) h) = noff (cpus s h)" "csrs (touched s) = csrs s"
  by (auto simp: touched_def)

lemma lock_inv_D:
  assumes "lock_inv s"
  shows "locked (lk s l) \<longleftrightarrow> lcpu (lk s l) \<noteq> None"
    and "h < NCPU \<Longrightarrow> tp_reg (csrs s h) = of_nat h"
    and "h < NCPU \<Longrightarrow> finite (held s h)"
    and "h < NCPU \<Longrightarrow> noff (cpus s h) = int (card (held s h))"
    and "h < NCPU \<Longrightarrow> 0 < noff (cpus s h) \<Longrightarrow> \<not> bit (sstatus_reg (csrs s h)) 1"
  using assms by (auto simp: lock_inv_def)

lemma lock_inv_acquired:
  assumes inv: "lock_inv s" and h: "h < NCPU" and free: "\<not> locked (lk s l)"
  shows "lock_inv (acquired l (s\<lparr>hart := h\<rparr>))" (is "lock_inv ?t")
proof -
  let ?s = "s\<lparr>hart := h\<rparr>"
  have my: "mycpu ?s = h" by (rule mycpu_hart [OF h lock_inv_D(2) [OF inv h]])
  have held: "held ?t h' = (if h' = h then insert l (held s h) else held s h')" for h'
    using free by (auto simp: held_def acquired_core my)
  have "l \<notin> held s h" using free by (simp add: held_def)
  then show ?thesis
    unfolding lock_inv_def held
    using lock_inv_D [OF inv] h
    by (auto simp: acquired_core my sstatus_intr_off tp_intr)
qed

lemma lock_inv_released:
  assumes inv: "lock_inv s" and h: "h < NCPU" and hold: "holding l (s\<lparr>hart := h\<rparr>)"
  shows "lock_inv (released l (s\<lparr>hart := h\<rparr>))" (is "lock_inv ?t")
proof -
  let ?s = "s\<lparr>hart := h\<rparr>"
  have my: "mycpu ?s = h" by (rule mycpu_hart [OF h lock_inv_D(2) [OF inv h]])
  have l: "l \<in> held s h" using hold by (simp add: holding_def held_def my)
  have held: "held ?t h' = (if h' = h then held s h - {l} else held s h')" for h'
    using l by (auto simp: held_def released_core my)
  have card: "int (card (held s h - {l})) = int (card (held s h)) - 1"
    using l lock_inv_D(3) [OF inv h] card_gt_0_iff [of "held s h"] by (auto simp: of_nat_diff)
  then show ?thesis
    unfolding lock_inv_def held
    using lock_inv_D [OF inv] h
    by (auto simp: released_core my sstatus_intr_off tp_intr)
qed

lemma lock_inv_step: "lstep h s t \<Longrightarrow> lock_inv s \<Longrightarrow> lock_inv t"
proof (induction rule: lstep.induct)
  case (acq h l s t)
  then show ?case using acquire_Ret [OF acq(2)] by (auto intro: lock_inv_acquired)
next
  case (rel h l s t)
  then show ?case using release_Ret [OF rel(2)] by (auto intro: lock_inv_released)
next
  case (my h s p t)
  let ?s = "s\<lparr>hart := h\<rparr>"
  have m: "mycpu ?s = h" by (rule mycpu_hart [OF my(1) lock_inv_D(2) [OF my(3,1)]])
  have "intr_get ?s = bit (sstatus_reg (csrs s h)) 1" by (simp add: intr_get_iff csr_defs)
  then have "cpu_ok ?s" using lock_inv_D(4,5) [OF my(3,1)] m by (simp add: cpu_ok_def)
  then have "t = touched ?s" using my(2) by (simp add: myproc_eq)
  then have "held t = held s" and "lk t = lk s" and "csrs t = csrs s"
    and "noff (cpus t h') = noff (cpus s h')" for h'
    by (auto simp: held_def touched_core fun_eq_iff)
  then show ?case using my(3) by (simp add: lock_inv_def)
next
  case (on h s)
  then show ?case
    by (auto simp: lock_inv_def held_def sstatus_intr_off tp_intr)
next
  case (off h s)
  then show ?case
    by (auto simp: lock_inv_def held_def sstatus_intr_off tp_intr)
qed

lemma lreach_inv: "lreach s \<Longrightarrow> lock_inv s"
proof (induction rule: lreach.induct)
  case (boot s)
  then show ?case by (auto simp: boot_core_def lock_inv_def held_def)
next
  case (step s h t)
  then show ?case by (blast intro: lock_inv_step)
qed

text \<open>Nested calls, as they occur when several locks are held at once.\<close>

primrec push_offs :: "nat \<Rightarrow> 'a kcore_scheme \<Rightarrow> 'a kcore_scheme" where
  "push_offs 0 s = s"
| "push_offs (Suc n) s = push_offs n (push_off s)"

primrec pop_offs :: "nat \<Rightarrow> 'a kcore_scheme \<Rightarrow> (unit, 'a kcore_scheme) outcome" where
  "pop_offs 0 s = Ret () s"
| "pop_offs (Suc n) s = bnd (pop_off s) (\<lambda>_ s. pop_offs n s)"

lemma pop_offs_snoc: "pop_offs (Suc n) s = bnd (pop_offs n s) (\<lambda>_ s. pop_off s)"
proof (induction n arbitrary: s)
  case 0
  show ?case by (cases "pop_off s") auto
next
  case (Suc n)
  have "pop_offs (Suc (Suc n)) s = bnd (pop_off s) (\<lambda>_. pop_offs (Suc n))"
    by (rule pop_offs.simps(2))
  also have "\<dots> = bnd (pop_off s) (\<lambda>_ s. bnd (pop_offs n s) (\<lambda>_ s. pop_off s))"
    using Suc by presburger
  also have "\<dots> = bnd (bnd (pop_off s) (\<lambda>_ s. pop_offs n s)) (\<lambda>_ s. pop_off s)"
    by (simp add: bnd_assoc)
  finally show ?case by simp
qed

lemma cpu_ok_push_off: "cpu_ok s \<Longrightarrow> cpu_ok (push_off s)"
  using noff_push_off [of s] by (simp add: cpu_ok_def)

lemma touched_push_off: "cpu_ok s \<Longrightarrow> touched (push_off s) = push_off s"
  using noff_push_off [of s] by (simp add: touched_def cpu_ok_def)

lemma pop_push_offs:
  assumes "cpu_ok s"
  shows "pop_offs (Suc n) (push_offs (Suc n) s) = Ret () (touched s)"
  using assms
proof (induction n arbitrary: s)
  case 0
  then show ?case by (simp add: pop_push_off)
next
  case (Suc n)
  have "pop_offs (Suc n) (push_offs (Suc n) (push_off s)) = Ret () (push_off s)"
    using Suc.IH [OF cpu_ok_push_off [OF Suc.prems]] touched_push_off [OF Suc.prems] by simp
  then show ?case
    by (simp only: pop_offs_snoc [of "Suc n"] push_offs.simps(2) [of "Suc n"] bnd.simps
        pop_push_off [OF Suc.prems])
qed

lemma intr_get_push_offs: "\<not> intr_get s \<Longrightarrow> \<not> intr_get (push_offs n s)"
  by (induction n arbitrary: s) auto

section \<open>Properties\<close>

text \<open>
  C15: \<open>n > 0\<close> nested \<^verbatim>\<open>push_off\<close> calls keep interrupts off until the matching \<open>n\<close>
  \<^verbatim>\<open>pop_off\<close> calls, which succeed and restore both the interrupt enable bit and the
  nesting depth.
\<close>

theorem push_pop_matched:
  assumes "cpu_ok s" and "0 < n"
  shows "\<not> intr_get (push_offs n s) \<and>
    (\<exists>t. pop_offs n (push_offs n s) = Ret () t \<and> intr_get t = intr_get s \<and>
      (\<forall>h. noff (cpus t h) = noff (cpus s h)) \<and> csrs t = csrs s \<and> lk t = lk s)"
proof -
  obtain k where n: "n = Suc k" using assms(2) by (cases n) auto
  have "intr_get (touched s) = intr_get s" by (simp add: touched_def)
  then show ?thesis
    using pop_push_offs [OF assms(1), of k] intr_get_push_offs [of "push_off s" k]
    by (auto simp: n touched_core)
qed

definition demo_core :: kcore where
  "demo_core = \<lparr>hart = 0, csrs = (\<lambda>h. \<lparr>mhartid_reg = of_nat h, mstatus_reg = 0, mepc_reg = 0,
     sstatus_reg = 2, sip_reg = 0, sie_reg = 0, mie_reg = 0, sepc_reg = 0, medeleg_reg = 0,
     mideleg_reg = 0, stvec_reg = 0, mtvec_reg = 0, satp_reg = 0, sscratch_reg = 0,
     mscratch_reg = 0, scause_reg = 0, stval_reg = 0, mcounteren_reg = 0, time_reg = 0,
     sp_reg = 0, tp_reg = of_nat h, ra_reg = 0\<rparr>),
     cpus = (\<lambda>_. \<lparr>cproc = None, noff = 0, intena = False\<rparr>),
     lk = (\<lambda>_. \<lparr>locked = False, lname = [], lcpu = None\<rparr>)\<rparr>"

lemma demo_core_boot: "boot_core demo_core"
  by (simp add: boot_core_def demo_core_def)

theorem push_pop_matched_witness:
  "\<not> intr_get (push_offs 2 demo_core) \<and> (\<exists>t. pop_offs 2 (push_offs 2 demo_core) = Ret () t \<and> intr_get t)"
proof -
  have "cpu_ok demo_core" by (simp add: cpu_ok_def demo_core_def)
  moreover have "intr_get demo_core" by (simp add: intr_get_iff csr_defs demo_core_def bit_simps)
  ultimately show ?thesis using push_pop_matched [of demo_core 2] by auto
qed



text \<open>
  C4: mutual exclusion.  In any interleaving, while hart \<open>h\<close> holds lock \<open>l\<close>, another hart's
  \<^verbatim>\<open>acquire(l)\<close> spins, and no step of another hart takes the lock away from \<open>h\<close>.
\<close>

theorem lock_mutual_exclusion:
  assumes "lreach s" and "locked (lk s l)" and "lcpu (lk s l) = Some h"
    and "h' < NCPU" and "h' \<noteq> h"
  shows "acquire l (s\<lparr>hart := h'\<rparr>) = Spin (push_off (s\<lparr>hart := h'\<rparr>)) \<and>
    (\<forall>t. lstep h' s t \<longrightarrow> locked (lk t l) \<and> lcpu (lk t l) = Some h)"
proof -
  have inv: "lock_inv s" using assms(1) by (rule lreach_inv)
  let ?s = "s\<lparr>hart := h'\<rparr>"
  have my: "mycpu ?s = h'" by (rule mycpu_hart [OF assms(4) lock_inv_D(2) [OF inv assms(4)]])
  have 1: "acquire l ?s = Spin (push_off ?s)"
    using assms(2,3,5) my by (auto simp: acquire_def holding_def Let_def)
  have 2: "locked (lk t l) \<and> lcpu (lk t l) = Some h" if "lstep h' s t" for t
    using that
  proof (cases rule: lstep.cases)
    case (acq l')
    then show ?thesis using acquire_Ret [OF acq(2)] assms(2,3) by (auto simp: acquired_core)
  next
    case (rel l')
    then show ?thesis using release_Ret [OF rel(2)] assms(2,3,5) my
      by (auto simp: released_core holding_def)
  next
    case (my p)
    have "cpu_ok ?s"
      using lock_inv_D(4,5) [OF inv assms(4)] \<open>mycpu ?s = h'\<close>
      by (simp add: cpu_ok_def intr_get_iff csr_defs)
    then show ?thesis using my(2) assms(2,3) by (auto simp: myproc_eq touched_core)
  qed (use assms(2,3) in simp_all)
  from 1 2 show ?thesis by blast
qed

theorem lock_mutual_exclusion_witness:
  "\<exists>s. acquire Log_lock (acquired Log_lock (demo_core\<lparr>hart := 3\<rparr>)\<lparr>hart := 1\<rparr>) = Spin s"
proof -
  let ?s = "demo_core\<lparr>hart := 3\<rparr>"
  have my: "mycpu ?s = 3" by (rule mycpu_hart) (simp_all add: demo_core_def NCPU_def)
  have "lockable Log_lock ?s"
    by (simp add: lockable_def cpu_ok_def lock_free_def demo_core_def)
  then have "lstep 3 demo_core (acquired Log_lock ?s)"
    by (intro lstep.acq [of 3 Log_lock]) (simp_all add: NCPU_def acquire_ok)
  then have "lreach (acquired Log_lock ?s)"
    by (intro lreach.step [OF lreach.boot [OF demo_core_boot]])
  then show ?thesis
    using lock_mutual_exclusion [of "acquired Log_lock ?s" Log_lock 3 1] my
    by (auto simp: acquired_core NCPU_def)
qed

end
