(* ===== verification/Kalloc.thy ===== *)
theory Kalloc
  imports Spinlock
begin

text \<open>
  \<^verbatim>\<open>kernel/kalloc.c\<close>: the physical page allocator.  Free pages form a list linked through
  their first eight bytes; \<^verbatim>\<open>kmem.freelist\<close> is its head.  The state adds the physical
  memory, the list head, and the address of the linker symbol \<^verbatim>\<open>end\<close>, a parameter that no
  operation changes.
\<close>

section \<open>The allocator\<close>

record kmem = kcore +
  mem :: memory
  freelist :: uint64
  end_addr :: uint64

definition kfree :: "uint64 \<Rightarrow> 'a kmem_scheme \<Rightarrow> (unit, 'a kmem_scheme) outcome" where
  "kfree pa s =
     (if pa mod PGSIZE \<noteq> 0 \<or> pa < end_addr s \<or> PHYSTOP \<le> pa then Panic ''kfree''
      else let s = s\<lparr>mem := memset (mem s) pa 1 4096\<rparr>
           in bnd (acquire Kmem_lock s) (\<lambda>_ s.
              let s = s\<lparr>mem := store64 (mem s) pa (freelist s)\<rparr>;
                  s = s\<lparr>freelist := pa\<rparr>
              in release Kmem_lock s))"

definition kalloc :: "'a kmem_scheme \<Rightarrow> (uint64, 'a kmem_scheme) outcome" where
  "kalloc s =
     bnd (acquire Kmem_lock s) (\<lambda>_ s.
       let r = freelist s;
           s = (if r \<noteq> 0 then s\<lparr>freelist := load64 (mem s) r\<rparr> else s)
       in bnd (release Kmem_lock s) (\<lambda>_ s.
          if r \<noteq> 0 then Ret r (s\<lparr>mem := memset (mem s) r 5 4096\<rparr>) else Ret r s))"

lemma kfree_Ret_PHYSTOP: "kfree p s = Ret u t \<Longrightarrow> p < PHYSTOP"
  by (auto simp: kfree_def split: if_splits)

text \<open>
  The loop of \<^verbatim>\<open>freerange\<close> ends for every bound, also at the top of the address space:
  \<^verbatim>\<open>kfree\<close> panics at \<^verbatim>\<open>PHYSTOP\<close>, before the cursor can wrap around.
\<close>

function freerange_loop ::
  "uint64 \<Rightarrow> uint64 \<Rightarrow> 'a kmem_scheme \<Rightarrow> (unit, 'a kmem_scheme) outcome" where
  "freerange_loop p pa_end s =
     (if p + PGSIZE \<le> pa_end
      then bnd (kfree p s) (\<lambda>_ s. freerange_loop (p + PGSIZE) pa_end s)
      else Ret () s)"
  by auto
termination
proof (relation "measure (\<lambda>(p, _, _). 2 ^ 64 - unat p)")
  fix p pa_end :: uint64 and s t :: "'a kmem_scheme" and u
  assume "kfree p s = Ret u t"
  then have "unat p < 0x88000000"
    using kfree_Ret_PHYSTOP [of p s u t] by (simp add: PHYSTOP_num word_less_nat_alt)
  then show "((p + PGSIZE, pa_end, t), p, pa_end, s) \<in> measure (\<lambda>(p, _, _). 2 ^ 64 - unat p)"
    by (simp add: PGSIZE_def unat_word_ariths)
qed simp

declare freerange_loop.simps [simp del]

definition freerange ::
  "uint64 \<Rightarrow> uint64 \<Rightarrow> 'a kmem_scheme \<Rightarrow> (unit, 'a kmem_scheme) outcome" where
  "freerange pa_start pa_end s = freerange_loop (PGROUNDUP pa_start) pa_end s"

definition kinit :: "'a kmem_scheme \<Rightarrow> (unit, 'a kmem_scheme) outcome" where
  "kinit s = freerange (end_addr s) PHYSTOP (initlock Kmem_lock ''kmem'' s)"

section \<open>The free list\<close>

text \<open>
  \<open>flist m p xs\<close>: following the \<^verbatim>\<open>next\<close> pointers from \<open>p\<close> visits exactly the pages \<open>xs\<close>.
  \<open>page_ok s p\<close>: \<open>p\<close> is a page the allocator may manage.
\<close>

fun flist :: "memory \<Rightarrow> uint64 \<Rightarrow> uint64 list \<Rightarrow> bool" where
  "flist m p [] \<longleftrightarrow> p = 0"
| "flist m p (x # xs) \<longleftrightarrow> p = x \<and> x \<noteq> 0 \<and> flist m (load64 m x) xs"

definition aligned :: "uint64 \<Rightarrow> bool" where
  "aligned p \<longleftrightarrow> unat p mod 4096 = 0"

definition in_page :: "uint64 \<Rightarrow> uint64 \<Rightarrow> bool" where
  "in_page p a \<longleftrightarrow> unat (a - p) < 4096"

definition page_ok :: "'a kmem_scheme \<Rightarrow> uint64 \<Rightarrow> bool" where
  "page_ok s p \<longleftrightarrow> aligned p \<and> end_addr s \<le> p \<and> p < PHYSTOP"

definition kmem_ok :: "'a kmem_scheme \<Rightarrow> uint64 list \<Rightarrow> bool" where
  "kmem_ok s xs \<longleftrightarrow> 0 < end_addr s \<and> lockable Kmem_lock s \<and>
     flist (mem s) (freelist s) xs \<and> distinct xs \<and> (\<forall>x\<in>set xs. page_ok s x)"

text \<open>Going from \<open>s\<close> to \<open>t\<close> only memory and the free list changed.\<close>

definition kframe :: "'a kmem_scheme \<Rightarrow> 'a kmem_scheme \<Rightarrow> bool" where
  "kframe s t \<longleftrightarrow> (\<exists>cp m f. t = s\<lparr>cpus := cp, mem := m, freelist := f\<rparr>) \<and> core_eq s t"

subsection \<open>Pages do not overlap\<close>

lemma in_page_iff:
  assumes "aligned p"
  shows "in_page p a \<longleftrightarrow> PGROUNDDOWN a = p"
proof
  obtain k where k: "unat p = 4096 * k"
    using assms by (auto simp: aligned_def mod_eq_0_iff_dvd elim: dvdE)
  assume "in_page p a"
  then have lt: "unat (a - p) < 4096" by (simp add: in_page_def)
  have "4096 * k < 4096 * 2 ^ 52" using unat_lt64 [of p] k by simp
  then have "4096 * k + unat (a - p) < 2 ^ 64" using lt by simp
  then have "unat a = 4096 * k + unat (a - p)"
    using unat_word_ariths(1) [of p "a - p"] k by simp
  then have "unat (PGROUNDDOWN a) = unat p" using lt k by (simp add: unat_PGROUNDDOWN)
  then show "PGROUNDDOWN a = p" by (simp add: word_unat_eq_iff)
next
  assume p: "PGROUNDDOWN a = p"
  have u: "unat p = unat a div 4096 * 4096" unfolding p [symmetric] by (rule unat_PGROUNDDOWN)
  then have "unat p \<le> unat a" using div_times_less_eq_dividend by simp
  moreover have "unat a - unat p < 4096" unfolding u by (simp add: minus_div_mult_eq_mod)
  ultimately show "in_page p a" by (simp add: in_page_def unat_sub word_le_nat_alt)
qed

lemma in_page_unique: "aligned p \<Longrightarrow> aligned q \<Longrightarrow> in_page p a \<Longrightarrow> in_page q a \<Longrightarrow> p = q"
  by (simp add: in_page_iff)

lemma in_page_offset: "i < 4096 \<Longrightarrow> in_page p (p + of_nat i)"
  by (simp add: in_page_def unat_of_nat64)

lemma load64_other_page:
  assumes "\<And>a. \<not> in_page p a \<Longrightarrow> m' a = m a" and "aligned p" "aligned q" "p \<noteq> q"
  shows "load64 m' q = load64 m q"
proof (rule load64_cong)
  fix i :: nat assume "i < 8"
  then have "in_page q (q + of_nat i)" by (intro in_page_offset) simp
  with assms(2-4) have "\<not> in_page p (q + of_nat i)" using in_page_unique by blast
  then show "m' (q + of_nat i) = m (q + of_nat i)" by (rule assms(1))
qed

lemma flist_other_page:
  assumes "\<And>a. \<not> in_page p a \<Longrightarrow> m' a = m a" and "aligned p"
    and "\<forall>x\<in>set xs. aligned x" and "p \<notin> set xs"
  shows "flist m' q xs = flist m q xs"
  using assms(3,4)
proof (induction xs arbitrary: q)
  case (Cons x xs)
  then have "load64 m' x = load64 m x" by (intro load64_other_page [OF assms(1,2)]) auto
  with Cons show ?case by simp
qed simp

lemma memset_page: "\<not> in_page p a \<Longrightarrow> memset m p c 4096 a = m a"
  by (simp add: memset_4096 in_page_def)

lemma store64_page: "\<not> in_page p a \<Longrightarrow> store64 m p v a = m a"
  by (simp add: in_page_def store64_frame)

subsection \<open>Frames\<close>

lemma kframe_I: "core_eq s t \<Longrightarrow> t = s\<lparr>cpus := cp, mem := m, freelist := f\<rparr> \<Longrightarrow> kframe s t"
  by (auto simp: kframe_def)

lemma kframe_refl [simp]: "kframe s s"
  by (rule kframe_I [where cp = "cpus s" and m = "mem s" and f = "freelist s"]) simp_all

lemma kframe_trans [trans]: "kframe s t \<Longrightarrow> kframe t u \<Longrightarrow> kframe s u"
proof -
  assume "kframe s t" and "kframe t u"
  then obtain cp m f cp' m' f' where "t = s\<lparr>cpus := cp, mem := m, freelist := f\<rparr>"
    and "u = t\<lparr>cpus := cp', mem := m', freelist := f'\<rparr>" and "core_eq s u"
    unfolding kframe_def using core_eq_trans by blast
  then show ?thesis by (intro kframe_I [where cp = cp' and m = m' and f = f']) simp_all
qed

lemma kframe_core: "kframe s t \<Longrightarrow> core_eq s t"
  by (simp add: kframe_def)

lemma kframe_end: "kframe s t \<Longrightarrow> end_addr t = end_addr s"
  by (auto simp: kframe_def)

lemma kframe_page_ok: "kframe s t \<Longrightarrow> page_ok t = page_ok s"
  by (simp add: page_ok_def kframe_end fun_eq_iff)

lemma kmem_core_simps [simp]:
  "lockable l (s\<lparr>mem := m\<rparr>) = lockable l s" "lockable l (s\<lparr>freelist := f\<rparr>) = lockable l s"
  "tcpus (s\<lparr>mem := m\<rparr>) = tcpus s" "tcpus (s\<lparr>freelist := f\<rparr>) = tcpus s"
  "mycpu (s\<lparr>mem := m\<rparr>) = mycpu s" "mycpu (s\<lparr>freelist := f\<rparr>) = mycpu s"
  by (rule core_cong; simp)+

lemma kframe_upd [simp]:
  "kframe s (s\<lparr>cpus := tcpus s, freelist := f, mem := m\<rparr>)" "kframe s (s\<lparr>cpus := tcpus s\<rparr>)"
  "kframe s (s\<lparr>mem := m\<rparr>)" "kframe s (s\<lparr>freelist := f\<rparr>)"
proof -
  show "kframe s (s\<lparr>cpus := tcpus s, freelist := f, mem := m\<rparr>)"
    by (rule kframe_I [where cp = "tcpus s" and f = f and m = m]) (simp_all add: core_eq_def)
  show "kframe s (s\<lparr>cpus := tcpus s\<rparr>)"
    by (rule kframe_I [where cp = "tcpus s" and f = "freelist s" and m = "mem s"])
      (simp_all add: core_eq_def)
  show "kframe s (s\<lparr>mem := m\<rparr>)"
    by (rule kframe_I [where cp = "cpus s" and f = "freelist s" and m = m]) (simp_all add: core_eq_def)
  show "kframe s (s\<lparr>freelist := f\<rparr>)"
    by (rule kframe_I [where cp = "cpus s" and f = f and m = "mem s"]) (simp_all add: core_eq_def)
qed

lemma kmem_ok_D:
  assumes "kmem_ok s xs"
  shows "0 < end_addr s" "lockable Kmem_lock s" "flist (mem s) (freelist s) xs" "distinct xs"
    and "x \<in> set xs \<Longrightarrow> page_ok s x"
  using assms by (auto simp: kmem_ok_def)

lemma page_ok_aligned: "page_ok s x \<Longrightarrow> aligned x"
  by (simp add: page_ok_def)

lemma page_ok_nonzero: "page_ok s x \<Longrightarrow> 0 < end_addr s \<Longrightarrow> x \<noteq> 0"
  by (auto simp: page_ok_def)

text \<open>
  Changing one page that is not on the list, the locks aside, keeps the free list.
\<close>

lemma kmem_ok_cong:
  assumes "kmem_ok s xs" and "kframe s t" and "freelist t = freelist s"
    and "\<And>a. \<not> in_page p a \<Longrightarrow> mem t a = mem s a" and "aligned p" and "p \<notin> set xs"
  shows "kmem_ok t xs"
proof -
  note D = kmem_ok_D [OF assms(1)]
  have "\<forall>x\<in>set xs. aligned x" using D(5) page_ok_aligned by blast
  then have "flist (mem t) (freelist s) xs"
    using flist_other_page [of p "mem t" "mem s" xs, OF assms(4,5) _ assms(6)] D(3) by simp
  then show ?thesis
    using D assms(2,3) kframe_page_ok [OF assms(2)] core_eq_lockable [OF kframe_core [OF assms(2)]]
    by (simp add: kmem_ok_def kframe_end)
qed

subsection \<open>Functional correctness\<close>

lemma kalloc_none:
  assumes "kmem_ok s []"
  shows "kalloc s = Ret 0 (s\<lparr>cpus := tcpus s\<rparr>)"
proof -
  note D = kmem_ok_D [OF assms]
  have f: "freelist (acquired Kmem_lock s) = 0" using D(3) by (subst acquired_form) simp
  have r: "release Kmem_lock (acquired Kmem_lock s) = Ret () (s\<lparr>cpus := tcpus s\<rparr>)"
    by (rule critical [where body = "\<lambda>s. s"]) (simp_all add: D(2))
  show ?thesis by (simp add: kalloc_def acquire_ok [OF D(2)] f r Let_def)
qed

lemma kalloc_some:
  assumes "kmem_ok s (x # xs)"
  shows "kalloc s = Ret x (s\<lparr>cpus := tcpus s, freelist := load64 (mem s) x,
    mem := memset (mem s) x 5 4096\<rparr>)"
proof -
  note D = kmem_ok_D [OF assms]
  have x: "freelist s = x" "x \<noteq> 0" using D(3) by auto
  let ?a = "acquired Kmem_lock s"
  have f: "freelist ?a = x" using x by (subst acquired_form) simp
  have r: "release Kmem_lock (?a\<lparr>freelist := load64 (mem ?a) x\<rparr>)
      = Ret () (s\<lparr>freelist := load64 (mem s) x, cpus := tcpus s\<rparr>)"
    by (rule critical [where body = "\<lambda>s. s\<lparr>freelist := load64 (mem s) x\<rparr>"]) (simp_all add: D(2))
  show ?thesis by (simp add: kalloc_def acquire_ok [OF D(2)] f r x Let_def)
qed

lemma kmem_ok_alloc:
  assumes "kmem_ok s (x # xs)"
  shows "kmem_ok (s\<lparr>cpus := tcpus s, freelist := load64 (mem s) x,
    mem := memset (mem s) x 5 4096\<rparr>) xs" (is "kmem_ok ?t xs")
proof -
  note D = kmem_ok_D [OF assms]
  have "kmem_ok (s\<lparr>freelist := load64 (mem s) x\<rparr>) xs"
    using assms by (auto simp: kmem_ok_def page_ok_def)
  moreover have "kframe (s\<lparr>freelist := load64 (mem s) x\<rparr>) ?t"
    using kframe_upd(1) [where s = "s\<lparr>freelist := load64 (mem s) x\<rparr>" and f = "load64 (mem s) x"] by simp
  ultimately show ?thesis
    using D by (elim kmem_ok_cong [where p = x]) (auto simp: memset_page page_ok_def)
qed

lemma kalloc_cases:
  assumes "kmem_ok s xs"
  obtains (none) "xs = []" and "kalloc s = Ret 0 (s\<lparr>cpus := tcpus s\<rparr>)"
      and "kframe s (s\<lparr>cpus := tcpus s\<rparr>)" and "kmem_ok (s\<lparr>cpus := tcpus s\<rparr>) []"
  | (some) x ys t where "xs = x # ys" and "kalloc s = Ret x t" and "kframe s t" and "kmem_ok t ys"
      and "mem t = memset (mem s) x 5 4096" and "page_ok s x" and "x \<noteq> 0"
proof (cases xs)
  case Nil
  have fr: "kframe s (s\<lparr>cpus := tcpus s\<rparr>)" by simp
  have "kmem_ok (s\<lparr>cpus := tcpus s\<rparr>) []"
    using assms Nil kframe_core [OF fr] core_eq_lockable [of s "s\<lparr>cpus := tcpus s\<rparr>"]
    by (simp add: kmem_ok_def)
  then show ?thesis using assms Nil fr none kalloc_none by blast
next
  case (Cons x ys)
  then have k: "kmem_ok s (x # ys)" using assms by simp
  show ?thesis
    by (rule some [OF Cons kalloc_some [OF k] kframe_upd(1) kmem_ok_alloc [OF k]])
      (use kmem_ok_D(3,5) [OF k] in auto)
qed

lemma kfree_panic: "\<not> page_ok s p \<Longrightarrow> kfree p s = Panic ''kfree''"
  by (auto simp: kfree_def page_ok_def aligned_def mod_PGSIZE)

lemma kfree_eq:
  assumes "lockable Kmem_lock s" and "page_ok s p"
  shows "kfree p s = Ret () (s\<lparr>cpus := tcpus s, freelist := p,
    mem := store64 (memset (mem s) p 1 4096) p (freelist s)\<rparr>)"
proof -
  let ?s = "s\<lparr>mem := memset (mem s) p 1 4096\<rparr>"
  have l: "lockable Kmem_lock ?s" using assms(1) by simp
  have "release Kmem_lock ((acquired Kmem_lock ?s)\<lparr>mem := store64 (mem (acquired Kmem_lock ?s)) p
      (freelist (acquired Kmem_lock ?s)), freelist := p\<rparr>)
    = Ret () (?s\<lparr>mem := store64 (mem ?s) p (freelist ?s), freelist := p, cpus := tcpus ?s\<rparr>)"
    by (rule critical [where body = "\<lambda>s. s\<lparr>mem := store64 (mem s) p (freelist s), freelist := p\<rparr>"])
      (simp_all add: assms(1))
  then show ?thesis
    using assms(2) by (auto simp: kfree_def acquire_ok [OF l] Let_def page_ok_def aligned_def mod_PGSIZE)
qed

lemma kfree_ok:
  assumes "kmem_ok s xs" and "page_ok s p" and "p \<notin> set xs"
  obtains t where "kfree p s = Ret () t" and "kframe s t" and "kmem_ok t (p # xs)"
    and "\<And>a. \<not> in_page p a \<Longrightarrow> mem t a = mem s a"
proof
  note D = kmem_ok_D [OF assms(1)]
  let ?t = "s\<lparr>cpus := tcpus s, freelist := p, mem := store64 (memset (mem s) p 1 4096) p (freelist s)\<rparr>"
  show "kfree p s = Ret () ?t" using D(2) assms(2) by (rule kfree_eq)
  show fr: "kframe s ?t" by simp
  show mem: "mem ?t a = mem s a" if "\<not> in_page p a" for a
    using that by (simp add: store64_page memset_page)
  have "flist (mem ?t) (freelist s) xs"
    using flist_other_page [of p "mem ?t" "mem s" xs "freelist s"] mem assms(2,3) D(3,5)
    by (simp add: page_ok_def)
  then show "kmem_ok ?t (p # xs)"
    using D assms(2,3) kframe_page_ok [OF fr] core_eq_lockable [OF kframe_core [OF fr]]
      page_ok_nonzero [OF assms(2) D(1)]
    by (simp add: kmem_ok_def)
qed

lemma flist_unique: "flist m p xs \<Longrightarrow> flist m p ys \<Longrightarrow> xs = ys"
proof (induction xs arbitrary: p ys)
  case Nil
  then show ?case by (cases ys) auto
next
  case (Cons x xs)
  then show ?case by (cases ys) auto
qed

section \<open>The interface of a page allocator\<close>

text \<open>
  What the rest of the kernel relies on, for any allocator: allocation hands out an available
  page, or 0 only when none is available; freeing makes a page available again; neither
  touches memory outside the page it is about.
\<close>

locale page_allocator =
  fixes alloc :: "'s \<Rightarrow> (uint64, 's) outcome"
    and free :: "uint64 \<Rightarrow> 's \<Rightarrow> (unit, 's) outcome"
    and inv :: "'s \<Rightarrow> bool"
    and avail :: "'s \<Rightarrow> uint64 set"
    and usable :: "'s \<Rightarrow> uint64 \<Rightarrow> bool"
    and content :: "'s \<Rightarrow> memory"
  assumes alloc_none: "inv s \<Longrightarrow> avail s = {} \<Longrightarrow>
      \<exists>t. alloc s = Ret 0 t \<and> inv t \<and> avail t = {} \<and> content t = content s \<and> usable t = usable s"
    and alloc_some: "inv s \<Longrightarrow> avail s \<noteq> {} \<Longrightarrow>
      \<exists>p t. alloc s = Ret p t \<and> p \<noteq> 0 \<and> p \<in> avail s \<and> inv t \<and> avail t = avail s - {p} \<and>
        usable t = usable s \<and> (\<forall>a. \<not> in_page p a \<longrightarrow> content t a = content s a)"
    and free_ok: "inv s \<Longrightarrow> usable s p \<Longrightarrow> p \<notin> avail s \<Longrightarrow>
      \<exists>t. free p s = Ret () t \<and> inv t \<and> avail t = insert p (avail s) \<and>
        usable t = usable s \<and> (\<forall>a. \<not> in_page p a \<longrightarrow> content t a = content s a)"
    and usable_avail: "inv s \<Longrightarrow> p \<in> avail s \<Longrightarrow> usable s p"
    and usable_aligned: "usable s p \<Longrightarrow> aligned p"

text \<open>
  A client that issues any sequence of requests, freeing only pages it owns; \<open>serve\<close>
  keeps the set of pages it owns.
\<close>

datatype areq = Alloc | Free uint64

primrec serve :: "('s \<Rightarrow> (uint64, 's) outcome) \<Rightarrow> (uint64 \<Rightarrow> 's \<Rightarrow> (unit, 's) outcome) \<Rightarrow>
    areq list \<Rightarrow> uint64 set \<Rightarrow> 's \<Rightarrow> (uint64 set, 's) outcome" where
  "serve alloc free [] own s = Ret own s"
| "serve alloc free (r # rs) own s =
     (case r of
        Alloc \<Rightarrow> bnd (alloc s) (\<lambda>p s. serve alloc free rs (if p = 0 then own else insert p own) s)
      | Free p \<Rightarrow> if p \<in> own then bnd (free p s) (\<lambda>_ s. serve alloc free rs (own - {p}) s)
                else serve alloc free rs own s)"

context page_allocator
begin

definition owns :: "uint64 set \<Rightarrow> 's \<Rightarrow> bool" where
  "owns own s \<longleftrightarrow> inv s \<and> own \<inter> avail s = {} \<and> (\<forall>p\<in>own. usable s p)"

lemma owned_kept:
  assumes "owns own s" and "p \<in> own" and "q \<in> avail s \<or> q \<in> own \<and> q \<noteq> p"
    and "\<forall>a. \<not> in_page q a \<longrightarrow> content t a = content s a" and "in_page p a"
  shows "content t a = content s a"
proof -
  have "p \<noteq> q" and "usable s p" and "usable s q"
    using assms(1-3) usable_avail by (auto simp: owns_def)
  then have "\<not> in_page q a"
    using assms(5) in_page_unique usable_aligned by blast
  then show ?thesis using assms(4) by blast
qed

lemma owns_alloc:
  assumes "owns own s"
  obtains (none) t where "alloc s = Ret 0 t" and "avail s = {}" and "owns own t"
      and "avail t = {}" and "content t = content s"
  | (some) p t where "alloc s = Ret p t" and "p \<noteq> 0" and "p \<in> avail s" and "owns (insert p own) t"
      and "insert p own \<union> avail t = own \<union> avail s"
      and "\<And>q a. q \<in> own \<Longrightarrow> in_page q a \<Longrightarrow> content t a = content s a"
proof (cases "avail s = {}")
  case True
  with assms show ?thesis using alloc_none [of s] none by (auto simp: owns_def)
next
  case False
  with assms obtain p t where t: "alloc s = Ret p t" "p \<noteq> 0" "p \<in> avail s" "inv t"
    "avail t = avail s - {p}" "usable t = usable s" "\<forall>a. \<not> in_page p a \<longrightarrow> content t a = content s a"
    using alloc_some [of s] by (auto simp: owns_def)
  moreover have "owns (insert p own) t"
    using assms t usable_avail [of s p] by (auto simp: owns_def)
  moreover have "content t a = content s a" if "q \<in> own" "in_page q a" for q a
    using owned_kept [OF assms that(1) _ t(7) that(2)] t(3) by blast
  ultimately show ?thesis using some by auto
qed

lemma owns_free:
  assumes "owns own s" and "p \<in> own"
  obtains t where "free p s = Ret () t" and "owns (own - {p}) t"
    and "(own - {p}) \<union> avail t = own \<union> avail s"
    and "\<And>q a. q \<in> own \<Longrightarrow> q \<noteq> p \<Longrightarrow> in_page q a \<Longrightarrow> content t a = content s a"
proof -
  obtain t where t: "free p s = Ret () t" "inv t" "avail t = insert p (avail s)"
    "usable t = usable s" "\<forall>a. \<not> in_page p a \<longrightarrow> content t a = content s a"
    using free_ok [of s p] assms by (auto simp: owns_def)
  moreover have "owns (own - {p}) t" using assms t by (auto simp: owns_def)
  moreover have "content t a = content s a" if "q \<in> own" "q \<noteq> p" "in_page q a" for q a
    using owned_kept [OF assms(1) that(1) _ t(5) that(3)] assms(2) that(2) by blast
  ultimately show ?thesis using that assms(2) by auto
qed

lemma serve_ok:
  assumes "owns own s"
  shows "\<exists>own' t. serve alloc free rs own s = Ret own' t \<and> owns own' t \<and>
    own' \<union> avail t = own \<union> avail s \<and>
    (\<forall>p\<in>own. Free p \<notin> set rs \<longrightarrow> p \<in> own' \<and> (\<forall>a. in_page p a \<longrightarrow> content t a = content s a))"
  using assms
proof (induction rs arbitrary: own s)
  case (Cons r rs)
  show ?case
  proof (cases r)
    case Alloc
    from Cons.prems show ?thesis
    proof (cases rule: owns_alloc)
      case (none t)
      then show ?thesis using Cons.IH [of own t] Alloc by auto
    next
      case (some p t)
      then show ?thesis using Cons.IH [OF some(4)] Alloc by auto
    qed
  next
    case (Free p)
    show ?thesis
    proof (cases "p \<in> own")
      case True
      obtain t where t: "free p s = Ret () t" "owns (own - {p}) t"
          "(own - {p}) \<union> avail t = own \<union> avail s"
          "\<And>q a. q \<in> own \<Longrightarrow> q \<noteq> p \<Longrightarrow> in_page q a \<Longrightarrow> content t a = content s a"
        using owns_free [OF Cons.prems True] by blast
      from Cons.IH [OF t(2)] show ?thesis using True Free t by (auto 4 3)
    next
      case False
      then show ?thesis using Cons.IH [OF Cons.prems] Free by auto
    qed
  qed
qed auto

end

definition free_pages :: "'a kmem_scheme \<Rightarrow> uint64 set" where
  "free_pages s = {p. \<exists>xs. flist (mem s) (freelist s) xs \<and> p \<in> set xs}"

lemma free_pages_eq: "kmem_ok s xs \<Longrightarrow> free_pages s = set xs"
  using flist_unique [of "mem s" "freelist s"] by (auto simp: free_pages_def kmem_ok_def)

interpretation kpages: page_allocator kalloc kfree "\<lambda>s. \<exists>xs. kmem_ok s xs" free_pages page_ok mem
proof
  fix s :: "'a kmem_scheme" and p
  assume inv: "\<exists>xs. kmem_ok s xs"
  then obtain xs where xs: "kmem_ok s xs" by blast
  note fp = free_pages_eq [OF xs]
  show "\<exists>t. kalloc s = Ret 0 t \<and> (\<exists>xs. kmem_ok t xs) \<and> free_pages t = {} \<and> mem t = mem s \<and>
      page_ok t = page_ok s" if "free_pages s = {}"
    using xs
  proof (cases rule: kalloc_cases)
    case none
    moreover have "page_ok (s\<lparr>cpus := tcpus s\<rparr>) = page_ok s"
      using none(3) by (rule kframe_page_ok)
    moreover have "free_pages (s\<lparr>cpus := tcpus s\<rparr>) = {}"
      using free_pages_eq [OF none(4)] by simp
    ultimately show ?thesis by auto
  qed (use that fp in auto)
  show "\<exists>p t. kalloc s = Ret p t \<and> p \<noteq> 0 \<and> p \<in> free_pages s \<and> (\<exists>xs. kmem_ok t xs) \<and>
      free_pages t = free_pages s - {p} \<and> page_ok t = page_ok s \<and>
      (\<forall>a. \<not> in_page p a \<longrightarrow> mem t a = mem s a)" if "free_pages s \<noteq> {}"
    using xs
  proof (cases rule: kalloc_cases)
    case (some x ys t)
    moreover have "x \<notin> set ys" using xs some(1) by (simp add: kmem_ok_def)
    ultimately show ?thesis
      using fp free_pages_eq [OF some(4)] kframe_page_ok [OF some(3)]
      by (intro exI [of _ x] exI [of _ t]) (auto simp: memset_page)
  qed (use that fp in auto)
  show "page_ok s p" if "p \<in> free_pages s"
    using that fp kmem_ok_D(5) [OF xs] by blast
  show "\<exists>t. kfree p s = Ret () t \<and> (\<exists>xs. kmem_ok t xs) \<and> free_pages t = insert p (free_pages s) \<and>
      page_ok t = page_ok s \<and> (\<forall>a. \<not> in_page p a \<longrightarrow> mem t a = mem s a)"
    if p: "page_ok s p" "p \<notin> free_pages s"
  proof -
    have "p \<notin> set xs" using p(2) fp by simp
    then obtain t where t: "kfree p s = Ret () t" "kframe s t" "kmem_ok t (p # xs)"
      "\<And>a. \<not> in_page p a \<Longrightarrow> mem t a = mem s a"
      using kfree_ok [OF xs p(1)] by blast
    then show ?thesis
      using fp free_pages_eq [OF t(3)] kframe_page_ok [OF t(2)] by (intro exI [of _ t]) auto
  qed
qed (rule page_ok_aligned)

section \<open>Initialisation\<close>

lemma aligned_step:
  assumes "aligned p" and "unat p + 4096 \<le> 0x88000000"
  shows "aligned (p + PGSIZE)" and "unat (p + PGSIZE) = unat p + 4096"
proof -
  show u: "unat (p + PGSIZE) = unat p + 4096"
    using assms(2) by (simp add: PGSIZE_def unat_word_ariths)
  show "aligned (p + PGSIZE)" using assms(1) unfolding aligned_def u by simp
qed

lemma freerange_pages:
  assumes "kmem_ok s xs" and "aligned p" and "end_addr s \<le> p" and "unat p + 4096 * n = 0x88000000"
    and "\<forall>x\<in>set xs. x < p"
  shows "\<exists>t ys. freerange_loop p PHYSTOP s = Ret () t \<and> kmem_ok t (ys @ xs) \<and> end_addr t = end_addr s \<and>
    set ys = {q. aligned q \<and> p \<le> q \<and> q < PHYSTOP}"
  using assms
proof (induction n arbitrary: p s xs)
  case 0
  then have "p = PHYSTOP" by (simp add: PHYSTOP_num word_unat_eq_iff)
  then have "freerange_loop p PHYSTOP s = Ret () s"
    by (subst freerange_loop.simps) (simp add: PHYSTOP_num PGSIZE_def)
  then show ?case using 0(1) \<open>p = PHYSTOP\<close>
    by (intro exI [of _ s] exI [of _ "[]"]) auto
next
  case (Suc n)
  note st = aligned_step [OF Suc.prems(2)]
  have le: "unat p + 4096 \<le> 0x88000000" using Suc.prems(4) by simp
  have p: "page_ok s p" and "p \<notin> set xs"
    using Suc.prems le by (auto simp: page_ok_def PHYSTOP_num word_less_nat_alt)
  then obtain t where t: "kfree p s = Ret () t" "kframe s t" "kmem_ok t (p # xs)"
    using kfree_ok [OF Suc.prems(1)] by blast
  have lt: "p < p + PGSIZE" using st(2) [OF le] by (simp add: word_less_nat_alt)
  have "\<exists>u ys. freerange_loop (p + PGSIZE) PHYSTOP t = Ret () u \<and> kmem_ok u (ys @ p # xs) \<and>
      end_addr u = end_addr t \<and> set ys = {q. aligned q \<and> p + PGSIZE \<le> q \<and> q < PHYSTOP}"
  proof (rule Suc.IH [OF t(3) st(1) [OF le]])
    show "end_addr t \<le> p + PGSIZE" using Suc.prems(3) lt by (simp add: kframe_end [OF t(2)])
    show "unat (p + PGSIZE) + 4096 * n = 0x88000000" using Suc.prems(4) st(2) [OF le] by simp
    show "\<forall>x\<in>set (p # xs). x < p + PGSIZE" using Suc.prems(5) lt by auto
  qed
  then obtain u ys where u: "freerange_loop (p + PGSIZE) PHYSTOP t = Ret () u" "kmem_ok u (ys @ p # xs)"
      "end_addr u = end_addr s" "set ys = {q. aligned q \<and> p + PGSIZE \<le> q \<and> q < PHYSTOP}"
    using kframe_end [OF t(2)] by auto
  have "p + PGSIZE \<le> PHYSTOP"
    using st(2) [OF le] le by (simp add: word_le_nat_alt PHYSTOP_num)
  then have "freerange_loop p PHYSTOP s = Ret () u"
    by (subst freerange_loop.simps) (simp add: t u)
  moreover have "q = p \<or> p + PGSIZE \<le> q" if "aligned q" "p \<le> q" for q
  proof (rule ccontr)
    assume "\<not> (q = p \<or> p + PGSIZE \<le> q)"
    then have "unat p < unat q" "unat q < unat p + 4096"
      using that(2) st(2) [OF le] by (auto simp: word_le_nat_alt word_unat_eq_iff)
    moreover have "4096 dvd unat q" "4096 dvd unat p"
      using that(1) Suc.prems(2) by (auto simp: aligned_def)
    ultimately show False by (auto elim!: dvdE)
  qed
  then have "set (ys @ [p]) = {q. aligned q \<and> p \<le> q \<and> q < PHYSTOP}"
    using u(4) lt p by (auto simp: page_ok_def)
  ultimately show ?case
    using u by (intro exI [of _ u] exI [of _ "ys @ [p]"]) auto
qed

lemma kinit_boot:
  assumes "0 < end_addr s" and "cpu_ok s" and "freelist s = 0"
  shows "kmem_ok (initlock Kmem_lock ''kmem'' s) []"
proof -
  let ?t = "initlock Kmem_lock ''kmem'' s"
  have "cpu_ok ?t" using assms(2) by (simp add: cpu_ok_def initlock_def)
  moreover have "end_addr ?t = end_addr s" "freelist ?t = 0"
    using assms(3) by (simp_all add: initlock_def upd_lk_def)
  moreover have "lock_free Kmem_lock ?t" by (simp add: lock_free_def initlock_def)
  ultimately show ?thesis using assms(1) by (simp add: kmem_ok_def lockable_def)
qed

lemma PGROUNDUP_bounds:
  assumes "a \<le> PHYSTOP"
  shows "aligned (PGROUNDUP a)" and "a \<le> PGROUNDUP a" and "PGROUNDUP a \<le> PHYSTOP"
    and "aligned q \<Longrightarrow> a \<le> q \<longleftrightarrow> PGROUNDUP a \<le> q"
proof -
  have a: "unat a \<le> 0x88000000" using assms by (simp add: PHYSTOP_num word_le_nat_alt)
  have u: "unat (PGROUNDUP a) = (unat a + 4095) div 4096 * 4096"
    using a by (intro unat_PGROUNDUP) simp
  have b: "unat a \<le> (unat a + 4095) div 4096 * 4096" "(unat a + 4095) div 4096 \<le> 0x88000"
    using a by linarith+
  show "aligned (PGROUNDUP a)" by (simp add: aligned_def u)
  show "a \<le> PGROUNDUP a" using b(1) by (simp add: word_le_nat_alt u)
  show "PGROUNDUP a \<le> PHYSTOP" using b(2) by (simp add: word_le_nat_alt PHYSTOP_num u)
  show "a \<le> q \<longleftrightarrow> PGROUNDUP a \<le> q" if "aligned q"
  proof -
    obtain k where "unat q = 4096 * k"
      using \<open>aligned q\<close> by (auto simp: aligned_def mod_eq_0_iff_dvd elim: dvdE)
    moreover have "(unat a + 4095) div 4096 \<le> k" if "unat a \<le> 4096 * k"
      using that div_le_mono [of "unat a + 4095" "4096 * k + 4095" 4096] by simp
    ultimately show ?thesis unfolding word_le_nat_alt u using b(1) by auto
  qed
qed

section \<open>Properties\<close>

definition demo_kmem :: kmem where
  "demo_kmem = \<lparr>hart = 0, csrs = csrs demo_core, cpus = cpus demo_core, lk = lk demo_core,
     mem = (\<lambda>_. 0), freelist = 0x87FFE000, end_addr = 0x87FFD123\<rparr>"

lemma demo_kmem_ok: "kmem_ok demo_kmem [0x87FFE000]"
  by (simp add: kmem_ok_def demo_kmem_def lockable_def lock_free_def cpu_ok_def page_ok_def
      aligned_def PHYSTOP_num load64_def bytes_at_def demo_core_def map_replicate_const)

text \<open>
  C5: pages are never shared and never lost.  For any sequence of allocation and freeing
  requests of a client that frees only pages it owns, no call panics, an owned page is never on
  the free list, the owned and the free pages together stay the same, and a page the client
  does not free keeps its contents.
\<close>

theorem kalloc_exclusive:
  assumes "kmem_ok s xs" and "own \<inter> set xs = {}" and "\<forall>p\<in>own. page_ok s p"
  shows "\<exists>own' t ys. serve kalloc kfree reqs own s = Ret own' t \<and> kmem_ok t ys \<and>
    own' \<inter> set ys = {} \<and> own' \<union> set ys = own \<union> set xs \<and>
    (\<forall>p\<in>own. Free p \<notin> set reqs \<longrightarrow> p \<in> own' \<and> (\<forall>a. in_page p a \<longrightarrow> mem t a = mem s a))"
proof -
  have fp: "free_pages s = set xs" using assms(1) by (rule free_pages_eq)
  have "kpages.owns own s" using assms fp by (auto simp: kpages.owns_def)
  from kpages.serve_ok [OF this, of reqs] obtain own' t where
    t: "serve kalloc kfree reqs own s = Ret own' t" "kpages.owns own' t"
      "own' \<union> free_pages t = own \<union> set xs"
      "\<forall>p\<in>own. Free p \<notin> set reqs \<longrightarrow> p \<in> own' \<and> (\<forall>a. in_page p a \<longrightarrow> mem t a = mem s a)"
    using fp by auto
  from t(2) obtain ys where "kmem_ok t ys" by (auto simp: kpages.owns_def)
  then show ?thesis
    using t free_pages_eq [of t ys] by (auto simp: kpages.owns_def intro!: exI [of _ own'] exI [of _ t])
qed

theorem kalloc_exclusive_witness:
  "\<exists>own t ys. serve kalloc kfree [Alloc, Alloc, Free 0x87FFF000] {0x87FFF000} demo_kmem = Ret own t \<and>
     own \<inter> set ys = {} \<and> own \<union> set ys = {0x87FFF000, 0x87FFE000}"
proof -
  have "page_ok demo_kmem 0x87FFF000"
    by (simp add: page_ok_def aligned_def demo_kmem_def PHYSTOP_num)
  then obtain own t ys where
    "serve kalloc kfree [Alloc, Alloc, Free 0x87FFF000] {0x87FFF000} demo_kmem = Ret own t"
    "own \<inter> set ys = {}" "own \<union> set ys = {0x87FFF000, 0x87FFE000}"
    using kalloc_exclusive [OF demo_kmem_ok, of "{0x87FFF000}" "[Alloc, Alloc, Free 0x87FFF000]"]
    by (auto simp del: serve.simps simp: insert_commute)
  then show ?thesis by blast
qed

text \<open>
  C17: \<^verbatim>\<open>kinit\<close> puts exactly the whole pages between \<^verbatim>\<open>end\<close> and \<^verbatim>\<open>PHYSTOP\<close> on the free list,
  each once, and returns.
\<close>

theorem kinit_frees_all:
  assumes "0 < end_addr s" and "end_addr s \<le> PHYSTOP" and "cpu_ok s" and "freelist s = 0"
  shows "\<exists>t xs. kinit s = Ret () t \<and> kmem_ok t xs \<and> set xs = {p. page_ok s p}"
proof -
  let ?p = "PGROUNDUP (end_addr s)" and ?s = "initlock Kmem_lock ''kmem'' s"
  note b = PGROUNDUP_bounds [OF assms(2)]
  have ok: "kmem_ok ?s []" using assms by (intro kinit_boot)
  have e: "end_addr ?s = end_addr s" by (simp add: initlock_def upd_lk_def)
  have "unat ?p \<le> 0x88000000" using b(3) by (simp add: word_le_nat_alt PHYSTOP_num)
  moreover have "4096 dvd unat ?p" using b(1) by (auto simp: aligned_def)
  ultimately obtain n where n: "unat ?p + 4096 * n = 0x88000000"
  proof -
    assume *: "\<And>n. unat ?p + 4096 * n = 0x88000000 \<Longrightarrow> thesis"
    obtain k where k: "unat ?p = 4096 * k" using \<open>4096 dvd unat ?p\<close> by (elim dvdE)
    then have "k \<le> 0x88000" using \<open>unat ?p \<le> 0x88000000\<close> by simp
    then show thesis using * [of "0x88000 - k"] k by simp
  qed
  have "\<exists>t ys. freerange_loop ?p PHYSTOP ?s = Ret () t \<and> kmem_ok t (ys @ []) \<and>
      end_addr t = end_addr ?s \<and> set ys = {q. aligned q \<and> ?p \<le> q \<and> q < PHYSTOP}"
    using b(2) e n by (intro freerange_pages [OF ok b(1)]) simp_all
  then obtain t ys where "freerange_loop ?p PHYSTOP ?s = Ret () t" "kmem_ok t ys"
      "set ys = {q. aligned q \<and> ?p \<le> q \<and> q < PHYSTOP}"
    by auto
  moreover have "{q. aligned q \<and> ?p \<le> q \<and> q < PHYSTOP} = {p. page_ok s p}"
    using b(4) by (auto simp: page_ok_def)
  ultimately show ?thesis by (auto simp: kinit_def freerange_def)
qed

theorem kinit_frees_all_witness:
  "\<exists>t xs. kinit (demo_kmem\<lparr>freelist := 0\<rparr>) = Ret () t \<and> kmem_ok t xs \<and> 0x87FFF000 \<in> set xs"
proof -
  have "page_ok (demo_kmem\<lparr>freelist := 0\<rparr>) 0x87FFF000"
    by (simp add: page_ok_def aligned_def demo_kmem_def PHYSTOP_num)
  moreover have "cpu_ok (demo_kmem\<lparr>freelist := 0\<rparr>)"
    by (simp add: cpu_ok_def demo_kmem_def demo_core_def)
  ultimately show ?thesis
    using kinit_frees_all [of "demo_kmem\<lparr>freelist := 0\<rparr>"] by (auto simp: demo_kmem_def PHYSTOP_num)
qed

end
