(* ===== verification/Vm.thy ===== *)
theory Vm
  imports Kalloc
begin

text \<open>
  \<^verbatim>\<open>kernel/vm.c\<close>: Sv39 page tables, user address spaces, and copying between kernel and user
  memory.  Page tables live in physical memory; a page-table pointer is the address of its
  root page.  The linker symbols \<^verbatim>\<open>etext\<close> and \<^verbatim>\<open>trampoline\<close> are parameters kept in the state.
  A kernel-side buffer that \<^verbatim>\<open>copyin\<close>, \<^verbatim>\<open>copyinstr\<close> or \<^verbatim>\<open>copyout\<close> fills or reads is
  represented by its bytes: the copying routines return the bytes they wrote to \<^verbatim>\<open>dst\<close>, or
  take the \<^verbatim>\<open>len\<close> bytes at \<^verbatim>\<open>src\<close>.
\<close>

record kvm = kmem +
  kernel_pagetable :: uint64
  etext_addr :: uint64
  trampoline_addr :: uint64

section \<open>Walking a page table\<close>

definition slot :: "uint64 \<Rightarrow> uint64 \<Rightarrow> uint64" where
  "slot pagetable i = pagetable + 8 * i"

fun walk_loop ::
  "nat \<Rightarrow> uint64 \<Rightarrow> uint64 \<Rightarrow> bool \<Rightarrow> 'a kmem_scheme \<Rightarrow> (uint64, 'a kmem_scheme) outcome" where
  "walk_loop 0 pagetable va alloc s = Ret (slot pagetable (PX 0 va)) s"
| "walk_loop (Suc l) pagetable va alloc s =
     (let pte = slot pagetable (PX (Suc l) va); v = load64 (mem s) pte
      in if v AND PTE_V \<noteq> 0 then walk_loop l (PTE2PA v) va alloc s
         else if \<not> alloc then Ret 0 s
         else bnd (kalloc s) (\<lambda>p s.
           if p = 0 then Ret 0 s
           else let s = s\<lparr>mem := memset (mem s) p 0 4096\<rparr>;
                    s = s\<lparr>mem := store64 (mem s) pte (PA2PTE p OR PTE_V)\<rparr>
                in walk_loop l p va alloc s))"

definition walk ::
  "uint64 \<Rightarrow> uint64 \<Rightarrow> bool \<Rightarrow> 'a kmem_scheme \<Rightarrow> (uint64, 'a kmem_scheme) outcome" where
  "walk pagetable va alloc s =
     (if MAXVA \<le> va then Panic ''walk'' else walk_loop 2 pagetable va alloc s)"

definition walkaddr :: "uint64 \<Rightarrow> uint64 \<Rightarrow> 'a kmem_scheme \<Rightarrow> (uint64, 'a kmem_scheme) outcome" where
  "walkaddr pagetable va s =
     (if MAXVA \<le> va then Ret 0 s
      else bnd (walk pagetable va False s) (\<lambda>pte s.
        if pte = 0 then Ret 0 s
        else if load64 (mem s) pte AND PTE_V = 0 then Ret 0 s
        else if load64 (mem s) pte AND PTE_U = 0 then Ret 0 s
        else Ret (PTE2PA (load64 (mem s) pte)) s))"

definition kvmpa :: "uint64 \<Rightarrow> 'a kvm_scheme \<Rightarrow> (uint64, 'a kvm_scheme) outcome" where
  "kvmpa va s =
     (let off = va mod PGSIZE
      in bnd (walk (kernel_pagetable s) va False s) (\<lambda>pte s.
        if pte = 0 then Panic ''kvmpa''
        else if load64 (mem s) pte AND PTE_V = 0 then Panic ''kvmpa''
        else Ret (PTE2PA (load64 (mem s) pte) + off) s))"

lemma walk_Ret_MAXVA: "walk pt va alloc s = Ret a t \<Longrightarrow> unat va < 0x4000000000"
  by (auto simp: walk_def MAXVA_num word_le_nat_alt not_le split: if_splits)

text \<open>
  The loops below advance a page cursor by \<^verbatim>\<open>PGSIZE\<close> and end because \<^verbatim>\<open>walk\<close> panics at
  \<^verbatim>\<open>MAXVA\<close>, long before the cursor can wrap around.
\<close>

definition room :: "uint64 \<Rightarrow> nat" where
  "room a = 2 ^ 64 - unat a"

lemma room_step: "unat a < 0x4000000000 \<Longrightarrow> room (a + PGSIZE) < room a"
  by (simp add: room_def PGSIZE_def unat_word_ariths)

lemma walk_cursor: "walk pt a alloc s = Ret p t \<Longrightarrow> room (a + PGSIZE) < room a"
  using walk_Ret_MAXVA room_step by blast

section \<open>Mapping pages\<close>

function mappages_loop :: "uint64 \<Rightarrow> uint64 \<Rightarrow> uint64 \<Rightarrow> uint64 \<Rightarrow> uint64 \<Rightarrow> 'a kmem_scheme \<Rightarrow>
    (int, 'a kmem_scheme) outcome" where
  "mappages_loop pagetable a lst pa perm s =
     bnd (walk pagetable a True s) (\<lambda>pte s.
       if pte = 0 then Ret (-1) s
       else if load64 (mem s) pte AND PTE_V \<noteq> 0 then Panic ''remap''
       else let s = s\<lparr>mem := store64 (mem s) pte (PA2PTE pa OR perm OR PTE_V)\<rparr>
            in if a = lst then Ret 0 s
               else mappages_loop pagetable (a + PGSIZE) lst (pa + PGSIZE) perm s)"
  by auto
termination
  by (relation "measure (\<lambda>(_, a, _). room a)") (auto intro: walk_cursor)

declare mappages_loop.simps [simp del]

definition mappages :: "uint64 \<Rightarrow> uint64 \<Rightarrow> uint64 \<Rightarrow> uint64 \<Rightarrow> uint64 \<Rightarrow> 'a kmem_scheme \<Rightarrow>
    (int, 'a kmem_scheme) outcome" where
  "mappages pagetable va sz pa perm s =
     mappages_loop pagetable (PGROUNDDOWN va) (PGROUNDDOWN (va + sz - 1)) pa perm s"

definition kvmmap ::
  "uint64 \<Rightarrow> uint64 \<Rightarrow> uint64 \<Rightarrow> uint64 \<Rightarrow> 'a kvm_scheme \<Rightarrow> (unit, 'a kvm_scheme) outcome" where
  "kvmmap va pa sz perm s =
     bnd (mappages (kernel_pagetable s) va sz pa perm s) (\<lambda>r s.
       if r \<noteq> 0 then Panic ''kvmmap'' else Ret () s)"

definition kvminit :: "'a kvm_scheme \<Rightarrow> (unit, 'a kvm_scheme) outcome" where
  "kvminit s =
     bnd (kalloc s) (\<lambda>p s.
     let s = s\<lparr>kernel_pagetable := p\<rparr>;
         s = s\<lparr>mem := memset (mem s) (kernel_pagetable s) 0 4096\<rparr>
     in bnd (kvmmap UART0 UART0 PGSIZE (PTE_R OR PTE_W) s) (\<lambda>_ s.
        bnd (kvmmap VIRTIO0 VIRTIO0 PGSIZE (PTE_R OR PTE_W) s) (\<lambda>_ s.
        bnd (kvmmap CLINT CLINT 0x10000 (PTE_R OR PTE_W) s) (\<lambda>_ s.
        bnd (kvmmap PLIC PLIC 0x400000 (PTE_R OR PTE_W) s) (\<lambda>_ s.
        bnd (kvmmap KERNBASE KERNBASE (etext_addr s - KERNBASE) (PTE_R OR PTE_X) s) (\<lambda>_ s.
        bnd (kvmmap (etext_addr s) (etext_addr s) (PHYSTOP - etext_addr s) (PTE_R OR PTE_W) s) (\<lambda>_ s.
        kvmmap TRAMPOLINE (trampoline_addr s) PGSIZE (PTE_R OR PTE_X) s)))))))"

definition kvminithart :: "'a kvm_scheme \<Rightarrow> 'a kvm_scheme" where
  "kvminithart s = sfence_vma (w_satp (MAKE_SATP (kernel_pagetable s)) s)"

section \<open>User address spaces\<close>

function uvmunmap_loop :: "uint64 \<Rightarrow> uint64 \<Rightarrow> uint64 \<Rightarrow> bool \<Rightarrow> 'a kmem_scheme \<Rightarrow>
    (unit, 'a kmem_scheme) outcome" where
  "uvmunmap_loop pagetable a bound do_free s =
     (if a < bound then
        bnd (walk pagetable a False s) (\<lambda>pte s.
          if pte = 0 then Panic ''uvmunmap: walk''
          else if load64 (mem s) pte AND PTE_V = 0 then Panic ''uvmunmap: not mapped''
          else if PTE_FLAGS (load64 (mem s) pte) = PTE_V then Panic ''uvmunmap: not a leaf''
          else bnd (if do_free then kfree (PTE2PA (load64 (mem s) pte)) s else Ret () s) (\<lambda>_ s.
            uvmunmap_loop pagetable (a + PGSIZE) bound do_free (s\<lparr>mem := store64 (mem s) pte 0\<rparr>)))
      else Ret () s)"
  by auto
termination
  by (relation "measure (\<lambda>(_, a, _). room a)") (auto intro: walk_cursor)

declare uvmunmap_loop.simps [simp del]

definition uvmunmap :: "uint64 \<Rightarrow> uint64 \<Rightarrow> uint64 \<Rightarrow> bool \<Rightarrow> 'a kmem_scheme \<Rightarrow>
    (unit, 'a kmem_scheme) outcome" where
  "uvmunmap pagetable va npages do_free s =
     (if va mod PGSIZE \<noteq> 0 then Panic ''uvmunmap: not aligned''
      else uvmunmap_loop pagetable va (va + npages * PGSIZE) do_free s)"

definition uvmcreate :: "'a kmem_scheme \<Rightarrow> (uint64, 'a kmem_scheme) outcome" where
  "uvmcreate s =
     bnd (kalloc s) (\<lambda>pagetable s.
       if pagetable = 0 then Ret 0 s
       else Ret pagetable (s\<lparr>mem := memset (mem s) pagetable 0 4096\<rparr>))"

definition uvminit ::
  "uint64 \<Rightarrow> byte list \<Rightarrow> uint32 \<Rightarrow> 'a kmem_scheme \<Rightarrow> (unit, 'a kmem_scheme) outcome" where
  "uvminit pagetable src sz s =
     (if 4096 \<le> sz then Panic ''inituvm: more than a page''
      else bnd (kalloc s) (\<lambda>p s.
        let s = s\<lparr>mem := memset (mem s) p 0 4096\<rparr>
        in bnd (mappages pagetable 0 PGSIZE p (PTE_W OR PTE_R OR PTE_X OR PTE_U) s) (\<lambda>_ s.
           Ret () (s\<lparr>mem := put_bytes (mem s) p (take (unat sz) src)\<rparr>))))"

text \<open>The page count of \<^verbatim>\<open>uvmdealloc\<close> passes through a C \<^verbatim>\<open>int\<close>.\<close>

definition uvmdealloc ::
  "uint64 \<Rightarrow> uint64 \<Rightarrow> uint64 \<Rightarrow> 'a kmem_scheme \<Rightarrow> (uint64, 'a kmem_scheme) outcome" where
  "uvmdealloc pagetable oldsz newsz s =
     (if oldsz \<le> newsz then Ret oldsz s
      else if PGROUNDUP newsz < PGROUNDUP oldsz then
        let npages = ucast ((PGROUNDUP oldsz - PGROUNDUP newsz) div PGSIZE) :: uint32
        in bnd (uvmunmap pagetable (PGROUNDUP newsz) (scast npages) True s) (\<lambda>_ s. Ret newsz s)
      else Ret newsz s)"

lemma mappages_Ret_MAXVA:
  assumes "mappages pt va sz pa perm s = Ret r t"
  shows "unat va < 0x4000000000"
proof -
  obtain a u where "walk pt (PGROUNDDOWN va) True s = Ret a u"
    using assms unfolding mappages_def by (subst (asm) mappages_loop.simps) blast
  then have "unat va div 4096 * 4096 < 0x4000000000"
    using walk_Ret_MAXVA by (simp add: unat_PGROUNDDOWN [symmetric])
  then have "unat va div 4096 < 0x4000000" by simp
  then show ?thesis by (simp add: div_less_iff_less_mult)
qed

function uvmalloc_loop :: "uint64 \<Rightarrow> uint64 \<Rightarrow> uint64 \<Rightarrow> uint64 \<Rightarrow> 'a kmem_scheme \<Rightarrow>
    (uint64, 'a kmem_scheme) outcome" where
  "uvmalloc_loop pagetable a oldsz newsz s =
     (if a < newsz then
        bnd (kalloc s) (\<lambda>p s.
          if p = 0 then bnd (uvmdealloc pagetable a oldsz s) (\<lambda>_ s. Ret 0 s)
          else let s = s\<lparr>mem := memset (mem s) p 0 4096\<rparr>
               in bnd (mappages pagetable a PGSIZE p (PTE_W OR PTE_X OR PTE_R OR PTE_U) s) (\<lambda>r s.
                  if r \<noteq> 0 then
                    bnd (kfree p s) (\<lambda>_ s. bnd (uvmdealloc pagetable a oldsz s) (\<lambda>_ s. Ret 0 s))
                  else uvmalloc_loop pagetable (a + PGSIZE) oldsz newsz s))
      else Ret newsz s)"
  by auto
termination
proof (relation "measure (\<lambda>(_, a, _). room a)", goal_cases)
  case (2 pagetable a oldsz newsz s p t t' r u)
  then have "unat a < 0x4000000000" by (blast dest: mappages_Ret_MAXVA)
  then show ?case by (simp add: room_step)
qed simp

declare uvmalloc_loop.simps [simp del]

definition uvmalloc ::
  "uint64 \<Rightarrow> uint64 \<Rightarrow> uint64 \<Rightarrow> 'a kmem_scheme \<Rightarrow> (uint64, 'a kmem_scheme) outcome" where
  "uvmalloc pagetable oldsz newsz s =
     (if newsz < oldsz then Ret oldsz s
      else let oldsz = PGROUNDUP oldsz in uvmalloc_loop pagetable oldsz oldsz newsz s)"

text \<open>
  \<^verbatim>\<open>freewalk\<close> recurses along whatever the table points to; on a cyclic table it does not
  return.  \<open>freewalk_from i\<close> is the loop from entry \<open>i\<close> on.
\<close>

partial_function (option) freewalk_from ::
  "nat \<Rightarrow> uint64 \<Rightarrow> 'a kmem_scheme \<Rightarrow> (unit, 'a kmem_scheme) outcome option" where
  "freewalk_from i pagetable s =
     (if 512 \<le> i then Some (kfree pagetable s)
      else let pte = load64 (mem s) (slot pagetable (of_nat i))
           in if pte AND PTE_V \<noteq> 0 \<and> pte AND (PTE_R OR PTE_W OR PTE_X) = 0 then
                Option.bind (freewalk_from 0 (PTE2PA pte) s) (\<lambda>r.
                  case r of
                    Ret _ s \<Rightarrow> freewalk_from (Suc i) pagetable
                      (s\<lparr>mem := store64 (mem s) (slot pagetable (of_nat i)) 0\<rparr>)
                  | Panic msg \<Rightarrow> Some (Panic msg)
                  | Swtch s \<Rightarrow> Some (Swtch s)
                  | Spin s \<Rightarrow> Some (Spin s))
              else if pte AND PTE_V \<noteq> 0 then Some (Panic ''freewalk: leaf'')
              else freewalk_from (Suc i) pagetable s)"

definition freewalk :: "uint64 \<Rightarrow> 'a kmem_scheme \<Rightarrow> (unit, 'a kmem_scheme) outcome" where
  "freewalk pagetable s = (case freewalk_from 0 pagetable s of Some r \<Rightarrow> r | None \<Rightarrow> Spin s)"

definition uvmfree :: "uint64 \<Rightarrow> uint64 \<Rightarrow> 'a kmem_scheme \<Rightarrow> (unit, 'a kmem_scheme) outcome" where
  "uvmfree pagetable sz s =
     bnd (if 0 < sz then uvmunmap pagetable 0 (PGROUNDUP sz div PGSIZE) True s else Ret () s) (\<lambda>_ s.
       freewalk pagetable s)"

function uvmcopy_loop :: "uint64 \<Rightarrow> uint64 \<Rightarrow> uint64 \<Rightarrow> uint64 \<Rightarrow> 'a kmem_scheme \<Rightarrow>
    (int, 'a kmem_scheme) outcome" where
  "uvmcopy_loop old i new sz s =
     (if i < sz then
        bnd (walk old i False s) (\<lambda>pte s.
          if pte = 0 then Panic ''uvmcopy: pte should exist''
          else if load64 (mem s) pte AND PTE_V = 0 then Panic ''uvmcopy: page not present''
          else let pa = PTE2PA (load64 (mem s) pte);
                   flags = PTE_FLAGS (load64 (mem s) pte)
               in bnd (kalloc s) (\<lambda>p s.
                  if p = 0 then
                    bnd (uvmunmap new 0 (i div PGSIZE) True s) (\<lambda>_ s. Ret (-1) s)
                  else let s = s\<lparr>mem := memmove (mem s) p pa 4096\<rparr>
                       in bnd (mappages new i PGSIZE p flags s) (\<lambda>r s.
                          if r \<noteq> 0 then
                            bnd (kfree p s) (\<lambda>_ s.
                              bnd (uvmunmap new 0 (i div PGSIZE) True s) (\<lambda>_ s. Ret (-1) s))
                          else uvmcopy_loop old (i + PGSIZE) new sz s)))
      else Ret 0 s)"
  by auto
termination
  by (relation "measure (\<lambda>(_, i, _). room i)") (auto intro: walk_cursor)

declare uvmcopy_loop.simps [simp del]

definition uvmcopy :: "uint64 \<Rightarrow> uint64 \<Rightarrow> uint64 \<Rightarrow> 'a kmem_scheme \<Rightarrow> (int, 'a kmem_scheme) outcome" where
  "uvmcopy old new sz s = uvmcopy_loop old 0 new sz s"

definition uvmclear :: "uint64 \<Rightarrow> uint64 \<Rightarrow> 'a kmem_scheme \<Rightarrow> (unit, 'a kmem_scheme) outcome" where
  "uvmclear pagetable va s =
     bnd (walk pagetable va False s) (\<lambda>pte s.
       if pte = 0 then Panic ''uvmclear''
       else Ret () (s\<lparr>mem := store64 (mem s) pte (load64 (mem s) pte AND NOT PTE_U)\<rparr>))"

section \<open>Copying between kernel and user memory\<close>

definition span :: "uint64 \<Rightarrow> nat \<Rightarrow> nat" where
  "span va len = (let n = PGSIZE - (va - PGROUNDDOWN va) in min (unat n) len)"

lemma page_offset: "unat (va - PGROUNDDOWN va) < 4096"
  using in_page_iff [of "PGROUNDDOWN va" va] by (simp add: aligned_def in_page_def)

lemma span_eq: "span va len = min (4096 - unat (va - PGROUNDDOWN va)) len"
proof -
  have "va - PGROUNDDOWN va \<le> 4096" using page_offset [of va] by (simp add: word_le_nat_alt)
  then have "unat (4096 - (va - PGROUNDDOWN va)) = 4096 - unat (va - PGROUNDDOWN va)"
    using unat_sub [of "va - PGROUNDDOWN va" 4096] by simp
  then show ?thesis by (simp only: span_def PGSIZE_def Let_def)
qed

lemma span_pos: "0 < len \<Longrightarrow> 0 < span va len"
  using page_offset [of va] unfolding span_eq by linarith

lemma span_le: "span va len \<le> len"
  by (simp add: span_def)

function copyout :: "uint64 \<Rightarrow> uint64 \<Rightarrow> byte list \<Rightarrow> 'a kmem_scheme \<Rightarrow> (int, 'a kmem_scheme) outcome" where
  "copyout pagetable dstva src s =
     (if 0 < length src then
        let va0 = PGROUNDDOWN dstva
        in bnd (walkaddr pagetable va0 s) (\<lambda>pa0 s.
           if pa0 = 0 then Ret (-1) s
           else let n = span dstva (length src);
                    s = s\<lparr>mem := put_bytes (mem s) (pa0 + (dstva - va0)) (take n src)\<rparr>
                in copyout pagetable (va0 + PGSIZE) (drop n src) s)
      else Ret 0 s)"
  by auto
termination
  by (relation "measure (\<lambda>(_, _, src, _). length src)") (auto simp: span_pos)

declare copyout.simps [simp del]

function copyin :: "uint64 \<Rightarrow> uint64 \<Rightarrow> nat \<Rightarrow> 'a kmem_scheme \<Rightarrow> (int \<times> byte list, 'a kmem_scheme) outcome" where
  "copyin pagetable srcva len s =
     (if 0 < len then
        let va0 = PGROUNDDOWN srcva
        in bnd (walkaddr pagetable va0 s) (\<lambda>pa0 s.
           if pa0 = 0 then Ret (-1, []) s
           else let n = span srcva len;
                    dst = bytes_at (mem s) (pa0 + (srcva - va0)) n
                in bnd (copyin pagetable (va0 + PGSIZE) (len - n) s) (\<lambda>(r, bs) s.
                   Ret (r, dst @ bs) s))
      else Ret (0, []) s)"
  by auto
termination
  by (relation "measure (\<lambda>(_, _, len, _). len)") (auto simp: span_pos)

declare copyin.simps [simp del]

text \<open>
  The inner loop of \<^verbatim>\<open>copyinstr\<close> copies up to \<open>n\<close> bytes at \<open>p\<close> until a NUL; it returns
  whether it found one, and the bytes it stored.
\<close>

primrec copystr :: "memory \<Rightarrow> uint64 \<Rightarrow> nat \<Rightarrow> bool \<times> byte list" where
  "copystr m p 0 = (False, [])"
| "copystr m p (Suc n) =
     (if m p = 0 then (True, [0])
      else let (got_null, bs) = copystr m (p + 1) n in (got_null, m p # bs))"

function copyinstr :: "uint64 \<Rightarrow> uint64 \<Rightarrow> nat \<Rightarrow> 'a kmem_scheme \<Rightarrow>
    (int \<times> byte list, 'a kmem_scheme) outcome" where
  "copyinstr pagetable srcva mx s =
     (if 0 < mx then
        let va0 = PGROUNDDOWN srcva
        in bnd (walkaddr pagetable va0 s) (\<lambda>pa0 s.
           if pa0 = 0 then Ret (-1, []) s
           else let n = span srcva mx;
                    (got_null, bs) = copystr (mem s) (pa0 + (srcva - va0)) n
                in if got_null then Ret (0, bs) s
                   else bnd (copyinstr pagetable (va0 + PGSIZE) (mx - n) s) (\<lambda>(r, bs') s.
                     Ret (r, bs @ bs') s))
      else Ret (-1, []) s)"
  by auto
termination
  by (relation "measure (\<lambda>(_, _, mx, _). mx)") (auto simp: span_pos)

declare copyinstr.simps [simp del]

end
