(* ===== verification/Pagetable.thy ===== *)
theory Pagetable
  imports Vm
begin

text \<open>
  The structure of a page table in memory, and what \<^verbatim>\<open>walk\<close> and \<^verbatim>\<open>mappages\<close> do to it.  A table is
  a tree of pages addressed by index paths: \<open>node m root is\<close> is the page-table page reached
  from the root through the entries \<open>is\<close>.  \<open>pte_of m root va\<close> is the entry the hardware uses
  to translate \<open>va\<close>.
\<close>

section \<open>Entries of a table page\<close>

abbreviation valid :: "uint64 \<Rightarrow> bool" where
  "valid e \<equiv> e AND PTE_V \<noteq> 0"

lemma unat_slot_offset: "i < 512 \<Longrightarrow> k < 8 \<Longrightarrow> unat (8 * i + of_nat k :: uint64) = 8 * unat i + k"
  by (simp add: unat_word_ariths word_less_nat_alt unat_of_nat64 take_bit_nat_eq_self)

lemma slot_in_page: "i < 512 \<Longrightarrow> k < 8 \<Longrightarrow> in_page pt (slot pt i + of_nat k)"
  using unat_slot_offset [of i k] by (simp add: in_page_def slot_def word_less_nat_alt add.assoc)

lemma load_slot_cong:
  assumes "\<And>a. in_page pt a \<Longrightarrow> m' a = m a" and "i < 512"
  shows "load64 m' (slot pt i) = load64 m (slot pt i)"
  using assms slot_in_page by (intro load64_cong) blast

lemma store_slot_frame:
  assumes "i < 512" and "\<not> in_page pt a"
  shows "store64 m (slot pt i) v a = m a"
proof (cases "unat (a - slot pt i) < 8")
  case True
  then obtain k where "k < 8" "a = slot pt i + of_nat k"
    using range_shift [of a "slot pt i" 8] by auto
  then show ?thesis using slot_in_page [OF assms(1)] assms(2) by blast
qed (simp add: store64_frame)

lemma load_store_apart:
  assumes "8 \<le> unat (b - a)" and "8 \<le> unat (a - b)"
  shows "load64 (store64 m a v) b = load64 m b"
proof (rule load64_cong)
  fix i :: nat assume i: "i < 8"
  have "8 \<le> unat (b + of_nat i - a)"
  proof (rule ccontr)
    assume "\<not> 8 \<le> unat (b + of_nat i - a)"
    then obtain k where k: "k < 8" "b + of_nat i = a + of_nat k"
      using range_shift [of "b + of_nat i" a 8] by auto
    show False
    proof (cases "i \<le> k")
      case True
      then have "b - a = of_nat (k - i)" using k(2) by (simp add: algebra_simps of_nat_diff)
      then show False using assms(1) k(1) by (simp add: unat_of_nat64)
    next
      case False
      then have "a - b = of_nat (i - k)" using k(2) by (simp add: algebra_simps of_nat_diff)
      then show False using assms(2) i by (simp add: unat_of_nat64)
    qed
  qed
  then show "store64 m a v (b + of_nat i) = m (b + of_nat i)" by (rule store64_frame)
qed

lemma slots_apart:
  assumes "i < 512" "j < 512" "i \<noteq> j"
  shows "8 \<le> unat (slot pt i - slot pt j)"
proof -
  have ij: "unat i < 512" "unat j < 512" "unat i \<noteq> unat j"
    using assms by (simp_all add: word_less_nat_alt word_unat_eq_iff)
  have u: "unat (8 * i) = 8 * unat i" "unat (8 * j) = 8 * unat j"
    using ij by (simp_all add: unat_word_ariths)
  have eq: "slot pt i - slot pt j = 8 * i - 8 * j" by (simp add: slot_def)
  show ?thesis
    unfolding eq unat_sub_if' u using ij by auto
qed

lemma load_store_slot:
  "i < 512 \<Longrightarrow> j < 512 \<Longrightarrow> i \<noteq> j \<Longrightarrow> load64 (store64 m (slot pt i) v) (slot pt j) = load64 m (slot pt j)"
  by (intro load_store_apart slots_apart) auto

lemma load_slot_zero:
  assumes "i < 512"
  shows "load64 (memset m p 0 4096) (slot p i) = 0"
proof -
  have "load64 (memset m p 0 4096) (slot p i) = load64 (\<lambda>_. 0) (slot p i)"
    using assms by (intro load_slot_cong) (simp_all add: memset_4096 in_page_def)
  then show ?thesis by (simp add: load64_def bytes_at_def map_replicate_const)
qed

lemma slot_nonzero:
  assumes "page_ok s pt" and "0 < end_addr s" and "i < 512"
  shows "slot pt i \<noteq> 0"
proof
  assume z: "slot pt i = 0"
  have "unat pt < 0x88000000" "0 < unat pt" "unat i < 512"
    using assms by (auto simp: page_ok_def PHYSTOP_num word_less_nat_alt word_le_nat_alt)
  moreover from z have "unat (pt + 8 * i) = 0" by (simp add: slot_def)
  ultimately show False by (simp add: unat_word_ariths)
qed

section \<open>The tree of table pages\<close>

definition child :: "memory \<Rightarrow> uint64 \<Rightarrow> uint64 \<Rightarrow> uint64 option" where
  "child m pt i = (let e = load64 m (slot pt i) in if valid e then Some (PTE2PA e) else None)"

primrec node :: "memory \<Rightarrow> uint64 \<Rightarrow> uint64 list \<Rightarrow> uint64 option" where
  "node m pt [] = Some pt"
| "node m pt (i # is) = (case child m pt i of None \<Rightarrow> None | Some a \<Rightarrow> node m a is)"

definition path_ok :: "uint64 list \<Rightarrow> bool" where
  "path_ok is \<longleftrightarrow> length is \<le> 2 \<and> (\<forall>i\<in>set is. i < 512)"

definition tabs :: "memory \<Rightarrow> uint64 \<Rightarrow> uint64 set" where
  "tabs m root = {a. \<exists>is. path_ok is \<and> node m root is = Some a}"

text \<open>
  \<open>ptw s root\<close>: the table is a tree (no page is reached along two paths), its pages are
  pages the allocator manages, its inner entries carry no permissions, and the upper half of the
  root page, for addresses from \<^verbatim>\<open>MAXVA\<close> on, is empty.
\<close>

definition ptw :: "'a kmem_scheme \<Rightarrow> uint64 \<Rightarrow> bool" where
  "ptw s root \<longleftrightarrow>
     (\<forall>is a. path_ok is \<longrightarrow> node (mem s) root is = Some a \<longrightarrow> page_ok s a) \<and>
     (\<forall>is js a. path_ok is \<longrightarrow> path_ok js \<longrightarrow> node (mem s) root is = Some a \<longrightarrow>
        node (mem s) root js = Some a \<longrightarrow> is = js) \<and>
     (\<forall>is i a. path_ok (is @ [i]) \<longrightarrow> node (mem s) root is = Some a \<longrightarrow> valid (load64 (mem s) (slot a i)) \<longrightarrow>
        load64 (mem s) (slot a i) AND (PTE_R OR PTE_W OR PTE_X) = 0) \<and>
     (\<forall>i. 256 \<le> i \<longrightarrow> i < 512 \<longrightarrow> node (mem s) root [i] = None)"

definition path :: "uint64 \<Rightarrow> nat \<Rightarrow> uint64 list" where
  "path va l = map (\<lambda>k. PX k va) (rev [Suc l..<3])"

definition pte_of :: "memory \<Rightarrow> uint64 \<Rightarrow> uint64 \<Rightarrow> uint64" where
  "pte_of m root va = (case node m root (path va 0) of None \<Rightarrow> 0
     | Some tb \<Rightarrow> load64 m (slot tb (PX 0 va)))"

lemma node_snoc: "node m pt (is @ [i]) = Option.bind (node m pt is) (\<lambda>a. child m a i)"
  by (induction "is" arbitrary: pt) (auto split: option.splits)

lemma path_ok_snoc: "path_ok (is @ [i]) \<longleftrightarrow> length is < 2 \<and> path_ok is \<and> i < 512"
  by (auto simp: path_ok_def)

lemma path_ok_Nil [simp]: "path_ok []"
  by (simp add: path_ok_def)

lemma PX_512 [simp]: "PX l va < 512"
  using PX_less [of l va] by (simp add: word_less_nat_alt)

lemma path_step: "l < 2 \<Longrightarrow> path va l = path va (Suc l) @ [PX (Suc l) va]"
  by (simp add: path_def upt_conv_Cons)

lemma path_top [simp]: "path va 2 = []"
  by (simp add: path_def)

lemma path_0: "path va 0 = [PX 2 va, PX 1 va]"
  by (simp add: path_def upt_rec numeral_3_eq_3 numeral_2_eq_2)

lemma path_ok_path [simp]: "path_ok (path va l)"
  by (auto simp: path_ok_def path_def)

lemma length_path0 [simp]: "length (path va 0) = 2"
  by (simp add: path_0)

lemma ptw_D:
  assumes "ptw s root" and "path_ok is" and "node (mem s) root is = Some a"
  shows "page_ok s a" and "aligned a"
    and "path_ok js \<Longrightarrow> node (mem s) root js = Some a \<Longrightarrow> js = is"
    and "path_ok (is @ [i]) \<Longrightarrow> valid (load64 (mem s) (slot a i)) \<Longrightarrow>
      load64 (mem s) (slot a i) AND (PTE_R OR PTE_W OR PTE_X) = 0"
proof -
  show ok: "page_ok s a" using assms by (simp add: ptw_def)
  then show "aligned a" by (simp add: page_ok_def)
  show "js = is" if "path_ok js" "node (mem s) root js = Some a"
    using assms that unfolding ptw_def by blast
  show "load64 (mem s) (slot a i) AND (PTE_R OR PTE_W OR PTE_X) = 0"
    if "path_ok (is @ [i])" "valid (load64 (mem s) (slot a i))"
    using assms that unfolding ptw_def by blast
qed

lemma tabs_I: "path_ok is \<Longrightarrow> node m root is = Some a \<Longrightarrow> a \<in> tabs m root"
  by (auto simp: tabs_def)

lemma tabs_page_ok: "ptw s root \<Longrightarrow> a \<in> tabs (mem s) root \<Longrightarrow> page_ok s a"
  by (auto simp: tabs_def dest: ptw_D(1))

lemma node_frame:
  assumes "\<And>js a b. path_ok js \<Longrightarrow> length js < 2 \<Longrightarrow> node m root js = Some a \<Longrightarrow> in_page a b \<Longrightarrow> m' b = m b"
    and "path_ok is"
  shows "node m' root is = node m root is"
  using assms(2)
proof (induction "is" rule: rev_induct)
  case (snoc i "is")
  then have i: "length is < 2" "path_ok is" "i < 512" by (simp_all add: path_ok_snoc)
  have "child m' a i = child m a i" if "node m root is = Some a" for a
    using load_slot_cong [of a m' m i] assms(1) [OF i(2,1) that] i(3) by (simp add: child_def)
  then show ?case using snoc.IH [OF i(2)]
    by (cases "node m root is") (simp_all add: node_snoc)
qed simp

section \<open>Adding a table page\<close>

lemma valid_iff: "valid e \<longleftrightarrow> bit e 0"
  using bit_and_pow [of e 0] by (simp add: PTE_V_def)

lemma inner_entry:
  assumes "page_ok s p"
  shows "valid (PA2PTE p OR PTE_V)" and "PTE2PA (PA2PTE p OR PTE_V) = p"
    and "(PA2PTE p OR PTE_V) AND (PTE_R OR PTE_W OR PTE_X) = 0"
proof -
  show "valid (PA2PTE p OR PTE_V)" by (simp add: valid_iff PTE_V_num bit_or_iff)
  have "p < 2 ^ 54" using assms by (auto simp: page_ok_def PHYSTOP_num elim: less_trans)
  then show "PTE2PA (PA2PTE p OR PTE_V) = p"
    using assms by (intro PTE2PA_PA2PTE) (simp_all add: page_ok_def aligned_def PTE_V_num)
  show "(PA2PTE p OR PTE_V) AND (PTE_R OR PTE_W OR PTE_X) = 0"
    unfolding PA2PTE_def PTE_V_def PTE_R_def PTE_W_def PTE_X_def
    by (rule bit_word_eqI)
      (simp only: bit_and_iff bit_or_iff bit_push_bit_iff bit_1_iff bit_0_eq bot_apply, auto)
qed

text \<open>
  The table after a fresh zeroed page \<open>p\<close> has been hung into entry \<open>i\<close> of node \<open>is\<close>.
\<close>

definition grown :: "'a kmem_scheme \<Rightarrow> 'a kmem_scheme \<Rightarrow> uint64 \<Rightarrow> uint64 \<Rightarrow> uint64 \<Rightarrow> uint64 list \<Rightarrow>
    uint64 \<Rightarrow> bool" where
  "grown s t root p a is i \<longleftrightarrow>
     ptw s root \<and> path_ok (is @ [i]) \<and> node (mem s) root is = Some a \<and> child (mem s) a i = None \<and>
     page_ok s p \<and> p \<notin> tabs (mem s) root \<and> page_ok t = page_ok s \<and>
     (\<forall>b. \<not> in_page p b \<longrightarrow> \<not> in_page a b \<longrightarrow> mem t b = mem s b) \<and>
     (is = [] \<longrightarrow> i < 256) \<and> (\<forall>j<512. load64 (mem t) (slot p j) = 0) \<and>
     (\<forall>j<512. j \<noteq> i \<longrightarrow> load64 (mem t) (slot a j) = load64 (mem s) (slot a j)) \<and>
     load64 (mem t) (slot a i) = PA2PTE p OR PTE_V"

lemma grown_D:
  assumes "grown s t root p a is i"
  shows "ptw s root" and "path_ok is" and "length is < 2" and "i < 512"
    and "node (mem s) root is = Some a" and "child (mem s) a i = None" and "page_ok s p"
    and "p \<notin> tabs (mem s) root" and "page_ok t = page_ok s"
    and "\<And>b. \<not> in_page p b \<Longrightarrow> \<not> in_page a b \<Longrightarrow> mem t b = mem s b"
    and "\<And>j. j < 512 \<Longrightarrow> load64 (mem t) (slot p j) = 0"
    and "\<And>j. j < 512 \<Longrightarrow> j \<noteq> i \<Longrightarrow> load64 (mem t) (slot a j) = load64 (mem s) (slot a j)"
    and "load64 (mem t) (slot a i) = PA2PTE p OR PTE_V"
    and "path_ok (is @ [i])" and "node (mem s) root (is @ [i]) = None" and "is = [] \<Longrightarrow> i < 256"
  using assms by (auto simp: grown_def path_ok_snoc node_snoc)

lemma grown_entries:
  assumes g: "grown s t root p a is i"
    and js: "path_ok js" "node (mem s) root js = Some b" "js \<noteq> is" and j: "j < 512"
  shows "load64 (mem t) (slot b j) = load64 (mem s) (slot b j)"
proof -
  note D = grown_D [OF g]
  have "b \<noteq> a" using ptw_D(3) [OF D(1,2,5) js(1)] js(2,3) by auto
  moreover have "b \<noteq> p" using D(8) tabs_I [OF js(1,2)] by auto
  moreover have "aligned b" "aligned a" "aligned p"
    using ptw_D(2) [OF D(1) js(1,2)] ptw_D(2) [OF D(1,2,5)] page_ok_aligned [OF D(7)] by blast+
  ultimately have "mem t c = mem s c" if "in_page b c" for c
    using that in_page_unique D(10) by blast
  then show ?thesis using j by (intro load_slot_cong)
qed

lemma node_grown:
  assumes g: "grown s t root p a is i"
  shows "path_ok js \<Longrightarrow> node (mem t) root js = (if js = is @ [i] then Some p else node (mem s) root js)"
proof (induction js rule: rev_induct)
  case (snoc j js)
  note D = grown_D [OF g]
  from snoc.prems have j: "path_ok js" "j < 512" by (simp_all add: path_ok_snoc)
  note IH = snoc.IH [OF j(1)]
  consider "js = is" | "js = is @ [i]" | "js \<noteq> is" "js \<noteq> is @ [i]" by blast
  then show ?case
  proof cases
    case 1
    then have "node (mem t) root js = Some a" using IH D(5) by simp
    moreover have "child (mem t) a j = (if j = i then Some p else child (mem s) a j)"
      using j(2) D(12) [of j] D(13) inner_entry [OF D(7)] by (simp add: child_def)
    ultimately show ?thesis using 1 D(5) by (simp add: node_snoc)
  next
    case 2
    then have "node (mem t) root js = Some p" and "node (mem s) root js = None"
      using IH D(15) by simp_all
    then show ?thesis using 2 D(11) [OF j(2)] by (simp only: node_snoc) (simp add: child_def)
  next
    case 3
    have "child (mem t) b j = child (mem s) b j" if "node (mem s) root js = Some b" for b
      using grown_entries [OF g j(1) that 3(1) j(2)] by (simp add: child_def)
    then show ?thesis using IH 3 by (cases "node (mem s) root js") (simp_all add: node_snoc)
  qed
qed simp

lemma tabs_grown:
  assumes g: "grown s t root p a is i"
  shows "tabs (mem t) root = insert p (tabs (mem s) root)"
proof -
  have "b \<in> tabs (mem t) root \<longleftrightarrow> b = p \<or> b \<in> tabs (mem s) root" for b
    unfolding tabs_def mem_Collect_eq using grown_D(14,15) [OF g] node_grown [OF g]
    by (metis option.distinct(1) option.inject)
  then show ?thesis by blast
qed

lemma ptw_grown:
  assumes g: "grown s t root p a is i"
  shows "ptw t root"
  unfolding ptw_def
proof (intro conjI allI impI)
  note D = grown_D [OF g]
  note n = node_grown [OF g]
  show "page_ok t b" if js: "path_ok js" "node (mem t) root js = Some b" for js b
    using js(2) n [OF js(1)] D(7,9) ptw_D(1) [OF D(1) js(1)] by (auto split: if_splits)
  show "js = ks" if js: "path_ok js" "path_ok ks" "node (mem t) root js = Some b" "node (mem t) root ks = Some b"
    for js ks b
    using js n [OF js(1)] n [OF js(2)] D(8) tabs_I ptw_D(3) [OF D(1)] by (auto split: if_splits)
  show "load64 (mem t) (slot b j) AND (PTE_R OR PTE_W OR PTE_X) = 0"
    if js: "path_ok (js @ [j])" "node (mem t) root js = Some b" and v: "valid (load64 (mem t) (slot b j))"
    for js j b
  proof -
    from js have j: "path_ok js" "j < 512" by (simp_all add: path_ok_snoc)
    consider "js = is @ [i]" | "node (mem s) root js = Some b" "js = is" "j = i"
      | "node (mem s) root js = Some b" "js \<noteq> is \<or> j \<noteq> i"
      using js(2) n [OF j(1)] by (cases "js = is @ [i]") auto
    then show ?thesis
    proof cases
      case 1
      then show ?thesis using js n [OF j(1)] D(11) j(2) by simp
    next
      case 2
      then show ?thesis using D(5,13) inner_entry [OF D(7)] by simp
    next
      case 3
      then have "load64 (mem t) (slot b j) = load64 (mem s) (slot b j)"
        using grown_entries [OF g j(1) 3(1) _ j(2)] D(12) [OF j(2)] D(5) by (cases "js = is") auto
      then show ?thesis using v ptw_D(4) [OF D(1) j(1) 3(1) js(1)] by simp
    qed
  qed
  show "node (mem t) root [j] = None" if "256 \<le> j" "j < 512" for j
    using that n [of "[j]"] D(1) D(16) by (cases "is") (auto simp: path_ok_def ptw_def)
qed

lemma pte_grown:
  assumes g: "grown s t root p a is i"
  shows "pte_of (mem t) root va = pte_of (mem s) root va"
proof (cases "path va 0 = is @ [i]")
  case True
  then have "node (mem t) root (path va 0) = Some p" "node (mem s) root (path va 0) = None"
    using node_grown [OF g path_ok_path, of va 0] grown_D(15) [OF g] by simp_all
  then show ?thesis using grown_D(11) [OF g] by (simp add: pte_of_def)
next
  case False
  then have n: "node (mem t) root (path va 0) = node (mem s) root (path va 0)"
    using node_grown [OF g path_ok_path, of va 0] by simp
  have "path va 0 \<noteq> is" using grown_D(3) [OF g] by auto
  then show ?thesis
    using n grown_entries [OF g path_ok_path, of va 0] by (auto simp: pte_of_def split: option.splits)
qed

section \<open>Correctness of walk\<close>

definition pt_inv :: "'a kmem_scheme \<Rightarrow> uint64 list \<Rightarrow> uint64 \<Rightarrow> bool" where
  "pt_inv s xs root \<longleftrightarrow> kmem_ok s xs \<and> ptw s root \<and> tabs (mem s) root \<inter> set xs = {}"

text \<open>
  \<open>pt_ext root s xs t ys\<close>: the table has only grown, by pages taken from the front of the free
  list; no translation changed, and no memory outside the table.
\<close>

definition pt_ext :: "uint64 \<Rightarrow> 'a kmem_scheme \<Rightarrow> uint64 list \<Rightarrow> 'a kmem_scheme \<Rightarrow> uint64 list \<Rightarrow> bool" where
  "pt_ext root s xs t ys \<longleftrightarrow> kframe s t \<and> pt_inv t ys root \<and>
     (\<exists>zs. xs = zs @ ys \<and> tabs (mem t) root = tabs (mem s) root \<union> set zs) \<and>
     (\<forall>va. pte_of (mem t) root va = pte_of (mem s) root va) \<and>
     (\<forall>is a. path_ok is \<longrightarrow> node (mem s) root is = Some a \<longrightarrow> node (mem t) root is = Some a) \<and>
     (\<forall>b. (\<forall>q\<in>tabs (mem t) root. \<not> in_page q b) \<longrightarrow> mem t b = mem s b)"

lemma pt_inv_D:
  assumes "pt_inv s xs root"
  shows "kmem_ok s xs" "ptw s root" "tabs (mem s) root \<inter> set xs = {}"
  using assms by (simp_all add: pt_inv_def)

lemma pt_ext_refl: "pt_inv s xs root \<Longrightarrow> pt_ext root s xs s xs"
  by (simp add: pt_ext_def)

lemma pt_ext_D:
  assumes "pt_ext root s xs t ys"
  shows "kframe s t" "pt_inv t ys root" "pte_of (mem t) root va = pte_of (mem s) root va"
    and "tabs (mem s) root \<subseteq> tabs (mem t) root" and "set ys \<subseteq> set xs"
    and "tabs (mem t) root \<union> set ys = tabs (mem s) root \<union> set xs"
    and "path_ok is \<Longrightarrow> node (mem s) root is = Some a \<Longrightarrow> node (mem t) root is = Some a"
    and "(\<And>q. q \<in> tabs (mem t) root \<Longrightarrow> \<not> in_page q b) \<Longrightarrow> mem t b = mem s b"
  using assms by (auto simp: pt_ext_def)

lemma pt_ext_trans:
  assumes 1: "pt_ext root s xs t ys" and 2: "pt_ext root t ys u zs"
  shows "pt_ext root s xs u zs"
  unfolding pt_ext_def
proof (intro conjI allI impI)
  show "kframe s u" using 1 2 kframe_trans by (auto simp: pt_ext_def)
  show "pt_inv u zs root" using 2 by (simp add: pt_ext_def)
  obtain as bs where "xs = as @ ys" "tabs (mem t) root = tabs (mem s) root \<union> set as"
    "ys = bs @ zs" "tabs (mem u) root = tabs (mem t) root \<union> set bs"
    using 1 2 by (auto simp: pt_ext_def)
  then show "\<exists>cs. xs = cs @ zs \<and> tabs (mem u) root = tabs (mem s) root \<union> set cs"
    by (intro exI [of _ "as @ bs"]) auto
  show "pte_of (mem u) root va = pte_of (mem s) root va" for va
    using pt_ext_D(3) [OF 1] pt_ext_D(3) [OF 2] by simp
  show "node (mem u) root is = Some a" if "path_ok is" "node (mem s) root is = Some a" for "is" a
    using that pt_ext_D(7) [OF 1] pt_ext_D(7) [OF 2] by blast
  show "mem u b = mem s b" if b: "\<forall>q\<in>tabs (mem u) root. \<not> in_page q b" for b
  proof -
    have "mem u b = mem t b" using b by (intro pt_ext_D(8) [OF 2]) blast
    also have "\<dots> = mem s b" using b pt_ext_D(4) [OF 2] by (intro pt_ext_D(8) [OF 1]) blast
    finally show ?thesis .
  qed
qed

lemma grow_grown:
  assumes inv: "pt_inv s (p # ys) root"
    and node: "path_ok (is @ [i])" "node (mem s) root is = Some a" "child (mem s) a i = None"
    and low: "is = [] \<Longrightarrow> i < 256"
    and m: "mem t = store64 (memset (memset (mem s) p 5 4096) p 0 4096) (slot a i) (PA2PTE p OR PTE_V)"
    and fr: "kframe s t"
  shows "grown s t root p a is i"
proof -
  note I = pt_inv_D [OF inv]
  have i: "path_ok is" "i < 512" using node(1) by (simp_all add: path_ok_snoc)
  have p: "page_ok s p" using kmem_ok_D(5) [OF I(1)] by simp
  have fresh: "p \<notin> tabs (mem s) root" using I(3) by auto
  have ap: "a \<noteq> p" using fresh tabs_I [OF i(1) node(2)] by auto
  note al = ptw_D(2) [OF I(2) i(1) node(2)] page_ok_aligned [OF p]
  have apart: "\<not> in_page a b" if "in_page p b" for b using that in_page_unique ap al by blast
  have m0: "memset (memset (mem s) p 5 4096) p 0 4096 b = mem s b" if "\<not> in_page p b" for b
    using that by (simp add: memset_page)
  have "load64 (mem t) (slot p j) = 0" if "j < 512" for j
  proof -
    have "load64 (mem t) (slot p j) = load64 (memset (memset (mem s) p 5 4096) p 0 4096) (slot p j)"
      unfolding m using that apart by (intro load_slot_cong) (auto simp: store_slot_frame i(2))
    then show ?thesis using that by (simp add: load_slot_zero)
  qed
  moreover have "load64 (mem t) (slot a j) = load64 (mem s) (slot a j)" if "j < 512" "j \<noteq> i" for j
  proof -
    have "load64 (mem t) (slot a j) = load64 (memset (memset (mem s) p 5 4096) p 0 4096) (slot a j)"
      unfolding m using that i(2) by (intro load_store_slot) auto
    also have "\<dots> = load64 (mem s) (slot a j)"
      using that(1) apart m0 by (intro load_slot_cong) blast+
    finally show ?thesis .
  qed
  moreover have "mem t b = mem s b" if "\<not> in_page p b" "\<not> in_page a b" for b
    unfolding m using that i(2) by (simp add: store_slot_frame m0)
  ultimately show ?thesis
    using I(2) node low p fresh kframe_page_ok [OF fr] by (simp add: grown_def m)
qed

lemma pt_ext_grow:
  assumes inv: "pt_inv s (p # ys) root"
    and node: "path_ok (is @ [i])" "node (mem s) root is = Some a" "child (mem s) a i = None"
    and low: "is = [] \<longrightarrow> i < 256"
    and u: "kframe s u" "kmem_ok u ys" "mem u = memset (mem s) p 5 4096"
    and t: "t = u\<lparr>mem := store64 (memset (mem u) p 0 4096) (slot a i) (PA2PTE p OR PTE_V)\<rparr>"
  shows "pt_ext root s (p # ys) t ys" and "node (mem t) root (is @ [i]) = Some p"
proof -
  note I = pt_inv_D [OF inv]
  have ft: "kframe u t" unfolding t by simp
  have fr: "kframe s t" using u(1) ft by (rule kframe_trans)
  have g: "grown s t root p a is i"
    by (rule grow_grown [OF inv node _ _ fr]) (use low in \<open>simp_all add: t u(3)\<close>)
  note D = grown_D [OF g]
  show n: "node (mem t) root (is @ [i]) = Some p" using node_grown [OF g node(1)] by simp
  have "a \<in> tabs (mem s) root" using D(2,5) by (rule tabs_I)
  then have a: "a \<notin> set ys" "aligned a" using I(3) ptw_D(2) [OF D(1,2,5)] by auto
  have p: "p \<notin> set ys" "aligned p" using kmem_ok_D(4) [OF I(1)] page_ok_aligned [OF D(7)] by simp_all
  have "kmem_ok (u\<lparr>mem := memset (mem u) p 0 4096\<rparr>) ys"
    by (rule kmem_ok_cong [OF u(2) _ _ _ p(2,1)]) (simp_all add: memset_page)
  then have "kmem_ok t ys"
    unfolding t by (rule kmem_ok_cong [OF _ _ _ _ a(2,1)])
      (simp_all add: store_slot_frame D(4) kframe_I [where cp = "cpus u" and f = "freelist u"] core_cong(7))
  then have "pt_inv t ys root"
    using ptw_grown [OF g] tabs_grown [OF g] p(1) I(3) by (simp add: pt_inv_def)
  moreover have "mem t b = mem s b" if "\<forall>q\<in>tabs (mem t) root. \<not> in_page q b" for b
    using D(10) [of b] that tabs_grown [OF g] tabs_I [OF D(2,5)] by blast
  moreover have "node (mem t) root js = Some b" if "path_ok js" "node (mem s) root js = Some b" for js b
    using node_grown [OF g that(1)] that(2) D(15) by auto
  ultimately show "pt_ext root s (p # ys) t ys"
    using fr tabs_grown [OF g] pte_grown [OF g] by (auto simp: pt_ext_def intro!: exI [of _ "[p]"])
qed

lemma low_index:
  assumes "va < MAXVA" and "Suc l \<le> 2"
  shows "path va (Suc l) = [] \<longrightarrow> PX (Suc l) va < 256"
proof
  assume "path va (Suc l) = []"
  then have l: "Suc l = 2" using assms(2) by (auto simp: path_def)
  have "unat va div 2 ^ 30 < 256"
    using assms(1) by (simp add: MAXVA_num word_less_nat_alt div_less_iff_less_mult)
  then have "unat (PX 2 va) < 256" using PX_eq [of 2 va] by simp
  then show "PX (Suc l) va < 256" unfolding l by (simp add: word_less_nat_alt)
qed

lemma walk_loop_alloc:
  assumes "l \<le> 2" and "pt_inv s xs root" and "node (mem s) root (path va l) = Some pt"
    and "va < MAXVA"
  shows "\<exists>a t ys. walk_loop l pt va True s = Ret a t \<and> pt_ext root s xs t ys \<and>
    (a = 0 \<and> ys = [] \<or> a \<noteq> 0 \<and> (\<exists>tb. node (mem t) root (path va 0) = Some tb \<and> a = slot tb (PX 0 va)))"
  using assms
proof (induction l arbitrary: pt s xs)
  case 0
  have "page_ok s pt" using 0(2,3) ptw_D(1) path_ok_path by (metis pt_inv_D(2))
  then have "slot pt (PX 0 va) \<noteq> 0"
    using kmem_ok_D(1) [OF pt_inv_D(1) [OF 0(2)]] by (intro slot_nonzero) simp_all
  then show ?case using 0 pt_ext_refl by fastforce
next
  case (Suc l)
  note I = pt_inv_D [OF Suc.prems(2)]
  let ?i = "PX (Suc l) va" and ?is = "path va (Suc l)"
  have ps: "path va l = ?is @ [?i]" using Suc.prems(1) by (intro path_step) simp
  then have pok: "path_ok (?is @ [?i])" using path_ok_path [of va l] by simp
  show ?case
  proof (cases "valid (load64 (mem s) (slot pt ?i))")
    case True
    then have "node (mem s) root (path va l) = Some (PTE2PA (load64 (mem s) (slot pt ?i)))"
      using Suc.prems(3) by (simp add: ps node_snoc child_def)
    then show ?thesis using True Suc.IH [OF _ Suc.prems(2) _ Suc.prems(4)] Suc.prems(1) by simp
  next
    case False
    then have none: "child (mem s) pt ?i = None" by (simp add: child_def)
    from I(1) show ?thesis
    proof (cases rule: kalloc_cases)
      case none
      have "pt_ext root s [] (s\<lparr>cpus := tcpus s\<rparr>) []"
        using none Suc.prems(2) kframe_page_ok [OF none(3)]
        by (simp add: pt_ext_def pt_inv_def ptw_def)
      then show ?thesis using none False by auto
    next
      case (some p ys u)
      let ?t = "u\<lparr>mem := store64 (memset (mem u) p 0 4096) (slot pt ?i) (PA2PTE p OR PTE_V)\<rparr>"
      have e: "pt_ext root s xs ?t ys" and n: "node (mem ?t) root (path va l) = Some p"
        using pt_ext_grow [OF Suc.prems(2) [unfolded some(1)] pok Suc.prems(3) none _ some(3-5) refl]
          low_index [OF Suc.prems(4,1)]
        by (simp_all add: some(1) ps)
      obtain a t zs where "walk_loop l p va True ?t = Ret a t" "pt_ext root ?t ys t zs"
        "a = 0 \<and> zs = [] \<or> a \<noteq> 0 \<and> (\<exists>tb. node (mem t) root (path va 0) = Some tb \<and> a = slot tb (PX 0 va))"
        using Suc.IH [OF _ pt_ext_D(2) [OF e] n Suc.prems(4)] Suc.prems(1) by auto
      then show ?thesis using False some pt_ext_trans [OF e] by auto
    qed
  qed
qed

end
