(* ===== verification/Mapping_Pages.thy ===== *)
theory Mapping_Pages
  imports Pagetable
begin

text \<open>
  What \<^verbatim>\<open>walk\<close>, \<^verbatim>\<open>walkaddr\<close>, \<^verbatim>\<open>mappages\<close> and \<^verbatim>\<open>uvmunmap\<close> do to the translations of a page
  table, page by page.  \<open>pn va\<close> is the virtual page number of an address.
\<close>

abbreviation pn :: "uint64 \<Rightarrow> nat" where
  "pn va \<equiv> unat va div 4096"

section \<open>Lookups\<close>

lemma walk_loop_find:
  assumes "l \<le> 2" and "node (mem s) root (path va l) = Some pt"
  shows "walk_loop l pt va False s = Ret (case node (mem s) root (path va 0) of None \<Rightarrow> 0
    | Some tb \<Rightarrow> slot tb (PX 0 va)) s"
  using assms
proof (induction l arbitrary: pt)
  case (Suc l)
  have ps: "path va l = path va (Suc l) @ [PX (Suc l) va]" using Suc.prems(1) by (intro path_step) simp
  show ?case
  proof (cases "valid (load64 (mem s) (slot pt (PX (Suc l) va)))")
    case True
    then have "node (mem s) root (path va l) = Some (PTE2PA (load64 (mem s) (slot pt (PX (Suc l) va))))"
      using Suc.prems(2) by (simp add: ps node_snoc child_def)
    then show ?thesis using True Suc.IH Suc.prems(1) by simp
  next
    case False
    then have n: "node (mem s) root (path va l) = None"
      using Suc.prems(2) by (simp add: ps node_snoc child_def)
    have "node (mem s) root (path va 0) = None"
    proof (cases l)
      case (Suc k)
      then have "l = 1" using Suc.prems(1) by simp
      then show ?thesis using n path_step [of 0 va] by (simp add: node_snoc)
    qed (use n in simp)
    then show ?thesis using False by simp
  qed
qed simp

lemma walk_find:
  assumes "va < MAXVA"
  shows "walk root va False s = Ret (case node (mem s) root (path va 0) of None \<Rightarrow> 0
    | Some tb \<Rightarrow> slot tb (PX 0 va)) s"
  using walk_loop_find [of 2 s root va root] assms by (simp add: walk_def not_le)

text \<open>Where the table pages exist, asking for allocation makes no difference.\<close>

lemma walk_loop_found:
  assumes "l \<le> 2" and "node (mem s) root (path va l) = Some pt" and "node (mem s) root (path va 0) = Some tb"
  shows "walk_loop l pt va alloc s = Ret (slot tb (PX 0 va)) s"
  using assms
proof (induction l arbitrary: pt)
  case (Suc l)
  have ps: "path va l = path va (Suc l) @ [PX (Suc l) va]" using Suc.prems(1) by (intro path_step) simp
  have "node (mem s) root (path va l) \<noteq> None"
  proof (cases l)
    case (Suc k)
    then have "l = 1" using Suc.prems(1) by simp
    then show ?thesis using Suc.prems(3) path_step [of 0 va]
      by (cases "node (mem s) root (path va 1)") (simp_all add: node_snoc)
  qed (use Suc.prems(3) in simp)
  then have v: "valid (load64 (mem s) (slot pt (PX (Suc l) va)))"
    using Suc.prems(2) by (auto simp: ps node_snoc child_def Let_def split: if_splits)
  then have "node (mem s) root (path va l) = Some (PTE2PA (load64 (mem s) (slot pt (PX (Suc l) va))))"
    using Suc.prems(2) by (simp add: ps node_snoc child_def)
  then show ?case using v Suc by simp
qed simp

lemma walk_found:
  assumes "va < MAXVA" and "node (mem s) root (path va 0) = Some tb"
  shows "walk root va alloc s = Ret (slot tb (PX 0 va)) s"
  using walk_loop_found [of 2 s root va root tb alloc] assms by (auto simp: walk_def)

lemma leaf_slot_nonzero:
  assumes "pt_inv s xs root" and "node (mem s) root (path va 0) = Some tb"
  shows "slot tb (PX 0 va) \<noteq> 0"
  using assms ptw_D(1) [OF pt_inv_D(2) [OF assms(1)] path_ok_path assms(2)]
    kmem_ok_D(1) [OF pt_inv_D(1) [OF assms(1)]]
  by (intro slot_nonzero) simp_all

text \<open>The result of \<^verbatim>\<open>walk\<close> without allocation, in terms of the entry it finds.\<close>

lemma walk_find_cases:
  assumes "pt_inv s xs root" and "va < MAXVA"
  obtains (none) "walk root va False s = Ret 0 s" and "pte_of (mem s) root va = 0"
  | (some) tb where "walk root va False s = Ret (slot tb (PX 0 va)) s" and "slot tb (PX 0 va) \<noteq> 0"
      and "node (mem s) root (path va 0) = Some tb"
      and "load64 (mem s) (slot tb (PX 0 va)) = pte_of (mem s) root va"
proof (cases "node (mem s) root (path va 0)")
  case None
  then show ?thesis using none assms(2) by (simp add: walk_find pte_of_def)
next
  case (Some tb)
  then show ?thesis
    using some assms(2) leaf_slot_nonzero [OF assms(1)] by (simp add: walk_find pte_of_def)
qed

lemma walkaddr_eq:
  assumes "pt_inv s xs root"
  shows "walkaddr root va s = Ret (if va < MAXVA \<and> valid (pte_of (mem s) root va) \<and>
    pte_of (mem s) root va AND PTE_U \<noteq> 0 then PTE2PA (pte_of (mem s) root va) else 0) s"
proof (cases "va < MAXVA")
  case True
  from assms True show ?thesis
    by (cases rule: walk_find_cases) (auto simp: walkaddr_def not_le)
qed (auto simp: walkaddr_def)

lemma pte_of_same_page:
  assumes "pn va = pn va'"
  shows "pte_of m root va = pte_of m root va'"
  unfolding pte_of_def path_0 PX_same_page [OF assms] ..

section \<open>Changing one leaf entry\<close>

text \<open>
  \<open>pt_grow root s xs t ys\<close>: the table may have new pages and changed leaf entries; memory
  outside the table is the same.
\<close>

definition pt_grow :: "uint64 \<Rightarrow> 'a kmem_scheme \<Rightarrow> uint64 list \<Rightarrow> 'a kmem_scheme \<Rightarrow> uint64 list \<Rightarrow> bool" where
  "pt_grow root s xs t ys \<longleftrightarrow> kframe s t \<and> pt_inv t ys root \<and>
     (\<exists>zs. xs = zs @ ys \<and> tabs (mem t) root = tabs (mem s) root \<union> set zs) \<and>
     (\<forall>b. (\<forall>q\<in>tabs (mem t) root. \<not> in_page q b) \<longrightarrow> mem t b = mem s b)"

lemma pt_ext_grow_weak: "pt_ext root s xs t ys \<Longrightarrow> pt_grow root s xs t ys"
  by (simp add: pt_ext_def pt_grow_def)

lemma pt_grow_refl: "pt_inv s xs root \<Longrightarrow> pt_grow root s xs s xs"
  by (simp add: pt_grow_def)

lemma pt_grow_D:
  assumes "pt_grow root s xs t ys"
  shows "kframe s t" "pt_inv t ys root" "tabs (mem s) root \<subseteq> tabs (mem t) root" "set ys \<subseteq> set xs"
    and "tabs (mem t) root \<union> set ys = tabs (mem s) root \<union> set xs"
    and "(\<And>q. q \<in> tabs (mem t) root \<Longrightarrow> \<not> in_page q b) \<Longrightarrow> mem t b = mem s b"
  using assms by (auto simp: pt_grow_def)

lemma pt_grow_trans:
  assumes 1: "pt_grow root s xs t ys" and 2: "pt_grow root t ys u zs"
  shows "pt_grow root s xs u zs"
  unfolding pt_grow_def
proof (intro conjI allI impI)
  show "kframe s u" using 1 2 kframe_trans by (auto simp: pt_grow_def)
  show "pt_inv u zs root" using 2 by (simp add: pt_grow_def)
  obtain as bs where "xs = as @ ys" "tabs (mem t) root = tabs (mem s) root \<union> set as"
    "ys = bs @ zs" "tabs (mem u) root = tabs (mem t) root \<union> set bs"
    using 1 2 by (auto simp: pt_grow_def)
  then show "\<exists>cs. xs = cs @ zs \<and> tabs (mem u) root = tabs (mem s) root \<union> set cs"
    by (intro exI [of _ "as @ bs"]) auto
  show "mem u b = mem s b" if b: "\<forall>q\<in>tabs (mem u) root. \<not> in_page q b" for b
  proof -
    have "mem u b = mem t b" using b by (intro pt_grow_D(6) [OF 2]) blast
    also have "\<dots> = mem s b" using b pt_grow_D(3) [OF 2] by (intro pt_grow_D(6) [OF 1]) blast
    finally show ?thesis .
  qed
qed

lemma leaf_store_other:
  assumes "pt_inv s xs root" and "node (mem s) root (path va 0) = Some tb"
    and "path_ok js" "js \<noteq> path va 0" "node (mem s) root js = Some b" "in_page b c"
  shows "store64 (mem s) (slot tb (PX 0 va)) v c = mem s c"
proof -
  note w = pt_inv_D(2) [OF assms(1)]
  have "b \<noteq> tb" using ptw_D(3) [OF w path_ok_path assms(2) assms(3)] assms(4,5) by auto
  moreover have "aligned b" "aligned tb"
    using ptw_D(2) [OF w path_ok_path assms(2)] ptw_D(2) [OF w assms(3,5)] by auto
  ultimately have "\<not> in_page tb c" using assms(6) in_page_unique by blast
  then show ?thesis by (simp add: store_slot_frame)
qed

lemma set_leaf:
  assumes inv: "pt_inv s xs root" and tb: "node (mem s) root (path va 0) = Some tb"
    and va: "va < MAXVA"
    and t: "t = s\<lparr>mem := store64 (mem s) (slot tb (PX 0 va)) v\<rparr>"
  shows "path_ok is \<Longrightarrow> node (mem t) root is = node (mem s) root is"
    and "pt_grow root s xs t xs"
    and "tabs (mem t) root = tabs (mem s) root"
    and "va' < MAXVA \<Longrightarrow> pte_of (mem t) root va' = (if pn va' = pn va then v else pte_of (mem s) root va')"
proof -
  note I = pt_inv_D [OF inv]
  have other: "mem t c = mem s c"
    if "path_ok js" "js \<noteq> path va 0" "node (mem s) root js = Some b" "in_page b c" for js b c
    using leaf_store_other [OF inv tb that] by (simp add: t)
  have n: "node (mem t) root js = node (mem s) root js" if "path_ok js" for js
    using that by (intro node_frame [OF other]) auto
  then show "path_ok is \<Longrightarrow> node (mem t) root is = node (mem s) root is" .
  show tabs: "tabs (mem t) root = tabs (mem s) root" by (simp add: tabs_def n cong: conj_cong)
  have ttb: "tb \<in> tabs (mem s) root" using tb by (intro tabs_I) simp_all
  have e: "load64 (mem t) (slot b j) = load64 (mem s) (slot b j)"
    if "path_ok js" "js \<noteq> path va 0" "node (mem s) root js = Some b" "j < 512" for js b j
    using other [OF that(1-3)] that(4) by (intro load_slot_cong)
  have "ptw t root"
    unfolding ptw_def
  proof (intro conjI allI impI)
    have po: "page_ok t = page_ok s" by (simp add: t page_ok_def fun_eq_iff)
    show "page_ok t b" if "path_ok js" "node (mem t) root js = Some b" for js b
      using that n po ptw_D(1) [OF I(2)] by auto
    show "js = ks" if "path_ok js" "path_ok ks" "node (mem t) root js = Some b" "node (mem t) root ks = Some b"
      for js ks b
      using that n ptw_D(3) [OF I(2)] by auto
    show "load64 (mem t) (slot b j) AND (PTE_R OR PTE_W OR PTE_X) = 0"
      if js: "path_ok (js @ [j])" "node (mem t) root js = Some b" "valid (load64 (mem t) (slot b j))" for js j b
    proof -
      have j: "path_ok js" "j < 512" "js \<noteq> path va 0" using js(1) by (auto simp: path_ok_snoc)
      then have "load64 (mem t) (slot b j) = load64 (mem s) (slot b j)" using js(2) n e by simp
      then show ?thesis using js n [OF j(1)] ptw_D(4) [OF I(2) j(1)] by simp
    qed
    show "node (mem t) root [j] = None" if "256 \<le> j" "j < 512" for j
      using that n [of "[j]"] I(2) by (auto simp: path_ok_def ptw_def)
  qed
  moreover have "kmem_ok t xs"
  proof (rule kmem_ok_cong [OF I(1)])
    show "aligned tb" using ptw_D(2) [OF I(2) path_ok_path tb] .
    show "tb \<notin> set xs" using ttb I(3) by auto
    show "mem t a = mem s a" if "\<not> in_page tb a" for a using that by (simp add: t store_slot_frame)
  qed (simp_all add: t)
  moreover have "mem t b = mem s b" if "\<forall>q\<in>tabs (mem t) root. \<not> in_page q b" for b
    using that ttb unfolding tabs by (simp add: t store_slot_frame)
  ultimately show "pt_grow root s xs t xs"
    using I(3) tabs by (simp add: pt_grow_def pt_inv_def t)
  show "pte_of (mem t) root va' = (if pn va' = pn va then v else pte_of (mem s) root va')" if "va' < MAXVA"
  proof (cases "path va' 0 = path va 0")
    case True
    then have "pte_of (mem t) root va' = (if PX 0 va' = PX 0 va then v else pte_of (mem s) root va')"
      using tb n [OF path_ok_path, of va 0] load_store_slot [of "PX 0 va" "PX 0 va'" "mem s" tb v]
      by (auto simp: pte_of_def t)
    moreover have "PX 0 va' = PX 0 va \<longleftrightarrow> pn va' = pn va"
      using True same_page_PX [OF that va] PX_same_page [of va' va] by (auto simp: path_0)
    ultimately show ?thesis by simp
  next
    case False
    then have "pn va' \<noteq> pn va" using PX_same_page [of va' va] by (auto simp: path_0)
    then show ?thesis
      using n [OF path_ok_path, of va' 0] e [OF path_ok_path False] by (auto simp: pte_of_def split: option.splits)
  qed
qed

section \<open>mappages\<close>

lemma walk_alloc:
  assumes "pt_inv s xs root" and "va < MAXVA"
  obtains (fail) t where "walk root va True s = Ret 0 t" and "pt_ext root s xs t []"
  | (ok) tb t ys where "walk root va True s = Ret (slot tb (PX 0 va)) t" and "slot tb (PX 0 va) \<noteq> 0"
      and "node (mem t) root (path va 0) = Some tb" and "pt_ext root s xs t ys"
      and "load64 (mem t) (slot tb (PX 0 va)) = pte_of (mem s) root va"
proof -
  have "walk root va True s = walk_loop 2 root va True s" using assms(2) by (auto simp: walk_def)
  then obtain a t ys where w: "walk root va True s = Ret a t" "pt_ext root s xs t ys"
    "a = 0 \<and> ys = [] \<or> a \<noteq> 0 \<and> (\<exists>tb. node (mem t) root (path va 0) = Some tb \<and> a = slot tb (PX 0 va))"
    using walk_loop_alloc [OF _ assms(1) _ assms(2), of 2 root] by auto
  from w(3) show ?thesis
  proof
    assume "a = 0 \<and> ys = []"
    then show ?thesis using fail w by auto
  next
    assume "a \<noteq> 0 \<and> (\<exists>tb. node (mem t) root (path va 0) = Some tb \<and> a = slot tb (PX 0 va))"
    then obtain tb where tb: "a \<noteq> 0" "node (mem t) root (path va 0) = Some tb" "a = slot tb (PX 0 va)"
      by blast
    moreover have "load64 (mem t) (slot tb (PX 0 va)) = pte_of (mem s) root va"
      using tb(2) pt_ext_D(3) [OF w(2), of va] by (simp add: pte_of_def)
    ultimately show ?thesis using ok [of tb t ys] w(1,2) by auto
  qed
qed

text \<open>
  \<open>pte_range a n pa perm old\<close>: the translation \<open>old\<close> with the \<open>n\<close> pages from \<open>a\<close> mapped to the
  physical pages from \<open>pa\<close>.
\<close>

definition leaf_pte :: "uint64 \<Rightarrow> uint64 \<Rightarrow> uint64" where
  "leaf_pte pa perm = PA2PTE pa OR perm OR PTE_V"

definition pte_range ::
  "uint64 \<Rightarrow> nat \<Rightarrow> uint64 \<Rightarrow> uint64 \<Rightarrow> (uint64 \<Rightarrow> uint64) \<Rightarrow> uint64 \<Rightarrow> uint64" where
  "pte_range a n pa perm old va =
     (if pn a \<le> pn va \<and> pn va < pn a + n then leaf_pte (pa + of_nat (4096 * (pn va - pn a))) perm
      else old va)"

lemma pte_range_0 [simp]: "pte_range a 0 pa perm old = old"
  by (auto simp: pte_range_def fun_eq_iff)

lemma pte_range_step:
  assumes "pn a' = Suc (pn a)"
  shows "pte_range a' n (pa + PGSIZE) perm (pte_range a 1 pa perm old) va = pte_range a (Suc n) pa perm old va"
proof (cases "pn a' \<le> pn va")
  case True
  then have "pn va - pn a = Suc (pn va - pn a')" using assms by linarith
  then show ?thesis using assms True
    by (simp add: pte_range_def PGSIZE_def algebra_simps)
qed (use assms in \<open>auto simp: pte_range_def\<close>)

text \<open>The next page, while the cursor is in range.\<close>

lemma next_page:
  assumes "aligned a" and "a < MAXVA"
  shows "aligned (a + PGSIZE)" and "unat (a + PGSIZE) = unat a + 4096" and "pn (a + PGSIZE) = Suc (pn a)"
proof -
  show u: "unat (a + PGSIZE) = unat a + 4096"
    using assms(2) by (simp add: PGSIZE_def MAXVA_num unat_word_ariths word_less_nat_alt)
  show "aligned (a + PGSIZE)" using assms(1) unfolding aligned_def u by simp
  show "pn (a + PGSIZE) = Suc (pn a)" unfolding u by simp
qed

lemma aligned_pn: "aligned a \<Longrightarrow> unat a = 4096 * pn a"
  by (auto simp: aligned_def)

definition pte_agree :: "memory \<Rightarrow> uint64 \<Rightarrow> (uint64 \<Rightarrow> uint64) \<Rightarrow> bool" where
  "pte_agree m root f \<longleftrightarrow> (\<forall>va<MAXVA. pte_of m root va = f va)"

lemma mappages_step:
  assumes inv: "pt_inv s xs root" and a: "a < MAXVA" and nv: "\<not> valid (pte_of (mem s) root a)"
  obtains (fail) t where "mappages_loop root a lst pa perm s = Ret (-1) t" and "pt_ext root s xs t []"
  | (step) t ys where "mappages_loop root a lst pa perm s
        = (if a = lst then Ret 0 t else mappages_loop root (a + PGSIZE) lst (pa + PGSIZE) perm t)"
      and "pt_grow root s xs t ys" and "pte_agree (mem t) root (pte_range a 1 pa perm (pte_of (mem s) root))"
  using inv a
proof (cases rule: walk_alloc)
  case (fail t)
  have "mappages_loop root a lst pa perm s = Ret (-1) t"
    by (subst mappages_loop.simps) (simp add: fail)
  then show ?thesis using that(1) fail(2) by blast
next
  case (ok tb t ys)
  let ?t = "t\<lparr>mem := store64 (mem t) (slot tb (PX 0 a)) (leaf_pte pa perm)\<rparr>"
  note e = pt_ext_D [OF ok(4)]
  note L = set_leaf [OF e(2) ok(3) a refl, where v = "leaf_pte pa perm"]
  have "pt_grow root s xs ?t ys"
    using pt_ext_grow_weak [OF ok(4)] L(2) by (rule pt_grow_trans)
  moreover have "pte_agree (mem ?t) root (pte_range a 1 pa perm (pte_of (mem s) root))"
    using L(4) e(3) by (auto simp: pte_agree_def pte_range_def)
  moreover have "mappages_loop root a lst pa perm s
      = (if a = lst then Ret 0 ?t else mappages_loop root (a + PGSIZE) lst (pa + PGSIZE) perm ?t)"
    by (subst mappages_loop.simps) (use ok nv in \<open>simp add: leaf_pte_def\<close>)
  ultimately show ?thesis using that(2) by blast
qed

lemma pte_agree_range:
  assumes "pte_agree m root f" and "pte_agree m' root (pte_range a n pa perm (pte_of m root))"
  shows "pte_agree m' root (pte_range a n pa perm f)"
  using assms by (auto simp: pte_agree_def pte_range_def)

lemma mappages_loop_spec:
  assumes "pt_inv s xs root" and "aligned a" and "unat lst = unat a + 4096 * n" and "lst < MAXVA"
    and "\<forall>va<MAXVA. pn a \<le> pn va \<and> pn va \<le> pn a + n \<longrightarrow> \<not> valid (pte_of (mem s) root va)"
  shows "\<exists>r t ys k. mappages_loop root a lst pa perm s = Ret r t \<and> pt_grow root s xs t ys \<and>
    pte_agree (mem t) root (pte_range a k pa perm (pte_of (mem s) root)) \<and>
    (r = 0 \<and> k = Suc n \<or> r = -1 \<and> ys = [] \<and> k \<le> n)"
  using assms
proof (induction n arbitrary: s xs a pa)
  case 0
  then have al: "a = lst" by (simp add: word_unat_eq_iff)
  then have a: "a < MAXVA" using 0 by simp
  then have "\<not> valid (pte_of (mem s) root a)" using 0(5) by simp
  with 0(1) a show ?case
  proof (cases rule: mappages_step [where lst = lst and pa = pa and perm = perm])
    case (fail t)
    then show ?thesis using pt_ext_grow_weak [OF fail(2)] pt_ext_D(3) [OF fail(2)]
      by (intro exI [of _ "-1"] exI [of _ t] exI [of _ "[]"] exI [of _ 0]) (simp add: pte_agree_def)
  next
    case (step t ys)
    then show ?thesis using al by (auto intro!: exI [of _ 0] exI [of _ t] exI [of _ ys] exI [of _ 1])
  qed
next
  case (Suc n)
  have lt: "unat a + 4096 * Suc n < 0x4000000000"
    using Suc.prems(3,4) by (simp add: word_less_nat_alt MAXVA_num)
  then have a: "a < MAXVA" by (simp add: word_less_nat_alt MAXVA_num)
  note np = next_page [OF Suc.prems(2) a]
  have "\<not> valid (pte_of (mem s) root a)" using Suc.prems(5) a by simp
  with Suc.prems(1) a show ?case
  proof (cases rule: mappages_step [where lst = lst and pa = pa and perm = perm])
    case (fail t)
    then show ?thesis using pt_ext_grow_weak [OF fail(2)] pt_ext_D(3) [OF fail(2)]
      by (intro exI [of _ "-1"] exI [of _ t] exI [of _ "[]"] exI [of _ 0]) (simp add: pte_agree_def)
  next
    case (step t ys)
    have "a \<noteq> lst" using Suc.prems(3) by auto
    then have eq: "mappages_loop root a lst pa perm s
        = mappages_loop root (a + PGSIZE) lst (pa + PGSIZE) perm t"
      using step(1) by simp
    have nv: "\<forall>va<MAXVA. pn (a + PGSIZE) \<le> pn va \<and> pn va \<le> pn (a + PGSIZE) + n \<longrightarrow>
        \<not> valid (pte_of (mem t) root va)"
      using Suc.prems(5) step(3) np(3) by (auto simp: pte_agree_def pte_range_def)
    obtain r u zs k where u: "mappages_loop root (a + PGSIZE) lst (pa + PGSIZE) perm t = Ret r u"
      "pt_grow root t ys u zs" "r = 0 \<and> k = Suc n \<or> r = -1 \<and> zs = [] \<and> k \<le> n"
      "pte_agree (mem u) root (pte_range (a + PGSIZE) k (pa + PGSIZE) perm (pte_of (mem t) root))"
      using Suc.IH [OF pt_grow_D(2) [OF step(2)] np(1) _ Suc.prems(4) nv, of "pa + PGSIZE"]
        Suc.prems(3) np(2) by auto
    have "pte_agree (mem u) root (pte_range a (Suc k) pa perm (pte_of (mem s) root))"
      using pte_agree_range [OF step(3) u(4)] pte_range_step [OF np(3)] by (simp add: pte_agree_def)
    then show ?thesis using eq u pt_grow_trans [OF step(2) u(2)]
      by (intro exI [of _ r] exI [of _ u] exI [of _ zs] exI [of _ "Suc k"]) auto
  qed
qed

end
