(* ===== verification/Uvm.thy ===== *)
theory Uvm
  imports Mapping_Pages
begin

text \<open>
  User address spaces: what \<^verbatim>\<open>uvmunmap\<close>, \<^verbatim>\<open>uvmalloc\<close>, \<^verbatim>\<open>uvmdealloc\<close>, \<^verbatim>\<open>uvmcopy\<close> and
  \<^verbatim>\<open>uvmfree\<close> do to the pages a process owns, and that an operation on one address space
  leaves every other one alone.
\<close>

section \<open>Page numbers\<close>

definition NPAGE :: nat where "NPAGE = 2 ^ 26"

definition va_of :: "nat \<Rightarrow> uint64" where
  "va_of k = of_nat (4096 * k)"

lemma unat_va_of: "k \<le> NPAGE \<Longrightarrow> unat (va_of k) = 4096 * k"
  using unat_of_nat64 [of "4096 * k"] by (simp add: va_of_def NPAGE_def)

lemma va_of_simps:
  assumes "k < NPAGE"
  shows "pn (va_of k) = k" and "aligned (va_of k)" and "va_of k < MAXVA"
  using assms unat_va_of [of k] by (simp_all add: aligned_def MAXVA_num word_less_nat_alt NPAGE_def)

lemma va_of_Suc: "va_of k + PGSIZE = va_of (Suc k)"
  by (simp add: va_of_def PGSIZE_def algebra_simps)

lemma va_of_0 [simp]: "va_of 0 = 0"
  by (simp add: va_of_def)

lemma va_of_less: "j \<le> NPAGE \<Longrightarrow> k \<le> NPAGE \<Longrightarrow> va_of j < va_of k \<longleftrightarrow> j < k"
  by (simp add: word_less_nat_alt unat_va_of)

lemma pn_less: "va < MAXVA \<Longrightarrow> pn va < NPAGE"
  by (simp add: MAXVA_num word_less_nat_alt NPAGE_def div_less_iff_less_mult)

lemma aligned_va_of: "aligned a \<Longrightarrow> a = va_of (pn a)"
  using aligned_pn [of a] unat_of_nat64 [of "4096 * pn a"] unat_lt64 [of a]
  by (simp add: va_of_def word_unat_eq_iff)

abbreviation upte :: "memory \<Rightarrow> uint64 \<Rightarrow> nat \<Rightarrow> uint64" where
  "upte m root k \<equiv> pte_of m root (va_of k)"

abbreviation upage :: "memory \<Rightarrow> uint64 \<Rightarrow> nat \<Rightarrow> uint64" where
  "upage m root k \<equiv> PTE2PA (upte m root k)"

lemma pte_of_pn: "va < MAXVA \<Longrightarrow> pte_of m root va = upte m root (pn va)"
  using pn_less [of va] va_of_simps(1) [of "pn va"] by (intro pte_of_same_page) simp

section \<open>Address spaces\<close>

text \<open>
  \<open>uspace s xs root K\<close>: the process owns, in addition to the table pages, one data page for
  each page number in \<open>K\<close>; the data pages are distinct, they are neither table pages nor
  free.
\<close>

definition udata :: "memory \<Rightarrow> uint64 \<Rightarrow> nat set \<Rightarrow> uint64 set" where
  "udata m root K = upage m root ` K"

definition leaf_ok :: "uint64 \<Rightarrow> bool" where
  "leaf_ok e \<longleftrightarrow> valid e \<and> PTE_FLAGS e \<noteq> PTE_V"

definition uspace :: "'a kmem_scheme \<Rightarrow> uint64 list \<Rightarrow> uint64 \<Rightarrow> nat set \<Rightarrow> bool" where
  "uspace s xs root K \<longleftrightarrow> pt_inv s xs root \<and> K \<subseteq> {..<NPAGE} \<and>
     (\<forall>k\<in>K. leaf_ok (upte (mem s) root k) \<and> page_ok s (upage (mem s) root k)) \<and>
     inj_on (upage (mem s) root) K \<and>
     udata (mem s) root K \<inter> (tabs (mem s) root \<union> set xs) = {}"

definition foot :: "memory \<Rightarrow> uint64 \<Rightarrow> nat set \<Rightarrow> uint64 set" where
  "foot m root K = tabs m root \<union> udata m root K"

lemma uspace_D:
  assumes "uspace s xs root K"
  shows "pt_inv s xs root" and "kmem_ok s xs" and "K \<subseteq> {..<NPAGE}" and "inj_on (upage (mem s) root) K"
    and "k \<in> K \<Longrightarrow> leaf_ok (upte (mem s) root k)" and "k \<in> K \<Longrightarrow> page_ok s (upage (mem s) root k)"
    and "k \<in> K \<Longrightarrow> upage (mem s) root k \<notin> tabs (mem s) root"
    and "k \<in> K \<Longrightarrow> upage (mem s) root k \<notin> set xs"
    and "k \<in> K \<Longrightarrow> k < NPAGE" and "k \<in> K \<Longrightarrow> va_of k < MAXVA"
  using assms va_of_simps(3) by (auto simp: uspace_def udata_def pt_inv_def)

lemma foot_page_ok: "uspace s xs root K \<Longrightarrow> q \<in> foot (mem s) root K \<Longrightarrow> page_ok s q"
  by (auto simp: foot_def udata_def dest: uspace_D(6) tabs_page_ok [OF pt_inv_D(2) [OF uspace_D(1)]])

lemma foot_free: "uspace s xs root K \<Longrightarrow> foot (mem s) root K \<inter> set xs = {}"
  by (auto simp: foot_def udata_def uspace_def pt_inv_def)

text \<open>An address space whose table pages are untouched is the same as before.\<close>

lemma pt_frame:
  assumes inv: "pt_inv s xs root" and fr: "kframe s t" and ok: "kmem_ok t ys"
    and m: "\<And>q a. q \<in> tabs (mem s) root \<Longrightarrow> in_page q a \<Longrightarrow> mem t a = mem s a"
    and free: "tabs (mem s) root \<inter> set ys = {}"
  shows "path_ok is \<Longrightarrow> node (mem t) root is = node (mem s) root is"
    and "tabs (mem t) root = tabs (mem s) root" and "pte_of (mem t) root va = pte_of (mem s) root va"
    and "pt_inv t ys root"
proof -
  note w = pt_inv_D(2) [OF inv]
  have n: "node (mem t) root js = node (mem s) root js" if "path_ok js" for js
    using that by (intro node_frame) (blast intro: m tabs_I)+
  then show "path_ok is \<Longrightarrow> node (mem t) root is = node (mem s) root is" .
  show tb: "tabs (mem t) root = tabs (mem s) root" by (simp add: tabs_def n cong: conj_cong)
  have l: "load64 (mem t) (slot a i) = load64 (mem s) (slot a i)"
    if "path_ok js" "node (mem s) root js = Some a" "i < 512" for js a i
    using that m tabs_I [OF that(1,2)] by (intro load_slot_cong) auto
  show "pte_of (mem t) root va = pte_of (mem s) root va"
    using n [OF path_ok_path] l [OF path_ok_path] by (auto simp: pte_of_def split: option.splits)
  have "ptw t root"
    unfolding ptw_def
  proof (intro conjI allI impI)
    show "page_ok t a" if "path_ok js" "node (mem t) root js = Some a" for js a
      using that n ptw_D(1) [OF w] kframe_page_ok [OF fr] by simp
    show "js = ks" if "path_ok js" "path_ok ks" "node (mem t) root js = Some a" "node (mem t) root ks = Some a"
      for js ks a
      using that n ptw_D(3) [OF w] by auto
    show "load64 (mem t) (slot a i) AND (PTE_R OR PTE_W OR PTE_X) = 0"
      if "path_ok (js @ [i])" "node (mem t) root js = Some a" "valid (load64 (mem t) (slot a i))" for js i a
      using that n [of js] l [of js a i] ptw_D(4) [OF w] by (auto simp: path_ok_snoc)
    show "node (mem t) root [j] = None" if "256 \<le> j" "j < 512" for j
      using that n [of "[j]"] w by (auto simp: path_ok_def ptw_def)
  qed
  then show "pt_inv t ys root" using ok free tb by (simp add: pt_inv_def)
qed

lemma uspace_frame:
  assumes u: "uspace s xs root K" and fr: "kframe s t" and ok: "kmem_ok t ys"
    and m: "\<And>q a. q \<in> tabs (mem s) root \<Longrightarrow> in_page q a \<Longrightarrow> mem t a = mem s a"
    and free: "foot (mem s) root K \<inter> set ys = {}"
  shows "uspace t ys root K" and "pte_of (mem t) root va = pte_of (mem s) root va"
    and "foot (mem t) root K = foot (mem s) root K" and "tabs (mem t) root = tabs (mem s) root"
proof -
  have free': "tabs (mem s) root \<inter> set ys = {}" using free by (auto simp: foot_def)
  note F = pt_frame [OF uspace_D(1) [OF u] fr ok m free']
  show "pte_of (mem t) root va = pte_of (mem s) root va" by (rule F(3))
  show "tabs (mem t) root = tabs (mem s) root" by (rule F(2))
  then show "foot (mem t) root K = foot (mem s) root K" by (simp add: foot_def udata_def F(3))
  show "uspace t ys root K"
    using u F free unfolding uspace_def udata_def foot_def by (auto simp: kframe_page_ok [OF fr])
qed

section \<open>Removing pages\<close>

text \<open>
  \<open>unmapped root K J s xs t ys\<close>: of the pages \<open>K\<close>, those in \<open>J\<close> have been unmapped and
  put on the free list; everything else is as before.
\<close>

definition unmapped :: "uint64 \<Rightarrow> nat set \<Rightarrow> nat set \<Rightarrow> 'a kmem_scheme \<Rightarrow> uint64 list \<Rightarrow> 'a kmem_scheme \<Rightarrow>
    uint64 list \<Rightarrow> bool" where
  "unmapped root K J s xs t ys \<longleftrightarrow> kframe s t \<and> uspace t ys root (K - J) \<and>
     set ys = set xs \<union> udata (mem s) root J \<and>
     pte_agree (mem t) root (\<lambda>va. if pn va \<in> J then 0 else pte_of (mem s) root va) \<and>
     tabs (mem t) root = tabs (mem s) root \<and>
     (\<forall>b. (\<forall>q\<in>foot (mem s) root J. \<not> in_page q b) \<longrightarrow> mem t b = mem s b)"

lemma unmapped_D:
  assumes "unmapped root K J s xs t ys"
  shows "kframe s t" "uspace t ys root (K - J)" "set ys = set xs \<union> udata (mem s) root J"
    and "va < MAXVA \<Longrightarrow> pte_of (mem t) root va = (if pn va \<in> J then 0 else pte_of (mem s) root va)"
    and "tabs (mem t) root = tabs (mem s) root"
    and "(\<And>q. q \<in> foot (mem s) root J \<Longrightarrow> \<not> in_page q b) \<Longrightarrow> mem t b = mem s b"
  using assms by (auto simp: unmapped_def pte_agree_def)

lemma unmapped_none: "uspace s xs root K \<Longrightarrow> unmapped root K {} s xs s xs"
  by (simp add: unmapped_def udata_def pte_agree_def)

lemma unmapped_trans:
  assumes 1: "unmapped root K J s xs t ys" and 2: "unmapped root (K - J) J' t ys u zs"
    and J: "J \<inter> J' = {}" "J' \<subseteq> {..<NPAGE}"
  shows "unmapped root K (J \<union> J') s xs u zs"
  unfolding unmapped_def
proof (intro conjI allI impI)
  note D1 = unmapped_D [OF 1] and D2 = unmapped_D [OF 2]
  have e: "upte (mem t) root k = upte (mem s) root k" if "k \<in> J'" for k
    using D1(4) [OF va_of_simps(3)] va_of_simps(1) that J by (auto simp: subset_iff)
  have ud: "udata (mem t) root J' = udata (mem s) root J'" using e by (simp add: udata_def)
  show "kframe s u" using D1(1) D2(1) by (rule kframe_trans)
  show "uspace u zs root (K - (J \<union> J'))" using D2(2) by (simp add: Diff_Un Diff_Diff_Int set_diff_eq Int_def conj_assoc)
  show "set zs = set xs \<union> udata (mem s) root (J \<union> J')" using D1(3) D2(3) ud by (auto simp: udata_def)
  show "pte_agree (mem u) root (\<lambda>va. if pn va \<in> J \<union> J' then 0 else pte_of (mem s) root va)"
    using D1(4) D2(4) by (auto simp: pte_agree_def)
  show "tabs (mem u) root = tabs (mem s) root" using D1(5) D2(5) by simp
  show "mem u b = mem s b" if b: "\<forall>q\<in>foot (mem s) root (J \<union> J'). \<not> in_page q b" for b
  proof -
    have "mem u b = mem t b" using b D1(5) ud by (intro D2(6)) (auto simp: foot_def udata_def)
    also have "\<dots> = mem s b" using b by (intro D1(6)) (auto simp: foot_def udata_def)
    finally show ?thesis .
  qed
qed

lemma uspace_shrink:
  assumes "uspace s xs root K" and "J \<subseteq> K"
  shows "uspace s xs root J"
  unfolding uspace_def udata_def
proof (intro conjI ballI)
  note D = uspace_D [OF assms(1)]
  show "pt_inv s xs root" by (rule D(1))
  show "J \<subseteq> {..<NPAGE}" using D(3) assms(2) by blast
  show "inj_on (upage (mem s) root) J" using D(4) assms(2) by (rule inj_on_subset)
  show "upage (mem s) root ` J \<inter> (tabs (mem s) root \<union> set xs) = {}"
    using D(7,8) assms(2) by blast
  fix k assume "k \<in> J"
  then have "k \<in> K" using assms(2) by blast
  then show "leaf_ok (upte (mem s) root k)" "page_ok s (upage (mem s) root k)" by (rule D(5), rule D(6))
qed

lemma free_data_page:
  assumes u: "uspace s xs root K" and k: "k \<in> K"
  obtains t where "kfree (upage (mem s) root k) s = Ret () t" and "kframe s t"
    and "uspace t (upage (mem s) root k # xs) root (K - {k})"
    and "\<And>is. path_ok is \<Longrightarrow> node (mem t) root is = node (mem s) root is"
    and "\<And>va. pte_of (mem t) root va = pte_of (mem s) root va"
    and "tabs (mem t) root = tabs (mem s) root"
    and "\<And>a. \<not> in_page (upage (mem s) root k) a \<Longrightarrow> mem t a = mem s a"
proof -
  let ?q = "upage (mem s) root k"
  note D = uspace_D [OF u]
  obtain t where t: "kfree ?q s = Ret () t" "kframe s t" "kmem_ok t (?q # xs)"
    "\<And>a. \<not> in_page ?q a \<Longrightarrow> mem t a = mem s a"
    using kfree_ok [OF D(2) D(6) [OF k] D(8) [OF k]] by blast
  have m: "mem t a = mem s a" if "p \<in> tabs (mem s) root" "in_page p a" for p a
  proof -
    have "p \<noteq> ?q" using that(1) D(7) [OF k] by auto
    moreover have "aligned p" "aligned ?q"
      using tabs_page_ok [OF pt_inv_D(2) [OF D(1)] that(1)] D(6) [OF k] by (simp_all add: page_ok_def)
    ultimately show ?thesis using t(4) that(2) in_page_unique by blast
  qed
  have u': "uspace s xs root (K - {k})" using u by (rule uspace_shrink) blast
  have "?q \<notin> foot (mem s) root (K - {k})"
    using k D(4) D(7) [OF k] by (auto simp: foot_def udata_def inj_on_def)
  then have free: "foot (mem s) root (K - {k}) \<inter> set (?q # xs) = {}"
    using foot_free [OF u'] by auto
  note F = uspace_frame [OF u' t(2,3) m free]
  have P: "node (mem t) root is = node (mem s) root is" if "path_ok is" for "is"
    using that by (intro node_frame) (blast intro: m tabs_I)+
  show ?thesis by (rule that [OF t(1,2) F(1) P F(2,4) t(4)])
qed

lemma unmap_step:
  assumes u: "uspace s xs root K" and k: "k \<in> K"
  obtains t ys where
    "uvmunmap_loop root (va_of k) bound True s = (if va_of k < bound
       then uvmunmap_loop root (va_of (Suc k)) bound True t else Ret () s)"
    and "unmapped root K {k} s xs t ys"
proof -
  let ?q = "upage (mem s) root k"
  note D = uspace_D [OF u]
  obtain t where t: "kfree ?q s = Ret () t" "kframe s t" "uspace t (?q # xs) root (K - {k})"
    "\<And>is. path_ok is \<Longrightarrow> node (mem t) root is = node (mem s) root is"
    "\<And>va. pte_of (mem t) root va = pte_of (mem s) root va" "tabs (mem t) root = tabs (mem s) root"
    "\<And>a. \<not> in_page ?q a \<Longrightarrow> mem t a = mem s a"
    using free_data_page [OF u k] by blast
  have v: "leaf_ok (upte (mem s) root k)" using D(5) [OF k] .
  from D(1) D(10) [OF k] show ?thesis
  proof (cases rule: walk_find_cases)
    case none
    then show ?thesis using v by (simp add: leaf_ok_def)
  next
    case (some tb)
    let ?t = "t\<lparr>mem := store64 (mem t) (slot tb (PX 0 (va_of k))) 0\<rparr>"
    have tb: "node (mem t) root (path (va_of k) 0) = Some tb" using some(3) t(4) by simp
    note L = set_leaf [OF uspace_D(1) [OF t(3)] tb D(10) [OF k] refl, where v = 0]
    have e: "upte (mem ?t) root j = upte (mem s) root j" if "j < NPAGE" "j \<noteq> k" for j
      using L(4) [OF va_of_simps(3) [OF that(1)]] that D(9) [OF k] by (simp add: va_of_simps(1) t(5))
    have ej: "upte (mem ?t) root j = upte (mem t) root j" if "j \<in> K - {k}" for j
      using e [of j] that D(9) t(5) by auto
    have "uspace ?t (?q # xs) root (K - {k})"
      using t(3) pt_grow_D(2) [OF L(2)] ej L(3) kframe_page_ok [of t ?t]
      by (auto simp: uspace_def udata_def inj_on_def)
    moreover have "kframe s ?t" using t(2) by (rule kframe_trans) simp
    moreover have "mem ?t b = mem s b" if "\<forall>q\<in>foot (mem s) root {k}. \<not> in_page q b" for b
      using that t(7) [of b] tabs_I [OF path_ok_path some(3)]
      by (simp add: foot_def udata_def store_slot_frame)
    moreover have "pte_agree (mem ?t) root (\<lambda>va. if pn va \<in> {k} then 0 else pte_of (mem s) root va)"
      using L(4) D(9) [OF k] by (simp add: pte_agree_def va_of_simps(1) t(5))
    ultimately have "unmapped root K {k} s xs ?t (?q # xs)"
      using L(3) t(6) by (simp add: unmapped_def udata_def)
    moreover have "uvmunmap_loop root (va_of k) bound True s = (if va_of k < bound
       then uvmunmap_loop root (va_of (Suc k)) bound True ?t else Ret () s)"
      using some v t(1) by (subst uvmunmap_loop.simps) (simp add: leaf_ok_def va_of_Suc)
    ultimately show ?thesis using that by blast
  qed
qed

lemma uvmunmap_loop_spec:
  assumes "uspace s xs root K" and "{k..<k + n} \<subseteq> K" and "k + n \<le> NPAGE"
  shows "\<exists>t ys. uvmunmap_loop root (va_of k) (va_of (k + n)) True s = Ret () t \<and>
    unmapped root K {k..<k + n} s xs t ys"
  using assms
proof (induction n arbitrary: k s xs K)
  case 0
  then show ?case using unmapped_none [OF 0(1)]
    by (subst uvmunmap_loop.simps) auto
next
  case (Suc n)
  have k: "k \<in> K" using Suc.prems(2) by auto
  obtain t ys where t: "uvmunmap_loop root (va_of k) (va_of (k + Suc n)) True s =
      (if va_of k < va_of (k + Suc n) then uvmunmap_loop root (va_of (Suc k)) (va_of (k + Suc n)) True t
       else Ret () s)" "unmapped root K {k} s xs t ys"
    using unmap_step [OF Suc.prems(1) k] by blast
  have lt: "va_of k < va_of (k + Suc n)" using Suc.prems(3) by (simp add: va_of_less)
  have "\<exists>u zs. uvmunmap_loop root (va_of (Suc k)) (va_of (Suc k + n)) True t = Ret () u \<and>
      unmapped root (K - {k}) {Suc k..<Suc k + n} t ys u zs"
    using Suc.prems by (intro Suc.IH [OF unmapped_D(2) [OF t(2)]]) auto
  then obtain u zs where u: "uvmunmap_loop root (va_of (Suc k)) (va_of (Suc k + n)) True t = Ret () u"
      "unmapped root (K - {k}) {Suc k..<Suc k + n} t ys u zs" by blast
  have "{k} \<union> {Suc k..<Suc k + n} = {k..<k + Suc n}" by auto
  moreover have "{Suc k..<Suc k + n} \<subseteq> {..<NPAGE}" using Suc.prems(3) by auto
  ultimately have "unmapped root K {k..<k + Suc n} s xs u zs"
    using unmapped_trans [OF t(2) u(2)] by auto
  then show ?case using t(1) u(1) lt by auto
qed

section \<open>The effect of an operation on an address space\<close>

text \<open>
  \<open>chg root J s xs K t ys K'\<close>: an operation took the address space from pages \<open>K\<close> to pages
  \<open>K'\<close>.  No page is gained or lost overall, translations outside the page numbers \<open>J\<close> and
  the contents of data pages outside \<open>J\<close> are as before, and no memory changed except in pages
  that were free or belonged to this address space.
\<close>

definition chg :: "uint64 \<Rightarrow> nat set \<Rightarrow> 'a kmem_scheme \<Rightarrow> uint64 list \<Rightarrow> nat set \<Rightarrow> 'a kmem_scheme \<Rightarrow>
    uint64 list \<Rightarrow> nat set \<Rightarrow> bool" where
  "chg root J s xs K t ys K' \<longleftrightarrow> kframe s t \<and> uspace t ys root K' \<and> K - J = K' - J \<and>
     foot (mem t) root K' \<union> set ys = foot (mem s) root K \<union> set xs \<and>
     (\<forall>va<MAXVA. pn va \<notin> J \<longrightarrow> pte_of (mem t) root va = pte_of (mem s) root va) \<and>
     (\<forall>k\<in>K - J. \<forall>a. in_page (upage (mem s) root k) a \<longrightarrow> mem t a = mem s a) \<and>
     (\<forall>b. (\<forall>q\<in>foot (mem s) root K \<union> set xs. \<not> in_page q b) \<longrightarrow> mem t b = mem s b)"

lemma chg_D:
  assumes "chg root J s xs K t ys K'"
  shows "kframe s t" "uspace t ys root K'" "K - J = K' - J"
    and "foot (mem t) root K' \<union> set ys = foot (mem s) root K \<union> set xs"
    and "va < MAXVA \<Longrightarrow> pn va \<notin> J \<Longrightarrow> pte_of (mem t) root va = pte_of (mem s) root va"
    and "k \<in> K \<Longrightarrow> k \<notin> J \<Longrightarrow> in_page (upage (mem s) root k) a \<Longrightarrow> mem t a = mem s a"
    and "(\<And>q. q \<in> foot (mem s) root K \<union> set xs \<Longrightarrow> \<not> in_page q b) \<Longrightarrow> mem t b = mem s b"
    and "k < NPAGE \<Longrightarrow> k \<notin> J \<Longrightarrow> upte (mem t) root k = upte (mem s) root k"
  using assms va_of_simps [of k] by (auto simp: chg_def)

lemma chg_refl: "uspace s xs root K \<Longrightarrow> chg root J s xs K s xs K"
  by (simp add: chg_def)

lemma chg_trans:
  assumes 1: "chg root J s xs K t ys K'" and 2: "chg root J' t ys K' u zs K''"
  shows "chg root (J \<union> J') s xs K u zs K''"
  unfolding chg_def
proof (intro conjI allI impI ballI)
  note D1 = chg_D [OF 1] and D2 = chg_D [OF 2]
  show "kframe s u" using D1(1) D2(1) by (rule kframe_trans)
  show "uspace u zs root K''" by (rule D2(2))
  show "K - (J \<union> J') = K'' - (J \<union> J')" using D1(3) D2(3) by blast
  show "foot (mem u) root K'' \<union> set zs = foot (mem s) root K \<union> set xs" using D1(4) D2(4) by simp
  show "pte_of (mem u) root va = pte_of (mem s) root va" if "va < MAXVA" "pn va \<notin> J \<union> J'" for va
    using that D1(5) D2(5) by simp
  show "mem u a = mem s a" if k: "k \<in> K - (J \<union> J')" "in_page (upage (mem s) root k) a" for k a
  proof -
    have "k \<in> K'" using k D1(3) by blast
    then have "k < NPAGE" using uspace_D(9) [OF D1(2)] by blast
    then have "upage (mem t) root k = upage (mem s) root k" using D1(8) k by simp
    then have "mem u a = mem t a" using D2(6) [OF \<open>k \<in> K'\<close>] k by auto
    also have "\<dots> = mem s a" using D1(6) k by auto
    finally show ?thesis .
  qed
  show "mem u b = mem s b" if b: "\<forall>q\<in>foot (mem s) root K \<union> set xs. \<not> in_page q b" for b
  proof -
    have "mem u b = mem t b" using b D1(4) by (intro D2(7)) blast
    also have "\<dots> = mem s b" using b by (intro D1(7)) blast
    finally show ?thesis .
  qed
qed

lemma chg_weaken: "chg root J s xs K t ys K' \<Longrightarrow> J \<subseteq> J' \<Longrightarrow> chg root J' s xs K t ys K'"
  by (auto simp: chg_def)

lemma pages_apart:
  assumes "page_ok s p" "page_ok s q" "p \<noteq> q" "in_page p a"
  shows "\<not> in_page q a"
  using assms in_page_unique page_ok_aligned by blast

lemma unmapped_chg:
  assumes "unmapped root K J s xs t ys" and u: "uspace s xs root K" and J: "J \<subseteq> K"
  shows "chg root J s xs K t ys (K - J)"
  unfolding chg_def
proof (intro conjI allI impI ballI)
  note D = unmapped_D [OF assms(1)] and U = uspace_D [OF u]
  show "kframe s t" "uspace t ys root (K - J)" by (rule D(1), rule D(2))
  show "K - J = K - J - J" by blast
  have e: "upte (mem t) root k = upte (mem s) root k" if "k \<in> K - J" for k
  proof -
    have "k \<in> K" "k \<notin> J" using that by simp_all
    then show ?thesis using D(4) [OF U(10)] va_of_simps(1) [OF U(9)] by simp
  qed
  have "udata (mem t) root (K - J) = udata (mem s) root (K - J)" using e by (simp add: udata_def)
  moreover have "udata (mem s) root K = udata (mem s) root (K - J) \<union> udata (mem s) root J"
    using J by (auto simp: udata_def)
  ultimately show "foot (mem t) root (K - J) \<union> set ys = foot (mem s) root K \<union> set xs"
    by (simp only: foot_def D(3,5) Un_ac)
  show "pte_of (mem t) root va = pte_of (mem s) root va" if "va < MAXVA" "pn va \<notin> J" for va
    using that D(4) by simp
  have sub: "foot (mem s) root J \<subseteq> foot (mem s) root K" using J by (auto simp: foot_def udata_def)
  show "mem t a = mem s a" if k: "k \<in> K - J" "in_page (upage (mem s) root k) a" for k a
  proof (rule D(6))
    fix q assume q: "q \<in> foot (mem s) root J"
    have kK: "k \<in> K" "k \<notin> J" using k(1) by simp_all
    have "upage (mem s) root k \<noteq> q"
    proof
      assume eq: "upage (mem s) root k = q"
      then have "q \<in> udata (mem s) root J" using q U(7) [OF kK(1)] by (simp add: foot_def)
      then obtain j where "j \<in> J" "upage (mem s) root k = upage (mem s) root j" using eq by (auto simp: udata_def)
      then show False using inj_onD [OF U(4)] kK J by blast
    qed
    then show "\<not> in_page q a"
      using pages_apart [OF U(6) [OF kK(1)] foot_page_ok [OF u]] q sub k(2) by blast
  qed
  show "mem t b = mem s b" if "\<forall>q\<in>foot (mem s) root K \<union> set xs. \<not> in_page q b" for b
    using that sub by (intro D(6)) blast
qed

section \<open>Adding a page\<close>

lemma uspace_grow:
  assumes u: "uspace s xs root K" and g: "pt_grow root s xs t ys"
    and e: "\<And>k. k \<in> K \<Longrightarrow> upte (mem t) root k = upte (mem s) root k"
  shows "uspace t ys root K"
  unfolding uspace_def
proof (intro conjI ballI)
  note U = uspace_D [OF u] and G = pt_grow_D [OF g]
  have ud: "udata (mem t) root K = udata (mem s) root K" using e by (simp add: udata_def)
  have d: "udata (mem s) root K \<inter> (tabs (mem s) root \<union> set xs) = {}" using u by (simp add: uspace_def)
  show "udata (mem t) root K \<inter> (tabs (mem t) root \<union> set ys) = {}" using d by (simp only: ud G(5))
  show "pt_inv t ys root" "K \<subseteq> {..<NPAGE}" using G(2) U(3) by simp_all
  show "inj_on (upage (mem t) root) K" using U(4) e by (simp add: inj_on_def)
  fix k assume "k \<in> K"
  then show "leaf_ok (upte (mem t) root k)" "page_ok t (upage (mem t) root k)"
    using U(5,6) e kframe_page_ok [OF G(1)] by simp_all
qed

lemma leaf_pte:
  assumes "page_ok s p" and "perm OR PTE_V < 1024" and "perm OR PTE_V \<noteq> PTE_V"
  shows "leaf_ok (leaf_pte p perm)" and "PTE2PA (leaf_pte p perm) = p"
    and "PTE_FLAGS (leaf_pte p perm) = perm OR PTE_V"
proof -
  have p: "unat p mod 4096 = 0" "p < 2 ^ 54"
    using assms(1) by (auto simp: page_ok_def aligned_def PHYSTOP_num elim: less_trans)
  show "PTE2PA (leaf_pte p perm) = p"
    using PTE2PA_PA2PTE [OF p assms(2)] by (simp add: leaf_pte_def)
  show f: "PTE_FLAGS (leaf_pte p perm) = perm OR PTE_V"
    using PTE_FLAGS_PA2PTE [OF assms(2)] by (simp add: leaf_pte_def)
  have "valid (leaf_pte p perm)" by (simp only: leaf_pte_def valid_iff bit_or_iff) (simp add: PTE_V_num)
  then show "leaf_ok (leaf_pte p perm)" using f assms(3) by (simp add: leaf_ok_def)
qed

lemma mappages_one:
  assumes "k < NPAGE"
  shows "mappages root (va_of k) PGSIZE pa perm s = mappages_loop root (va_of k) (va_of k) pa perm s"
proof -
  have al: "aligned (va_of k)" using va_of_simps(2) [OF assms] .
  have "in_page (va_of k) (va_of k + PGSIZE - 1)" by (simp add: in_page_def PGSIZE_def)
  moreover have "in_page (va_of k) (va_of k)" by (simp add: in_page_def)
  ultimately show ?thesis using in_page_iff [OF al] by (simp add: mappages_def)
qed

text \<open>Mapping one page that belongs to no one.\<close>

lemma map_page:
  assumes u: "uspace s xs root K" and k: "k < NPAGE" "\<not> valid (upte (mem s) root k)"
    and p: "page_ok s p" "p \<notin> foot (mem s) root K" "p \<notin> set xs"
    and perm: "perm OR PTE_V < 1024" "perm OR PTE_V \<noteq> PTE_V"
  obtains (fail) t where "mappages root (va_of k) PGSIZE p perm s = Ret (-1) t"
      and "chg root {} s xs K t [] K" and "\<And>a. in_page p a \<Longrightarrow> mem t a = mem s a"
  | (ok) t ys where "mappages root (va_of k) PGSIZE p perm s = Ret 0 t"
      and "kframe s t" and "uspace t ys root (insert k K)" and "upte (mem t) root k = leaf_pte p perm"
      and "tabs (mem t) root \<union> set ys = tabs (mem s) root \<union> set xs"
      and "\<forall>va<MAXVA. pn va \<noteq> k \<longrightarrow> pte_of (mem t) root va = pte_of (mem s) root va"
      and "\<forall>b. (\<forall>q\<in>tabs (mem s) root \<union> set xs. \<not> in_page q b) \<longrightarrow> mem t b = mem s b"
proof -
  note U = uspace_D [OF u]
  note inv = pt_inv_D [OF U(1)]
  have pg: "page_ok s q" if "q \<in> tabs (mem s) root \<union> set xs" for q
    using that tabs_page_ok [OF inv(2)] kmem_ok_D(5) [OF inv(1)] by blast
  have apart: "\<not> in_page q a" if "in_page p' a" "page_ok s p'" "p' \<notin> tabs (mem s) root \<union> set xs"
    "q \<in> tabs (mem s) root \<union> set xs" for q p' a
    using pages_apart [OF that(2) pg [OF that(4)] _ that(1)] that(3,4) by blast
  have pn: "p \<notin> tabs (mem s) root \<union> set xs" using p by (auto simp: foot_def)
  from U(1) va_of_simps(3) [OF k(1)] k(2) show ?thesis
  proof (cases rule: mappages_step [where lst = "va_of k" and pa = p and perm = perm])
    case (fail t)
    note E = pt_ext_D [OF fail(2)]
    have g: "pt_grow root s xs t []" using fail(2) by (rule pt_ext_grow_weak)
    have un: "mem t a = mem s a" if "in_page p' a" "page_ok s p'" "p' \<notin> tabs (mem s) root \<union> set xs" for p' a
    proof (rule E(8))
      fix q assume "q \<in> tabs (mem t) root"
      then have "q \<in> tabs (mem s) root \<union> set xs" using E(6) by auto
      then show "\<not> in_page q a" by (rule apart [OF that])
    qed
    have "chg root {} s xs K t [] K"
      unfolding chg_def
    proof (intro conjI allI impI ballI)
      show "uspace t [] root K" using u g E(3) by (rule uspace_grow)
      show "foot (mem t) root K \<union> set [] = foot (mem s) root K \<union> set xs"
        using E(6) by (auto simp: foot_def udata_def E(3))
      show "mem t a = mem s a" if "j \<in> K - {}" "in_page (upage (mem s) root j) a" for j a
        using that U(6-8) by (intro un) auto
      show "mem t b = mem s b" if "\<forall>q\<in>foot (mem s) root K \<union> set xs. \<not> in_page q b" for b
        using that E(6) by (intro E(8)) (auto simp: foot_def)
    qed (use E in auto)
    then show ?thesis using that(1) fail(1) un [OF _ p(1) pn] by (simp add: mappages_one [OF k(1)])
  next
    case (step t ys)
    note G = pt_grow_D [OF step(2)]
    note L = leaf_pte [OF p(1) perm]
    have e: "pte_of (mem t) root va = (if pn va = k then leaf_pte p perm else pte_of (mem s) root va)"
      if "va < MAXVA" for va
      using step(3) that k(1) by (auto simp: pte_agree_def pte_range_def va_of_simps(1))
    have ek: "upte (mem t) root k = leaf_pte p perm" using e [OF va_of_simps(3)] k(1) va_of_simps(1) by simp
    have kK: "k \<notin> K" using k(2) U(5) by (auto simp: leaf_ok_def)
    have ej: "upte (mem t) root j = upte (mem s) root j" if "j \<in> K" for j
      using e [OF U(10) [OF that]] va_of_simps(1) [OF U(9) [OF that]] that kK by auto
    have u1: "uspace t ys root K" using u step(2) ej by (rule uspace_grow)
    have "p \<notin> udata (mem t) root K" using p(2) ej by (auto simp: foot_def udata_def)
    moreover have "p \<notin> tabs (mem t) root \<union> set ys" using pn G(5) by simp
    ultimately have "uspace t ys root (insert k K)"
      using u1 k(1) L ek kframe_page_ok [OF G(1)] p(1)
      by (auto simp: uspace_def udata_def)
    moreover have "\<forall>b. (\<forall>q\<in>tabs (mem s) root \<union> set xs. \<not> in_page q b) \<longrightarrow> mem t b = mem s b"
      using G(5,6) by blast
    ultimately show ?thesis
      using that(2) [of t ys] step(1) G(1,5) e ek by (simp add: mappages_one [OF k(1)])
  qed
qed

end
