(* ===== verification/Uvm_Ops.thy ===== *)
theory Uvm_Ops
  imports Uvm
begin

text \<open>
  Growing, shrinking and copying user address spaces.
\<close>

section \<open>Allocating and mapping one page\<close>

lemma fresh_page:
  assumes u: "uspace s xs root K"
  obtains (none) t where "kalloc s = Ret 0 t" and "chg root {} s xs K t [] K"
  | (some) p ys t where "kalloc s = Ret p t" and "p \<noteq> 0" and "xs = p # ys" and "page_ok s p"
      and "p \<notin> foot (mem s) root K" and "p \<notin> set ys" and "kframe s t"
      and "mem t = memset (mem s) p 5 4096" and "kmem_ok t ys"
proof -
  note U = uspace_D [OF u]
  from U(2) show ?thesis
  proof (cases rule: kalloc_cases)
    case none
    let ?t = "s\<lparr>cpus := tcpus s\<rparr>"
    have "uspace ?t [] root K" by (rule uspace_frame(1) [OF u none(3,4)]) simp_all
    then have "chg root {} s xs K ?t [] K" using none by (simp add: chg_def)
    then show ?thesis using that(1) none by blast
  next
    case (some p ys t)
    have "p \<notin> set ys" using kmem_ok_D(4) [OF U(2)] some(1) by simp
    moreover have "p \<notin> foot (mem s) root K" using foot_free [OF u] some(1) by auto
    ultimately show ?thesis using that(2) some by blast
  qed
qed

lemma fill_page:
  assumes u: "uspace s (p # ys) root K" and t: "kframe s t" "kmem_ok t ys"
    and p: "page_ok s p" "p \<notin> foot (mem s) root K" "p \<notin> set ys"
    and M: "\<forall>a. \<not> in_page p a \<longrightarrow> mem t a = mem s a" "\<forall>a. \<not> in_page p a \<longrightarrow> M a = mem t a"
    and v: "v = t\<lparr>mem := M\<rparr>"
  shows "kframe s v" and "uspace v ys root K" and "pte_of (mem v) root va = pte_of (mem s) root va"
    and "foot (mem v) root K = foot (mem s) root K" and "tabs (mem v) root = tabs (mem s) root"
    and "q \<in> foot (mem s) root K \<Longrightarrow> in_page q a \<Longrightarrow> mem v a = mem s a"
proof -
  note U = uspace_D [OF u]
  have "kframe t v" by (simp add: v)
  then show fr: "kframe s v" using t(1) kframe_trans by blast
  have k: "kmem_ok v ys"
    using page_ok_aligned [OF p(1)] by (intro kmem_ok_cong [OF t(2) \<open>kframe t v\<close> _ _ _ p(3)]) (use M(2) in \<open>simp_all add: v\<close>)
  have m: "mem v a = mem s a" if "q \<in> foot (mem s) root K" "in_page q a" for q a
  proof -
    have "q \<noteq> p" using that(1) p(2) by auto
    then have "\<not> in_page p a" using pages_apart [OF foot_page_ok [OF u that(1)] p(1) _ that(2)] by blast
    then show ?thesis by (simp add: v M)
  qed
  then show "q \<in> foot (mem s) root K \<Longrightarrow> in_page q a \<Longrightarrow> mem v a = mem s a" .
  have "foot (mem s) root K \<inter> set ys = {}" using foot_free [OF u] by auto
  moreover have "mem v a = mem s a" if "q \<in> tabs (mem s) root" "in_page q a" for q a
    using that by (intro m [of q]) (simp_all add: foot_def)
  ultimately show "uspace v ys root K" "pte_of (mem v) root va = pte_of (mem s) root va"
    "foot (mem v) root K = foot (mem s) root K" "tabs (mem v) root = tabs (mem s) root"
    using uspace_frame [OF u fr k] by blast+
qed

lemma map_page_chg:
  assumes u: "uspace s (p # ys) root K" and v: "kframe s v" "uspace v ys root K"
    "\<And>va. pte_of (mem v) root va = pte_of (mem s) root va" "tabs (mem v) root = tabs (mem s) root"
    "\<forall>q\<in>foot (mem s) root K. \<forall>a. in_page q a \<longrightarrow> mem v a = mem s a"
    "\<forall>a. \<not> in_page p a \<longrightarrow> mem v a = mem s a"
    and t: "kframe v t" "uspace t zs root (insert k K)" "upage (mem t) root k = p"
    "tabs (mem t) root \<union> set zs = tabs (mem v) root \<union> set ys"
    "\<forall>va<MAXVA. pn va \<noteq> k \<longrightarrow> pte_of (mem t) root va = pte_of (mem v) root va"
    "\<forall>b. (\<forall>q\<in>tabs (mem v) root \<union> set ys. \<not> in_page q b) \<longrightarrow> mem t b = mem v b"
    and k: "k \<notin> K" and p: "page_ok s p" "p \<notin> foot (mem s) root K" "p \<notin> set ys"
  shows "chg root {k} s (p # ys) K t zs (insert k K)" and "in_page p a \<Longrightarrow> mem t a = mem v a"
proof -
  note U = uspace_D [OF u]
  have pg: "page_ok s q" if "q \<in> foot (mem s) root K \<union> set (p # ys)" for q
    using that foot_page_ok [OF u] kmem_ok_D(5) [OF U(2)] by blast
  have same: "mem t a = mem v a" if q: "in_page q a" "page_ok s q" "q \<notin> tabs (mem s) root \<union> set ys" for q a
  proof (rule t(6) [rule_format])
    fix r assume "r \<in> tabs (mem v) root \<union> set ys"
    then have "r \<in> tabs (mem s) root \<union> set ys" by (simp add: v(4))
    moreover from this have "page_ok s r" using pg by (auto simp: foot_def)
    ultimately show "\<not> in_page r a" using pages_apart [OF q(2) _ _ q(1)] q(3) by blast
  qed
  show "in_page p a \<Longrightarrow> mem t a = mem v a"
    using p by (intro same [of p]) (auto simp: foot_def)
  have ej: "upte (mem t) root j = upte (mem s) root j" if "j \<in> K" for j
    using t(5) [rule_format, OF U(10) [OF that]] va_of_simps(1) [OF U(9) [OF that]] that k v(3) by auto
  then have ud: "udata (mem t) root (insert k K) = insert p (udata (mem s) root K)"
    using t(3) by (simp add: udata_def)
  show "chg root {k} s (p # ys) K t zs (insert k K)"
    unfolding chg_def
  proof (intro conjI allI impI ballI)
    show "kframe s t" using v(1) t(1) by (rule kframe_trans)
    show "foot (mem t) root (insert k K) \<union> set zs = foot (mem s) root K \<union> set (p # ys)"
      using ud t(4) v(4) by (auto simp: foot_def)
    show "pte_of (mem t) root va = pte_of (mem s) root va" if "va < MAXVA" "pn va \<notin> {k}" for va
      using that t(5) v(3) by simp
    show "mem t a = mem s a" if j: "j \<in> K - {k}" "in_page (upage (mem s) root j) a" for j a
    proof -
      have jK: "j \<in> K" using j by simp
      have "mem t a = mem v a"
        using U(6) [OF jK] U(7) [OF jK] U(8) [OF jK] j(2) by (intro same [of "upage (mem s) root j"]) auto
      also have "\<dots> = mem s a"
        using jK j(2) v(5) by (auto simp: foot_def udata_def)
      finally show ?thesis .
    qed
    show "mem t b = mem s b" if b: "\<forall>q\<in>foot (mem s) root K \<union> set (p # ys). \<not> in_page q b" for b
    proof -
      have "mem t b = mem v b" using b t(6) by (auto simp: v(4) foot_def)
      also have "\<dots> = mem s b" using b v(6) by auto
      finally show ?thesis .
    qed
  qed (use t(2) k in auto)
qed

lemma undo_fresh:
  assumes u: "uspace s (p # ys) root K" and v: "kframe s v"
    "foot (mem v) root K = foot (mem s) root K" "\<And>va. pte_of (mem v) root va = pte_of (mem s) root va"
    "\<forall>q\<in>foot (mem s) root K. \<forall>a. in_page q a \<longrightarrow> mem v a = mem s a"
    "\<forall>a. \<not> in_page p a \<longrightarrow> mem v a = mem s a"
    and c: "chg root {} v ys K t [] K"
    and p: "page_ok s p" "p \<notin> foot (mem s) root K" "p \<notin> set ys"
  obtains w where "kfree p t = Ret () w" and "chg root {} s (p # ys) K w [p] K"
proof -
  note C = chg_D [OF c] and U = uspace_D [OF u]
  have fr: "kframe s t" using v(1) C(1) by (rule kframe_trans)
  have "page_ok t p" using p(1) kframe_page_ok [OF fr] by simp
  then obtain w where w: "kfree p t = Ret () w" "kframe t w" "kmem_ok w [p]"
    "\<And>a. \<not> in_page p a \<Longrightarrow> mem w a = mem t a"
    using kfree_ok [OF uspace_D(2) [OF C(2)], of p] by auto
  have pf: "p \<notin> foot (mem t) root K" using C(4) v(2) p(2,3) by auto
  have m: "mem w a = mem t a" if "q \<in> foot (mem t) root K" "in_page q a" for q a
  proof (rule w(4))
    have "q \<noteq> p" using that(1) pf by auto
    then show "\<not> in_page p a"
      using pages_apart [OF foot_page_ok [OF C(2) that(1)] \<open>page_ok t p\<close> _ that(2)] by blast
  qed
  have "mem w a = mem t a" if "q \<in> tabs (mem t) root" "in_page q a" for q a
    using that by (intro m [of q]) (simp_all add: foot_def)
  moreover have "foot (mem t) root K \<inter> set [p] = {}" using pf by simp
  ultimately have uw: "uspace w [p] root K" "\<And>va. pte_of (mem w) root va = pte_of (mem t) root va"
    "foot (mem w) root K = foot (mem t) root K"
    using uspace_frame [OF C(2) w(2,3)] by blast+
  have ptk: "upte (mem t) root k = upte (mem s) root k" if "k \<in> K" for k
    using C(8) [of k] U(9) [OF that] v(3) by simp
  have "chg root {} s (p # ys) K w [p] K"
    unfolding chg_def
  proof (intro conjI allI impI ballI)
    show "kframe s w" using fr w(2) by (rule kframe_trans)
    show "foot (mem w) root K \<union> set [p] = foot (mem s) root K \<union> set (p # ys)"
      using C(4) uw(3) v(2) by auto
    show "pte_of (mem w) root va = pte_of (mem s) root va" if "va < MAXVA" for va
      using that C(5) uw(2) v(3) by simp
    show "mem w a = mem s a" if k: "k \<in> K - {}" "in_page (upage (mem s) root k) a" for k a
    proof -
      have kK: "k \<in> K" using k by simp
      have ft: "upage (mem s) root k \<in> foot (mem t) root K" "upage (mem s) root k \<in> foot (mem s) root K"
        using ptk [OF kK] kK imageI [OF kK, of "upage (mem t) root"] by (auto simp: foot_def udata_def)
      have "mem w a = mem t a" using ft(1) k(2) by (rule m)
      also have "\<dots> = mem v a" using kK k(2) by (intro C(6) [OF kK]) (simp_all add: v(3))
      also have "\<dots> = mem s a" using ft(2) k(2) v(4) by blast
      finally show ?thesis .
    qed
    show "mem w b = mem s b" if b: "\<forall>q\<in>foot (mem s) root K \<union> set (p # ys). \<not> in_page q b" for b
    proof -
      have "mem w b = mem t b" using b by (intro w(4)) simp
      also have "\<dots> = mem v b" using b v(2) by (intro C(7)) auto
      also have "\<dots> = mem s b" using b v(5) by simp
      finally show ?thesis .
    qed
  qed (use uw(1) in auto)
  then show ?thesis using that w(1) by blast
qed

text \<open>
  The common core of \<^verbatim>\<open>uvmalloc\<close> and \<^verbatim>\<open>uvmcopy\<close>: allocate a page, fill it, map it, and give
  it back when a table page cannot be allocated.
\<close>

lemma map_fresh:
  fixes fill :: "memory \<Rightarrow> uint64 \<Rightarrow> memory"
  assumes u: "uspace s xs root K" and k: "k < NPAGE" "\<not> valid (upte (mem s) root k)"
    and perm: "perm OR PTE_V < 1024" "perm OR PTE_V \<noteq> PTE_V"
    and fill: "\<And>m p a. page_ok s p \<Longrightarrow> \<not> in_page p a \<Longrightarrow> fill m p a = m a"
    and E: "\<And>F G. E F G = bnd (kalloc s) (\<lambda>p s. if p = 0 then F s
      else let s = s\<lparr>mem := fill (mem s) p\<rparr>
           in bnd (mappages root (va_of k) PGSIZE p perm s) (\<lambda>r s.
              if r \<noteq> 0 then bnd (kfree p s) (\<lambda>_ s. F s) else G s))"
  obtains (fail) t ys where "\<And>F G. E F G = F t" and "chg root {} s xs K t ys K"
  | (ok) t p ys where "\<And>F G. E F G = G t" and "chg root {k} s xs K t ys (insert k K)"
      and "upte (mem t) root k = leaf_pte p perm" and "page_ok s p" and "p \<in> set xs"
      and "\<And>a. in_page p a \<Longrightarrow> mem t a = fill (memset (mem s) p 5 4096) p a"
  using u
proof (cases rule: fresh_page)
  case (none t)
  then show ?thesis using that(1) E by auto
next
  case (some p ys t)
  let ?v = "t\<lparr>mem := fill (mem t) p\<rparr>"
  have u': "uspace s (p # ys) root K" using u some(3) by simp
  have M: "\<forall>a. \<not> in_page p a \<longrightarrow> mem t a = mem s a" by (simp add: some(8) memset_page)
  have M': "\<forall>a. \<not> in_page p a \<longrightarrow> fill (mem t) p a = mem t a" using fill some(4) by blast
  note V = fill_page [OF u' some(7,9,4-6) M M' refl]
  have vm: "\<forall>a. \<not> in_page p a \<longrightarrow> mem ?v a = mem s a" using M M' by simp
  have vf: "\<forall>q\<in>foot (mem s) root K. \<forall>a. in_page q a \<longrightarrow> mem ?v a = mem s a" using V(6) by blast
  have k': "\<not> valid (upte (mem ?v) root k)" using k(2) V(3) by simp
  have p': "page_ok ?v p" "p \<notin> foot (mem ?v) root K"
    using some(4,5) V(4) kframe_page_ok [OF V(1)] by simp_all
  have kK: "k \<notin> K" using k(2) uspace_D(5) [OF u] by (auto simp: leaf_ok_def)
  from V(2) k(1) k' p' some(6) perm show ?thesis
  proof (cases rule: map_page)
    case (fail w)
    obtain z where "kfree p w = Ret () z" "chg root {} s (p # ys) K z [p] K"
      using undo_fresh [OF u' V(1,4,3) vf vm fail(2) some(4-6)] by blast
    then show ?thesis using that(1) [of z "[p]"] E some fail(1) by simp
  next
    case (ok w zs)
    have pg: "upage (mem w) root k = p" using ok(4) leaf_pte(2) [OF some(4) perm] by simp
    note C = map_page_chg [OF u' V(1,2,3,5) vf vm ok(2,3) pg ok(5-7) kK some(4-6)]
    have "mem w a = fill (memset (mem s) p 5 4096) p a" if "in_page p a" for a
      using C(2) [OF that] some(8) by simp
    then show ?thesis using that(2) [of w zs p] E some ok(1,4) C(1) by simp
  qed
qed

section \<open>uvmdealloc and uvmalloc\<close>

definition npg :: "uint64 \<Rightarrow> nat" where
  "npg sz = (unat sz + 4095) div 4096"

lemma npg_le: "sz \<le> MAXVA \<Longrightarrow> npg sz \<le> NPAGE"
  by (simp add: npg_def NPAGE_def MAXVA_num word_le_nat_alt)

lemma PGROUNDUP_va_of:
  assumes "sz \<le> MAXVA"
  shows "PGROUNDUP sz = va_of (npg sz)"
proof -
  have "unat sz \<le> 0x4000000000" using assms by (simp add: MAXVA_num word_le_nat_alt)
  then have "unat (PGROUNDUP sz) = 4096 * npg sz" by (simp add: unat_PGROUNDUP npg_def)
  then show ?thesis using unat_va_of [OF npg_le [OF assms]] by (simp add: word_unat_eq_iff)
qed

lemma va_of_less_size: "sz \<le> MAXVA \<Longrightarrow> k \<le> NPAGE \<Longrightarrow> va_of k < sz \<longleftrightarrow> k < npg sz"
proof -
  assume "k \<le> NPAGE"
  then have "va_of k < sz \<longleftrightarrow> 4096 * k < unat sz" by (simp add: word_less_nat_alt unat_va_of)
  moreover have "4096 * k < unat sz \<longleftrightarrow> k < (unat sz + 4095) div 4096"
    by linarith
  ultimately show ?thesis by (simp add: npg_def)
qed

lemma npg_va_of: "k \<le> NPAGE \<Longrightarrow> npg (va_of k) = k"
  by (simp add: npg_def unat_va_of)

lemma npg_mono: "a \<le> b \<Longrightarrow> npg a \<le> npg b"
  by (simp add: npg_def word_le_nat_alt div_le_mono)

lemma int_roundtrip:
  assumes "n < 2 ^ 31"
  shows "scast (ucast (of_nat n :: uint64) :: uint32) = (of_nat n :: uint64)"
proof (rule bit_word_eqI)
  fix j assume j: "j < LENGTH(64)"
  have nb: "\<not> bit n i" if "31 \<le> i" for i
  proof
    assume "bit n i"
    moreover have "take_bit 31 n = n" using assms by (simp add: take_bit_nat_eq_self)
    ultimately have "bit (take_bit 31 n) i" by simp
    then show False using that by (simp add: bit_take_bit_iff)
  qed
  show "bit (scast (ucast (of_nat n :: uint64) :: uint32) :: uint64) j = bit (of_nat n :: uint64) j"
    using j nb by (auto simp: bit_signed_iff bit_unsigned_iff bit_of_nat_iff bit_simps min_def)
qed

lemma va_of_diff:
  assumes "i \<le> j" and "j \<le> NPAGE"
  shows "(va_of j - va_of i) div PGSIZE = of_nat (j - i)" and "va_of i + of_nat (j - i) * PGSIZE = va_of j"
proof -
  have "unat (va_of j - va_of i) = 4096 * (j - i)"
    using assms by (simp add: unat_sub word_le_nat_alt unat_va_of diff_mult_distrib2)
  moreover have "unat (of_nat (j - i) :: uint64) = j - i"
    using assms by (intro unat_of_nat64) (simp add: NPAGE_def)
  ultimately show "(va_of j - va_of i) div PGSIZE = of_nat (j - i)"
    by (simp add: word_unat_eq_iff unat_div_distrib PGSIZE_def)
  show "va_of i + of_nat (j - i) * PGSIZE = va_of j"
    using assms(1) by (simp add: va_of_def PGSIZE_def of_nat_diff algebra_simps)
qed

lemma uvmunmap_spec:
  assumes "uspace s xs root K" and "i \<le> j" and "j \<le> NPAGE" and "{i..<j} \<subseteq> K"
  obtains t ys where "uvmunmap root (va_of i) (of_nat (j - i)) True s = Ret () t"
    and "unmapped root K {i..<j} s xs t ys"
proof -
  have "\<exists>t ys. uvmunmap_loop root (va_of i) (va_of (i + (j - i))) True s = Ret () t \<and>
      unmapped root K {i..<i + (j - i)} s xs t ys"
    using assms by (intro uvmunmap_loop_spec) simp_all
  then obtain t ys where "uvmunmap_loop root (va_of i) (va_of j) True s = Ret () t"
      "unmapped root K {i..<j} s xs t ys"
    using assms(2) by auto
  moreover have "va_of i mod PGSIZE = 0"
    using assms(2,3) by (simp add: mod_PGSIZE unat_va_of)
  ultimately show ?thesis
    using that va_of_diff(2) [OF assms(2,3)] by (simp add: uvmunmap_def)
qed

lemma uvmdealloc_spec:
  assumes u: "uspace s xs root K" and sz: "newsz \<le> oldsz" "oldsz \<le> MAXVA"
    and K: "{npg newsz..<npg oldsz} \<subseteq> K"
  obtains t ys where "uvmdealloc root oldsz newsz s = Ret newsz t"
    and "unmapped root K {npg newsz..<npg oldsz} s xs t ys"
proof -
  have sz': "newsz \<le> MAXVA" using sz by simp
  note np = npg_le [OF sz(2)]
  note r = PGROUNDUP_va_of [OF sz(2)] PGROUNDUP_va_of [OF sz']
  show ?thesis
  proof (cases "npg newsz < npg oldsz")
    case True
    then have lt: "newsz < oldsz" using sz(1) by (cases "newsz = oldsz") auto
    obtain t ys where t: "uvmunmap root (va_of (npg newsz)) (of_nat (npg oldsz - npg newsz)) True s = Ret () t"
      "unmapped root K {npg newsz..<npg oldsz} s xs t ys"
      using uvmunmap_spec [OF u _ np K] True by auto
    have n: "npg oldsz - npg newsz < 2 ^ 31" using np by (simp add: NPAGE_def)
    have "PGROUNDUP newsz < PGROUNDUP oldsz" using True np by (simp add: r va_of_less)
    then have "uvmdealloc root oldsz newsz s = Ret newsz t"
      using lt t(1) va_of_diff(1) [of "npg newsz" "npg oldsz"] True np int_roundtrip [OF n]
      by (simp add: uvmdealloc_def r not_le [symmetric])
    then show ?thesis using that t(2) by blast
  next
    case False
    then have "{npg newsz..<npg oldsz} = {}" by simp
    moreover have "\<not> PGROUNDUP newsz < PGROUNDUP oldsz"
      using False np npg_le [OF sz'] by (simp add: r va_of_less)
    then have "uvmdealloc root oldsz newsz s = Ret newsz s"
      using sz(1) by (auto simp: uvmdealloc_def)
    ultimately show ?thesis using that [of s xs] unmapped_none [OF u] by simp
  qed
qed

definition user_perm :: uint64 where
  "user_perm = PTE_W OR PTE_X OR PTE_R OR PTE_U"

lemma user_perm_ok: "user_perm OR PTE_V < 1024" "user_perm OR PTE_V \<noteq> PTE_V"
  by (simp_all add: user_perm_def PTE_V_num PTE_W_num PTE_X_num PTE_R_num PTE_U_num)

text \<open>A page as \<^verbatim>\<open>uvmalloc\<close> adds it: all permissions, filled with zeros.\<close>

definition zero_page :: "memory \<Rightarrow> uint64 \<Rightarrow> nat \<Rightarrow> bool" where
  "zero_page m root k \<longleftrightarrow> PTE_FLAGS (upte m root k) = user_perm OR PTE_V \<and>
     (\<forall>a. in_page (upage m root k) a \<longrightarrow> m a = 0)"

lemma zero_page_chg:
  assumes "chg root J s xs K t ys K'" and "uspace s xs root K" and "k \<in> K - J" and "zero_page (mem s) root k"
  shows "zero_page (mem t) root k"
proof -
  have "upte (mem t) root k = upte (mem s) root k"
    using chg_D(8) [OF assms(1)] assms(3) uspace_D(9) [OF assms(2)] by simp
  moreover have "mem t a = mem s a" if "in_page (upage (mem s) root k) a" for a
    using chg_D(6) [OF assms(1) _ _ that] assms(3) by simp
  ultimately show ?thesis using assms(4) by (simp add: zero_page_def)
qed

text \<open>The cleanup of \<^verbatim>\<open>uvmalloc\<close> when it runs out of memory at page \<open>j\<close>.\<close>

lemma uvmalloc_undo:
  assumes c: "chg root {} s xs (K \<union> {i..<j}) t ys (K \<union> {i..<j})" and ij: "i \<le> j" "j < NPAGE"
    and m: "j \<le> m" "m \<le> NPAGE" and K: "K \<inter> {i..<m} = {}"
    and nv: "\<forall>k. j \<le> k \<and> k < m \<longrightarrow> \<not> valid (upte (mem s) root k)"
  obtains u zs where "uvmdealloc root (va_of j) (va_of i) t = Ret (va_of i) u"
    and "chg root {i..<m} s xs (K \<union> {i..<j}) u zs K"
    and "\<forall>k\<in>{i..<m}. \<not> valid (upte (mem u) root k)"
proof -
  have le: "va_of i \<le> va_of j" using ij by (simp add: word_le_nat_alt unat_va_of)
  have max: "va_of j \<le> MAXVA" using va_of_simps(3) [OF ij(2)] by simp
  have np: "npg (va_of i) = i" "npg (va_of j) = j" using ij by (simp_all add: npg_va_of)
  obtain u zs where u: "uvmdealloc root (va_of j) (va_of i) t = Ret (va_of i) u"
    "unmapped root (K \<union> {i..<j}) {i..<j} t ys u zs"
    using uvmdealloc_spec [OF chg_D(2) [OF c] le max] unfolding np by blast
  have "K \<union> {i..<j} - {i..<j} = K" using K m(1) by auto
  then have "chg root {i..<j} t ys (K \<union> {i..<j}) u zs K"
    using unmapped_chg [OF u(2) chg_D(2) [OF c]] by simp
  then have "chg root {i..<m} s xs (K \<union> {i..<j}) u zs K"
    by (rule chg_weaken [OF chg_trans [OF c]]) (use m in auto)
  moreover have "\<not> valid (upte (mem u) root k)" if "k \<in> {i..<m}" for k
  proof -
    have k: "k < NPAGE" using that m by simp
    have "upte (mem u) root k = (if k \<in> {i..<j} then 0 else upte (mem s) root k)"
      using unmapped_D(4) [OF u(2) va_of_simps(3) [OF k]] chg_D(8) [OF c k]
      by (simp add: va_of_simps(1) [OF k])
    then show ?thesis using that nv by auto
  qed
  ultimately show ?thesis using that u(1) by blast
qed

lemma uvmalloc_loop_spec:
  assumes "newsz \<le> MAXVA" and "i \<le> j" and "j + n = npg newsz \<or> n = 0 \<and> npg newsz \<le> j" and "j \<le> NPAGE"
    and "uspace s xs root (K \<union> {i..<j})" and "K \<inter> {i..<j + n} = {}"
    and "\<forall>k. j \<le> k \<and> k < j + n \<longrightarrow> \<not> valid (upte (mem s) root k)"
    and "\<forall>k\<in>{i..<j}. zero_page (mem s) root k"
  shows "\<exists>r t ys. uvmalloc_loop root (va_of j) (va_of i) newsz s = Ret r t \<and>
    (r = newsz \<and> chg root {j..<j + n} s xs (K \<union> {i..<j}) t ys (K \<union> {i..<j + n}) \<and>
       (\<forall>k\<in>{i..<j + n}. zero_page (mem t) root k) \<or>
     r = 0 \<and> chg root {i..<j + n} s xs (K \<union> {i..<j}) t ys K \<and>
       (\<forall>k\<in>{i..<j + n}. \<not> valid (upte (mem t) root k)))"
  using assms
proof (induction n arbitrary: j s xs)
  case 0
  then have "\<not> va_of j < newsz" by (auto simp: va_of_less_size)
  then have "uvmalloc_loop root (va_of j) (va_of i) newsz s = Ret newsz s"
    by (subst uvmalloc_loop.simps) simp
  then show ?case using 0 chg_refl [OF 0(5)]
    by (intro exI [of _ newsz] exI [of _ s] exI [of _ xs]) simp
next
  case (Suc n)
  let ?K = "K \<union> {i..<j}"
  have npj: "j + Suc n = npg newsz" using Suc.prems(3) by simp
  then have j: "j < NPAGE" using npg_le [OF Suc.prems(1)] by simp
  have lt: "va_of j < newsz" using npj j Suc.prems(1) by (simp add: va_of_less_size)
  have nv: "\<not> valid (upte (mem s) root j)" using Suc.prems(7) by simp
  define E where "E F G = bnd (kalloc s) (\<lambda>p s. if p = 0 then F s
      else let s = s\<lparr>mem := memset (mem s) p 0 4096\<rparr>
           in bnd (mappages root (va_of j) PGSIZE p user_perm s) (\<lambda>r s.
              if r \<noteq> 0 then bnd (kfree p s) (\<lambda>_ s. F s) else G s))"
    for F G :: "'a kmem_scheme \<Rightarrow> (uint64, 'a kmem_scheme) outcome"
  have eq: "uvmalloc_loop root (va_of j) (va_of i) newsz s =
      E (\<lambda>s. bnd (uvmdealloc root (va_of j) (va_of i) s) (\<lambda>_ s. Ret 0 s))
        (uvmalloc_loop root (va_of (Suc j)) (va_of i) newsz)"
    by (subst uvmalloc_loop.simps)
      (simp add: lt E_def va_of_Suc user_perm_def cong: if_cong)
  show ?case
  proof (rule map_fresh [OF Suc.prems(5) j nv user_perm_ok, of "\<lambda>m p. memset m p 0 4096" E])
    show "memset m p 0 4096 a = m a" if "\<not> in_page p a" for m p a using that by (rule memset_page)
    show "E F G = bnd (kalloc s) (\<lambda>p s. if p = 0 then F s
      else let s = s\<lparr>mem := memset (mem s) p 0 4096\<rparr>
           in bnd (mappages root (va_of j) PGSIZE p user_perm s) (\<lambda>r s.
              if r \<noteq> 0 then bnd (kfree p s) (\<lambda>_ s. F s) else G s))" for F G by (rule E_def)
  next
    fix t ys
    assume f: "\<And>F G. E F G = F t" and c: "chg root {} s xs ?K t ys ?K"
    obtain u zs where u: "uvmdealloc root (va_of j) (va_of i) t = Ret (va_of i) u"
      "chg root {i..<j + Suc n} s xs ?K u zs K" "\<forall>k\<in>{i..<j + Suc n}. \<not> valid (upte (mem u) root k)"
      using uvmalloc_undo [OF c Suc.prems(2) j, of "j + Suc n"] Suc.prems(6,7) npj npg_le [OF Suc.prems(1)]
      by auto
    then show ?thesis using eq f by (intro exI [of _ 0] exI [of _ u] exI [of _ zs]) simp
  next
    fix t p ys
    assume g: "\<And>F G. E F G = G t" and c: "chg root {j} s xs ?K t ys (insert j ?K)"
      and e: "upte (mem t) root j = leaf_pte p user_perm" "page_ok s p"
      and m: "\<And>a. in_page p a \<Longrightarrow> mem t a = memset (memset (mem s) p 5 4096) p 0 4096 a"
    have K: "insert j ?K = K \<union> {i..<Suc j}" using Suc.prems(2) by auto
    have z: "zero_page (mem t) root j"
      using e m leaf_pte(2,3) [OF e(2) user_perm_ok] by (simp add: zero_page_def memset_4096 in_page_def)
    have "zero_page (mem t) root k" if "k \<in> {i..<j}" for k
      using zero_page_chg [OF c Suc.prems(5)] Suc.prems(8) that by simp
    then have z': "\<forall>k\<in>{i..<Suc j}. zero_page (mem t) root k" using z by (auto simp: less_Suc_eq)
    have nv': "\<forall>k. Suc j \<le> k \<and> k < Suc j + n \<longrightarrow> \<not> valid (upte (mem t) root k)"
    proof (intro allI impI)
      fix k assume k: "Suc j \<le> k \<and> k < Suc j + n"
      then have "k < NPAGE" using npj npg_le [OF Suc.prems(1)] by simp
      then show "\<not> valid (upte (mem t) root k)" using chg_D(8) [OF c] k Suc.prems(7) by auto
    qed
    have "\<exists>r u zs. uvmalloc_loop root (va_of (Suc j)) (va_of i) newsz t = Ret r u \<and>
      (r = newsz \<and> chg root {Suc j..<Suc j + n} t ys (K \<union> {i..<Suc j}) u zs (K \<union> {i..<Suc j + n}) \<and>
       (\<forall>k\<in>{i..<Suc j + n}. zero_page (mem u) root k) \<or>
      r = 0 \<and> chg root {i..<Suc j + n} t ys (K \<union> {i..<Suc j}) u zs K \<and>
       (\<forall>k\<in>{i..<Suc j + n}. \<not> valid (upte (mem u) root k)))"
      using Suc.prems j npj chg_D(2) [OF c] by (intro Suc.IH [OF _ _ _ _ _ _ nv' z']) (auto simp: K)
    then obtain r u zs where u: "uvmalloc_loop root (va_of (Suc j)) (va_of i) newsz t = Ret r u"
      and alt: "r = newsz \<and> chg root {Suc j..<Suc j + n} t ys (K \<union> {i..<Suc j}) u zs (K \<union> {i..<Suc j + n}) \<and>
         (\<forall>k\<in>{i..<Suc j + n}. zero_page (mem u) root k) \<or>
        r = 0 \<and> chg root {i..<Suc j + n} t ys (K \<union> {i..<Suc j}) u zs K \<and>
         (\<forall>k\<in>{i..<Suc j + n}. \<not> valid (upte (mem u) root k))"
      by blast
    have c': "chg root {j} s xs ?K t ys (K \<union> {i..<Suc j})" using c K by simp
    have "chg root {j..<j + Suc n} s xs ?K u zs (K \<union> {i..<j + Suc n})"
      if "chg root {Suc j..<Suc j + n} t ys (K \<union> {i..<Suc j}) u zs (K \<union> {i..<Suc j + n})"
      using chg_weaken [OF chg_trans [OF c' that]] by auto
    moreover have "chg root {i..<j + Suc n} s xs ?K u zs K"
      if "chg root {i..<Suc j + n} t ys (K \<union> {i..<Suc j}) u zs K"
      using chg_weaken [OF chg_trans [OF c' that], of "{i..<j + Suc n}"] Suc.prems(2) by auto
    ultimately show ?thesis
      using eq g u alt by (intro exI [of _ r] exI [of _ u] exI [of _ zs]) auto
  qed
qed

lemma uvmalloc_spec:
  assumes u: "uspace s xs root K" and sz: "oldsz \<le> newsz" "newsz \<le> MAXVA"
    and K: "K \<inter> {npg oldsz..<npg newsz} = {}"
    and nv: "\<forall>k\<in>{npg oldsz..<npg newsz}. \<not> valid (upte (mem s) root k)"
  shows "\<exists>r t ys. uvmalloc root oldsz newsz s = Ret r t \<and>
    (r = newsz \<and> chg root {npg oldsz..<npg newsz} s xs K t ys (K \<union> {npg oldsz..<npg newsz}) \<and>
       (\<forall>k\<in>{npg oldsz..<npg newsz}. zero_page (mem t) root k) \<or>
     r = 0 \<and> chg root {npg oldsz..<npg newsz} s xs K t ys K \<and>
       (\<forall>k\<in>{npg oldsz..<npg newsz}. \<not> valid (upte (mem t) root k)))"
proof -
  have o: "oldsz \<le> MAXVA" using sz by simp
  have le: "npg oldsz \<le> npg newsz" using sz(1) by (rule npg_mono)
  have eq: "uvmalloc root oldsz newsz s = uvmalloc_loop root (va_of (npg oldsz)) (va_of (npg oldsz)) newsz s"
    using sz(1) by (simp add: uvmalloc_def PGROUNDUP_va_of [OF o] Let_def not_le [symmetric])
  show ?thesis
    using uvmalloc_loop_spec [OF sz(2) order_refl, of "npg oldsz" "npg newsz - npg oldsz" s xs root K]
      npg_le [OF o] u K nv le by (simp add: eq)
qed

section \<open>Address spaces do not interfere\<close>

lemma other_space:
  assumes c: "chg root J s xs K t ys K'" and u: "uspace s xs root K" and o: "uspace s xs other L"
    and dis: "foot (mem s) other L \<inter> foot (mem s) root K = {}"
  shows "uspace t ys other L" and "pte_of (mem t) other va = pte_of (mem s) other va"
    and "foot (mem t) other L = foot (mem s) other L"
    and "foot (mem t) other L \<inter> foot (mem t) root K' = {}"
    and "\<forall>q\<in>foot (mem s) other L. \<forall>a. in_page q a \<longrightarrow> mem t a = mem s a"
proof -
  note C = chg_D [OF c]
  have fo: "foot (mem s) other L \<inter> set xs = {}" using o by (rule foot_free)
  have pg: "page_ok s q" if "q \<in> foot (mem s) root K \<union> set xs" for q
    using that foot_page_ok [OF u] kmem_ok_D(5) [OF uspace_D(2) [OF u]] by blast
  show m: "\<forall>q\<in>foot (mem s) other L. \<forall>a. in_page q a \<longrightarrow> mem t a = mem s a"
  proof (intro ballI allI impI)
    fix q a assume q: "q \<in> foot (mem s) other L" "in_page q a"
    show "mem t a = mem s a"
    proof (rule C(7))
      fix r assume r: "r \<in> foot (mem s) root K \<union> set xs"
      have "q \<noteq> r" using q(1) r dis fo by blast
      then show "\<not> in_page r a" using pages_apart [OF foot_page_ok [OF o q(1)] pg [OF r] _ q(2)] by blast
    qed
  qed
  have ys: "foot (mem s) other L \<inter> set ys = {}" using C(4) dis fo by blast
  have tm: "mem t a = mem s a" if "q \<in> tabs (mem s) other" "in_page q a" for q a
    using m that unfolding foot_def by blast
  note F = uspace_frame [OF o C(1) uspace_D(2) [OF C(2)] tm ys]
  show "uspace t ys other L" "pte_of (mem t) other va = pte_of (mem s) other va"
    "foot (mem t) other L = foot (mem s) other L" by (rule F; assumption)+
  then show "foot (mem t) other L \<inter> foot (mem t) root K' = {}" using C(4) dis fo by blast
qed

section \<open>uvmcopy\<close>

lemma PTE_FLAGS_take: "PTE_FLAGS e = take_bit 10 e"
  by (simp add: PTE_FLAGS_def take_bit_eq_mask mask_eq_exp_minus_1)

lemma flags_perm:
  assumes "leaf_ok e"
  shows "PTE_FLAGS e OR PTE_V = PTE_FLAGS e" and "PTE_FLAGS e OR PTE_V < 1024"
    and "PTE_FLAGS e OR PTE_V \<noteq> PTE_V"
proof -
  have b: "bit e 0" using assms by (simp add: leaf_ok_def valid_iff)
  show v: "PTE_FLAGS e OR PTE_V = PTE_FLAGS e"
    using b by (intro bit_word_eqI) (auto simp: PTE_FLAGS_take PTE_V_num bit_simps)
  have "unat (PTE_FLAGS e) = take_bit 10 (unat e)" by (simp add: PTE_FLAGS_take unsigned_take_bit_eq)
  then show "PTE_FLAGS e OR PTE_V < 1024"
    using take_bit_nat_less_exp [of 10 "unat e"] by (simp add: v word_less_nat_alt)
  show "PTE_FLAGS e OR PTE_V \<noteq> PTE_V" using assms by (simp add: v leaf_ok_def)
qed

lemma page_ok_bound: "page_ok s p \<Longrightarrow> unat p + 4096 < 2 ^ 63"
  by (simp add: page_ok_def PHYSTOP_num word_less_nat_alt)

text \<open>Page \<open>k\<close> of the new space holds a copy of page \<open>k\<close> of the old one.\<close>

definition copied :: "memory \<Rightarrow> uint64 \<Rightarrow> memory \<Rightarrow> uint64 \<Rightarrow> nat \<Rightarrow> bool" where
  "copied m old m' new k \<longleftrightarrow> PTE_FLAGS (upte m' new k) = PTE_FLAGS (upte m old k) \<and>
     (\<forall>i<4096. m' (upage m' new k + of_nat i) = m (upage m old k + of_nat i))"

lemma copy_fill:
  assumes "page_ok s p" "page_ok s pa" "p \<noteq> pa"
  shows "\<not> in_page p a \<Longrightarrow> memmove m p pa 4096 a = m a"
    and "i < 4096 \<Longrightarrow> memmove (memset m p 5 4096) p pa 4096 (p + of_nat i) = m (pa + of_nat i)"
proof -
  have b: "unat pa + 4096 < 2 ^ 64" "unat p + 4096 \<le> 2 ^ 64"
    using page_ok_bound [OF assms(1)] page_ok_bound [OF assms(2)] by simp_all
  show "memmove m p pa 4096 a = m a" if "\<not> in_page p a"
    using that memmove_frame [OF b] by (simp add: in_page_def)
  show "memmove (memset m p 5 4096) p pa 4096 (p + of_nat i) = m (pa + of_nat i)" if i: "i < 4096"
  proof -
    have "\<not> in_page p (pa + of_nat i)"
      using pages_apart [OF assms(2,1) _ in_page_offset [OF i]] assms(3) by auto
    then show ?thesis using i by (simp add: memmove_eq [OF b] unat_of_nat64 memset_page)
  qed
qed

lemma copied_chg:
  assumes c: "chg new J s xs K t ys K'" and u: "uspace s xs new K" and k: "k \<in> K - J"
    and co: "copied m old (mem s) new k"
  shows "copied m old (mem t) new k"
proof -
  have "upte (mem t) new k = upte (mem s) new k"
    using chg_D(8) [OF c] k uspace_D(9) [OF u] by simp
  moreover have "mem t (upage (mem s) new k + of_nat i) = mem s (upage (mem s) new k + of_nat i)"
    if "i < 4096" for i
    using chg_D(6) [OF c _ _ in_page_offset [OF that]] k by simp
  ultimately show ?thesis using co by (simp add: copied_def)
qed

text \<open>One iteration of \<^verbatim>\<open>uvmcopy\<close>.\<close>

lemma uvmcopy_step:
  assumes u: "uspace s xs new K" and o: "uspace s xs old L"
    and dis: "foot (mem s) old L \<inter> foot (mem s) new K = {}"
    and j: "j \<in> L" "\<not> valid (upte (mem s) new j)" "va_of j < sz"
  obtains (fail) t ys where "uvmcopy_loop old (va_of j) new sz s =
      bnd (uvmunmap new 0 (va_of j div PGSIZE) True t) (\<lambda>_ s. Ret (-1) s)" and "chg new {} s xs K t ys K"
  | (ok) t ys where "uvmcopy_loop old (va_of j) new sz s = uvmcopy_loop old (va_of (Suc j)) new sz t"
      and "chg new {j} s xs K t ys (insert j K)" and "copied (mem s) old (mem t) new j"
proof -
  let ?e = "upte (mem s) old j"
  note O = uspace_D [OF o]
  have jn: "j < NPAGE" using O(9) [OF j(1)] .
  have lf: "leaf_ok ?e" "page_ok s (PTE2PA ?e)" using O(5,6) [OF j(1)] by simp_all
  define E where "E F G = bnd (kalloc s) (\<lambda>p s. if p = 0 then F s
      else let s = s\<lparr>mem := memmove (mem s) p (PTE2PA ?e) 4096\<rparr>
           in bnd (mappages new (va_of j) PGSIZE p (PTE_FLAGS ?e) s) (\<lambda>r s.
              if r \<noteq> 0 then bnd (kfree p s) (\<lambda>_ s. F s) else G s))"
    for F G :: "'a kmem_scheme \<Rightarrow> (int, 'a kmem_scheme) outcome"
  have eq: "uvmcopy_loop old (va_of j) new sz s =
      E (\<lambda>s. bnd (uvmunmap new 0 (va_of j div PGSIZE) True s) (\<lambda>_ s. Ret (-1) s))
        (uvmcopy_loop old (va_of (Suc j)) new sz)"
    using O(1) O(10) [OF j(1)]
  proof (cases rule: walk_find_cases)
    case none
    then show ?thesis using lf by (simp add: leaf_ok_def)
  next
    case (some tb)
    then show ?thesis using j(3) lf(1)
      by (subst uvmcopy_loop.simps) (simp add: E_def va_of_Suc leaf_ok_def Let_def cong: if_cong)
  qed
  have fill: "memmove m p (PTE2PA ?e) 4096 a = m a" if "page_ok s p" "\<not> in_page p a" for m p a
  proof -
    have "unat (PTE2PA ?e) + 4096 < 2 ^ 64" "unat p + 4096 \<le> 2 ^ 64"
      using page_ok_bound [OF that(1)] page_ok_bound [OF lf(2)] by simp_all
    then show ?thesis using that(2) memmove_frame by (simp add: in_page_def)
  qed
  show ?thesis
  proof (rule map_fresh [OF u jn j(2) flags_perm(2,3) [OF lf(1)], of "\<lambda>m p. memmove m p (PTE2PA ?e) 4096" E])
    show "memmove m p (PTE2PA ?e) 4096 a = m a" if "page_ok s p" "\<not> in_page p a" for m p a
      using that by (rule fill)
    show "E F G = bnd (kalloc s) (\<lambda>p s. if p = 0 then F s
      else let s = s\<lparr>mem := memmove (mem s) p (PTE2PA ?e) 4096\<rparr>
           in bnd (mappages new (va_of j) PGSIZE p (PTE_FLAGS ?e) s) (\<lambda>r s.
              if r \<noteq> 0 then bnd (kfree p s) (\<lambda>_ s. F s) else G s))" for F G by (rule E_def)
  next
    fix t ys assume "\<And>F G. E F G = F t" and "chg new {} s xs K t ys K"
    then show ?thesis using that(1) eq by simp
  next
    fix t p ys
    assume g: "\<And>F G. E F G = G t" and c: "chg new {j} s xs K t ys (insert j K)"
      and e: "upte (mem t) new j = leaf_pte p (PTE_FLAGS ?e)" "page_ok s p" "p \<in> set xs"
      and m: "\<And>a. in_page p a \<Longrightarrow> mem t a = memmove (memset (mem s) p 5 4096) p (PTE2PA ?e) 4096 a"
    have pe: "p \<noteq> PTE2PA ?e" using O(8) [OF j(1)] e(3) by auto
    have "PTE2PA (leaf_pte p (PTE_FLAGS ?e)) = p" "PTE_FLAGS (leaf_pte p (PTE_FLAGS ?e)) = PTE_FLAGS ?e"
      using leaf_pte(2,3) [OF e(2) flags_perm(2,3) [OF lf(1)]] flags_perm(1) [OF lf(1)] by simp_all
    then have "copied (mem s) old (mem t) new j"
      using m [OF in_page_offset] copy_fill(2) [OF e(2) lf(2) pe] by (simp add: copied_def e(1))
    then show ?thesis using that(2) eq g c by simp
  qed
qed

lemma uvmcopy_undo:
  assumes c: "chg new {} s xs (K \<union> {0..<j}) t ys (K \<union> {0..<j})" and j: "j < NPAGE"
    and m: "j \<le> m" "m \<le> NPAGE" and K: "K \<inter> {0..<m} = {}"
    and nv: "\<forall>k. j \<le> k \<and> k < m \<longrightarrow> \<not> valid (upte (mem s) new k)"
  obtains u zs where "uvmunmap new 0 (va_of j div PGSIZE) True t = Ret () u"
    and "chg new {0..<m} s xs (K \<union> {0..<j}) u zs K"
    and "\<forall>k<m. \<not> valid (upte (mem u) new k)"
proof -
  have jn: "j \<le> NPAGE" using j by simp
  obtain u zs where u: "uvmunmap new 0 (of_nat j) True t = Ret () u"
    "unmapped new (K \<union> {0..<j}) {0..<j} t ys u zs"
    using uvmunmap_spec [OF chg_D(2) [OF c] le0 jn] by auto
  have "K \<union> {0..<j} - {0..<j} = K" using K m(1) by auto
  then have "chg new {0..<j} t ys (K \<union> {0..<j}) u zs K"
    using unmapped_chg [OF u(2) chg_D(2) [OF c]] by simp
  then have "chg new {0..<m} s xs (K \<union> {0..<j}) u zs K"
    by (rule chg_weaken [OF chg_trans [OF c]]) (use m in auto)
  moreover have "\<not> valid (upte (mem u) new k)" if "k < m" for k
  proof -
    have k: "k < NPAGE" using that m by simp
    have "upte (mem u) new k = (if k \<in> {0..<j} then 0 else upte (mem s) new k)"
      using unmapped_D(4) [OF u(2) va_of_simps(3) [OF k]] chg_D(8) [OF c k]
      by (simp add: va_of_simps(1) [OF k])
    then show ?thesis using that nv by auto
  qed
  moreover have "va_of j div PGSIZE = of_nat j" using va_of_diff(1) [OF le0 jn] by simp
  ultimately show ?thesis using that u(1) by auto
qed

definition same_space :: "memory \<Rightarrow> memory \<Rightarrow> uint64 \<Rightarrow> nat set \<Rightarrow> bool" where
  "same_space m m' root L \<longleftrightarrow> (\<forall>k\<in>L. upte m' root k = upte m root k \<and>
     (\<forall>i<4096. m' (upage m root k + of_nat i) = m (upage m root k + of_nat i)))"

lemma same_space_copied:
  "same_space m m' old L \<Longrightarrow> k \<in> L \<Longrightarrow> copied m' old m'' new k \<Longrightarrow> copied m old m'' new k"
  by (auto simp: same_space_def copied_def)

lemma same_space_trans: "same_space m m' r L \<Longrightarrow> same_space m' m'' r L \<Longrightarrow> same_space m m'' r L"
  by (simp add: same_space_def)

lemma other_same_space:
  assumes "chg root J s xs K t ys K'" and "uspace s xs root K" and "uspace s xs other L"
    and "foot (mem s) other L \<inter> foot (mem s) root K = {}"
  shows "same_space (mem s) (mem t) other L"
  unfolding same_space_def
proof (intro ballI conjI allI impI)
  fix k i assume k: "k \<in> L"
  show "upte (mem t) other k = upte (mem s) other k" by (rule other_space(2) [OF assms])
  assume "i < (4096 :: nat)"
  then have "in_page (upage (mem s) other k) (upage (mem s) other k + of_nat i)" by (rule in_page_offset)
  moreover have "upage (mem s) other k \<in> foot (mem s) other L" using k by (auto simp: foot_def udata_def)
  ultimately show "mem t (upage (mem s) other k + of_nat i) = mem s (upage (mem s) other k + of_nat i)"
    using other_space(5) [OF assms] by blast
qed

lemma uvmcopy_loop_spec:
  assumes "sz \<le> MAXVA" and "j + n = npg sz" and "uspace s xs new (K \<union> {0..<j})" and "uspace s xs old L"
    and "foot (mem s) old L \<inter> foot (mem s) new (K \<union> {0..<j}) = {}" and "{0..<npg sz} \<subseteq> L"
    and "K \<inter> {0..<j + n} = {}" and "\<forall>k. j \<le> k \<and> k < j + n \<longrightarrow> \<not> valid (upte (mem s) new k)"
    and "same_space m0 (mem s) old L" and "\<forall>k<j. copied m0 old (mem s) new k"
  shows "\<exists>r t ys. uvmcopy_loop old (va_of j) new sz s = Ret r t \<and>
    (r = 0 \<and> chg new {j..<j + n} s xs (K \<union> {0..<j}) t ys (K \<union> {0..<j + n}) \<and>
       (\<forall>k<j + n. copied m0 old (mem t) new k) \<or>
     r = -1 \<and> chg new {0..<j + n} s xs (K \<union> {0..<j}) t ys K \<and>
       (\<forall>k<j + n. \<not> valid (upte (mem t) new k)))"
  using assms
proof (induction n arbitrary: j s xs)
  case 0
  have "j \<le> NPAGE" using 0(2) npg_le [OF 0(1)] by simp
  then have "\<not> va_of j < sz" using 0(1,2) by (auto simp: va_of_less_size)
  then have "uvmcopy_loop old (va_of j) new sz s = Ret 0 s" by (subst uvmcopy_loop.simps) simp
  then show ?case using 0 chg_refl [OF 0(3)]
    by (intro exI [of _ 0] exI [of _ s] exI [of _ xs]) simp
next
  case (Suc n)
  let ?K = "K \<union> {0..<j}"
  have j: "j < NPAGE" using Suc.prems(2) npg_le [OF Suc.prems(1)] by simp
  have lt: "va_of j < sz" using Suc.prems(1,2) j by (simp add: va_of_less_size)
  have jL: "j \<in> L" using Suc.prems(2,6) by auto
  have nv: "\<not> valid (upte (mem s) new j)" using Suc.prems(8) by simp
  from Suc.prems(3-5) jL nv lt show ?case
  proof (cases rule: uvmcopy_step)
    case (fail t ys)
    obtain u zs where "uvmunmap new 0 (va_of j div PGSIZE) True t = Ret () u"
      "chg new {0..<j + Suc n} s xs ?K u zs K" "\<forall>k<j + Suc n. \<not> valid (upte (mem u) new k)"
      using uvmcopy_undo [OF fail(2) j, of "j + Suc n"] Suc.prems(1,2,7,8) npg_le by auto
    then show ?thesis using fail(1) by (intro exI [of _ "-1"] exI [of _ u] exI [of _ zs]) simp
  next
    case (ok t ys)
    have K: "insert j ?K = K \<union> {0..<Suc j}" by auto
    have c: "chg new {j} s xs ?K t ys (K \<union> {0..<Suc j})" using ok(2) K by simp
    note O = other_space [OF c Suc.prems(3-5)]
    have "copied m0 old (mem t) new k" if "k < j" for k
      using copied_chg [OF c Suc.prems(3)] Suc.prems(10) that by simp
    then have co: "\<forall>k<Suc j. copied m0 old (mem t) new k"
      using same_space_copied [OF Suc.prems(9) jL ok(3)] by (auto simp: less_Suc_eq)
    have nv': "\<forall>k. Suc j \<le> k \<and> k < Suc j + n \<longrightarrow> \<not> valid (upte (mem t) new k)"
      using chg_D(8) [OF c] Suc.prems(2,8) npg_le [OF Suc.prems(1)] by auto
    have ss: "same_space m0 (mem t) old L"
      using Suc.prems(9) other_same_space [OF c Suc.prems(3-5)] by (rule same_space_trans)
    have "\<exists>r u zs. uvmcopy_loop old (va_of (Suc j)) new sz t = Ret r u \<and>
      (r = 0 \<and> chg new {Suc j..<Suc j + n} t ys (K \<union> {0..<Suc j}) u zs (K \<union> {0..<Suc j + n}) \<and>
       (\<forall>k<Suc j + n. copied m0 old (mem u) new k) \<or>
      r = -1 \<and> chg new {0..<Suc j + n} t ys (K \<union> {0..<Suc j}) u zs K \<and>
       (\<forall>k<Suc j + n. \<not> valid (upte (mem u) new k)))"
      using Suc.prems(1,2,6,7) chg_D(2) [OF c] O by (intro Suc.IH [OF _ _ _ _ _ _ _ nv' ss co]) auto
    then obtain r u zs where u: "uvmcopy_loop old (va_of (Suc j)) new sz t = Ret r u"
      and alt: "r = 0 \<and> chg new {Suc j..<Suc j + n} t ys (K \<union> {0..<Suc j}) u zs (K \<union> {0..<Suc j + n}) \<and>
         (\<forall>k<Suc j + n. copied m0 old (mem u) new k) \<or>
        r = -1 \<and> chg new {0..<Suc j + n} t ys (K \<union> {0..<Suc j}) u zs K \<and>
         (\<forall>k<Suc j + n. \<not> valid (upte (mem u) new k))"
      by blast
    have "chg new {j..<j + Suc n} s xs ?K u zs (K \<union> {0..<j + Suc n})"
      if "chg new {Suc j..<Suc j + n} t ys (K \<union> {0..<Suc j}) u zs (K \<union> {0..<Suc j + n})"
      using chg_weaken [OF chg_trans [OF c that], of "{j..<j + Suc n}"] by auto
    moreover have "chg new {0..<j + Suc n} s xs ?K u zs K"
      if "chg new {0..<Suc j + n} t ys (K \<union> {0..<Suc j}) u zs K"
      using chg_weaken [OF chg_trans [OF c that], of "{0..<j + Suc n}"] by auto
    ultimately show ?thesis
      using ok(1) u alt by (intro exI [of _ r] exI [of _ u] exI [of _ zs]) auto
  qed
qed

end
