(* ===== verification/Uvm_Free.thy ===== *)
theory Uvm_Free
  imports Uvm_Ops
begin

text \<open>
  Tearing down an address space: \<^verbatim>\<open>freewalk\<close> returns every page-table page to the
  allocator, and \<^verbatim>\<open>uvmfree\<close> every page of the process.
\<close>

section \<open>Subtrees of a page table\<close>

definition idx_ok :: "uint64 list \<Rightarrow> bool" where
  "idx_ok js \<longleftrightarrow> (\<forall>i\<in>set js. i < 512)"

definition sub :: "memory \<Rightarrow> nat \<Rightarrow> uint64 \<Rightarrow> uint64 set" where
  "sub m h pt = {a. \<exists>js. length js \<le> h \<and> idx_ok js \<and> node m pt js = Some a}"

text \<open>
  \<open>ftree m h pt\<close>: what \<^verbatim>\<open>freewalk\<close> needs of a table of height \<open>h\<close>: it is a tree, inner
  entries have no permissions, and the tables of the lowest level are empty.
\<close>

definition ftree :: "memory \<Rightarrow> nat \<Rightarrow> uint64 \<Rightarrow> bool" where
  "ftree m h pt \<longleftrightarrow>
     (\<forall>js ks a. length js \<le> h \<longrightarrow> length ks \<le> h \<longrightarrow> idx_ok js \<longrightarrow> idx_ok ks \<longrightarrow>
        node m pt js = Some a \<longrightarrow> node m pt ks = Some a \<longrightarrow> js = ks) \<and>
     (\<forall>js i a. length js < h \<longrightarrow> idx_ok js \<longrightarrow> i < 512 \<longrightarrow> node m pt js = Some a \<longrightarrow>
        valid (load64 m (slot a i)) \<longrightarrow> load64 m (slot a i) AND (PTE_R OR PTE_W OR PTE_X) = 0) \<and>
     (\<forall>js i a. length js = h \<longrightarrow> idx_ok js \<longrightarrow> i < 512 \<longrightarrow> node m pt js = Some a \<longrightarrow>
        \<not> valid (load64 m (slot a i)))"

lemma idx_ok_simps [simp]: "idx_ok []" "idx_ok (i # js) \<longleftrightarrow> i < 512 \<and> idx_ok js"
  by (auto simp: idx_ok_def)

lemma sub_self: "pt \<in> sub m h pt"
  unfolding sub_def by (intro CollectI exI [of _ "[]"]) simp

lemma tabs_sub: "tabs m root = sub m 2 root"
  by (simp add: tabs_def sub_def path_ok_def idx_ok_def)

lemma node_child: "child m pt i = Some c \<Longrightarrow> node m c js = node m pt (i # js)"
  by simp

lemma sub_child:
  assumes "child m pt i = Some c" and "i < 512"
  shows "sub m h c \<subseteq> sub m (Suc h) pt"
proof
  fix a assume "a \<in> sub m h c"
  then obtain js where "length js \<le> h" "idx_ok js" "node m c js = Some a" by (auto simp: sub_def)
  then show "a \<in> sub m (Suc h) pt"
    unfolding sub_def using assms by (intro CollectI exI [of _ "i # js"]) simp
qed

lemma sub_unfold:
  "sub m (Suc h) pt = insert pt (\<Union>i\<in>{i. i < 512}. case child m pt i of None \<Rightarrow> {} | Some c \<Rightarrow> sub m h c)"
proof -
  have "a = pt \<or> (\<exists>i<512. \<exists>c. child m pt i = Some c \<and> a \<in> sub m h c)" if a: "a \<in> sub m (Suc h) pt" for a
  proof -
    obtain js where js: "length js \<le> Suc h" "idx_ok js" "node m pt js = Some a"
      using a by (auto simp: sub_def)
    then show ?thesis by (cases js) (auto simp: sub_def split: option.splits)
  qed
  moreover have "a \<in> sub m (Suc h) pt" if "i < 512" "child m pt i = Some c" "a \<in> sub m h c" for a i c
    using sub_child [OF that(2,1)] that(3) by blast
  ultimately show ?thesis using sub_self [of pt m "Suc h"] by (fastforce split: option.splits)
qed

lemma ftree_child:
  assumes f: "ftree m (Suc h) pt" and c: "child m pt i = Some c" and i: "i < 512"
  shows "ftree m h c" and "pt \<notin> sub m h c"
    and "load64 m (slot pt i) AND (PTE_R OR PTE_W OR PTE_X) = 0"
proof -
  have n: "node m c js = node m pt (i # js)" for js using c by simp
  show "ftree m h c"
    unfolding ftree_def n
  proof (intro conjI allI impI)
    show "js = ks" if "length js \<le> h" "length ks \<le> h" "idx_ok js" "idx_ok ks"
      "node m pt (i # js) = Some a" "node m pt (i # ks) = Some a" for js ks a
    proof -
      have "i # js = i # ks" using f that i unfolding ftree_def
        by (metis Suc_le_mono idx_ok_simps(2) length_Cons)
      then show ?thesis by simp
    qed
    show "load64 m (slot a k) AND (PTE_R OR PTE_W OR PTE_X) = 0"
      if "length js < h" "idx_ok js" "k < 512" "node m pt (i # js) = Some a" "valid (load64 m (slot a k))" for js k a
      using f that i unfolding ftree_def by (metis Suc_less_eq idx_ok_simps(2) length_Cons)
    show "\<not> valid (load64 m (slot a k))"
      if "length js = h" "idx_ok js" "k < 512" "node m pt (i # js) = Some a" for js k a
      using f that i unfolding ftree_def by (metis idx_ok_simps(2) length_Cons)
  qed
  show "pt \<notin> sub m h c"
  proof
    assume "pt \<in> sub m h c"
    then obtain js where "length js \<le> h" "idx_ok js" "node m pt (i # js) = Some pt"
      unfolding sub_def n by blast
    moreover have "node m pt [] = Some pt" by simp
    ultimately show False using f i unfolding ftree_def
      by (metis Suc_le_mono idx_ok_simps le0 length_Cons list.distinct(1) list.size(3))
  qed
  have "valid (load64 m (slot pt i))" using c by (auto simp: child_def Let_def split: if_splits)
  moreover have "node m pt [] = Some pt" by simp
  ultimately show "load64 m (slot pt i) AND (PTE_R OR PTE_W OR PTE_X) = 0"
    using f i unfolding ftree_def by (metis idx_ok_simps(1) list.size(3) zero_less_Suc)
qed

lemma ftree_children:
  assumes f: "ftree m (Suc h) pt" and c: "child m pt i = Some c" "child m pt j = Some d"
    and ij: "i < 512" "j < 512" "i \<noteq> j"
  shows "sub m h c \<inter> sub m h d = {}"
proof (rule ccontr)
  assume "sub m h c \<inter> sub m h d \<noteq> {}"
  then obtain a js ks where "length js \<le> h" "idx_ok js" "node m c js = Some a"
    "length ks \<le> h" "idx_ok ks" "node m d ks = Some a" by (auto simp: sub_def)
  then have "i # js = j # ks"
    using f c ij unfolding ftree_def node_child [OF c(1)] node_child [OF c(2)]
    by (metis Suc_le_mono idx_ok_simps(2) length_Cons)
  then show False using ij(3) by simp
qed

text \<open>A subtree is unchanged as long as its pages are.\<close>

lemma sub_frame:
  assumes "\<forall>q\<in>sub m h pt. \<forall>a. in_page q a \<longrightarrow> m' a = m a"
  shows "length js \<le> h \<Longrightarrow> idx_ok js \<Longrightarrow> node m' pt js = node m pt js"
  using assms
proof (induction js arbitrary: h pt)
  case (Cons i js)
  then obtain h' where h: "h = Suc h'" "length js \<le> h'" by (cases h) auto
  have i: "i < 512" "idx_ok js" using Cons.prems(2) by simp_all
  have "\<forall>a. in_page pt a \<longrightarrow> m' a = m a" using Cons.prems(3) sub_self by blast
  then have e: "load64 m' (slot pt i) = load64 m (slot pt i)"
    using i by (intro load_slot_cong) blast+
  then have c: "child m' pt i = child m pt i" by (simp add: child_def)
  show ?case
  proof (cases "child m pt i")
    case (Some d)
    have "\<forall>q\<in>sub m h' d. \<forall>a. in_page q a \<longrightarrow> m' a = m a"
      using Cons.prems(3) sub_child [OF Some i(1), of h'] h(1) by blast
    then show ?thesis using Some c Cons.IH [OF h(2) i(2)] by simp
  qed (use c in simp)
qed simp

lemma ftree_frame:
  assumes m: "\<forall>q\<in>sub m h pt. \<forall>a. in_page q a \<longrightarrow> m' a = m a"
  shows "sub m' h pt = sub m h pt" and "ftree m h pt \<Longrightarrow> ftree m' h pt"
proof -
  note n = sub_frame [OF m]
  show "sub m' h pt = sub m h pt" using n by (auto simp: sub_def)
  have l: "load64 m' (slot a i) = load64 m (slot a i)"
    if "length js \<le> h" "idx_ok js" "node m pt js = Some a" "i < 512" for js a i
  proof -
    have "a \<in> sub m h pt" using that by (auto simp: sub_def)
    then show ?thesis using m that(4) by (intro load_slot_cong) blast+
  qed
  show "ftree m' h pt" if f: "ftree m h pt"
    unfolding ftree_def
  proof (intro conjI allI impI)
    show "js = ks" if "length js \<le> h" "length ks \<le> h" "idx_ok js" "idx_ok ks"
      "node m' pt js = Some a" "node m' pt ks = Some a" for js ks a
      using that n f unfolding ftree_def by metis
    show "load64 m' (slot a i) AND (PTE_R OR PTE_W OR PTE_X) = 0"
      if js: "length js < h" "idx_ok js" "i < 512" "node m' pt js = Some a" "valid (load64 m' (slot a i))" for js i a
    proof -
      have "node m pt js = Some a" "load64 m' (slot a i) = load64 m (slot a i)"
        using js n [of js] l [of js a i] by simp_all
      then show ?thesis using f js unfolding ftree_def by metis
    qed
    show "\<not> valid (load64 m' (slot a i))"
      if js: "length js = h" "idx_ok js" "i < 512" "node m' pt js = Some a" for js i a
    proof -
      have "node m pt js = Some a" "load64 m' (slot a i) = load64 m (slot a i)"
        using js n [of js] l [of js a i] by simp_all
      then show ?thesis using f js unfolding ftree_def by metis
    qed
  qed
qed

section \<open>freewalk\<close>

text \<open>\<open>freed s xs Q t ys\<close>: exactly the pages \<open>Q\<close> were returned to the allocator.\<close>

definition freed :: "'a kmem_scheme \<Rightarrow> uint64 list \<Rightarrow> uint64 set \<Rightarrow> 'a kmem_scheme \<Rightarrow> uint64 list \<Rightarrow> bool" where
  "freed s xs Q t ys \<longleftrightarrow> kframe s t \<and> kmem_ok t ys \<and> set ys = set xs \<union> Q \<and>
     (\<forall>b. (\<forall>q\<in>Q. \<not> in_page q b) \<longrightarrow> mem t b = mem s b)"

lemma of_nat_512: "i < 512 \<Longrightarrow> (of_nat i :: uint64) < 512"
  by (simp add: word_less_nat_alt unat_of_nat64)

lemma freewalk_skip:
  assumes "\<forall>j. i \<le> j \<and> j < 512 \<longrightarrow> \<not> valid (load64 (mem s) (slot pt (of_nat j)))" and "i \<le> 512"
  shows "freewalk_from i pt s = Some (kfree pt s)"
  using assms
proof (induction "512 - i" arbitrary: i)
  case 0
  then show ?case by (subst freewalk_from.simps) simp
next
  case (Suc n)
  then have "\<not> valid (load64 (mem s) (slot pt (of_nat i)))" by auto
  moreover have "freewalk_from (Suc i) pt s = Some (kfree pt s)" using Suc by (intro Suc.hyps(1)) auto
  ultimately show ?case using Suc by (subst freewalk_from.simps) (auto simp: Let_def)
qed

text \<open>
  \<open>todo s xs h pt i\<close>: the loop of \<^verbatim>\<open>freewalk\<close> stands before entry \<open>i\<close> of \<open>pt\<close>; the subtrees
  below the remaining entries are intact.
\<close>

definition todo :: "'a kmem_scheme \<Rightarrow> uint64 list \<Rightarrow> nat \<Rightarrow> uint64 \<Rightarrow> nat \<Rightarrow> bool" where
  "todo s xs h pt i \<longleftrightarrow> kmem_ok s xs \<and> page_ok s pt \<and> pt \<notin> set xs \<and>
     (\<forall>j c. i \<le> j \<longrightarrow> j < 512 \<longrightarrow> child (mem s) pt (of_nat j) = Some c \<longrightarrow>
        ftree (mem s) h c \<and> sub (mem s) h c \<inter> insert pt (set xs) = {} \<and> (\<forall>q\<in>sub (mem s) h c. page_ok s q) \<and>
        load64 (mem s) (slot pt (of_nat j)) AND (PTE_R OR PTE_W OR PTE_X) = 0) \<and>
     (\<forall>j k c d. i \<le> j \<longrightarrow> j < k \<longrightarrow> k < 512 \<longrightarrow> child (mem s) pt (of_nat j) = Some c \<longrightarrow>
        child (mem s) pt (of_nat k) = Some d \<longrightarrow> sub (mem s) h c \<inter> sub (mem s) h d = {})"

definition rest :: "memory \<Rightarrow> nat \<Rightarrow> uint64 \<Rightarrow> nat \<Rightarrow> uint64 set" where
  "rest m h pt i = (\<Union>j\<in>{i..<512}. case child m pt (of_nat j) of None \<Rightarrow> {} | Some c \<Rightarrow> sub m h c)"

lemma todo_D:
  assumes "todo s xs h pt i"
  shows "kmem_ok s xs" "page_ok s pt" "pt \<notin> set xs"
    and "i \<le> j \<Longrightarrow> j < 512 \<Longrightarrow> child (mem s) pt (of_nat j) = Some c \<Longrightarrow> ftree (mem s) h c"
    and "i \<le> j \<Longrightarrow> j < 512 \<Longrightarrow> child (mem s) pt (of_nat j) = Some c \<Longrightarrow>
      sub (mem s) h c \<inter> insert pt (set xs) = {}"
    and "i \<le> j \<Longrightarrow> j < 512 \<Longrightarrow> child (mem s) pt (of_nat j) = Some c \<Longrightarrow> q \<in> sub (mem s) h c \<Longrightarrow> page_ok s q"
    and "i \<le> j \<Longrightarrow> j < 512 \<Longrightarrow> child (mem s) pt (of_nat j) = Some c \<Longrightarrow>
      load64 (mem s) (slot pt (of_nat j)) AND (PTE_R OR PTE_W OR PTE_X) = 0"
    and "i \<le> j \<Longrightarrow> j < k \<Longrightarrow> k < 512 \<Longrightarrow> child (mem s) pt (of_nat j) = Some c \<Longrightarrow>
      child (mem s) pt (of_nat k) = Some d \<Longrightarrow> sub (mem s) h c \<inter> sub (mem s) h d = {}"
  using assms unfolding todo_def by (blast+)

lemma todo_skip: "todo s xs h pt i \<Longrightarrow> todo s xs h pt (Suc i)"
  unfolding todo_def by (meson Suc_leD)

lemma rest_skip: "i < 512 \<Longrightarrow> rest m h pt i = rest m h pt (Suc i) \<union>
    (case child m pt (of_nat i) of None \<Rightarrow> {} | Some c \<Rightarrow> sub m h c)"
proof -
  assume "i < 512"
  then have "{i..<512} = insert i {Suc i..<512}" by auto
  then show ?thesis by (auto simp: rest_def)
qed

lemma todo_step:
  assumes t: "todo s xs h pt i" and i: "i < 512" and c: "child (mem s) pt (of_nat i) = Some c"
    and f: "freed s xs (sub (mem s) h c) u ys"
    and v: "v = u\<lparr>mem := store64 (mem u) (slot pt (of_nat i)) 0\<rparr>"
  shows "todo v ys h pt (Suc i)" and "rest (mem v) h pt (Suc i) = rest (mem s) h pt (Suc i)"
    and "kframe s v" and "set ys = set xs \<union> sub (mem s) h c"
    and "\<forall>b. (\<forall>q\<in>insert pt (sub (mem s) h c). \<not> in_page q b) \<longrightarrow> mem v b = mem s b"
proof -
  note T = todo_D [OF t]
  have F: "kframe s u" "kmem_ok u ys" "set ys = set xs \<union> sub (mem s) h c"
    "\<And>b. \<forall>q\<in>sub (mem s) h c. \<not> in_page q b \<Longrightarrow> mem u b = mem s b"
    using f by (auto simp: freed_def)
  have cs: "sub (mem s) h c \<inter> insert pt (set xs) = {}" using T(5) [OF _ i c] by simp
  have pt: "pt \<notin> set ys" "aligned pt" using F(3) cs T(3) page_ok_aligned [OF T(2)] by auto
  show fr: "kframe s v" using F(1) by (rule kframe_trans) (simp add: v)
  show "set ys = set xs \<union> sub (mem s) h c" by (rule F(3))
  have k: "kmem_ok v ys"
    by (rule kmem_ok_cong [OF F(2) _ _ _ pt(2,1)]) (simp_all add: v store_slot_frame of_nat_512 [OF i])
  have mv: "mem v b = mem s b" if "\<forall>q\<in>insert pt (sub (mem s) h c). \<not> in_page q b" for b
    using that F(4) [of b] by (simp add: v store_slot_frame of_nat_512 [OF i])
  then show "\<forall>b. (\<forall>q\<in>insert pt (sub (mem s) h c). \<not> in_page q b) \<longrightarrow> mem v b = mem s b" by blast
  have po: "page_ok s q" if "q \<in> insert pt (sub (mem s) h c)" for q
    using that T(2) T(6) [OF _ i c] by auto
  have slots: "load64 (mem v) (slot pt (of_nat j)) = load64 (mem s) (slot pt (of_nat j))"
    if "Suc i \<le> j" "j < 512" for j
  proof -
    have "(of_nat i :: uint64) \<noteq> of_nat j"
      using that i by (simp add: word_unat_eq_iff unat_of_nat64)
    then have "load64 (mem v) (slot pt (of_nat j)) = load64 (mem u) (slot pt (of_nat j))"
      unfolding v using that i by (simp add: load_store_slot of_nat_512)
    also have "\<dots> = load64 (mem s) (slot pt (of_nat j))"
    proof (rule load_slot_cong [OF _ of_nat_512 [OF that(2)]])
      fix a assume a: "in_page pt a"
      have "\<not> in_page q a" if "q \<in> sub (mem s) h c" for q
        using pages_apart [OF T(2) po _ a] that cs by blast
      then show "mem u a = mem s a" by (intro F(4)) blast
    qed
    finally show ?thesis .
  qed
  then have ch: "child (mem v) pt (of_nat j) = child (mem s) pt (of_nat j)" if "Suc i \<le> j" "j < 512" for j
    using that by (simp add: child_def)
  have sm: "\<forall>q\<in>sub (mem s) h d. \<forall>a. in_page q a \<longrightarrow> mem v a = mem s a"
    if j: "Suc i \<le> j" "j < 512" "child (mem s) pt (of_nat j) = Some d" for j d
  proof (intro ballI allI impI)
    fix q a assume q: "q \<in> sub (mem s) h d" "in_page q a"
    have ij: "i \<le> j" "i < j" using j(1) by simp_all
    have "q \<notin> insert pt (sub (mem s) h c)"
      using q(1) T(5) [OF ij(1) j(2,3)] T(8) [OF order_refl ij(2) j(2) c j(3)] by blast
    moreover have "page_ok s q" using T(6) [OF ij(1) j(2,3) q(1)] .
    ultimately have "\<not> in_page r a" if "r \<in> insert pt (sub (mem s) h c)" for r
      using pages_apart [OF _ po [OF that] _ q(2)] that by blast
    then show "mem v a = mem s a" by (intro mv) blast
  qed
  have sub_same: "sub (mem v) h d = sub (mem s) h d" and ft: "ftree (mem v) h d"
    if j: "Suc i \<le> j" "j < 512" "child (mem s) pt (of_nat j) = Some d" for j d
    using ftree_frame [OF sm [OF j]] T(4) [of j d] j by auto
  show "rest (mem v) h pt (Suc i) = rest (mem s) h pt (Suc i)"
    using ch sub_same by (auto simp: rest_def split: option.splits)
  show "todo v ys h pt (Suc i)"
    unfolding todo_def
  proof (intro conjI allI impI)
    show "page_ok v pt" using T(2) kframe_page_ok [OF fr] by simp
    fix j d assume j: "Suc i \<le> j" "j < 512" and "child (mem v) pt (of_nat j) = Some d"
    then have d: "child (mem s) pt (of_nat j) = Some d" using ch by simp
    have ij: "i \<le> j" "i < j" using j(1) by simp_all
    note S = sub_same [OF j d]
    show "ftree (mem v) h d" by (rule ft [OF j d])
    show "sub (mem v) h d \<inter> insert pt (set ys) = {}"
      using T(5) [OF ij(1) j(2) d] T(8) [OF order_refl ij(2) j(2) c d] S F(3) by blast
    show "\<forall>q\<in>sub (mem v) h d. page_ok v q"
      using T(6) [OF ij(1) j(2) d] S kframe_page_ok [OF fr] by simp
    show "load64 (mem v) (slot pt (of_nat j)) AND (PTE_R OR PTE_W OR PTE_X) = 0"
      using T(7) [OF ij(1) j(2) d] slots [OF j] by simp
  next
    fix j l d e assume j: "Suc i \<le> j" "j < l" "l < 512"
      and "child (mem v) pt (of_nat j) = Some d" "child (mem v) pt (of_nat l) = Some e"
    then have d: "child (mem s) pt (of_nat j) = Some d" "child (mem s) pt (of_nat l) = Some e"
      using ch by simp_all
    show "sub (mem v) h d \<inter> sub (mem v) h e = {}"
      using T(8) [of j l d e] j d sub_same [of j d] sub_same [of l e] by simp
  qed (use k pt in auto)
qed

lemma freewalk_loop:
  assumes IH: "\<And>(s :: 'a kmem_scheme) pt xs. ftree (mem s) h pt \<Longrightarrow> kmem_ok s xs \<Longrightarrow> \<forall>q\<in>sub (mem s) h pt. page_ok s q \<Longrightarrow>
      sub (mem s) h pt \<inter> set xs = {} \<Longrightarrow>
      \<exists>t ys. freewalk_from 0 pt s = Some (Ret () t) \<and> freed s xs (sub (mem s) h pt) t ys"
    and "todo (s :: 'a kmem_scheme) xs h pt i" and "i \<le> 512"
  shows "\<exists>t ys. freewalk_from i pt s = Some (Ret () t) \<and> freed s xs (insert pt (rest (mem s) h pt i)) t ys"
  using assms(2,3)
proof (induction "512 - i" arbitrary: i s xs)
  case 0
  note T = todo_D [OF 0(2)]
  obtain t where t: "kfree pt s = Ret () t" "kframe s t" "kmem_ok t (pt # xs)"
    "\<And>a. \<not> in_page pt a \<Longrightarrow> mem t a = mem s a"
    using kfree_ok [OF T(1-3)] by blast
  have "rest (mem s) h pt i = {}" using 0 by (simp add: rest_def)
  then have "freed s xs (insert pt (rest (mem s) h pt i)) t (pt # xs)"
    using t by (simp add: freed_def)
  moreover have "freewalk_from i pt s = Some (kfree pt s)" using 0 by (subst freewalk_from.simps) simp
  ultimately show ?case using t(1) by auto
next
  case (Suc n)
  then have i: "i < 512" by simp
  note T = todo_D [OF Suc.prems(1)]
  show ?case
  proof (cases "child (mem s) pt (of_nat i)")
    case None
    then have "\<not> valid (load64 (mem s) (slot pt (of_nat i)))" by (auto simp: child_def Let_def split: if_splits)
    then have "freewalk_from i pt s = freewalk_from (Suc i) pt s"
      using i by (subst freewalk_from.simps) (simp add: Let_def)
    moreover have "rest (mem s) h pt i = rest (mem s) h pt (Suc i)" using rest_skip [OF i] None by simp
    moreover have "\<exists>t ys. freewalk_from (Suc i) pt s = Some (Ret () t) \<and>
        freed s xs (insert pt (rest (mem s) h pt (Suc i))) t ys"
      using Suc i todo_skip by (intro Suc.hyps(1)) auto
    ultimately show ?thesis by simp
  next
    case (Some c)
    have cs: "sub (mem s) h c \<inter> set xs = {}" "\<forall>q\<in>sub (mem s) h c. page_ok s q"
      using T(5) [OF order_refl i Some] T(6) [OF order_refl i Some] by blast+
    obtain u ys where u: "freewalk_from 0 c s = Some (Ret () u)" "freed s xs (sub (mem s) h c) u ys"
      using IH [OF T(4) [OF order_refl i Some] T(1) cs(2,1)] by blast
    let ?v = "u\<lparr>mem := store64 (mem u) (slot pt (of_nat i)) 0\<rparr>"
    note S = todo_step [OF Suc.prems(1) i Some u(2) refl]
    have "\<exists>t zs. freewalk_from (Suc i) pt ?v = Some (Ret () t) \<and>
        freed ?v ys (insert pt (rest (mem ?v) h pt (Suc i))) t zs"
      using Suc i S(1) by (intro Suc.hyps(1)) auto
    then obtain t zs where t: "freewalk_from (Suc i) pt ?v = Some (Ret () t)"
      "freed ?v ys (insert pt (rest (mem s) h pt (Suc i))) t zs" using S(2) by auto
    have v: "valid (load64 (mem s) (slot pt (of_nat i)))" "PTE2PA (load64 (mem s) (slot pt (of_nat i))) = c"
      using Some by (auto simp: child_def Let_def split: if_splits)
    have "freewalk_from i pt s = Some (Ret () t)"
      using i v T(7) [OF order_refl i Some] u(1) t(1) by (subst freewalk_from.simps) (simp add: Let_def)
    moreover have "freed s xs (insert pt (rest (mem s) h pt i)) t zs"
      unfolding freed_def
    proof (intro conjI allI impI)
      show "kframe s t" using S(3) t(2) kframe_trans by (auto simp: freed_def)
      show "kmem_ok t zs" using t(2) by (simp add: freed_def)
      show "set zs = set xs \<union> insert pt (rest (mem s) h pt i)"
        using t(2) S(4) rest_skip [OF i, of "mem s" h pt] Some by (auto simp: freed_def)
      show "mem t b = mem s b" if "\<forall>q\<in>insert pt (rest (mem s) h pt i). \<not> in_page q b" for b
        using that t(2) S(5) rest_skip [OF i, of "mem s" h pt] Some by (auto simp: freed_def)
    qed
    ultimately show ?thesis by blast
  qed
qed

lemma index_cover: "{i :: uint64. i < 512} = of_nat ` {0..<512}"
proof -
  have "i \<in> of_nat ` {0..<512}" if "i < 512" for i :: uint64
    using that by (intro image_eqI [of _ _ "unat i"]) (simp_all add: word_less_nat_alt)
  then show ?thesis using of_nat_512 by auto
qed

lemma sub_rest: "sub m (Suc h) pt = insert pt (rest m h pt 0)"
  unfolding sub_unfold rest_def index_cover by simp

lemma freewalk_tree:
  fixes s :: "'a kmem_scheme"
  assumes "ftree (mem s) h pt" and "kmem_ok s xs" and "\<forall>q\<in>sub (mem s) h pt. page_ok s q"
    and "sub (mem s) h pt \<inter> set xs = {}"
  shows "\<exists>t ys. freewalk_from 0 pt s = Some (Ret () t) \<and> freed s xs (sub (mem s) h pt) t ys"
  using assms
proof (induction h arbitrary: s pt xs)
  case 0
  have sub: "sub (mem s) 0 pt = {pt}" by (auto simp: sub_def)
  have "node (mem s) pt [] = Some pt" by simp
  then have "\<not> valid (load64 (mem s) (slot pt (of_nat j)))" if "j < 512" for j
    using 0(1) of_nat_512 [OF that] unfolding ftree_def by (metis idx_ok_simps(1) list.size(3))
  then have "freewalk_from 0 pt s = Some (kfree pt s)" by (intro freewalk_skip) auto
  moreover obtain t where "kfree pt s = Ret () t" "kframe s t" "kmem_ok t (pt # xs)"
    "\<And>a. \<not> in_page pt a \<Longrightarrow> mem t a = mem s a"
    using kfree_ok [OF 0(2), of pt] 0(3,4) sub by auto
  ultimately show ?case unfolding sub
    by (intro exI [of _ t] exI [of _ "pt # xs"]) (simp add: freed_def)
next
  case (Suc h)
  note sub_pt = sub_self [of pt "mem s" "Suc h"]
  have "todo s xs h pt 0"
    unfolding todo_def
  proof (intro conjI allI impI)
    show "kmem_ok s xs" by fact
    show "page_ok s pt" "pt \<notin> set xs" using Suc.prems(3,4) sub_pt by auto
    fix j c assume j: "j < 512" and c: "child (mem s) pt (of_nat j) = Some c"
    note C = ftree_child [OF Suc.prems(1) c of_nat_512 [OF j]]
    note S = sub_child [OF c of_nat_512 [OF j], of h]
    show "ftree (mem s) h c" "load64 (mem s) (slot pt (of_nat j)) AND (PTE_R OR PTE_W OR PTE_X) = 0"
      by (rule C(1), rule C(3))
    show "sub (mem s) h c \<inter> insert pt (set xs) = {}" using C(2) S Suc.prems(4) by blast
    show "\<forall>q\<in>sub (mem s) h c. page_ok s q" using S Suc.prems(3) by blast
  next
    fix j k c d assume jk: "j < k" "k < 512"
      and c: "child (mem s) pt (of_nat j) = Some c" "child (mem s) pt (of_nat k) = Some d"
    then have "(of_nat j :: uint64) \<noteq> of_nat k" by (simp add: word_unat_eq_iff unat_of_nat64)
    then show "sub (mem s) h c \<inter> sub (mem s) h d = {}"
      using jk by (intro ftree_children [OF Suc.prems(1) c]) (simp_all add: of_nat_512)
  qed
  then show ?case unfolding sub_rest by (intro freewalk_loop [OF Suc.IH]) simp_all
qed

text \<open>Every index triple below the upper half is the path of an address.\<close>

lemma va_exists:
  assumes "i2 < 256" "i1 < 512" "i0 < 512"
  obtains va where "va < MAXVA" "path va 0 = [i2, i1]" "PX 0 va = i0"
proof -
  let ?n = "unat i2 * 1073741824 + unat i1 * 2097152 + unat i0 * 4096"
  have i: "unat i2 < 256" "unat i1 < 512" "unat i0 < 512" using assms by (simp_all add: word_less_nat_alt)
  then have n: "?n < 2 ^ 38" by simp
  have u: "unat (of_nat ?n :: uint64) = ?n" using n by (intro unat_of_nat64) simp
  have d2: "?n div 1073741824 = unat i2" using i by linarith
  have d1: "?n div 2097152 = unat i2 * 512 + unat i1" using i by linarith
  have "?n = ((unat i2 * 512 + unat i1) * 512 + unat i0) * 4096" by simp
  then have d0: "?n div 4096 = (unat i2 * 512 + unat i1) * 512 + unat i0"
    by (simp only: nonzero_mult_div_cancel_right)
  have m0: "((unat i2 * 512 + unat i1) * 512 + unat i0) mod 512 = unat i0"
    using i(3) mod_mult_self3 [of "unat i2 * 512 + unat i1" 512 "unat i0"] by (simp only: mod_less)
  have "of_nat ?n < MAXVA" using n u by (simp add: MAXVA_num word_less_nat_alt)
  moreover have "unat (PX 2 (of_nat ?n)) = unat i2" "unat (PX 1 (of_nat ?n)) = unat i1"
    using i d2 d1 u by (simp_all add: PX_eq)
  moreover have "unat (PX 0 (of_nat ?n)) = unat i0"
  proof -
    have p: "(2 :: nat) ^ (12 + 9 * 0) = 4096" by simp
    show ?thesis by (simp only: PX_eq u p d0 m0)
  qed
  ultimately show ?thesis using that [of "of_nat ?n"] by (simp add: path_0 word_unat_eq_iff)
qed

lemma ptw_ftree:
  assumes w: "ptw s root" and nv: "\<forall>va<MAXVA. \<not> valid (pte_of (mem s) root va)"
  shows "ftree (mem s) 2 root"
  unfolding ftree_def
proof (intro conjI allI impI)
  have ok: "length js \<le> 2 \<Longrightarrow> idx_ok js \<Longrightarrow> path_ok js" for js by (simp add: path_ok_def idx_ok_def)
  show "js = ks" if "length js \<le> 2" "length ks \<le> 2" "idx_ok js" "idx_ok ks"
    "node (mem s) root js = Some a" "node (mem s) root ks = Some a" for js ks a
    using that ok w unfolding ptw_def by blast
  show "load64 (mem s) (slot a i) AND (PTE_R OR PTE_W OR PTE_X) = 0"
    if "length js < 2" "idx_ok js" "i < 512" "node (mem s) root js = Some a" "valid (load64 (mem s) (slot a i))"
    for js i a
    using that ok [of js] ptw_D(4) [OF w, of js a i] by (simp add: path_ok_snoc)
  show "\<not> valid (load64 (mem s) (slot a i))"
    if js: "length js = 2" "idx_ok js" "i < 512" "node (mem s) root js = Some a" for js i a
  proof -
    obtain i2 i1 where eq: "js = [i2, i1]" using js(1) by (auto simp: numeral_2_eq_2 length_Suc_conv)
    then have i: "i2 < 512" "i1 < 512" using js(2) by simp_all
    have "node (mem s) root [i2] \<noteq> None" using js(4) eq by (auto split: option.splits)
    then have "i2 < 256" using w i(1) unfolding ptw_def by (metis linorder_not_le)
    then obtain va where "va < MAXVA" "path va 0 = js" "PX 0 va = i"
      using va_exists i(2) js(3) eq by blast
    then show ?thesis using nv js(4) by (auto simp: pte_of_def)
  qed
qed

lemma freewalk_spec:
  assumes inv: "pt_inv s xs root" and nv: "\<forall>va<MAXVA. \<not> valid (pte_of (mem s) root va)"
  obtains t ys where "freewalk root s = Ret () t" and "freed s xs (tabs (mem s) root) t ys"
proof -
  note I = pt_inv_D [OF inv]
  have "\<forall>q\<in>sub (mem s) 2 root. page_ok s q" "sub (mem s) 2 root \<inter> set xs = {}"
    using tabs_page_ok [OF I(2)] I(3) by (auto simp: tabs_sub)
  then obtain t ys where "freewalk_from 0 root s = Some (Ret () t)" "freed s xs (sub (mem s) 2 root) t ys"
    using freewalk_tree [OF ptw_ftree [OF I(2) nv] I(1)] by blast
  then show ?thesis using that by (simp add: freewalk_def tabs_sub)
qed

lemma uvmfree_spec:
  assumes u: "uspace s xs root {0..<npg sz}" and sz: "sz \<le> MAXVA"
    and nv: "\<forall>va<MAXVA. npg sz \<le> pn va \<longrightarrow> \<not> valid (pte_of (mem s) root va)"
  obtains t ys where "uvmfree root sz s = Ret () t" and "freed s xs (foot (mem s) root {0..<npg sz}) t ys"
proof -
  let ?K = "{0..<npg sz}"
  note np = npg_le [OF sz]
  obtain t ys where t: "uvmunmap root 0 (of_nat (npg sz)) True s = Ret () t"
    "unmapped root ?K ?K s xs t ys"
    using uvmunmap_spec [OF u le0 np] by auto
  have nz: "npg sz = 0" if "\<not> 0 < sz" using that by (cases "sz = 0") (auto simp: npg_def word_gt_0)
  note D = unmapped_D [OF t(2)]
  have "PGROUNDUP sz div PGSIZE = of_nat (npg sz)"
    using va_of_diff(1) [OF le0 np] by (simp add: PGROUNDUP_va_of [OF sz])
  moreover have "uvmunmap root 0 0 True s = Ret () s"
    by (subst uvmunmap_def, subst uvmunmap_loop.simps) simp
  ultimately have first: "(if 0 < sz then uvmunmap root 0 (PGROUNDUP sz div PGSIZE) True s else Ret () s) = Ret () t"
    using t(1) nz by auto
  have "\<forall>va<MAXVA. \<not> valid (pte_of (mem t) root va)" using D(4) nv by auto
  then obtain v zs where v: "freewalk root t = Ret () v" "freed t ys (tabs (mem t) root) v zs"
    using freewalk_spec [OF uspace_D(1) [OF D(2)]] by blast
  have "freed s xs (foot (mem s) root ?K) v zs"
    unfolding freed_def
  proof (intro conjI allI impI)
    show "kframe s v" using D(1) v(2) kframe_trans by (auto simp: freed_def)
    show "kmem_ok v zs" using v(2) by (simp add: freed_def)
    show "set zs = set xs \<union> foot (mem s) root ?K" using v(2) D(3,5) by (auto simp: freed_def foot_def)
    show "mem v b = mem s b" if b: "\<forall>q\<in>foot (mem s) root ?K. \<not> in_page q b" for b
    proof -
      have "mem v b = mem t b" using b v(2) D(5) by (auto simp: freed_def foot_def)
      also have "\<dots> = mem s b" using b by (intro D(6)) blast
      finally show ?thesis .
    qed
  qed
  then show ?thesis using that [of v zs] first v(1) by (simp only: uvmfree_def bnd.simps)
qed

end
