(* ===== verification/Usercopy.thy ===== *)
theory Usercopy
  imports Uvm_Free
begin

text \<open>
  \<^verbatim>\<open>copyin\<close>, \<^verbatim>\<open>copyinstr\<close> and \<^verbatim>\<open>copyout\<close> against the user's own view of memory:
  \<open>utrans m root va\<close> is the physical address the hardware lets user code reach at \<open>va\<close>, and
  \<open>uread\<close> the byte there.
\<close>

section \<open>The user's view\<close>

definition upte_ok :: "uint64 \<Rightarrow> bool" where
  "upte_ok e \<longleftrightarrow> valid e \<and> e AND PTE_U \<noteq> 0"

definition utrans :: "memory \<Rightarrow> uint64 \<Rightarrow> uint64 \<Rightarrow> uint64 option" where
  "utrans m root va = (if va < MAXVA \<and> upte_ok (pte_of m root va)
     then Some (PTE2PA (pte_of m root va) + (va - PGROUNDDOWN va)) else None)"

definition uread :: "memory \<Rightarrow> uint64 \<Rightarrow> uint64 \<Rightarrow> byte option" where
  "uread m root va = map_option m (utrans m root va)"

text \<open>Every page the user can reach is one the process owns.\<close>

definition user_owned :: "memory \<Rightarrow> uint64 \<Rightarrow> nat set \<Rightarrow> bool" where
  "user_owned m root K \<longleftrightarrow> (\<forall>va<MAXVA. upte_ok (pte_of m root va) \<longrightarrow> pn va \<in> K)"

lemma PGROUNDDOWN_in_page: "in_page (PGROUNDDOWN va) va"
  using in_page_iff [of "PGROUNDDOWN va" va] by (simp add: aligned_def)

lemma aligned_PGROUNDDOWN [simp]: "aligned (PGROUNDDOWN va)"
  by (simp add: aligned_def)

lemma pn_PGROUNDDOWN [simp]: "pn (PGROUNDDOWN va) = pn va"
  by (simp add: unat_PGROUNDDOWN)

lemma PGROUNDDOWN_MAXVA: "PGROUNDDOWN va < MAXVA \<longleftrightarrow> va < MAXVA"
  by (simp add: word_less_nat_alt MAXVA_num unat_PGROUNDDOWN) linarith

lemma pte_of_PGROUNDDOWN [simp]: "pte_of m root (PGROUNDDOWN va) = pte_of m root va"
  by (rule pte_of_same_page) simp

text \<open>Moving within the page of \<open>va\<close>.\<close>

lemma same_page_step:
  assumes "i < 4096 - unat (va - PGROUNDDOWN va)"
  shows "PGROUNDDOWN (va + of_nat i) = PGROUNDDOWN va" and "pn (va + of_nat i) = pn va"
    and "va + of_nat i < MAXVA \<longleftrightarrow> va < MAXVA"
    and "va + of_nat i - PGROUNDDOWN va = (va - PGROUNDDOWN va) + of_nat i"
    and "unat (va + of_nat i - PGROUNDDOWN va) = unat (va - PGROUNDDOWN va) + i"
proof -
  have eq: "va + of_nat i - PGROUNDDOWN va = (va - PGROUNDDOWN va) + of_nat i" by simp
  then show "va + of_nat i - PGROUNDDOWN va = (va - PGROUNDDOWN va) + of_nat i" .
  have i: "unat (of_nat i :: uint64) = i" using assms by (intro unat_of_nat64) simp
  show u: "unat (va + of_nat i - PGROUNDDOWN va) = unat (va - PGROUNDDOWN va) + i"
    unfolding eq using assms i by (simp add: unat_word_ariths)
  then have "in_page (PGROUNDDOWN va) (va + of_nat i)" using assms by (simp add: in_page_def)
  then show p: "PGROUNDDOWN (va + of_nat i) = PGROUNDDOWN va" using in_page_iff by simp
  show "pn (va + of_nat i) = pn va" by (metis p pn_PGROUNDDOWN)
  show "va + of_nat i < MAXVA \<longleftrightarrow> va < MAXVA" by (metis p PGROUNDDOWN_MAXVA)
qed

lemma utrans_step:
  assumes "i < 4096 - unat (va - PGROUNDDOWN va)"
  shows "utrans m root (va + of_nat i) = map_option (\<lambda>p. p + of_nat i) (utrans m root va)"
proof -
  have "pte_of m root (va + of_nat i) = pte_of m root va"
    using same_page_step(2) [OF assms] by (rule pte_of_same_page)
  then show ?thesis
    using same_page_step [OF assms] by (simp add: utrans_def add.assoc)
qed

lemma span_page: "i < span va len \<Longrightarrow> i < 4096 - unat (va - PGROUNDDOWN va)"
  by (simp add: span_eq)

lemma span_next:
  assumes "span va len < len"
  shows "PGROUNDDOWN va + PGSIZE = va + of_nat (span va len)"
proof -
  have "span va len = 4096 - unat (va - PGROUNDDOWN va)" using assms by (simp add: span_eq)
  then have "of_nat (span va len) = (4096 - (va - PGROUNDDOWN va) :: uint64)"
    using page_offset [of va] by (simp add: of_nat_diff)
  then show ?thesis by (simp add: PGSIZE_def)
qed

lemma walkaddr_user:
  assumes "pt_inv s xs root"
  shows "walkaddr root (PGROUNDDOWN va) s = Ret (if va < MAXVA \<and> upte_ok (pte_of (mem s) root va)
    then PTE2PA (pte_of (mem s) root va) else 0) s"
  by (simp add: walkaddr_eq [OF assms] PGROUNDDOWN_MAXVA upte_ok_def)

section \<open>copyin\<close>

definition ubytes :: "memory \<Rightarrow> uint64 \<Rightarrow> uint64 \<Rightarrow> nat \<Rightarrow> byte list" where
  "ubytes m root va n = map (\<lambda>i. the (uread m root (va + of_nat i))) [0..<n]"

definition readable :: "memory \<Rightarrow> uint64 \<Rightarrow> uint64 \<Rightarrow> nat \<Rightarrow> bool" where
  "readable m root va n \<longleftrightarrow> (\<forall>i<n. utrans m root (va + of_nat i) \<noteq> None)"

text \<open>No user page is physical page 0, which \<^verbatim>\<open>walkaddr\<close> could not report.\<close>

definition user_nonzero :: "memory \<Rightarrow> uint64 \<Rightarrow> bool" where
  "user_nonzero m root \<longleftrightarrow> (\<forall>va<MAXVA. upte_ok (pte_of m root va) \<longrightarrow> PTE2PA (pte_of m root va) \<noteq> 0)"

lemma ubytes_split: "ubytes m root va (n + k) = ubytes m root va n @ ubytes m root (va + of_nat n) k"
proof -
  have "[0..<n + k] = [0..<n] @ map (\<lambda>i. n + i) [0..<k]"
    using upt_add_eq_append [of 0 n k] map_add_upt [of n k] by (simp add: add.commute)
  then show ?thesis by (simp add: ubytes_def comp_def algebra_simps)
qed

lemma readable_add:
  assumes "readable m root va n" and "readable m root (va + of_nat n) k"
  shows "readable m root va (n + k)"
  unfolding readable_def
proof (intro allI impI)
  fix i assume i: "i < n + k"
  show "utrans m root (va + of_nat i) \<noteq> None"
  proof (cases "i < n")
    case False
    then have eqi: "va + of_nat i = va + of_nat n + of_nat (i - n)" by (simp add: of_nat_diff)
    have "i - n < k" using i False by simp
    then show ?thesis using assms(2) unfolding eqi readable_def by blast
  qed (use assms(1) in \<open>simp add: readable_def\<close>)
qed

lemma ubytes_chunk:
  assumes "n \<le> 4096 - unat (va - PGROUNDDOWN va)" and "utrans m root va = Some p"
  shows "ubytes m root va n = bytes_at m p n" and "readable m root va n"
  using assms utrans_step [of _ va m root]
  by (auto simp: ubytes_def bytes_at_def readable_def uread_def)

lemma copyin_spec:
  assumes inv: "pt_inv s xs root" and nz: "user_nonzero (mem s) root" and len: "len < 2 ^ 63"
  shows "\<exists>r k. copyin root va len s = Ret (r, ubytes (mem s) root va k) s \<and> readable (mem s) root va k \<and>
    (r = 0 \<and> k = len \<or> r = -1 \<and> k < len \<and> utrans (mem s) root (va + of_nat k) = None)"
  using len
proof (induction len arbitrary: va rule: less_induct)
  case (less len)
  show ?case
  proof (cases "0 < len")
    case False
    then show ?thesis by (subst copyin.simps) (auto simp: ubytes_def readable_def)
  next
    case True
    note n = span_pos [OF True, of va] span_le [of va len]
    show ?thesis
    proof (cases "utrans (mem s) root va")
      case None
      then have "walkaddr root (PGROUNDDOWN va) s = Ret 0 s"
        unfolding walkaddr_user [OF inv] by (auto simp: utrans_def split: if_splits)
      then have "copyin root va len s = Ret (-1, []) s"
        using True by (subst copyin.simps) simp
      then show ?thesis using None True by (intro exI [of _ "-1"] exI [of _ 0]) (simp add: ubytes_def readable_def)
    next
      case (Some p)
      let ?n = "span va len"
      have w: "walkaddr root (PGROUNDDOWN va) s = Ret (PTE2PA (pte_of (mem s) root va)) s"
        "PTE2PA (pte_of (mem s) root va) \<noteq> 0" "p = PTE2PA (pte_of (mem s) root va) + (va - PGROUNDDOWN va)"
        unfolding walkaddr_user [OF inv]
        using Some nz by (auto simp: utrans_def user_nonzero_def split: if_splits)
      have np: "?n \<le> 4096 - unat (va - PGROUNDDOWN va)" by (simp add: span_eq)
      note C = ubytes_chunk [OF np Some]
      define va' where "va' = PGROUNDDOWN va + PGSIZE"
      have l: "len - ?n < len" "len - ?n < 2 ^ 63" using n True less.prems by simp_all
      obtain r k where k: "copyin root va' (len - ?n) s = Ret (r, ubytes (mem s) root va' k) s"
        "readable (mem s) root va' k"
        "r = 0 \<and> k = len - ?n \<or> r = -1 \<and> k < len - ?n \<and> utrans (mem s) root (va' + of_nat k) = None"
        using less.IH [OF l] by blast
      have eq: "copyin root va len s = Ret (r, ubytes (mem s) root va ?n @ ubytes (mem s) root va' k) s"
        using True w k(1) C(1) by (subst copyin.simps) (simp add: va'_def [symmetric] Let_def)
      show ?thesis
      proof (cases "?n < len")
        case True
        then have v: "va' = va + of_nat ?n" unfolding va'_def by (rule span_next)
        have "readable (mem s) root va (?n + k)" using C(2) k(2) unfolding v by (rule readable_add)
        moreover have "copyin root va len s = Ret (r, ubytes (mem s) root va (?n + k)) s"
          using eq by (simp only: v ubytes_split)
        moreover have "r = 0 \<and> ?n + k = len \<or> r = -1 \<and> ?n + k < len \<and>
            utrans (mem s) root (va + of_nat (?n + k)) = None"
          using k(3) n by (auto simp: v add.assoc)
        ultimately show ?thesis by blast
      next
        case False
        then have "?n = len" "k = 0" "r = 0" using n k(3) by auto
        then show ?thesis using eq C(2) by (intro exI [of _ 0] exI [of _ len]) (simp add: ubytes_def)
      qed
    qed
  qed
qed

section \<open>copyout\<close>

lemma user_page:
  assumes u: "uspace s xs root K" and o: "user_owned (mem s) root K" and t: "utrans (mem s) root va = Some p"
  shows "pn va \<in> K" and "PTE2PA (pte_of (mem s) root va) = upage (mem s) root (pn va)"
    and "p = upage (mem s) root (pn va) + (va - PGROUNDDOWN va)" and "va < MAXVA"
    and "in_page (upage (mem s) root (pn va)) p"
proof -
  show va: "va < MAXVA" using t by (auto simp: utrans_def split: if_splits)
  then show K: "pn va \<in> K" using t o by (auto simp: utrans_def user_owned_def split: if_splits)
  show e: "PTE2PA (pte_of (mem s) root va) = upage (mem s) root (pn va)" using pte_of_pn [OF va] by simp
  show p: "p = upage (mem s) root (pn va) + (va - PGROUNDDOWN va)"
    using t e by (auto simp: utrans_def split: if_splits)
  show "in_page (upage (mem s) root (pn va)) p" using page_offset [of va] by (simp add: p in_page_def)
qed

lemma user_owned_nonzero:
  assumes u: "uspace s xs root K" and o: "user_owned (mem s) root K"
  shows "user_nonzero (mem s) root"
  unfolding user_nonzero_def
proof (intro allI impI)
  fix va assume va: "va < MAXVA" "upte_ok (pte_of (mem s) root va)"
  then have "pn va \<in> K" using o by (simp add: user_owned_def)
  then have "page_ok s (upage (mem s) root (pn va))" by (rule uspace_D(6) [OF u])
  then show "PTE2PA (pte_of (mem s) root va) \<noteq> 0"
    using page_ok_nonzero kmem_ok_D(1) [OF uspace_D(2) [OF u]] pte_of_pn [OF va(1)] by fastforce
qed

lemma utrans_inj:
  assumes u: "uspace s xs root K" and o: "user_owned (mem s) root K"
    and "utrans (mem s) root va = Some p" "utrans (mem s) root va' = Some p"
  shows "va = va'"
proof -
  note A = user_page [OF u o assms(3)] and B = user_page [OF u o assms(4)]
  have "upage (mem s) root (pn va) = upage (mem s) root (pn va')"
    using in_page_unique [OF _ _ A(5) B(5)] uspace_D(6) [OF u A(1)] uspace_D(6) [OF u B(1)]
    by (simp add: page_ok_def)
  then have "pn va = pn va'" using inj_onD [OF uspace_D(4) [OF u] _ A(1) B(1)] by blast
  then have "PGROUNDDOWN va = PGROUNDDOWN va'" by (simp add: word_unat_eq_iff unat_PGROUNDDOWN)
  moreover have "va - PGROUNDDOWN va = va' - PGROUNDDOWN va'"
    using A(3) [unfolded \<open>pn va = pn va'\<close>] B(3) by (simp only: add_left_cancel)
  ultimately show ?thesis by simp
qed

lemma utrans_cong: "pte_of m' root va = pte_of m root va \<Longrightarrow> utrans m' root va = utrans m root va"
  by (simp add: utrans_def)

text \<open>Writing one chunk within a page.\<close>

lemma write_chunk:
  assumes u: "uspace s xs root K" and o: "user_owned (mem s) root K"
    and tr: "utrans (mem s) root va = Some p" and n: "length bs \<le> 4096 - unat (va - PGROUNDDOWN va)"
    and t: "t = s\<lparr>mem := put_bytes (mem s) p bs\<rparr>"
  shows "uspace t xs root K" and "pte_of (mem t) root w = pte_of (mem s) root w"
    and "foot (mem t) root K = foot (mem s) root K"
    and "uread (mem t) root w = (if unat (w - va) < length bs then Some (bs ! unat (w - va)) else uread (mem s) root w)"
    and "(\<forall>q\<in>udata (mem s) root K. \<not> in_page q b) \<longrightarrow> mem t b = mem s b"
proof -
  let ?q = "upage (mem s) root (pn va)"
  note P = user_page [OF u o tr] and U = uspace_D [OF u]
  have l64: "length bs \<le> 2 ^ 64" using n by simp
  have inp: "in_page ?q a" if a: "unat (a - p) < length bs" for a
  proof -
    obtain i where "i < length bs" "a = p + of_nat i" using range_shift [OF a l64] by blast
    then have i: "i < 4096 - unat (va - PGROUNDDOWN va)" and i2: "a - ?q = (va - PGROUNDDOWN va) + of_nat i"
      using n P(3) by simp_all
    have "unat (a - ?q) = unat (va - PGROUNDDOWN va) + i"
      using same_page_step(5) [OF i] unfolding i2 same_page_step(4) [OF i] .
    then show ?thesis using i by (simp add: in_page_def)
  qed
  have mt: "mem t a = (if unat (a - p) < length bs then bs ! unat (a - p) else mem s a)" for a
    using l64 by (simp add: t put_bytes_eq)
  have out: "mem t a = mem s a" if "\<not> in_page ?q a" for a using that inp mt by auto
  have qd: "?q \<in> udata (mem s) root K" using P(1) by (auto simp: udata_def)
  have m: "mem t a = mem s a" if "r \<in> tabs (mem s) root" "in_page r a" for r a
  proof -
    have "r \<noteq> ?q" using that(1) U(7) [OF P(1)] by auto
    moreover have "page_ok s r" using tabs_page_ok [OF pt_inv_D(2) [OF U(1)] that(1)] .
    ultimately show ?thesis using out pages_apart [OF _ U(6) [OF P(1)] _ that(2)] by blast
  qed
  have fr: "kframe s t" by (simp add: t)
  have k: "kmem_ok t xs"
    using U(8) [OF P(1)] page_ok_aligned [OF U(6) [OF P(1)]] out by (intro kmem_ok_cong [OF U(2) fr]) (auto simp: t)
  note F = uspace_frame [OF u fr k m foot_free [OF u]]
  show "uspace t xs root K" "foot (mem t) root K = foot (mem s) root K" by (rule F; assumption)+
  show pt: "pte_of (mem t) root w = pte_of (mem s) root w" for w by (rule F(2))
  show "(\<forall>q\<in>udata (mem s) root K. \<not> in_page q b) \<longrightarrow> mem t b = mem s b" using out qd by blast
  show "uread (mem t) root w = (if unat (w - va) < length bs then Some (bs ! unat (w - va)) else uread (mem s) root w)"
  proof (cases "unat (w - va) < length bs")
    case True
    then obtain i where i: "i < length bs" "w = va + of_nat i" using range_shift [OF _ l64] by blast
    then have "utrans (mem t) root w = Some (p + of_nat i)"
      using utrans_step [of i va "mem s" root] tr n by (simp add: utrans_cong [OF pt])
    moreover have "unat (of_nat i :: uint64) = i" using i n by (intro unat_of_nat64) simp
    ultimately show ?thesis using True i by (simp add: uread_def mt)
  next
    case False
    have "mem t x = mem s x" if x: "utrans (mem s) root w = Some x" for x
    proof (rule ccontr)
      assume "mem t x \<noteq> mem s x"
      then have "unat (x - p) < length bs" using mt by (auto split: if_splits)
      then obtain i where i: "i < length bs" "x = p + of_nat i" using range_shift [OF _ l64] by blast
      then have "utrans (mem s) root (va + of_nat i) = Some x"
        using utrans_step [of i va "mem s" root] tr n by simp
      then have "w = va + of_nat i" using utrans_inj [OF u o x] by blast
      then show False using False i n by (simp add: unat_of_nat64)
    qed
    then show ?thesis using False by (cases "utrans (mem s) root w") (auto simp: uread_def utrans_cong [OF pt])
  qed
qed

lemma range_split:
  fixes w va :: uint64
  assumes "n + k \<le> 2 ^ 63"
  shows "unat (w - va) < n + k \<longleftrightarrow> unat (w - va) < n \<or> unat (w - (va + of_nat n)) < k"
    and "n \<le> unat (w - va) \<Longrightarrow> unat (w - (va + of_nat n)) = unat (w - va) - n"
    and "unat (w - va) < n \<Longrightarrow> \<not> unat (w - (va + of_nat n)) < k"
proof -
  define x where "x = w - va"
  have eq: "w - (va + of_nat n) = x - of_nat n" by (simp add: x_def)
  have n: "unat (of_nat n :: uint64) = n" using assms by (intro unat_of_nat64) simp
  show d: "n \<le> unat (w - va) \<Longrightarrow> unat (w - (va + of_nat n)) = unat (w - va) - n"
    unfolding eq x_def [symmetric] unat_sub_if' n by simp
  show e: "\<not> unat (w - (va + of_nat n)) < k" if "unat (w - va) < n"
    using that assms unfolding eq x_def [symmetric] unat_sub_if' n by simp
  show "unat (w - va) < n + k \<longleftrightarrow> unat (w - va) < n \<or> unat (w - (va + of_nat n)) < k"
    using d by (cases "unat (w - va) < n") auto
qed

text \<open>
  \<open>wrote s xs root K va bs t\<close>: the bytes \<open>bs\<close> appeared at user address \<open>va\<close>, and nothing else
  changed for the user, for the page table or outside the user's own pages.
\<close>

definition wrote :: "'a kmem_scheme \<Rightarrow> uint64 list \<Rightarrow> uint64 \<Rightarrow> nat set \<Rightarrow> uint64 \<Rightarrow> byte list \<Rightarrow>
    'a kmem_scheme \<Rightarrow> bool" where
  "wrote s xs root K va bs t \<longleftrightarrow> t = s\<lparr>mem := mem t\<rparr> \<and> uspace t xs root K \<and>
     (\<forall>w. pte_of (mem t) root w = pte_of (mem s) root w) \<and>
     foot (mem t) root K = foot (mem s) root K \<and>
     (\<forall>w. uread (mem t) root w = (if unat (w - va) < length bs then Some (bs ! unat (w - va))
        else uread (mem s) root w)) \<and>
     (\<forall>b. (\<forall>q\<in>udata (mem s) root K. \<not> in_page q b) \<longrightarrow> mem t b = mem s b)"

lemma wrote_trans:
  assumes 1: "wrote s xs root K va bs t" and 2: "wrote t xs root K (va + of_nat (length bs)) cs u"
    and len: "length bs + length cs \<le> 2 ^ 63"
  shows "wrote s xs root K va (bs @ cs) u"
  unfolding wrote_def
proof (intro conjI allI impI)
  have "u = t\<lparr>mem := mem u\<rparr>" using 2 unfolding wrote_def by (elim conjE)
  also have "t = s\<lparr>mem := mem t\<rparr>" using 1 unfolding wrote_def by (elim conjE)
  finally show "u = s\<lparr>mem := mem u\<rparr>" by simp
  show "uspace u xs root K" using 2 by (simp add: wrote_def)
  show "pte_of (mem u) root w = pte_of (mem s) root w" for w using 1 2 by (simp add: wrote_def)
  show "foot (mem u) root K = foot (mem s) root K" using 1 2 by (simp add: wrote_def)
  show "uread (mem u) root w = (if unat (w - va) < length (bs @ cs) then Some ((bs @ cs) ! unat (w - va))
      else uread (mem s) root w)" for w
  proof -
    note r = range_split [OF len, of w va]
    have u: "uread (mem u) root w = (if unat (w - (va + of_nat (length bs))) < length cs
        then Some (cs ! unat (w - (va + of_nat (length bs)))) else uread (mem t) root w)"
      and t: "uread (mem t) root w = (if unat (w - va) < length bs then Some (bs ! unat (w - va))
        else uread (mem s) root w)"
      using 1 2 by (simp_all add: wrote_def)
    show ?thesis
    proof (cases "unat (w - va) < length bs")
      case True
      then show ?thesis unfolding u t using r(3) by (simp add: nth_append)
    next
      case False
      then show ?thesis unfolding u t using r(1,2) by (simp add: nth_append)
    qed
  qed
  have "udata (mem t) root K = udata (mem s) root K" using 1 by (simp add: wrote_def udata_def)
  then show "mem u b = mem s b" if "\<forall>q\<in>udata (mem s) root K. \<not> in_page q b" for b
    using that 1 2 by (simp add: wrote_def)
qed

lemma wrote_nil: "uspace s xs root K \<Longrightarrow> wrote s xs root K va [] s"
  by (simp add: wrote_def)

lemma copyout_spec:
  assumes "uspace s xs root K" and "user_owned (mem s) root K" and "length src < 2 ^ 63"
  shows "\<exists>r t k. copyout root va src s = Ret r t \<and> wrote s xs root K va (take k src) t \<and>
    readable (mem s) root va k \<and>
    (r = 0 \<and> k = length src \<or> r = -1 \<and> k < length src \<and> utrans (mem s) root (va + of_nat k) = None)"
  using assms
proof (induction "length src" arbitrary: src va s rule: less_induct)
  case less
  note inv = uspace_D(1) [OF less.prems(1)]
  show ?case
  proof (cases "0 < length src")
    case False
    then show ?thesis using wrote_nil [OF less.prems(1)]
      by (subst copyout.simps) (auto simp: readable_def)
  next
    case True
    let ?n = "span va (length src)"
    note n = span_pos [OF True, of va] span_le [of va "length src"]
    show ?thesis
    proof (cases "utrans (mem s) root va")
      case None
      then have "walkaddr root (PGROUNDDOWN va) s = Ret 0 s"
        unfolding walkaddr_user [OF inv] by (auto simp: utrans_def split: if_splits)
      then have "copyout root va src s = Ret (-1) s" using True by (subst copyout.simps) simp
      then show ?thesis using None True wrote_nil [OF less.prems(1)]
        by (intro exI [of _ "-1"] exI [of _ s] exI [of _ 0]) (simp add: readable_def)
    next
      case (Some p)
      have w: "walkaddr root (PGROUNDDOWN va) s = Ret (PTE2PA (pte_of (mem s) root va)) s"
        "PTE2PA (pte_of (mem s) root va) \<noteq> 0" "p = PTE2PA (pte_of (mem s) root va) + (va - PGROUNDDOWN va)"
        unfolding walkaddr_user [OF inv]
        using Some user_owned_nonzero [OF less.prems(1,2)]
        by (auto simp: utrans_def user_nonzero_def split: if_splits)
      let ?t = "s\<lparr>mem := put_bytes (mem s) p (take ?n src)\<rparr>"
      have np: "?n \<le> 4096 - unat (va - PGROUNDDOWN va)" by (simp add: span_eq)
      have lt: "length (take ?n src) = ?n" using n by simp
      note W = write_chunk [OF less.prems(1,2) Some _ refl, of "take ?n src", unfolded lt, OF np]
      have wr: "wrote s xs root K va (take ?n src) ?t"
        unfolding wrote_def lt using W by (intro conjI allI) simp_all
      have eq: "copyout root va src s = copyout root (PGROUNDDOWN va + PGSIZE) (drop ?n src) ?t"
        using True w by (subst copyout.simps) (simp add: Let_def)
      have ow: "user_owned (mem ?t) root K" using less.prems(2) W(2) by (simp only: user_owned_def)
      have tr: "utrans (mem ?t) root w = utrans (mem s) root w" for w using W(2) by (rule utrans_cong)
      define va' where "va' = PGROUNDDOWN va + PGSIZE"
      have sm: "length (drop ?n src) < length src" "length (drop ?n src) < 2 ^ 63"
        using n True less.prems(3) by simp_all
      obtain r u k where k: "copyout root va' (drop ?n src) ?t = Ret r u"
        "wrote ?t xs root K va' (take k (drop ?n src)) u" "readable (mem s) root va' k"
        "r = 0 \<and> k = length (drop ?n src) \<or>
         r = -1 \<and> k < length (drop ?n src) \<and> utrans (mem s) root (va' + of_nat k) = None"
        using less.hyps [OF sm(1) W(1) ow sm(2), of va'] by (simp only: readable_def tr) blast
      note rd = ubytes_chunk(2) [OF np Some]
      show ?thesis
      proof (cases "?n < length src")
        case True
        then have v: "va' = va + of_nat ?n" unfolding va'_def by (rule span_next)
        have "wrote s xs root K va (take ?n src @ take k (drop ?n src)) u"
          using k(2) less.prems(3) n by (intro wrote_trans [OF wr]) (simp_all add: v lt)
        then have "wrote s xs root K va (take (?n + k) src) u" by (simp only: take_add)
        moreover have "readable (mem s) root va (?n + k)" using rd k(3) unfolding v by (rule readable_add)
        moreover have "r = 0 \<and> ?n + k = length src \<or> r = -1 \<and> ?n + k < length src \<and>
            utrans (mem s) root (va + of_nat (?n + k)) = None"
          using k(4) n by (auto simp: v add.assoc)
        ultimately show ?thesis using eq k(1) by (auto simp: va'_def)
      next
        case False
        then have z: "?n = length src" "k = 0" "r = 0" "take k (drop ?n src) = []" using n k(4) by auto
        have "u = ?t"
          using k(1) z by (subst (asm) copyout.simps) simp
        then show ?thesis using eq k(1) z wr rd
          by (intro exI [of _ 0] exI [of _ u] exI [of _ "length src"]) (simp add: va'_def)
      qed
    qed
  qed
qed

section \<open>copyinstr\<close>

lemma bytes_at_Cons: "bytes_at m p (Suc n) = m p # bytes_at m (p + 1) n"
  by (simp add: bytes_at_def upt_conv_Cons map_Suc_upt [symmetric] comp_def algebra_simps del: upt_Suc)

text \<open>
  \<open>cstr f k g\<close>: reading the bytes \<open>f 0, f 1, \<dots>\<close> up to the first NUL takes \<open>k\<close> of them; \<open>g\<close>
  tells whether the last of these is a NUL.
\<close>

definition cstr :: "(nat \<Rightarrow> byte) \<Rightarrow> nat \<Rightarrow> bool \<Rightarrow> bool" where
  "cstr f k g \<longleftrightarrow> (if g then 0 < k \<and> f (k - 1) = 0 \<and> (\<forall>i<k - 1. f i \<noteq> 0) else \<forall>i<k. f i \<noteq> 0)"

lemma cstr_cong: "(\<And>i. i < k \<Longrightarrow> f i = f' i) \<Longrightarrow> cstr f k g = cstr f' k g"
  by (cases k) (auto simp: cstr_def)

lemma cstr_add:
  assumes "cstr f n False" and "cstr (\<lambda>i. f (n + i)) k g"
  shows "cstr f (n + k) g"
proof -
  have nz: "f i \<noteq> 0" if "i < n + k - 1 \<or> \<not> g \<and> i < n + k" for i
    using assms that unfolding cstr_def
    by (cases "i < n") (auto split: if_splits dest!: spec [of _ "i - n"])
  show ?thesis
  proof (cases g)
    case True
    then have "0 < k" using assms(2) by (simp add: cstr_def)
    then obtain j where k: "k = Suc j" by (cases k) auto
    then have "f (n + j) = 0" using assms(2) True by (simp add: cstr_def)
    then show ?thesis using True nz k by (simp add: cstr_def)
  qed (use nz in \<open>simp add: cstr_def\<close>)
qed

lemma copystr_spec:
  "\<exists>k g. copystr m p n = (g, bytes_at m p k) \<and> k \<le> n \<and> cstr (\<lambda>i. m (p + of_nat i)) k g \<and> (\<not> g \<longrightarrow> k = n)"
proof (induction n arbitrary: p)
  case 0
  show ?case by (intro exI [of _ 0] exI [of _ False]) (simp add: bytes_at_def cstr_def)
next
  case (Suc n)
  show ?case
  proof (cases "m p = 0")
    case True
    then show ?thesis by (intro exI [of _ 1] exI [of _ True]) (simp add: bytes_at_def cstr_def)
  next
    case False
    obtain k g where k: "copystr m (p + 1) n = (g, bytes_at m (p + 1) k)" "k \<le> n"
      "cstr (\<lambda>i. m (p + 1 + of_nat i)) k g" "\<not> g \<longrightarrow> k = n"
      using Suc.IH [of "p + 1"] by blast
    have "cstr (\<lambda>i. m (p + of_nat i)) 1 False" using False by (simp add: cstr_def)
    then have "cstr (\<lambda>i. m (p + of_nat i)) (1 + k) g"
      by (rule cstr_add) (use k(3) in \<open>simp add: add.assoc\<close>)
    then have "cstr (\<lambda>i. m (p + of_nat i)) (Suc k) g" by simp
    then show ?thesis using k False by (intro exI [of _ "Suc k"] exI [of _ g]) (simp add: bytes_at_Cons)
  qed
qed

lemma copyinstr_spec:
  assumes inv: "pt_inv s xs root" and nz: "user_nonzero (mem s) root" and len: "mx < 2 ^ 63"
  shows "\<exists>r k g. copyinstr root va mx s = Ret (r, ubytes (mem s) root va k) s \<and> readable (mem s) root va k \<and>
    k \<le> mx \<and> cstr (\<lambda>i. the (uread (mem s) root (va + of_nat i))) k g \<and>
    (r = 0 \<and> g \<or> r = -1 \<and> \<not> g \<and> (k = mx \<or> utrans (mem s) root (va + of_nat k) = None))"
  using len
proof (induction mx arbitrary: va rule: less_induct)
  case (less mx)
  let ?f = "\<lambda>va i. the (uread (mem s) root (va + of_nat i))"
  show ?case
  proof (cases "0 < mx \<and> utrans (mem s) root va \<noteq> None")
    case False
    have "copyinstr root va mx s = Ret (-1, []) s"
    proof (cases "0 < mx")
      case True
      then have "walkaddr root (PGROUNDDOWN va) s = Ret 0 s"
        unfolding walkaddr_user [OF inv] using False by (auto simp: utrans_def split: if_splits)
      then show ?thesis using True by (subst copyinstr.simps) simp
    qed (subst copyinstr.simps, simp)
    then show ?thesis using False
      by (intro exI [of _ "-1"] exI [of _ 0] exI [of _ False]) (auto simp: ubytes_def readable_def cstr_def)
  next
    case True
    then obtain p where mx: "0 < mx" and p: "utrans (mem s) root va = Some p" by auto
    let ?n = "span va mx"
    note n = span_pos [OF mx, of va] span_le [of va mx]
    have w: "walkaddr root (PGROUNDDOWN va) s = Ret (PTE2PA (pte_of (mem s) root va)) s"
      "PTE2PA (pte_of (mem s) root va) \<noteq> 0" "p = PTE2PA (pte_of (mem s) root va) + (va - PGROUNDDOWN va)"
      unfolding walkaddr_user [OF inv]
      using p nz by (auto simp: utrans_def user_nonzero_def split: if_splits)
    obtain k g where k: "copystr (mem s) p ?n = (g, bytes_at (mem s) p k)" "k \<le> ?n"
      "cstr (\<lambda>i. mem s (p + of_nat i)) k g" "\<not> g \<longrightarrow> k = ?n"
      using copystr_spec [of "mem s" p ?n] by blast
    have kp: "k \<le> 4096 - unat (va - PGROUNDDOWN va)" using k(2) by (simp add: span_eq)
    note C = ubytes_chunk [OF kp p]
    have f: "?f va i = mem s (p + of_nat i)" if "i < k" for i
      using that kp utrans_step [of i va "mem s" root] p by (simp add: uread_def)
    have ck: "cstr (?f va) k g" using k(3) cstr_cong [of k "?f va"] f by simp
    show ?thesis
    proof (cases g)
      case True
      then have "copyinstr root va mx s = Ret (0, ubytes (mem s) root va k) s"
        using mx w k(1) C(1) by (subst copyinstr.simps) (simp add: Let_def)
      then show ?thesis using True C(2) ck k(2) n by (intro exI [of _ 0] exI [of _ k] exI [of _ True]) simp
    next
      case False
      then have kn: "k = ?n" using k(4) by simp
      define va' where "va' = PGROUNDDOWN va + PGSIZE"
      have l: "mx - ?n < mx" "mx - ?n < 2 ^ 63" using n mx less.prems by simp_all
      obtain r j h where j: "copyinstr root va' (mx - ?n) s = Ret (r, ubytes (mem s) root va' j) s"
        "readable (mem s) root va' j" "j \<le> mx - ?n" "cstr (?f va') j h"
        "r = 0 \<and> h \<or> r = -1 \<and> \<not> h \<and> (j = mx - ?n \<or> utrans (mem s) root (va' + of_nat j) = None)"
        using less.IH [OF l] by blast
      have eq: "copyinstr root va mx s = Ret (r, ubytes (mem s) root va ?n @ ubytes (mem s) root va' j) s"
        using mx w k(1) C(1) False kn j(1) by (subst copyinstr.simps) (simp add: va'_def [symmetric] Let_def)
      show ?thesis
      proof (cases "?n < mx")
        case True
        then have v: "va' = va + of_nat ?n" unfolding va'_def by (rule span_next)
        have "cstr (?f va) (?n + j) h"
          using ck j(4) False unfolding kn v by (intro cstr_add) (simp_all add: add.assoc)
        moreover have "readable (mem s) root va (?n + j)"
          using C(2) j(2) unfolding kn v by (rule readable_add)
        moreover have "copyinstr root va mx s = Ret (r, ubytes (mem s) root va (?n + j)) s"
          using eq by (simp only: v ubytes_split)
        moreover have "r = 0 \<and> h \<or> r = -1 \<and> \<not> h \<and> (?n + j = mx \<or> utrans (mem s) root (va + of_nat (?n + j)) = None)"
          using j(5) n by (auto simp: v add.assoc)
        moreover have "?n + j \<le> mx" using j(3) n by simp
        ultimately show ?thesis by blast
      next
        case nl: False
        then have z: "?n = mx" "j = 0" using n j(3) by auto
        then have "r = -1" using j(5) by (auto simp: cstr_def split: if_splits) (use j(4) in \<open>simp add: cstr_def\<close>)
        then show ?thesis using eq z C(2) ck kn False
          by (intro exI [of _ "-1"] exI [of _ mx] exI [of _ False]) (simp add: ubytes_def)
      qed
    qed
  qed
qed

end
