(* ===== verification/Uvm_Props.thy ===== *)
theory Uvm_Props
  imports Usercopy
begin

text \<open>
  The properties of \<^verbatim>\<open>kernel/vm.c\<close>, each with an instance on a concrete address space:
  one user page at address 0, mapped through three table pages.
\<close>

section \<open>A concrete address space\<close>

lemma load_store_slots:
  assumes "aligned p" "aligned q" "i < 512" "j < 512"
  shows "load64 (store64 m (slot p j) v) (slot q i) = (if q = p \<and> i = j then v else load64 m (slot q i))"
proof (cases "q = p")
  case True
  then show ?thesis using assms(3,4) by (simp add: load_store_slot)
next
  case False
  have "load64 (store64 m (slot p j) v) (slot q i) = load64 m (slot q i)"
  proof (rule load_slot_cong [OF _ assms(3)])
    fix a assume "in_page q a"
    then have "\<not> in_page p a" using in_page_unique assms(1,2) False by blast
    then show "store64 m (slot p j) v a = m a" by (rule store_slot_frame [OF assms(4)])
  qed
  then show ?thesis using False by simp
qed

definition d_root :: uint64 where "d_root = 0x87FF0000"
definition d_mid :: uint64 where "d_mid = 0x87FF1000"
definition d_leaf :: uint64 where "d_leaf = 0x87FF2000"
definition d_data :: uint64 where "d_data = 0x87FF3000"
definition d_new :: uint64 where "d_new = 0x87FF4000"

lemmas d_defs = d_root_def d_mid_def d_leaf_def d_data_def d_new_def

definition d_mem :: memory where
  "d_mem = store64 (store64 (store64 (\<lambda>_. 0) (slot d_root 0) (PA2PTE d_mid OR PTE_V))
     (slot d_mid 0) (PA2PTE d_leaf OR PTE_V)) (slot d_leaf 0) (leaf_pte d_data user_perm)"

definition d_state :: kmem where
  "d_state = demo_kmem\<lparr>mem := d_mem, end_addr := 0x87FEF123, freelist := 0x87FFE000\<rparr>"

lemma d_page_ok: "page_ok d_state d_root" "page_ok d_state d_mid" "page_ok d_state d_leaf"
  "page_ok d_state d_data" "page_ok d_state d_new" "page_ok d_state 0x87FFE000"
  by (simp_all add: page_ok_def d_state_def d_defs aligned_def PHYSTOP_num demo_kmem_def)

lemmas d_aligned = d_page_ok [THEN page_ok_aligned]

lemma zero_load: "load64 (\<lambda>_. 0) a = 0"
  by (simp add: load64_def bytes_at_def map_replicate_const)

lemma d_load: "aligned q \<Longrightarrow> i < 512 \<Longrightarrow> load64 d_mem (slot q i) =
   (if q = d_leaf \<and> i = 0 then leaf_pte d_data user_perm
    else if q = d_mid \<and> i = 0 then PA2PTE d_leaf OR PTE_V
    else if q = d_root \<and> i = 0 then PA2PTE d_mid OR PTE_V else 0)"
  by (simp add: d_mem_def load_store_slots d_aligned zero_load)

lemma d_free: "kmem_ok d_state [0x87FFE000]"
proof -
  have "load64 d_mem (slot 0x87FFE000 0) = 0" by (subst d_load) (simp_all add: d_aligned, simp add: d_defs)
  then have "flist (mem d_state) (freelist d_state) [0x87FFE000]"
    by (simp add: d_state_def slot_def)
  moreover have "lockable Kmem_lock d_state"
    using kmem_ok_D(2) [OF demo_kmem_ok] core_cong(4) [of d_state demo_kmem] by (simp add: d_state_def)
  moreover have "0 < end_addr d_state" by (simp add: d_state_def)
  ultimately show ?thesis using d_page_ok(6) by (simp add: kmem_ok_def)
qed

lemma d_distinct [simp]: "d_root \<noteq> d_mid" "d_root \<noteq> d_leaf" "d_mid \<noteq> d_leaf" "d_mid \<noteq> d_root"
  "d_leaf \<noteq> d_root" "d_leaf \<noteq> d_mid" "d_new \<noteq> d_root" "d_new \<noteq> d_mid" "d_new \<noteq> d_leaf"
  "d_data \<noteq> d_root" "d_data \<noteq> d_mid" "d_data \<noteq> d_leaf" "d_data \<noteq> d_new"
  by (simp_all add: d_defs)

lemma d_child:
  assumes "aligned q" "i < 512"
  shows "child d_mem q i =
    (if i = 0 \<and> q = d_root then Some d_mid else if i = 0 \<and> q = d_mid then Some d_leaf
     else if i = 0 \<and> q = d_leaf then Some d_data else None)"
proof -
  have "valid (leaf_pte d_data user_perm)" "PTE2PA (leaf_pte d_data user_perm) = d_data"
    using leaf_pte [OF d_page_ok(4) user_perm_ok] by (simp_all add: leaf_ok_def)
  note e = this inner_entry(1,2) [OF d_page_ok(2)] inner_entry(1,2) [OF d_page_ok(3)]
  consider "i = 0" "q = d_leaf" | "i = 0" "q = d_mid" | "i = 0" "q = d_root"
    | "i \<noteq> 0 \<or> q \<noteq> d_leaf \<and> q \<noteq> d_mid \<and> q \<noteq> d_root" by blast
  then show ?thesis
  proof cases
    case 1
    then show ?thesis using e(1,2) by (simp add: child_def d_load d_aligned)
  next
    case 2
    then show ?thesis using e(5,6) by (simp add: child_def d_load d_aligned)
  next
    case 3
    then show ?thesis using e(3,4) by (simp add: child_def d_load d_aligned)
  next
    case 4
    then have "load64 d_mem (slot q i) = 0"
      unfolding d_load [OF assms] by (cases "i = 0") simp_all
    then show ?thesis using 4 by (cases "i = 0") (simp_all add: child_def)
  qed
qed

lemma d_node:
  assumes "path_ok is"
  shows "node d_mem d_root is = (if is = [] then Some d_root else if is = [0] then Some d_mid
     else if is = [0, 0] then Some d_leaf else None)"
proof (cases "is")
  case (Cons i js)
  have i: "i < 512" using assms Cons by (simp add: path_ok_def)
  show ?thesis
  proof (cases js)
    case Nil
    then show ?thesis using Cons d_child [OF d_aligned(1) i] by simp
  next
    case (Cons j ks)
    then have "j < 512" "ks = []" using assms \<open>is = i # js\<close> by (simp_all add: path_ok_def)
    then show ?thesis using Cons \<open>is = i # js\<close> d_child [OF d_aligned(1) i] d_child [OF d_aligned(2)] by simp
  qed
qed simp

lemma d_new_node: "path_ok is \<Longrightarrow> node d_mem d_new is = (if is = [] then Some d_new else None)"
  using d_child [OF d_aligned(5)] by (cases "is") (simp_all add: path_ok_def)

lemma d_ptw: "ptw d_state d_root"
  unfolding ptw_def
proof (intro conjI allI impI)
  have m: "mem d_state = d_mem" by (simp add: d_state_def)
  show "page_ok d_state a" if "path_ok is" "node (mem d_state) d_root is = Some a" for "is" a
    using that d_page_ok by (auto simp: m d_node split: if_splits)
  show "is = js" if "path_ok is" "path_ok js" "node (mem d_state) d_root is = Some a"
    "node (mem d_state) d_root js = Some a" for "is" js a
    using that by (auto simp: m d_node split: if_splits)
  show "load64 (mem d_state) (slot a i) AND (PTE_R OR PTE_W OR PTE_X) = 0"
    if "path_ok (is @ [i])" "node (mem d_state) d_root is = Some a" for "is" i a
    using that inner_entry(3) [OF d_page_ok(2)] inner_entry(3) [OF d_page_ok(3)]
    by (auto simp: m d_node path_ok_snoc d_load d_aligned split: if_splits)
  show "node (mem d_state) d_root [i] = None" if "256 \<le> i" "i < 512" for i
    using that by (auto simp: m d_node path_ok_def simp del: node.simps)
qed

lemma d_new_ptw: "ptw d_state d_new"
  unfolding ptw_def
proof (intro conjI allI impI)
  have m: "mem d_state = d_mem" by (simp add: d_state_def)
  show "page_ok d_state a" if "path_ok is" "node (mem d_state) d_new is = Some a" for "is" a
    using that d_page_ok by (auto simp: m d_new_node split: if_splits)
  show "is = js" if "path_ok is" "path_ok js" "node (mem d_state) d_new is = Some a"
    "node (mem d_state) d_new js = Some a" for "is" js a
    using that by (auto simp: m d_new_node split: if_splits)
  show "load64 (mem d_state) (slot a i) AND (PTE_R OR PTE_W OR PTE_X) = 0"
    if "path_ok (is @ [i])" "node (mem d_state) d_new is = Some a" for "is" i a
    using that by (auto simp: m d_new_node path_ok_snoc d_load d_aligned split: if_splits)
  show "node (mem d_state) d_new [i] = None" if "256 \<le> i" "i < 512" for i
    using that by (auto simp: m d_new_node path_ok_def simp del: node.simps)
qed

lemma d_pte:
  assumes "va < MAXVA"
  shows "pte_of d_mem d_root va = (if pn va = 0 then leaf_pte d_data user_perm else 0)"
    and "pte_of d_mem d_new va = 0"
proof -
  have z: "PX 2 0 = 0" "PX 1 0 = 0" "PX 0 0 = 0" by (simp_all add: PX_def)
  have "0 < MAXVA" by (simp add: MAXVA_num)
  then have "path va 0 = [0, 0] \<and> PX 0 va = 0 \<longleftrightarrow> pn va = 0"
    using same_page_PX [OF assms, of 0] PX_same_page [of va 0] z by (auto simp: path_0)
  then show "pte_of d_mem d_root va = (if pn va = 0 then leaf_pte d_data user_perm else 0)"
    unfolding pte_of_def d_node [OF path_ok_path]
    by (cases "path va 0 = [0, 0]") (auto simp: d_load d_aligned path_0)
  show "pte_of d_mem d_new va = 0"
    unfolding pte_of_def d_new_node [OF path_ok_path] by (simp add: path_0)
qed

lemma d_tabs: "tabs d_mem d_root = {d_root, d_mid, d_leaf}" "tabs d_mem d_new = {d_new}"
proof -
  show "tabs d_mem d_root = {d_root, d_mid, d_leaf}"
    unfolding tabs_def using d_node [of "[]"] d_node [of "[0]"] d_node [of "[0, 0]"]
    by (auto simp: d_node path_ok_def simp del: node.simps split: if_splits
        intro: exI [of _ "[]"] exI [of _ "[0]"] exI [of _ "[0, 0]"])
  show "tabs d_mem d_new = {d_new}"
    unfolding tabs_def by (auto simp: d_new_node split: if_splits intro: exI [of _ "[]"])
qed

lemma d_mem_state [simp]: "mem d_state = d_mem"
  by (simp add: d_state_def)

lemma d_tabs_free: "{d_root, d_mid, d_leaf} \<inter> set [0x87FFE000 :: uint64] = {}"
  "{d_new} \<inter> set [0x87FFE000 :: uint64] = {}" "d_data \<notin> set [0x87FFE000 :: uint64]"
  by (simp_all add: d_defs)

lemma d_pt_inv: "pt_inv d_state [0x87FFE000] d_root" "pt_inv d_state [0x87FFE000] d_new"
  using d_free d_ptw d_new_ptw d_tabs_free by (simp_all add: pt_inv_def d_tabs)

lemma d_upte: "upte d_mem d_root 0 = leaf_pte d_data user_perm" "upage d_mem d_root 0 = d_data"
proof -
  have "(0 :: uint64) < MAXVA" by (simp add: MAXVA_num)
  then show e: "upte d_mem d_root 0 = leaf_pte d_data user_perm" using d_pte(1) [of 0] by simp
  show "upage d_mem d_root 0 = d_data" unfolding e by (rule leaf_pte(2) [OF d_page_ok(4) user_perm_ok])
qed

lemma d_uspace: "uspace d_state [0x87FFE000] d_root {0..<1}"
proof -
  have "leaf_ok (upte d_mem d_root 0)"
    unfolding d_upte by (rule leaf_pte(1) [OF d_page_ok(4) user_perm_ok])
  then show ?thesis
    using d_pt_inv(1) d_upte(2) d_page_ok(4) d_tabs_free(3)
    by (simp add: uspace_def udata_def d_tabs NPAGE_def)
qed

lemma d_new_uspace: "uspace d_state [0x87FFE000] d_new {}"
  using d_pt_inv(2) by (simp add: uspace_def udata_def)

lemma d_foot: "foot d_mem d_root {0..<1} = {d_root, d_mid, d_leaf, d_data}" "foot d_mem d_new {} = {d_new}"
  using d_upte(2) by (auto simp: foot_def udata_def d_tabs)

lemma d_owned: "user_owned d_mem d_root {0..<1}"
  by (simp add: user_owned_def d_pte(1) upte_ok_def)

lemma d_upte_ok: "upte_ok (leaf_pte d_data user_perm)"
  using leaf_pte(1) [OF d_page_ok(4) user_perm_ok]
  by (auto simp: upte_ok_def leaf_ok_def leaf_pte_def user_perm_def PTE_V_num PTE_R_num PTE_W_num PTE_X_num PTE_U_num
      d_data_def PA2PTE_def)

lemma d_utrans: "va < MAXVA \<Longrightarrow> utrans d_mem d_root va = (if pn va = 0 then Some (d_data + va) else None)"
proof -
  assume va: "va < MAXVA"
  have "PGROUNDDOWN va = 0" if "pn va = 0" using that by (simp add: word_unat_eq_iff unat_PGROUNDDOWN)
  then show ?thesis using va d_upte_ok leaf_pte(2) [OF d_page_ok(4) user_perm_ok]
    by (simp add: utrans_def d_pte(1) upte_ok_def)
qed

section \<open>Properties\<close>

lemma mappages_range:
  assumes "0 < sz" and "unat va + unat sz \<le> 2 ^ 38"
  defines "lst \<equiv> va + sz - 1"
  shows "lst < MAXVA" and "unat (PGROUNDDOWN lst) = unat (PGROUNDDOWN va) + 4096 * (pn lst - pn va)"
    and "PGROUNDDOWN lst < MAXVA"
proof -
  have sz: "0 < unat sz" using assms(1) by (simp add: word_less_nat_alt)
  have "unat (va + sz) = unat va + unat sz" using assms(2) by (simp add: unat_word_ariths)
  moreover from this have "va + sz \<noteq> 0" using sz by (auto simp: unat_eq_0 [symmetric] simp del: unat_eq_0)
  ultimately have u: "unat lst = unat va + unat sz - 1"
    using unat_minus_one [of "va + sz"] by (simp add: lst_def)
  show "lst < MAXVA" using u assms(2) sz by (simp add: MAXVA_num word_less_nat_alt)
  then show "PGROUNDDOWN lst < MAXVA" by (simp add: PGROUNDDOWN_MAXVA)
  have "pn va \<le> pn lst" unfolding u using sz by (intro div_le_mono) simp
  then show "unat (PGROUNDDOWN lst) = unat (PGROUNDDOWN va) + 4096 * (pn lst - pn va)"
    by (simp add: unat_PGROUNDDOWN diff_mult_distrib2)
qed

text \<open>
  C11: \<^verbatim>\<open>mappages\<close> on a range of unmapped pages either returns 0 with exactly these pages
  mapped to consecutive physical pages, or, when no page is left for the table, -1 with a prefix
  of them mapped.  In both cases no other translation, no other memory and no page of the
  allocator is affected except those that became table pages.
\<close>

theorem mappages_correct:
  assumes "pt_inv s xs root" and "0 < sz" and "unat va + unat sz \<le> 2 ^ 38"
    and "\<forall>w<MAXVA. pn va \<le> pn w \<and> pn w \<le> pn (va + sz - 1) \<longrightarrow> \<not> valid (pte_of (mem s) root w)"
  shows "\<exists>r t ys k. mappages root va sz pa perm s = Ret r t \<and> pt_grow root s xs t ys \<and>
    (\<forall>w<MAXVA. pte_of (mem t) root w =
       (if pn va \<le> pn w \<and> pn w < pn va + k then PA2PTE (pa + of_nat (4096 * (pn w - pn va))) OR perm OR PTE_V
        else pte_of (mem s) root w)) \<and>
    (r = 0 \<and> pn va + k = Suc (pn (va + sz - 1)) \<or> r = -1 \<and> ys = [] \<and> pn va + k \<le> pn (va + sz - 1))"
proof -
  note R = mappages_range [OF assms(2,3)]
  have le: "pn va \<le> pn (va + sz - 1)"
    using R(2) by (simp add: unat_PGROUNDDOWN)
  have "\<forall>w<MAXVA. pn (PGROUNDDOWN va) \<le> pn w \<and> pn w \<le> pn (PGROUNDDOWN va) + (pn (va + sz - 1) - pn va) \<longrightarrow>
      \<not> valid (pte_of (mem s) root w)"
    using assms(4) le by simp
  from mappages_loop_spec [OF assms(1) aligned_PGROUNDDOWN R(2,3) this, of pa perm]
  obtain r t ys k where "mappages root va sz pa perm s = Ret r t" "pt_grow root s xs t ys"
      "pte_agree (mem t) root (pte_range (PGROUNDDOWN va) k pa perm (pte_of (mem s) root))"
      "r = 0 \<and> k = Suc (pn (va + sz - 1) - pn va) \<or> r = -1 \<and> ys = [] \<and> k \<le> pn (va + sz - 1) - pn va"
    unfolding mappages_def by blast
  then show ?thesis
    using le by (intro exI [of _ r] exI [of _ t] exI [of _ ys] exI [of _ k])
      (auto simp: pte_agree_def pte_range_def leaf_pte_def)
qed

theorem mappages_correct_witness:
  "\<exists>r t. mappages d_root 0x1000 0x2000 0x10000000 PTE_R d_state = Ret r t \<and> (r = 0 \<or> r = -1)"
proof -
  have "\<forall>w<MAXVA. pn 0x1000 \<le> pn w \<and> pn w \<le> pn (0x1000 + 0x2000 - 1) \<longrightarrow> \<not> valid (pte_of (mem d_state) d_root w)"
    by (auto simp: d_pte(1))
  then show ?thesis
    using mappages_correct [OF d_pt_inv(1), of "0x2000" "0x1000" "0x10000000" PTE_R] by fastforce
qed

text \<open>
  C18: \<^verbatim>\<open>mappages\<close> never overwrites a mapping: it panics on a first page that is mapped.
\<close>

theorem mappages_remap:
  assumes "pt_inv s xs root" and "va < MAXVA" and "valid (pte_of (mem s) root va)"
  shows "mappages root va sz pa perm s = Panic ''remap''"
proof -
  have a: "PGROUNDDOWN va < MAXVA" using assms(2) by (simp add: PGROUNDDOWN_MAXVA)
  from assms(1) a show ?thesis
  proof (cases rule: walk_alloc)
    case (fail t)
    have "pte_of (mem s) root va \<noteq> 0" using assms(3) by auto
    then obtain tb where "node (mem s) root (path va 0) = Some tb"
      by (auto simp: pte_of_def split: option.splits)
    then have n: "node (mem s) root (path (PGROUNDDOWN va) 0) = Some tb"
      using PX_same_page [of "PGROUNDDOWN va" va] by (simp add: path_0 del: node.simps)
    have "walk root (PGROUNDDOWN va) True s = Ret (slot tb (PX 0 (PGROUNDDOWN va))) s"
      using walk_found [OF a n] .
    then show ?thesis using fail(1) leaf_slot_nonzero [OF assms(1) n] by simp
  next
    case (ok tb t ys)
    then show ?thesis using assms(3)
      unfolding mappages_def by (subst mappages_loop.simps) simp
  qed
qed

theorem mappages_remap_witness: "mappages d_root 0x10 0x1000 0x10000000 PTE_R d_state = Panic ''remap''"
proof -
  have "valid (pte_of (mem d_state) d_root 0x10)"
    using leaf_pte(1) [OF d_page_ok(4) user_perm_ok] by (simp add: d_pte(1) MAXVA_num leaf_ok_def)
  then show ?thesis using mappages_remap [OF d_pt_inv(1), of "0x10"] by (simp add: MAXVA_num)
qed

text \<open>
  C12: \<^verbatim>\<open>uvmalloc\<close> returns the new size with every page from the old to the new size mapped to a
  fresh zeroed page, or returns 0 with the address space as it was.  Either way the pages the
  process owned keep their translation and contents, and no page is lost: owned and free pages
  together stay the same.
\<close>

theorem uvmalloc_correct:
  assumes "uspace s xs root K" and "oldsz \<le> newsz" and "newsz \<le> MAXVA"
    and "\<forall>k\<in>{npg oldsz..<npg newsz}. \<not> valid (upte (mem s) root k)"
  shows "\<exists>r t ys K'. uvmalloc root oldsz newsz s = Ret r t \<and> uspace t ys root K' \<and>
    foot (mem t) root K' \<union> set ys = foot (mem s) root K \<union> set xs \<and>
    (\<forall>k\<in>K. upte (mem t) root k = upte (mem s) root k \<and>
       (\<forall>a. in_page (upage (mem s) root k) a \<longrightarrow> mem t a = mem s a)) \<and>
    (r = newsz \<and> K' = K \<union> {npg oldsz..<npg newsz} \<and>
       (\<forall>k\<in>{npg oldsz..<npg newsz}. zero_page (mem t) root k) \<or>
     r = 0 \<and> K' = K \<and> (\<forall>k\<in>{npg oldsz..<npg newsz}. \<not> valid (upte (mem t) root k)))"
proof -
  let ?J = "{npg oldsz..<npg newsz}"
  have J: "K \<inter> ?J = {}" using assms(4) uspace_D(5) [OF assms(1)] by (auto simp: leaf_ok_def)
  obtain r t ys K' where t: "uvmalloc root oldsz newsz s = Ret r t" "chg root ?J s xs K t ys K'"
    "r = newsz \<and> K' = K \<union> ?J \<and> (\<forall>k\<in>?J. zero_page (mem t) root k) \<or>
     r = 0 \<and> K' = K \<and> (\<forall>k\<in>?J. \<not> valid (upte (mem t) root k))"
    using uvmalloc_spec [OF assms(1-3) J assms(4)] by blast
  note C = chg_D [OF t(2)]
  have "upte (mem t) root k = upte (mem s) root k \<and>
      (\<forall>a. in_page (upage (mem s) root k) a \<longrightarrow> mem t a = mem s a)" if "k \<in> K" for k
  proof -
    have "k \<notin> ?J" using that J by blast
    then show ?thesis using C(6) [OF that] C(8) [OF uspace_D(9) [OF assms(1) that]] by blast
  qed
  then show ?thesis using t C(2,4) by blast
qed

theorem uvmalloc_correct_witness:
  "\<exists>r t. uvmalloc d_root 0x800 0x1800 d_state = Ret r t \<and> (r = 0x1800 \<or> r = 0)"
proof -
  have "npg 0x800 = 1" "npg 0x1800 = 2" by (simp_all add: npg_def)
  moreover have "\<not> valid (upte (mem d_state) d_root 1)"
    using va_of_simps [of 1] by (simp add: d_pte(1) NPAGE_def)
  moreover have "{1..<2 :: nat} = {1}" by auto
  ultimately have "\<forall>k\<in>{npg 0x800..<npg 0x1800}. \<not> valid (upte (mem d_state) d_root k)" by simp
  then show ?thesis
    using uvmalloc_correct [OF d_uspace, of "0x800" "0x1800"] by (auto simp: MAXVA_num)
qed

text \<open>
  C6: isolation.  Growing one process leaves the memory of every other process exactly as it
  was: the same bytes at the same user addresses.
\<close>

theorem uvmalloc_isolated:
  assumes "uspace s xs root K" and "uspace s xs other L"
    and "foot (mem s) other L \<inter> foot (mem s) root K = {}" and "user_owned (mem s) other L"
    and "oldsz \<le> newsz" and "newsz \<le> MAXVA"
    and "\<forall>k\<in>{npg oldsz..<npg newsz}. \<not> valid (upte (mem s) root k)"
  shows "\<exists>r t ys. uvmalloc root oldsz newsz s = Ret r t \<and> uspace t ys other L \<and>
    (\<forall>va. uread (mem t) other va = uread (mem s) other va)"
proof -
  let ?J = "{npg oldsz..<npg newsz}"
  have J: "K \<inter> ?J = {}" using assms(1,7) uspace_D(5) [OF assms(1)] by (auto simp: leaf_ok_def)
  obtain r t ys K' where t: "uvmalloc root oldsz newsz s = Ret r t" "chg root ?J s xs K t ys K'"
    using uvmalloc_spec [OF assms(1,5,6) J assms(7)] by blast
  note O = other_space [OF t(2) assms(1-3)]
  have "uread (mem t) other va = uread (mem s) other va" for va
  proof (cases "utrans (mem s) other va")
    case None
    then show ?thesis by (simp add: uread_def utrans_cong [OF O(2)])
  next
    case (Some p)
    note P = user_page [OF assms(2,4) Some]
    have "upage (mem s) other (pn va) \<in> foot (mem s) other L" using P(1) by (auto simp: foot_def udata_def)
    then have "mem t p = mem s p" using O(5) P(5) by blast
    then show ?thesis by (simp add: uread_def utrans_cong [OF O(2)] Some)
  qed
  then show ?thesis using t(1) O(1) by blast
qed

theorem uvmalloc_isolated_witness:
  "\<exists>r t. uvmalloc d_new 0 0x1000 d_state = Ret r t \<and> (\<forall>va. uread (mem t) d_root va = uread d_mem d_root va)"
proof -
  have "npg 0 = 0" "npg 0x1000 = 1" by (simp_all add: npg_def)
  moreover have "\<not> valid (upte (mem d_state) d_new 0)" by (simp add: d_pte(2) MAXVA_num)
  ultimately have "\<forall>k\<in>{npg 0..<npg 0x1000}. \<not> valid (upte (mem d_state) d_new k)" by simp
  moreover have "foot (mem d_state) d_root {0..<1} \<inter> foot (mem d_state) d_new {} = {}"
    unfolding d_mem_state d_foot by (simp add: d_defs)
  ultimately show ?thesis
    using uvmalloc_isolated [OF d_new_uspace d_uspace, of 0 "0x1000"] d_owned by (auto simp: MAXVA_num)
qed



text \<open>
  C19: \<^verbatim>\<open>uvmfree\<close> terminates and returns every page of the address space, data and table pages
  alike, to the allocator, and touches no other memory.
\<close>

theorem uvmfree_releases_all:
  assumes "uspace s xs root {0..<npg sz}" and "sz \<le> MAXVA"
    and "\<forall>va<MAXVA. npg sz \<le> pn va \<longrightarrow> \<not> valid (pte_of (mem s) root va)"
  shows "\<exists>t ys. uvmfree root sz s = Ret () t \<and> kmem_ok t ys \<and>
    set ys = set xs \<union> foot (mem s) root {0..<npg sz} \<and>
    (\<forall>b. (\<forall>q\<in>foot (mem s) root {0..<npg sz}. \<not> in_page q b) \<longrightarrow> mem t b = mem s b)"
proof -
  obtain t ys where "uvmfree root sz s = Ret () t" "freed s xs (foot (mem s) root {0..<npg sz}) t ys"
    using uvmfree_spec [OF assms] .
  then show ?thesis by (auto simp: freed_def)
qed

theorem uvmfree_releases_all_witness:
  "\<exists>t ys. uvmfree d_root 0x1000 d_state = Ret () t \<and> kmem_ok t ys \<and>
     set ys = {0x87FFE000, d_root, d_mid, d_leaf, d_data}"
proof -
  have n: "npg 0x1000 = 1" by (simp add: npg_def)
  have "\<forall>va<MAXVA. npg 0x1000 \<le> pn va \<longrightarrow> \<not> valid (pte_of (mem d_state) d_root va)"
    unfolding n by (simp add: d_pte(1))
  moreover have "uspace d_state [0x87FFE000] d_root {0..<npg 0x1000}" unfolding n by (rule d_uspace)
  moreover have "(0x1000 :: uint64) \<le> MAXVA" by (simp add: MAXVA_num)
  ultimately obtain t ys where "uvmfree d_root 0x1000 d_state = Ret () t" "kmem_ok t ys"
      "set ys = set [0x87FFE000] \<union> foot d_mem d_root {0..<1}"
    using uvmfree_releases_all [of d_state "[0x87FFE000]" d_root "0x1000"] unfolding n d_mem_state by blast
  then show ?thesis unfolding d_foot by auto
qed

text \<open>
  C8: round trip between kernel and user memory.  Whatever \<^verbatim>\<open>copyout\<close> accepts, \<^verbatim>\<open>copyin\<close> reads
  back; \<^verbatim>\<open>copyout\<close> fails exactly when a byte of the range is not accessible to the user, and the
  user's other bytes never change.
\<close>

theorem copyout_copyin:
  assumes "uspace s xs root K" and "user_owned (mem s) root K" and "length src < 2 ^ 63"
  shows "\<exists>r t. copyout root va src s = Ret r t \<and> uspace t xs root K \<and>
    (\<forall>w. length src \<le> unat (w - va) \<longrightarrow> uread (mem t) root w = uread (mem s) root w) \<and>
    (if \<forall>i<length src. utrans (mem s) root (va + of_nat i) \<noteq> None
     then r = 0 \<and> copyin root va (length src) t = Ret (0, src) t else r = -1)"
proof -
  obtain r t k where t: "copyout root va src s = Ret r t" "wrote s xs root K va (take k src) t"
    "readable (mem s) root va k"
    "r = 0 \<and> k = length src \<or> r = -1 \<and> k < length src \<and> utrans (mem s) root (va + of_nat k) = None"
    using copyout_spec [OF assms] by blast
  have W: "uspace t xs root K" "\<And>w. pte_of (mem t) root w = pte_of (mem s) root w"
    "\<And>w. uread (mem t) root w = (if unat (w - va) < length (take k src) then Some (take k src ! unat (w - va))
       else uread (mem s) root w)"
    using t(2) by (simp_all add: wrote_def)
  have tr: "utrans (mem t) root w = utrans (mem s) root w" for w using W(2) by (rule utrans_cong)
  have ow: "user_owned (mem t) root K" using assms(2) W(2) by (simp add: user_owned_def)
  have fr: "uread (mem t) root w = uread (mem s) root w" if "length src \<le> unat (w - va)" for w
    using that W(3) by simp
  show ?thesis
  proof (cases "r = 0")
    case True
    then have k: "k = length src" using t(4) by auto
    obtain r' j where c: "copyin root va (length src) t = Ret (r', ubytes (mem t) root va j) t"
      "r' = 0 \<and> j = length src \<or> r' = -1 \<and> j < length src \<and> utrans (mem t) root (va + of_nat j) = None"
      using copyin_spec [OF uspace_D(1) [OF W(1)] user_owned_nonzero [OF W(1) ow] assms(3)] by blast
    have all: "\<forall>i<length src. utrans (mem s) root (va + of_nat i) \<noteq> None"
      using t(3) k by (simp add: readable_def)
    then have j: "r' = 0" "j = length src" using c(2) tr by auto
    have "ubytes (mem t) root va (length src) = src"
    proof (rule nth_equalityI)
      fix i assume "i < length (ubytes (mem t) root va (length src))"
      then have i: "i < length src" by (simp add: ubytes_def)
      then have "unat (of_nat i :: uint64) = i" using assms(3) by (intro unat_of_nat64) simp
      then show "ubytes (mem t) root va (length src) ! i = src ! i" using i W(3) k by (simp add: ubytes_def)
    qed (simp add: ubytes_def)
    then show ?thesis using t(1) W(1) fr True all c(1) j by auto
  next
    case False
    then have "r = -1" "k < length src" "utrans (mem s) root (va + of_nat k) = None" using t(4) by auto
    then show ?thesis using t(1) W(1) fr by auto
  qed
qed

theorem copyout_copyin_witness:
  "\<exists>t. copyout d_root 0xFFE [7, 8, 9] d_state = Ret (-1) t \<and>
     (\<exists>u. copyout d_root 0x10 [7, 8] d_state = Ret 0 u \<and> copyin d_root 0x10 2 u = Ret (0, [7, 8]) u)"
proof -
  note t = d_utrans
  have own: "user_owned (mem d_state) d_root {0..<1}" using d_owned by simp
  have n: "utrans (mem d_state) d_root (0xFFE + of_nat 2) = None" using t [of "0x1000"] by (simp add: MAXVA_num)
  have nn: "\<not> (\<forall>i<length [7 :: byte, 8, 9]. utrans (mem d_state) d_root (0xFFE + of_nat i) \<noteq> None)"
  proof
    assume "\<forall>i<length [7 :: byte, 8, 9]. utrans (mem d_state) d_root (0xFFE + of_nat i) \<noteq> None"
    then have "2 < length [7 :: byte, 8, 9] \<longrightarrow> utrans (mem d_state) d_root (0xFFE + of_nat 2) \<noteq> None" by (rule spec)
    then show False using n by simp
  qed
  obtain u where bad: "copyout d_root 0xFFE [7, 8, 9] d_state = Ret (-1) u"
    using copyout_copyin [OF d_uspace own, of "[7, 8, 9]" "0xFFE"] unfolding if_not_P [OF nn] by auto
  have "utrans (mem d_state) d_root (0x10 + of_nat i) \<noteq> None" if "i < length [7 :: byte, 8]" for i
  proof -
    from that consider "i = 0" | "i = 1" by fastforce
    then show ?thesis using t [of "0x10"] t [of "0x11"] by cases (simp_all add: MAXVA_num)
  qed
  then obtain v where "copyout d_root 0x10 [7, 8] d_state = Ret 0 v" "copyin d_root 0x10 (length [7 :: byte, 8]) v = Ret (0, [7, 8]) v"
    using copyout_copyin [OF d_uspace own, of "[7, 8]" "0x10"] by auto
  moreover have "length [7 :: byte, 8] = 2" by simp
  ultimately show ?thesis using bad by metis
qed

text \<open>
  C20: \<^verbatim>\<open>copyinstr\<close> returns 0 exactly when the user string has its NUL within \<^verbatim>\<open>max\<close>
  accessible bytes, and then it has copied the string up to and including the NUL; otherwise it
  returns -1.  It never changes the state.
\<close>

theorem copyinstr_correct:
  assumes "uspace s xs root K" and "user_owned (mem s) root K" and "mx < 2 ^ 63"
  shows "\<exists>r bs. copyinstr root va mx s = Ret (r, bs) s \<and> length bs \<le> mx \<and>
    (\<forall>i<length bs. uread (mem s) root (va + of_nat i) = Some (bs ! i)) \<and>
    (r = 0 \<and> bs \<noteq> [] \<and> last bs = 0 \<and> 0 \<notin> set (butlast bs) \<or>
     r = -1 \<and> 0 \<notin> set bs \<and> (length bs = mx \<or> uread (mem s) root (va + of_nat (length bs)) = None))"
proof -
  let ?f = "\<lambda>i. the (uread (mem s) root (va + of_nat i))"
  obtain r k g where c: "copyinstr root va mx s = Ret (r, ubytes (mem s) root va k) s" "readable (mem s) root va k"
    "k \<le> mx" "cstr ?f k g" "r = 0 \<and> g \<or> r = -1 \<and> \<not> g \<and> (k = mx \<or> utrans (mem s) root (va + of_nat k) = None)"
    using copyinstr_spec [OF uspace_D(1) [OF assms(1)] user_owned_nonzero [OF assms(1,2)] assms(3)] by blast
  let ?b = "ubytes (mem s) root va k"
  have l: "length ?b = k" "\<And>i. i < k \<Longrightarrow> ?b ! i = ?f i" by (simp_all add: ubytes_def)
  have rd: "uread (mem s) root (va + of_nat i) = Some (?b ! i)" if "i < k" for i
    using that c(2) l(2) by (auto simp: readable_def uread_def)
  have g: "?b \<noteq> [] \<and> last ?b = 0 \<and> 0 \<notin> set (butlast ?b)" if "g"
  proof -
    have k: "0 < k" "?f (k - 1) = 0" "\<forall>i<k - 1. ?f i \<noteq> 0" using c(4) that unfolding cstr_def by presburger+
    then have ne: "?b \<noteq> []" using l(1) by auto
    moreover have "last ?b = 0" using k(2) unfolding last_conv_nth [OF ne] l(1) l(2) [OF diff_less [OF zero_less_one k(1)]] .
    moreover have "0 \<notin> set (butlast ?b)" using k l by (auto simp: in_set_conv_nth nth_butlast)
    ultimately show ?thesis by blast
  qed
  have ng: "0 \<notin> set ?b" if "\<not> g" using c(4) that l by (auto simp: cstr_def in_set_conv_nth)
  show ?thesis using c g ng rd l by (intro exI [of _ r] exI [of _ ?b]) (auto simp: uread_def)
qed

theorem copyinstr_correct_witness: "copyinstr d_root 0x20 5 d_state = Ret (0, [0]) d_state"
proof -
  have tr: "utrans d_mem d_root 0x20 = Some (d_data + 0x20)" using d_utrans [of "0x20"] by (simp add: MAXVA_num)
  have "d_mem (d_data + 0x20) = 0"
    using d_aligned d_distinct
    by (simp add: d_mem_def store64_frame slot_def d_defs)
  then have z: "uread (mem d_state) d_root (0x20 + of_nat 0) = Some 0" by (simp add: uread_def tr)
  obtain r bs where b: "copyinstr d_root 0x20 5 d_state = Ret (r, bs) d_state"
    "\<forall>i<length bs. uread (mem d_state) d_root (0x20 + of_nat i) = Some (bs ! i)"
    "r = 0 \<and> bs \<noteq> [] \<and> last bs = 0 \<and> 0 \<notin> set (butlast bs) \<or>
     r = -1 \<and> 0 \<notin> set bs \<and> (length bs = 5 \<or> uread (mem d_state) d_root (0x20 + of_nat (length bs)) = None)"
    using copyinstr_correct [OF d_uspace, of 5 "0x20"] d_owned by auto
  show ?thesis
  proof (cases bs)
    case Nil
    then show ?thesis using b(3) z by auto
  next
    case (Cons x ys)
    then have "x = 0" using b(2) z by (auto dest: spec [of _ 0])
    then show ?thesis using b Cons by (cases ys) auto
  qed
qed

end
