(* ===== verification/Quiet.thy ===== *)
theory Quiet
  imports Spinlock
begin

text \<open>
  Reasoning about code under spin locks as one thread runs it.  In a \<open>quiet\<close> state the CPU's
  note of the interrupt state is up to date, so a critical section leaves exactly the state its
  body computes.
\<close>

definition quiet :: "'a kcore_scheme \<Rightarrow> bool" where
  "quiet s \<longleftrightarrow> cpu_ok s \<and> tcpus s = cpus s"

named_theorems quiet_simps \<open>how quietness and free locks move through updates\<close>

lemma quiet_touched: "quiet s \<Longrightarrow> touched s = s"
  using touched_form [of s] by (simp add: quiet_def tcpus_def)

lemma quiet_lockable: "quiet s \<Longrightarrow> lock_free l s \<Longrightarrow> lockable l s"
  by (simp add: quiet_def lockable_def)

lemma acquire_quiet: "quiet s \<Longrightarrow> lock_free l s \<Longrightarrow> acquire l s = Ret () (acquired l s)"
  by (simp add: acquire_ok quiet_lockable)

lemma critical_quiet:
  assumes "quiet s" "lock_free l s"
    and "\<And>cs cp k. body (s\<lparr>csrs := cs, cpus := cp, lk := k\<rparr>) = (body s)\<lparr>csrs := cs, cpus := cp, lk := k\<rparr>"
    and "hart (body s) = hart s" "csrs (body s) = csrs s" "lk (body s) = lk s" "cpus (body s) = cpus s"
  shows "release l (body (acquired l s)) = Ret () (body s)"
proof -
  have "release l (body (acquired l s)) = Ret () ((body s)\<lparr>cpus := tcpus s\<rparr>)"
    by (rule critical [OF quiet_lockable [OF assms(1,2)] assms(3-6)])
  also have "(body s)\<lparr>cpus := tcpus s\<rparr> = body s" using assms(1,7) by (simp add: quiet_def)
  finally show ?thesis .
qed

lemma quiet_acquired [quiet_simps]: "cpu_ok s \<Longrightarrow> quiet (acquired l s)"
  using acquired_noff [of l s] by (simp add: quiet_def cpu_ok_def tcpus_eq)

lemma quiet_cpu_ok: "quiet s \<Longrightarrow> cpu_ok s"
  by (simp add: quiet_def)

lemma lock_free_acquired [quiet_simps]: "lock_free l' (acquired l s) \<longleftrightarrow> l' \<noteq> l \<and> lock_free l' s"
  by (auto simp: lock_free_def acquired_def)

lemma quiet_cong:
  fixes s t :: "'a kcore_scheme"
  assumes "hart t = hart s" "csrs t = csrs s" "cpus t = cpus s" "lk t = lk s"
  shows "quiet t = quiet s" "lock_free l t = lock_free l s"
  using core_cong(3,5) [OF assms] assms by (simp_all add: quiet_def lock_free_def)

lemma myproc_quiet: "quiet s \<Longrightarrow> myproc s = Ret (cproc (cpus s (mycpu s))) s"
  by (simp add: myproc_eq quiet_cpu_ok quiet_touched)

text \<open>What taking a lock does not change.\<close>

lemma acquired_cproc: "cproc (cpus (acquired l s) h) = cproc (cpus s h)"
  by (simp add: acquired_def push_off_def Let_def)

lemma acquired_hart [simp]: "hart (acquired l s) = hart s"
  by (subst acquired_form) simp

lemma acquired_more [simp]: "kcore.more (acquired l s) = kcore.more s"
  by (subst acquired_form) simp

text \<open>Switching interrupts: the last switch counts.\<close>

lemma intr_switch [simp]:
  "intr_on (intr_off s) = intr_on s" "intr_off (intr_on s) = intr_off s"
  "intr_on (intr_on s) = intr_on s" "intr_off (intr_off s) = intr_off s"
proof -
  have "(x AND NOT SSTATUS_SIE) OR SSTATUS_SIE = x OR SSTATUS_SIE"
    "(x OR SSTATUS_SIE) AND NOT SSTATUS_SIE = x AND NOT SSTATUS_SIE"
    "(x OR SSTATUS_SIE) OR SSTATUS_SIE = x OR SSTATUS_SIE"
    "(x AND NOT SSTATUS_SIE) AND NOT SSTATUS_SIE = x AND NOT SSTATUS_SIE" for x :: uint64
    by (rule bit_word_eqI; auto simp: bit_simps)+
  then show "intr_on (intr_off s) = intr_on s" "intr_off (intr_on s) = intr_off s"
    "intr_on (intr_on s) = intr_on s" "intr_off (intr_off s) = intr_off s"
    by (simp_all add: intr_on_def intr_off_def csr_defs)
qed

lemma intr_on_idle: "intr_get s \<Longrightarrow> intr_on s = s"
  using intr_on_off [of s] by simp

end
