(* ===== verification/Proc.thy ===== *)
theory Proc
  imports Vm Quiet
begin

text \<open>
  The process table and the scheduler: \<^verbatim>\<open>kernel/proc.h\<close> and the part of \<^verbatim>\<open>kernel/proc.c\<close> that
  needs neither files nor inodes.  The table is \<open>procs\<close>, indexed below \<^verbatim>\<open>NPROC\<close>; a pointer
  into it is an index.  A trap frame is a page of memory; its fields are 64-bit words at the
  offsets of \<^verbatim>\<open>struct trapframe\<close>.

  A thread leaves its CPU only in \<^verbatim>\<open>sched()\<close>, where the model ends with \<open>Swtch\<close>; what the
  source does after the switch comes back is \<open>sched_resume\<close>, \<open>sleep_resume\<close>,
  \<open>yield_resume\<close> and, on the scheduler's side, \<open>scheduler_back\<close>.
\<close>

section \<open>Process structures\<close>

datatype procstate = UNUSED | SLEEPING | RUNNABLE | RUNNING | ZOMBIE

text \<open>
  What a process can sleep on: a process (\<^verbatim>\<open>wait\<close>), a sleep lock (named by its spin lock),
  the log, the clock, the two ends of a pipe, a buffer waiting for the disk, the free list of
  disk descriptors, console input and the transmit buffer of the UART.
\<close>

datatype chan =
    Proc_chan nat | Sleeplock_chan lockid | Log_chan | Ticks_chan | Pipe_nread uint64
  | Pipe_nwrite uint64 | Buf_chan nat | Disk_free_chan | Cons_chan | Uart_chan

record kcontext =
  ctx_ra :: uint64
  ctx_sp :: uint64
  ctx_s :: "uint64 list"

record proc =
  p_state :: procstate
  p_parent :: "nat option"
  p_chan :: "chan option"
  p_killed :: bool
  p_xstate :: int
  p_pid :: int
  p_kstack :: uint64
  p_sz :: uint64
  p_pagetable :: uint64
  p_trapframe :: uint64
  p_context :: kcontext
  p_ofile :: "nat \<Rightarrow> nat option"
  p_cwd :: "nat option"
  p_name :: "byte list"

text \<open>
  The variables of \<^verbatim>\<open>proc.c\<close>; \<open>forkret_addr\<close> is the address of the code of \<^verbatim>\<open>forkret\<close> and
  \<open>first\<close> its static variable.
\<close>

record kproc = kvm +
  procs :: "nat \<Rightarrow> proc"
  initproc :: "nat option"
  nextpid :: int
  forkret_addr :: uint64
  first :: bool

definition upd_proc :: "nat \<Rightarrow> (proc \<Rightarrow> proc) \<Rightarrow> 'a kproc_scheme \<Rightarrow> 'a kproc_scheme" where
  "upd_proc i f s = s\<lparr>procs := (procs s)(i := f (procs s i))\<rparr>"

subsection \<open>The trap frame\<close>

definition tf_kernel_satp :: uint64 where "tf_kernel_satp = 0"
definition tf_kernel_sp :: uint64 where "tf_kernel_sp = 8"
definition tf_kernel_trap :: uint64 where "tf_kernel_trap = 16"
definition tf_epc :: uint64 where "tf_epc = 24"
definition tf_kernel_hartid :: uint64 where "tf_kernel_hartid = 32"
definition tf_ra :: uint64 where "tf_ra = 40"
definition tf_sp :: uint64 where "tf_sp = 48"
definition tf_a0 :: uint64 where "tf_a0 = 112"
definition tf_a1 :: uint64 where "tf_a1 = 120"
definition tf_a2 :: uint64 where "tf_a2 = 128"
definition tf_a3 :: uint64 where "tf_a3 = 136"
definition tf_a4 :: uint64 where "tf_a4 = 144"
definition tf_a5 :: uint64 where "tf_a5 = 152"
definition tf_a7 :: uint64 where "tf_a7 = 168"
definition sizeof_trapframe :: nat where "sizeof_trapframe = 288"

lemmas tf_defs = tf_kernel_satp_def tf_kernel_sp_def tf_kernel_trap_def tf_epc_def
  tf_kernel_hartid_def tf_ra_def tf_sp_def tf_a0_def tf_a1_def tf_a2_def tf_a3_def tf_a4_def
  tf_a5_def tf_a7_def sizeof_trapframe_def

definition tf_get :: "nat \<Rightarrow> uint64 \<Rightarrow> 'a kproc_scheme \<Rightarrow> uint64" where
  "tf_get p off s = load64 (mem s) (p_trapframe (procs s p) + off)"

definition tf_put :: "nat \<Rightarrow> uint64 \<Rightarrow> uint64 \<Rightarrow> 'a kproc_scheme \<Rightarrow> 'a kproc_scheme" where
  "tf_put p off v s = s\<lparr>mem := store64 (mem s) (p_trapframe (procs s p) + off) v\<rparr>"

text \<open>The process that runs on this CPU, dereferenced.\<close>

definition curproc :: "'a kproc_scheme \<Rightarrow> (nat, 'a kproc_scheme) outcome" where
  "curproc s = bnd (myproc s) (\<lambda>p s. deref p s)"

section \<open>Allocation\<close>

definition procinit :: "'a kproc_scheme \<Rightarrow> (unit, 'a kproc_scheme) outcome" where
  "procinit s =
     (let s = initlock Pid_lock ''nextpid'' s
      in bnd (foreach [0..<NPROC] (\<lambda>i s.
           let s = initlock (Proc_lock i) ''proc'' s
           in bnd (kalloc s) (\<lambda>pa s.
              if pa = 0 then Panic ''kalloc''
              else let va = KSTACK (of_nat i)
                   in bnd (kvmmap va pa PGSIZE (PTE_R OR PTE_W) s) (\<lambda>_ s.
                      Ret (None :: unit option) (upd_proc i (\<lambda>p. p\<lparr>p_kstack := va\<rparr>) s)))) s) (\<lambda>_ s.
         Ret () (kvminithart s)))"

definition allocpid :: "'a kproc_scheme \<Rightarrow> (int, 'a kproc_scheme) outcome" where
  "allocpid s =
     bnd (acquire Pid_lock s) (\<lambda>_ s.
       let pid = nextpid s;
           s = s\<lparr>nextpid := i32 (nextpid s + 1)\<rparr>
       in bnd (release Pid_lock s) (\<lambda>_ s. Ret pid s))"

definition proc_pagetable :: "nat \<Rightarrow> 'a kproc_scheme \<Rightarrow> (uint64, 'a kproc_scheme) outcome" where
  "proc_pagetable p s =
     bnd (uvmcreate s) (\<lambda>pagetable s.
       if pagetable = 0 then Ret 0 s
       else bnd (mappages pagetable TRAMPOLINE PGSIZE (trampoline_addr s) (PTE_R OR PTE_X) s) (\<lambda>r s.
         if r < 0 then bnd (uvmfree pagetable 0 s) (\<lambda>_ s. Ret 0 s)
         else bnd (mappages pagetable TRAPFRAME PGSIZE (p_trapframe (procs s p)) (PTE_R OR PTE_W) s) (\<lambda>r s.
           if r < 0 then
             bnd (uvmunmap pagetable TRAMPOLINE 1 False s) (\<lambda>_ s.
               bnd (uvmfree pagetable 0 s) (\<lambda>_ s. Ret 0 s))
           else Ret pagetable s)))"

definition proc_freepagetable ::
  "uint64 \<Rightarrow> uint64 \<Rightarrow> 'a kproc_scheme \<Rightarrow> (unit, 'a kproc_scheme) outcome" where
  "proc_freepagetable pagetable sz s =
     bnd (uvmunmap pagetable TRAMPOLINE 1 False s) (\<lambda>_ s.
       bnd (uvmunmap pagetable TRAPFRAME 1 False s) (\<lambda>_ s.
         uvmfree pagetable sz s))"

definition freeproc :: "nat \<Rightarrow> 'a kproc_scheme \<Rightarrow> (unit, 'a kproc_scheme) outcome" where
  "freeproc p s =
     bnd (if p_trapframe (procs s p) \<noteq> 0 then kfree (p_trapframe (procs s p)) s else Ret () s) (\<lambda>_ s.
       let s = upd_proc p (\<lambda>q. q\<lparr>p_trapframe := 0\<rparr>) s
       in bnd (if p_pagetable (procs s p) \<noteq> 0
               then proc_freepagetable (p_pagetable (procs s p)) (p_sz (procs s p)) s
               else Ret () s) (\<lambda>_ s.
         Ret () (upd_proc p (\<lambda>q. q\<lparr>p_pagetable := 0, p_sz := 0, p_pid := 0, p_parent := None,
           p_name := (p_name q)[0 := 0], p_chan := None, p_killed := False, p_xstate := 0,
           p_state := UNUSED\<rparr>) s)))"

text \<open>
  \<^verbatim>\<open>allocproc\<close>: the search, then the code from the label \<^verbatim>\<open>found\<close> on.
\<close>

definition allocproc_found :: "nat \<Rightarrow> 'a kproc_scheme \<Rightarrow> (nat option, 'a kproc_scheme) outcome" where
  "allocproc_found p s =
     bnd (allocpid s) (\<lambda>pid s.
       let s = upd_proc p (\<lambda>q. q\<lparr>p_pid := pid\<rparr>) s
       in bnd (kalloc s) (\<lambda>tf s.
          let s = upd_proc p (\<lambda>q. q\<lparr>p_trapframe := tf\<rparr>) s
          in if tf = 0 then bnd (release (Proc_lock p) s) (\<lambda>_ s. Ret None s)
             else bnd (proc_pagetable p s) (\<lambda>pt s.
               let s = upd_proc p (\<lambda>q. q\<lparr>p_pagetable := pt\<rparr>) s
               in if pt = 0 then
                    bnd (freeproc p s) (\<lambda>_ s.
                      bnd (release (Proc_lock p) s) (\<lambda>_ s. Ret None s))
                  else Ret (Some p) (upd_proc p (\<lambda>q. q\<lparr>p_context :=
                    \<lparr>ctx_ra = forkret_addr s, ctx_sp = p_kstack q + PGSIZE, ctx_s = replicate 12 0\<rparr>\<rparr>) s))))"

definition allocproc_at :: "nat \<Rightarrow> 'a kproc_scheme \<Rightarrow> (nat option, 'a kproc_scheme) outcome" where
  "allocproc_at p s =
     bnd (acquire (Proc_lock p) s) (\<lambda>_ s.
       if p_state (procs s p) = UNUSED then Ret (Some p) s
       else bnd (release (Proc_lock p) s) (\<lambda>_ s. Ret None s))"

definition allocproc :: "'a kproc_scheme \<Rightarrow> (nat option, 'a kproc_scheme) outcome" where
  "allocproc s =
     bnd (foreach [0..<NPROC] allocproc_at s) (\<lambda>r s.
     case r of None \<Rightarrow> Ret None s | Some p \<Rightarrow> allocproc_found p s)"

text \<open>
  \<^verbatim>\<open>growproc\<close> keeps the size in a \<^verbatim>\<open>uint\<close>, so it is cut to 32 bits; \<^verbatim>\<open>sz + n\<close> is computed in
  32 bits as well.
\<close>

definition growproc :: "int \<Rightarrow> 'a kproc_scheme \<Rightarrow> (int, 'a kproc_scheme) outcome" where
  "growproc n s =
     bnd (curproc s) (\<lambda>p s.
       let sz = (ucast (p_sz (procs s p)) :: uint32);
           pt = p_pagetable (procs s p)
       in if 0 < n then
            bnd (uvmalloc pt (ucast sz) (ucast (sz + word_of_int n)) s) (\<lambda>r s.
              let sz = (ucast r :: uint32)
              in if sz = 0 then Ret (-1) s
                 else Ret 0 (upd_proc p (\<lambda>q. q\<lparr>p_sz := ucast sz\<rparr>) s))
          else if n < 0 then
            bnd (uvmdealloc pt (ucast sz) (ucast (sz + word_of_int n)) s) (\<lambda>r s.
              Ret 0 (upd_proc p (\<lambda>q. q\<lparr>p_sz := ucast (ucast r :: uint32)\<rparr>) s))
          else Ret 0 (upd_proc p (\<lambda>q. q\<lparr>p_sz := ucast sz\<rparr>) s))"

section \<open>Scheduling\<close>

definition sched :: "'a kproc_scheme \<Rightarrow> (unit, 'a kproc_scheme) outcome" where
  "sched s =
     bnd (curproc s) (\<lambda>p s.
       if \<not> holding (Proc_lock p) s then Panic ''sched p->lock''
       else if noff (cpus s (mycpu s)) \<noteq> 1 then Panic ''sched locks''
       else if p_state (procs s p) = RUNNING then Panic ''sched running''
       else if intr_get s then Panic ''sched interruptible''
       else Swtch s)"

text \<open>The rest of \<^verbatim>\<open>sched\<close>, on the CPU that switches back to the thread.\<close>

definition sched_resume :: "bool \<Rightarrow> 'a kproc_scheme \<Rightarrow> (unit, 'a kproc_scheme) outcome" where
  "sched_resume old s = Ret () (upd_cpu (\<lambda>c. c\<lparr>intena := old\<rparr>) s)"

text \<open>
  One iteration of the scheduler's inner loop, and a scan from entry \<open>i\<close> on: it stops at the
  first runnable process, with that process' lock held, to switch to it.  \<open>scheduler_back\<close>
  is the code after the switch returns.
\<close>

definition scheduler_try :: "nat \<Rightarrow> 'a kproc_scheme \<Rightarrow> (nat option, 'a kproc_scheme) outcome" where
  "scheduler_try p s =
     bnd (acquire (Proc_lock p) s) (\<lambda>_ s.
       if p_state (procs s p) = RUNNABLE then
         Ret (Some p) (upd_cpu (\<lambda>c. c\<lparr>cproc := Some p\<rparr>)
           (upd_proc p (\<lambda>q. q\<lparr>p_state := RUNNING\<rparr>) s))
       else bnd (release (Proc_lock p) s) (\<lambda>_ s. Ret None s))"

definition scheduler_scan :: "nat \<Rightarrow> 'a kproc_scheme \<Rightarrow> (nat option, 'a kproc_scheme) outcome" where
  "scheduler_scan i s = foreach [i..<NPROC] scheduler_try s"

definition scheduler_back :: "nat \<Rightarrow> 'a kproc_scheme \<Rightarrow> (unit, 'a kproc_scheme) outcome" where
  "scheduler_back p s = release (Proc_lock p) (upd_cpu (\<lambda>c. c\<lparr>cproc := None\<rparr>) s)"

definition scheduler :: "'a kproc_scheme \<Rightarrow> (nat option, 'a kproc_scheme) outcome" where
  "scheduler s = scheduler_scan 0 (intr_on (upd_cpu (\<lambda>c. c\<lparr>cproc := None\<rparr>) s))"

definition yield :: "'a kproc_scheme \<Rightarrow> (unit, 'a kproc_scheme) outcome" where
  "yield s =
     bnd (curproc s) (\<lambda>p s.
       bnd (acquire (Proc_lock p) s) (\<lambda>_ s.
         sched (upd_proc p (\<lambda>q. q\<lparr>p_state := RUNNABLE\<rparr>) s)))"

definition yield_resume :: "nat \<Rightarrow> bool \<Rightarrow> 'a kproc_scheme \<Rightarrow> (unit, 'a kproc_scheme) outcome" where
  "yield_resume p old s = bnd (sched_resume old s) (\<lambda>_ s. release (Proc_lock p) s)"

section \<open>Sleep and wakeup\<close>

definition sleep :: "chan \<Rightarrow> lockid \<Rightarrow> 'a kproc_scheme \<Rightarrow> (unit, 'a kproc_scheme) outcome" where
  "sleep ch l s =
     bnd (curproc s) (\<lambda>p s.
       bnd (if l \<noteq> Proc_lock p
            then bnd (acquire (Proc_lock p) s) (\<lambda>_ s. release l s)
            else Ret () s) (\<lambda>_ s.
         sched (upd_proc p (\<lambda>q. q\<lparr>p_chan := Some ch, p_state := SLEEPING\<rparr>) s)))"

definition sleep_resume :: "nat \<Rightarrow> lockid \<Rightarrow> bool \<Rightarrow> 'a kproc_scheme \<Rightarrow> (unit, 'a kproc_scheme) outcome" where
  "sleep_resume p l old s =
     bnd (sched_resume old s) (\<lambda>_ s.
       let s = upd_proc p (\<lambda>q. q\<lparr>p_chan := None\<rparr>) s
       in if l \<noteq> Proc_lock p
          then bnd (release (Proc_lock p) s) (\<lambda>_ s. acquire l s)
          else Ret () s)"

definition wakeup_at :: "chan \<Rightarrow> nat \<Rightarrow> 'a kproc_scheme \<Rightarrow> (unit option, 'a kproc_scheme) outcome" where
  "wakeup_at ch p s =
     bnd (acquire (Proc_lock p) s) (\<lambda>_ s.
       let s = (if p_state (procs s p) = SLEEPING \<and> p_chan (procs s p) = Some ch
                then upd_proc p (\<lambda>q. q\<lparr>p_state := RUNNABLE\<rparr>) s else s)
       in bnd (release (Proc_lock p) s) (\<lambda>_ s. Ret None s))"

definition wakeup :: "chan \<Rightarrow> 'a kproc_scheme \<Rightarrow> (unit, 'a kproc_scheme) outcome" where
  "wakeup ch s = bnd (foreach [0..<NPROC] (wakeup_at ch) s) (\<lambda>_ s. Ret () s)"

definition wakeup1 :: "nat \<Rightarrow> 'a kproc_scheme \<Rightarrow> (unit, 'a kproc_scheme) outcome" where
  "wakeup1 p s =
     (if \<not> holding (Proc_lock p) s then Panic ''wakeup1''
      else if p_chan (procs s p) = Some (Proc_chan p) \<and> p_state (procs s p) = SLEEPING
      then Ret () (upd_proc p (\<lambda>q. q\<lparr>p_state := RUNNABLE\<rparr>) s)
      else Ret () s)"

definition kill_at :: "int \<Rightarrow> nat \<Rightarrow> 'a kproc_scheme \<Rightarrow> (int option, 'a kproc_scheme) outcome" where
  "kill_at pid p s =
     bnd (acquire (Proc_lock p) s) (\<lambda>_ s.
       if p_pid (procs s p) = pid then
         let s = upd_proc p (\<lambda>q. q\<lparr>p_killed := True\<rparr>) s;
             s = (if p_state (procs s p) = SLEEPING
                  then upd_proc p (\<lambda>q. q\<lparr>p_state := RUNNABLE\<rparr>) s else s)
         in bnd (release (Proc_lock p) s) (\<lambda>_ s. Ret (Some 0) s)
       else bnd (release (Proc_lock p) s) (\<lambda>_ s. Ret None s))"

definition kill :: "int \<Rightarrow> 'a kproc_scheme \<Rightarrow> (int, 'a kproc_scheme) outcome" where
  "kill pid s =
     bnd (foreach [0..<NPROC] (kill_at pid) s) (\<lambda>r s.
     case r of Some v \<Rightarrow> Ret v s | None \<Rightarrow> Ret (-1) s)"

section \<open>Parents and children\<close>

definition reparent_at :: "nat \<Rightarrow> nat \<Rightarrow> 'a kproc_scheme \<Rightarrow> (unit option, 'a kproc_scheme) outcome" where
  "reparent_at p pp s =
     (if p_parent (procs s pp) = Some p then
        bnd (acquire (Proc_lock pp) s) (\<lambda>_ s.
          let s = upd_proc pp (\<lambda>q. q\<lparr>p_parent := initproc s\<rparr>) s
          in bnd (release (Proc_lock pp) s) (\<lambda>_ s. Ret None s))
      else Ret None s)"

definition reparent :: "nat \<Rightarrow> 'a kproc_scheme \<Rightarrow> (unit, 'a kproc_scheme) outcome" where
  "reparent p s = bnd (foreach [0..<NPROC] (reparent_at p) s) (\<lambda>_ s. Ret () s)"

text \<open>
  One pass of \<^verbatim>\<open>wait\<close> over the table: the value \<^verbatim>\<open>wait\<close> returns when it finds an exited child, or
  \<open>None\<close> and whether there are children.  \<open>wait_loop\<close> is the body of the outer loop, which
  sleeps at its end; \<open>wait_resume\<close> is the next iteration.
\<close>

primrec wait_scan :: "nat list \<Rightarrow> nat \<Rightarrow> uint64 \<Rightarrow> bool \<Rightarrow> 'a kproc_scheme \<Rightarrow>
    (int option \<times> bool, 'a kproc_scheme) outcome" where
  "wait_scan [] p addr havekids s = Ret (None, havekids) s"
| "wait_scan (np # rest) p addr havekids s =
     (if p_parent (procs s np) = Some p then
        bnd (acquire (Proc_lock np) s) (\<lambda>_ s.
          if p_state (procs s np) = ZOMBIE then
            let pid = p_pid (procs s np)
            in bnd (if addr \<noteq> 0 then copyout (p_pagetable (procs s p)) addr
                      (enc 4 (word_of_int (p_xstate (procs s np)) :: uint32)) s
                    else Ret 0 s) (\<lambda>r s.
               if r < 0 then
                 bnd (release (Proc_lock np) s) (\<lambda>_ s.
                   bnd (release (Proc_lock p) s) (\<lambda>_ s. Ret (Some (-1), True) s))
               else
                 bnd (freeproc np s) (\<lambda>_ s.
                   bnd (release (Proc_lock np) s) (\<lambda>_ s.
                     bnd (release (Proc_lock p) s) (\<lambda>_ s. Ret (Some pid, True) s))))
          else bnd (release (Proc_lock np) s) (\<lambda>_ s. wait_scan rest p addr True s))
      else wait_scan rest p addr havekids s)"

definition wait_loop :: "nat \<Rightarrow> uint64 \<Rightarrow> 'a kproc_scheme \<Rightarrow> (int, 'a kproc_scheme) outcome" where
  "wait_loop p addr s =
     bnd (wait_scan [0..<NPROC] p addr False s) (\<lambda>(r, havekids) s.
       case r of
         Some v \<Rightarrow> Ret v s
       | None \<Rightarrow>
           if \<not> havekids \<or> p_killed (procs s p) then
             bnd (release (Proc_lock p) s) (\<lambda>_ s. Ret (-1) s)
           else bnd (sleep (Proc_chan p) (Proc_lock p) s) (\<lambda>_ s. Ret (-1) s))"

definition wait :: "uint64 \<Rightarrow> 'a kproc_scheme \<Rightarrow> (int, 'a kproc_scheme) outcome" where
  "wait addr s =
     bnd (curproc s) (\<lambda>p s.
       bnd (acquire (Proc_lock p) s) (\<lambda>_ s. wait_loop p addr s))"

definition wait_resume :: "nat \<Rightarrow> uint64 \<Rightarrow> bool \<Rightarrow> 'a kproc_scheme \<Rightarrow> (int, 'a kproc_scheme) outcome" where
  "wait_resume p addr old s =
     bnd (sleep_resume p (Proc_lock p) old s) (\<lambda>_ s. wait_loop p addr s)"

section \<open>Copying to and from either space\<close>

definition either_copyout ::
  "bool \<Rightarrow> uint64 \<Rightarrow> byte list \<Rightarrow> 'a kproc_scheme \<Rightarrow> (int, 'a kproc_scheme) outcome" where
  "either_copyout user_dst dst src s =
     bnd (myproc s) (\<lambda>p s.
       if user_dst then bnd (deref p s) (\<lambda>p s. copyout (p_pagetable (procs s p)) dst src s)
       else Ret 0 (s\<lparr>mem := put_bytes (mem s) dst src\<rparr>))"

definition either_copyin ::
  "bool \<Rightarrow> uint64 \<Rightarrow> nat \<Rightarrow> 'a kproc_scheme \<Rightarrow> (int \<times> byte list, 'a kproc_scheme) outcome" where
  "either_copyin user_src src len s =
     bnd (myproc s) (\<lambda>p s.
       if user_src then bnd (deref p s) (\<lambda>p s. copyin (p_pagetable (procs s p)) src len s)
       else Ret (0, bytes_at (mem s) src len) s)"

section \<open>What the process layer leaves alone\<close>

text \<open>
  \<open>sched_frame s t\<close>: only registers, CPUs, locks and the process table differ.
\<close>

definition sched_frame :: "'a kproc_scheme \<Rightarrow> 'a kproc_scheme \<Rightarrow> bool" where
  "sched_frame s t \<longleftrightarrow> (\<exists>cs cp k ps. t = s\<lparr>csrs := cs, cpus := cp, lk := k, procs := ps\<rparr>)"

lemma sched_frame_refl [simp]: "sched_frame s s"
  unfolding sched_frame_def
  by (rule exI [of _ "csrs s"], rule exI [of _ "cpus s"], rule exI [of _ "lk s"], rule exI [of _ "procs s"]) simp

lemma sched_frame_trans: "sched_frame s t \<Longrightarrow> sched_frame t u \<Longrightarrow> sched_frame s u"
  unfolding sched_frame_def by (elim exE) (simp, blast)

lemma sched_frame_upd_proc [simp]: "sched_frame s (upd_proc p f s)"
  unfolding sched_frame_def upd_proc_def
  by (rule exI [of _ "csrs s"], rule exI [of _ "cpus s"], rule exI [of _ "lk s"]) auto

lemma sched_frame_acquire: "acquire l s = Ret r t \<Longrightarrow> sched_frame s t"
proof -
  assume "acquire l s = Ret r t"
  then have "t = acquired l s" using acquire_Ret by blast
  then have "t = s\<lparr>csrs := csrs t, cpus := cpus t, lk := lk t\<rparr>" using acquired_form [of l s] by simp
  moreover have "s\<lparr>csrs := csrs t, cpus := cpus t, lk := lk t, procs := procs s\<rparr> =
    s\<lparr>csrs := csrs t, cpus := cpus t, lk := lk t\<rparr>" by simp
  ultimately show ?thesis unfolding sched_frame_def by metis
qed

lemma sched_frame_release: "release l s = Ret r t \<Longrightarrow> sched_frame s t"
proof -
  assume "release l s = Ret r t"
  then have "t = released l s" using release_Ret by blast
  then have "t = s\<lparr>csrs := csrs t, cpus := cpus t, lk := lk t\<rparr>" using released_form [of s s l] by simp
  moreover have "s\<lparr>csrs := csrs t, cpus := cpus t, lk := lk t, procs := procs s\<rparr> =
    s\<lparr>csrs := csrs t, cpus := cpus t, lk := lk t\<rparr>" by simp
  ultimately show ?thesis unfolding sched_frame_def by metis
qed

lemma sched_frame_csrs_cpus: "sched_frame s (s\<lparr>csrs := cs, cpus := cp\<rparr>)"
proof -
  have "s\<lparr>csrs := cs, cpus := cp\<rparr> = s\<lparr>csrs := cs, cpus := cp, lk := lk s, procs := procs s\<rparr>" by simp
  then show ?thesis unfolding sched_frame_def by metis
qed

lemma sched_frame_push_off: "sched_frame s (push_off s)"
proof -
  have "push_off s = s\<lparr>csrs := csrs (push_off s), cpus := cpus (push_off s)\<rparr>"
    by (simp add: push_off_def Let_def intr_off_def csr_defs upd_cpu_def)
  then show ?thesis using sched_frame_csrs_cpus by metis
qed

lemma sched_frame_pop_off: "pop_off s = Ret r t \<Longrightarrow> sched_frame s t"
proof -
  assume "pop_off s = Ret r t"
  then have "t = s\<lparr>csrs := csrs t, cpus := cpus t\<rparr>"
    by (auto simp: pop_off_def Let_def intr_on_def csr_defs upd_cpu_def split: if_splits)
  then show ?thesis using sched_frame_csrs_cpus by metis
qed

lemma foreach_rel:
  assumes "foreach xs f s = Ret r t" and "\<And>x s r t. f x s = Ret r t \<Longrightarrow> R s t"
    and "\<And>s. R s s" and "\<And>s t u. R s t \<Longrightarrow> R t u \<Longrightarrow> R s u"
  shows "R s t"
  using assms(1)
proof (induction xs arbitrary: s)
  case Nil
  then show ?case using assms(3) by simp
next
  case (Cons x xs)
  then obtain r' s' where "f x s = Ret r' s'" and
    "(case r' of Some b \<Rightarrow> Ret (Some b) s' | None \<Rightarrow> foreach xs f s') = Ret r t" by auto
  then have "R s s'" "R s' t" using assms(2,3) Cons.IH by (auto split: option.splits)
  then show ?case by (rule assms(4))
qed

lemma sched_frame_wakeup_at:
  assumes "wakeup_at ch p s = Ret r t"
  shows "sched_frame s t"
proof -
  obtain w where w: "acquire (Proc_lock p) s = Ret () w"
    and r: "release (Proc_lock p) (if p_state (procs w p) = SLEEPING \<and> p_chan (procs w p) = Some ch
      then upd_proc p (\<lambda>q. q\<lparr>p_state := RUNNABLE\<rparr>) w else w) = Ret () t"
    using assms by (auto simp: wakeup_at_def Let_def)
  have "sched_frame w (if p_state (procs w p) = SLEEPING \<and> p_chan (procs w p) = Some ch
      then upd_proc p (\<lambda>q. q\<lparr>p_state := RUNNABLE\<rparr>) w else w)" by simp
  then have "sched_frame w t" using sched_frame_release [OF r] by (rule sched_frame_trans)
  then show ?thesis using sched_frame_acquire [OF w] by (rule sched_frame_trans [rotated])
qed

lemma sched_frame_wakeup:
  assumes "wakeup ch s = Ret r t"
  shows "sched_frame s t"
proof -
  obtain r' where "foreach [0..<NPROC] (wakeup_at ch) s = Ret r' t" using assms by (auto simp: wakeup_def)
  then show ?thesis
    by (rule foreach_rel) (auto intro: sched_frame_wakeup_at sched_frame_trans)
qed

end
