(* ===== verification/Console.thy ===== *)
theory Console
  imports Proc
begin

text \<open>
  The console: the UART driver \<^verbatim>\<open>kernel/uart.c\<close>, formatted output \<^verbatim>\<open>kernel/printf.c\<close>, line
  input \<^verbatim>\<open>kernel/console.c\<close>, and \<^verbatim>\<open>procdump\<close> of \<^verbatim>\<open>kernel/proc.c\<close>, which prints.

  The UART itself is modelled by the bytes waiting in its receive FIFO (\<open>uart_in\<close>), the bytes
  sent so far (\<open>uart_out\<close>) and how many more bytes it accepts before its transmit register
  is full (\<open>uart_room\<close>): \<^verbatim>\<open>LSR_TX_IDLE\<close> is set as long as there is room.
\<close>

section \<open>State\<close>

definition INPUT_BUF :: nat where "INPUT_BUF = 128"
definition UART_TX_BUF_SIZE :: nat where "UART_TX_BUF_SIZE = 32"
definition CONSOLE :: nat where "CONSOLE = 1"

record kcons = kproc +
  uart_in :: "byte list"
  uart_out :: "byte list"
  uart_room :: nat
  uart_reg :: "nat \<Rightarrow> byte"
  uart_tx_buf :: "nat \<Rightarrow> byte"
  uart_tx_w :: nat
  uart_tx_r :: nat
  panicked :: bool
  pr_locking :: bool
  cons_buf :: "nat \<Rightarrow> byte"
  cons_r :: uint32
  cons_w :: uint32
  cons_e :: uint32
  devsw_read :: "nat \<Rightarrow> bool"
  devsw_write :: "nat \<Rightarrow> bool"

section \<open>The UART\<close>

definition THR :: nat where "THR = 0"
definition IER :: nat where "IER = 1"
definition IER_TX_ENABLE :: byte where "IER_TX_ENABLE = push_bit 0 1"
definition IER_RX_ENABLE :: byte where "IER_RX_ENABLE = push_bit 1 1"
definition FCR :: nat where "FCR = 2"
definition FCR_FIFO_ENABLE :: byte where "FCR_FIFO_ENABLE = push_bit 0 1"
definition FCR_FIFO_CLEAR :: byte where "FCR_FIFO_CLEAR = push_bit 1 3"
definition LCR :: nat where "LCR = 3"
definition LCR_EIGHT_BITS :: byte where "LCR_EIGHT_BITS = push_bit 0 3"
definition LCR_BAUD_LATCH :: byte where "LCR_BAUD_LATCH = push_bit 7 1"
definition LSR_RX_READY :: byte where "LSR_RX_READY = push_bit 0 1"
definition LSR_TX_IDLE :: byte where "LSR_TX_IDLE = push_bit 5 1"

definition WriteReg :: "nat \<Rightarrow> byte \<Rightarrow> 'a kcons_scheme \<Rightarrow> 'a kcons_scheme" where
  "WriteReg r v s = s\<lparr>uart_reg := (uart_reg s)(r := v)\<rparr>"

definition ReadLSR :: "'a kcons_scheme \<Rightarrow> byte" where
  "ReadLSR s = (if uart_in s \<noteq> [] then LSR_RX_READY else 0) OR (if 0 < uart_room s then LSR_TX_IDLE else 0)"

definition WriteTHR :: "byte \<Rightarrow> 'a kcons_scheme \<Rightarrow> 'a kcons_scheme" where
  "WriteTHR c s = s\<lparr>uart_out := uart_out s @ [c], uart_room := uart_room s - 1\<rparr>"

lemma ReadLSR_bits [simp]:
  "ReadLSR s AND LSR_TX_IDLE = 0 \<longleftrightarrow> uart_room s = 0" "ReadLSR s AND LSR_RX_READY \<noteq> 0 \<longleftrightarrow> uart_in s \<noteq> []"
  by (simp_all add: ReadLSR_def LSR_RX_READY_def LSR_TX_IDLE_def)

definition uartinit :: "'a kcons_scheme \<Rightarrow> 'a kcons_scheme" where
  "uartinit s =
     (let s = WriteReg IER 0 s;
          s = WriteReg LCR LCR_BAUD_LATCH s;
          s = WriteReg 0 3 s;
          s = WriteReg 1 0 s;
          s = WriteReg LCR LCR_EIGHT_BITS s;
          s = WriteReg FCR (FCR_FIFO_ENABLE OR FCR_FIFO_CLEAR) s;
          s = WriteReg IER (IER_TX_ENABLE OR IER_RX_ENABLE) s
      in initlock Uart_lock ''uart'' s)"

text \<open>
  The loop of \<^verbatim>\<open>uartstart\<close> ends when the buffer is empty or the device takes no more bytes.
\<close>

function uartstart :: "'a kcons_scheme \<Rightarrow> (unit, 'a kcons_scheme) outcome" where
  "uartstart s =
     (if uart_tx_w s = uart_tx_r s then Ret () s
      else if ReadLSR s AND LSR_TX_IDLE = 0 then Ret () s
      else let c = uart_tx_buf s (uart_tx_r s);
               s = s\<lparr>uart_tx_r := (uart_tx_r s + 1) mod UART_TX_BUF_SIZE\<rparr>
           in bnd (wakeup Uart_chan s) (\<lambda>_ s. uartstart (WriteTHR c s)))"
  by pat_completeness auto
termination
proof (relation "measure uart_room")
  fix s t u :: "'a kcons_scheme" and c r
  assume "\<not> ReadLSR s AND LSR_TX_IDLE = 0"
    and "t = s\<lparr>uart_tx_r := (uart_tx_r s + 1) mod UART_TX_BUF_SIZE\<rparr>" and "wakeup Uart_chan t = Ret r u"
  then have "uart_room u = uart_room s" "0 < uart_room s"
    by (auto simp: sched_frame_def dest!: sched_frame_wakeup)
  then show "(WriteTHR c u, s) \<in> measure uart_room" by (simp add: WriteTHR_def)
qed simp

declare uartstart.simps [simp del]

definition uartputc_loop :: "byte \<Rightarrow> 'a kcons_scheme \<Rightarrow> (unit, 'a kcons_scheme) outcome" where
  "uartputc_loop c s =
     (if (uart_tx_w s + 1) mod UART_TX_BUF_SIZE = uart_tx_r s then sleep Uart_chan Uart_lock s
      else let s = s\<lparr>uart_tx_buf := (uart_tx_buf s)(uart_tx_w s := c)\<rparr>;
               s = s\<lparr>uart_tx_w := (uart_tx_w s + 1) mod UART_TX_BUF_SIZE\<rparr>
           in bnd (uartstart s) (\<lambda>_ s. release Uart_lock s))"

definition uartputc :: "byte \<Rightarrow> 'a kcons_scheme \<Rightarrow> (unit, 'a kcons_scheme) outcome" where
  "uartputc c s =
     bnd (acquire Uart_lock s) (\<lambda>_ s. if panicked s then Spin s else uartputc_loop c s)"

definition uartputc_resume :: "nat \<Rightarrow> bool \<Rightarrow> byte \<Rightarrow> 'a kcons_scheme \<Rightarrow> (unit, 'a kcons_scheme) outcome" where
  "uartputc_resume p old c s = bnd (sleep_resume p Uart_lock old s) (\<lambda>_ s. uartputc_loop c s)"

definition uartputc_sync :: "byte \<Rightarrow> 'a kcons_scheme \<Rightarrow> (unit, 'a kcons_scheme) outcome" where
  "uartputc_sync c s =
     (let s = push_off s
      in if panicked s then Spin s
         else if ReadLSR s AND LSR_TX_IDLE = 0 then Spin s
         else pop_off (WriteTHR c s))"

text \<open>\<open>None\<close> is the source's \<^verbatim>\<open>-1\<close>.\<close>

definition uartgetc :: "'a kcons_scheme \<Rightarrow> byte option \<times> 'a kcons_scheme" where
  "uartgetc s =
     (if ReadLSR s AND LSR_RX_READY \<noteq> 0 then (Some (hd (uart_in s)), s\<lparr>uart_in := tl (uart_in s)\<rparr>)
      else (None, s))"

section \<open>Formatted output\<close>

definition consputc :: "byte \<Rightarrow> 'a kcons_scheme \<Rightarrow> (unit, 'a kcons_scheme) outcome" where
  "consputc c s = uartputc_sync c s"

definition consputc_backspace :: "'a kcons_scheme \<Rightarrow> (unit, 'a kcons_scheme) outcome" where
  "consputc_backspace s =
     bnd (uartputc_sync 8 s) (\<lambda>_ s. bnd (uartputc_sync 32 s) (\<lambda>_ s. uartputc_sync 8 s))"

definition consputs :: "byte list \<Rightarrow> 'a kcons_scheme \<Rightarrow> (unit, 'a kcons_scheme) outcome" where
  "consputs bs s =
     bnd (foreach bs (\<lambda>c s. bnd (consputc c s) (\<lambda>_ s. Ret (None :: unit option) s)) s) (\<lambda>_ s. Ret () s)"

definition digits :: "byte list" where
  "digits = map of_nat ([48..<58] @ [97..<103])"

text \<open>The digits that \<^verbatim>\<open>printint\<close> collects, least significant first, and the bytes it prints.\<close>

function printint_digits :: "nat \<Rightarrow> nat \<Rightarrow> byte list" where
  "printint_digits x base =
     (digits ! (x mod base)) # (if base < 2 \<or> x div base = 0 then [] else printint_digits (x div base) base)"
  by pat_completeness auto
termination
  by (relation "measure fst") (auto intro!: div_less_dividend simp: div_greater_zero_iff)

declare printint_digits.simps [simp del]

definition printint :: "int \<Rightarrow> nat \<Rightarrow> bool \<Rightarrow> byte list" where
  "printint xx base sg =
     (let neg = sg \<and> xx < 0;
          x = unat (word_of_int (if neg then - xx else xx) :: uint32);
          bs = printint_digits x base
      in rev (bs @ (if neg then [45] else [])))"

definition printptr :: "uint64 \<Rightarrow> byte list" where
  "printptr x = [48, 120] @ map (\<lambda>i. digits ! unat (drop_bit 60 (push_bit (4 * i) x))) [0..<16]"

datatype parg = PInt int | PPtr uint64 | PStr "byte list"

text \<open>
  The bytes \<^verbatim>\<open>printf\<close> sends for a format and its arguments; \<open>None\<close> when the arguments do not
  match the format, which is undefined in C.
\<close>

fun print_fmt :: "byte list \<Rightarrow> parg list \<Rightarrow> byte list option" where
  "print_fmt [] ps = Some []"
| "print_fmt (c # fmt) ps =
     (if c \<noteq> 37 then map_option ((#) c) (print_fmt fmt ps)
      else case fmt of
        [] \<Rightarrow> Some []
      | d # fmt' \<Rightarrow>
          (if d = 100 \<or> d = 120 then
             (case ps of PInt i # ps' \<Rightarrow>
                map_option (\<lambda>r. printint i (if d = 100 then 10 else 16) True @ r) (print_fmt fmt' ps')
              | _ \<Rightarrow> None)
           else if d = 112 then
             (case ps of PPtr x # ps' \<Rightarrow> map_option (\<lambda>r. printptr x @ r) (print_fmt fmt' ps') | _ \<Rightarrow> None)
           else if d = 115 then
             (case ps of PStr b # ps' \<Rightarrow> map_option (\<lambda>r. b @ r) (print_fmt fmt' ps') | _ \<Rightarrow> None)
           else if d = 37 then map_option ((#) 37) (print_fmt fmt' ps)
           else map_option (\<lambda>r. [37, d] @ r) (print_fmt fmt' ps)))"

definition printf :: "byte list \<Rightarrow> parg list \<Rightarrow> 'a kcons_scheme \<Rightarrow> (unit, 'a kcons_scheme) outcome" where
  "printf fmt ps s =
     (let locking = pr_locking s
      in bnd (if locking then acquire Pr_lock s else Ret () s) (\<lambda>_ s.
         case print_fmt fmt ps of
           None \<Rightarrow> Panic ''va_arg''
         | Some bs \<Rightarrow>
             bnd (consputs bs s) (\<lambda>_ s. if locking then release Pr_lock s else Ret () s)))"

definition chars :: "string \<Rightarrow> byte list" where
  "chars cs = map (\<lambda>c. of_char c) cs"

definition panic :: "byte list \<Rightarrow> 'a kcons_scheme \<Rightarrow> (unit, 'a kcons_scheme) outcome" where
  "panic msg s =
     bnd (printf (chars ''panic: '') [] (s\<lparr>pr_locking := False\<rparr>)) (\<lambda>_ s.
       bnd (printf msg [] s) (\<lambda>_ s.
         bnd (printf [10] [] s) (\<lambda>_ s. Spin (s\<lparr>panicked := True\<rparr>))))"

definition printfinit :: "'a kcons_scheme \<Rightarrow> 'a kcons_scheme" where
  "printfinit s = (initlock Pr_lock ''pr'' s)\<lparr>pr_locking := True\<rparr>"

primrec state_name :: "procstate \<Rightarrow> string" where
  "state_name UNUSED = ''unused''"
| "state_name SLEEPING = ''sleep ''"
| "state_name RUNNABLE = ''runble''"
| "state_name RUNNING = ''run   ''"
| "state_name ZOMBIE = ''zombie''"

definition procdump :: "'a kcons_scheme \<Rightarrow> (unit, 'a kcons_scheme) outcome" where
  "procdump s =
     bnd (printf [10] [] s) (\<lambda>_ s.
       bnd (foreach [0..<NPROC] (\<lambda>p s.
         if p_state (procs s p) = UNUSED then Ret (None :: unit option) s
         else bnd (printf (chars ''%d %s %s'') [PInt (p_pid (procs s p)),
                     PStr (chars (state_name (p_state (procs s p)))),
                     PStr (takeWhile (\<lambda>c. c \<noteq> 0) (p_name (procs s p)))] s) (\<lambda>_ s.
           bnd (printf [10] [] s) (\<lambda>_ s. Ret None s))) s) (\<lambda>_ s. Ret () s))"

section \<open>Console input and output\<close>

definition ctrl_P :: byte where "ctrl_P = 16"
definition ctrl_U :: byte where "ctrl_U = 21"
definition ctrl_H :: byte where "ctrl_H = 8"
definition ctrl_D :: byte where "ctrl_D = 4"

lemmas ctrl_defs = ctrl_P_def ctrl_U_def ctrl_H_def ctrl_D_def

primrec consolewrite_loop :: "nat \<Rightarrow> bool \<Rightarrow> uint64 \<Rightarrow> int \<Rightarrow> 'a kcons_scheme \<Rightarrow> (int, 'a kcons_scheme) outcome" where
  "consolewrite_loop 0 user_src src i s = Ret i s"
| "consolewrite_loop (Suc n) user_src src i s =
     bnd (either_copyin user_src src 1 s) (\<lambda>(r, bs) s.
       if r = -1 then Ret i s
       else bnd (uartputc (hd bs) s) (\<lambda>_ s. consolewrite_loop n user_src (src + 1) (i + 1) s))"

definition consolewrite :: "bool \<Rightarrow> uint64 \<Rightarrow> int \<Rightarrow> 'a kcons_scheme \<Rightarrow> (int, 'a kcons_scheme) outcome" where
  "consolewrite user_src src n s =
     bnd (acquire Cons_lock s) (\<lambda>_ s.
       bnd (consolewrite_loop (nat n) user_src src 0 s) (\<lambda>i s.
         bnd (release Cons_lock s) (\<lambda>_ s. Ret i s)))"

text \<open>
  The outer loop of \<^verbatim>\<open>consoleread\<close>, with \<open>n\<close> bytes still wanted of \<open>tgt\<close>; an empty buffer puts
  the reader to sleep.
\<close>

primrec consoleread_loop :: "nat \<Rightarrow> nat \<Rightarrow> bool \<Rightarrow> uint64 \<Rightarrow> 'a kcons_scheme \<Rightarrow> (int, 'a kcons_scheme) outcome" where
  "consoleread_loop 0 tgt user_dst dst s = bnd (release Cons_lock s) (\<lambda>_ s. Ret (int tgt) s)"
| "consoleread_loop (Suc n) tgt user_dst dst s =
     (if cons_r s = cons_w s then
        bnd (curproc s) (\<lambda>p s.
          if p_killed (procs s p) then bnd (release Cons_lock s) (\<lambda>_ s. Ret (-1) s)
          else bnd (sleep Cons_chan Cons_lock s) (\<lambda>_ s. Ret (-1) s))
      else
        let c = cons_buf s (unat (cons_r s) mod INPUT_BUF);
            s = s\<lparr>cons_r := cons_r s + 1\<rparr>
        in if c = ctrl_D then
             let s = (if Suc n < tgt then s\<lparr>cons_r := cons_r s - 1\<rparr> else s)
             in bnd (release Cons_lock s) (\<lambda>_ s. Ret (int tgt - int (Suc n)) s)
           else bnd (either_copyout user_dst dst [c] s) (\<lambda>r s.
             if r = -1 then bnd (release Cons_lock s) (\<lambda>_ s. Ret (int tgt - int (Suc n)) s)
             else if c = 10 then bnd (release Cons_lock s) (\<lambda>_ s. Ret (int tgt - int n) s)
             else consoleread_loop n tgt user_dst (dst + 1) s))"

definition consoleread :: "bool \<Rightarrow> uint64 \<Rightarrow> int \<Rightarrow> 'a kcons_scheme \<Rightarrow> (int, 'a kcons_scheme) outcome" where
  "consoleread user_dst dst n s =
     bnd (acquire Cons_lock s) (\<lambda>_ s.
       if 0 < n then consoleread_loop (nat n) (nat n) user_dst dst s
       else bnd (release Cons_lock s) (\<lambda>_ s. Ret 0 s))"

definition consoleread_resume :: "nat \<Rightarrow> bool \<Rightarrow> nat \<Rightarrow> nat \<Rightarrow> bool \<Rightarrow> uint64 \<Rightarrow> 'a kcons_scheme \<Rightarrow>
    (int, 'a kcons_scheme) outcome" where
  "consoleread_resume p old n tgt user_dst dst s =
     bnd (sleep_resume p Cons_lock old s) (\<lambda>_ s. consoleread_loop n tgt user_dst dst s)"

lemma uartputc_sync_frame:
  "uartputc_sync c s = Ret r t \<Longrightarrow> cons_e t = cons_e s \<and> cons_w t = cons_w s"
proof -
  assume "uartputc_sync c s = Ret r t"
  then have "pop_off (WriteTHR c (push_off s)) = Ret r t" by (simp add: uartputc_sync_def Let_def split: if_splits)
  then have "sched_frame (WriteTHR c (push_off s)) t" by (rule sched_frame_pop_off)
  then show ?thesis using sched_frame_push_off [of s] by (auto simp: sched_frame_def WriteTHR_def)
qed

function kill_line :: "'a kcons_scheme \<Rightarrow> (unit, 'a kcons_scheme) outcome" where
  "kill_line s =
     (if cons_e s \<noteq> cons_w s \<and> cons_buf s (unat (cons_e s - 1) mod INPUT_BUF) \<noteq> 10 then
        bnd (consputc_backspace (s\<lparr>cons_e := cons_e s - 1\<rparr>)) (\<lambda>_ s. kill_line s)
      else Ret () s)"
  by pat_completeness auto
termination
proof (relation "measure (\<lambda>s. unat (cons_e s - cons_w s))")
  fix s t :: "'a kcons_scheme" and r
  assume "cons_e s \<noteq> cons_w s \<and> cons_buf s (unat (cons_e s - 1) mod INPUT_BUF) \<noteq> 10"
    and "consputc_backspace (s\<lparr>cons_e := cons_e s - 1\<rparr>) = Ret r t"
  then have "cons_e t = cons_e s - 1" "cons_w t = cons_w s" "cons_e s - cons_w s \<noteq> 0"
    by (auto simp: consputc_backspace_def dest!: uartputc_sync_frame)
  then have "unat (cons_e t - cons_w t) < unat (cons_e s - cons_w s)"
    using unat_minus_one [of "cons_e s - cons_w s"] unat_gt_0 [of "cons_e s - cons_w s"]
    by (simp add: diff_right_commute)
  then show "(t, s) \<in> measure (\<lambda>s. unat (cons_e s - cons_w s))" by simp
qed simp

declare kill_line.simps [simp del]

definition consoleintr :: "byte \<Rightarrow> 'a kcons_scheme \<Rightarrow> (unit, 'a kcons_scheme) outcome" where
  "consoleintr c s =
     bnd (acquire Cons_lock s) (\<lambda>_ s.
       bnd (if c = ctrl_P then procdump s
            else if c = ctrl_U then kill_line s
            else if c = ctrl_H \<or> c = 127 then
              if cons_e s \<noteq> cons_w s then consputc_backspace (s\<lparr>cons_e := cons_e s - 1\<rparr>) else Ret () s
            else if c \<noteq> 0 \<and> unat (cons_e s - cons_r s) < INPUT_BUF then
              let c = (if c = 13 then 10 else c)
              in bnd (consputc c s) (\<lambda>_ s.
                 let s = s\<lparr>cons_buf := (cons_buf s)(unat (cons_e s) mod INPUT_BUF := c)\<rparr>;
                     s = s\<lparr>cons_e := cons_e s + 1\<rparr>
                 in if c = 10 \<or> c = ctrl_D \<or> cons_e s = cons_r s + of_nat INPUT_BUF
                    then wakeup Cons_chan (s\<lparr>cons_w := cons_e s\<rparr>) else Ret () s)
            else Ret () s) (\<lambda>_ s. release Cons_lock s))"

definition consoleinit :: "'a kcons_scheme \<Rightarrow> 'a kcons_scheme" where
  "consoleinit s =
     (uartinit (initlock Cons_lock ''cons'' s))
       \<lparr>devsw_read := (devsw_read s)(CONSOLE := True), devsw_write := (devsw_write s)(CONSOLE := True)\<rparr>"

text \<open>The receive loop of \<^verbatim>\<open>uartintr\<close> handles the bytes that wait in the FIFO.\<close>

definition uartintr :: "'a kcons_scheme \<Rightarrow> (unit, 'a kcons_scheme) outcome" where
  "uartintr s =
     bnd (foreach [0..<length (uart_in s)] (\<lambda>_ s.
       let (c, s) = uartgetc s
       in case c of None \<Rightarrow> Ret (Some ()) s | Some c \<Rightarrow> bnd (consoleintr c s) (\<lambda>_ s. Ret None s)) s) (\<lambda>_ s.
     bnd (acquire Uart_lock s) (\<lambda>_ s.
       bnd (uartstart s) (\<lambda>_ s. release Uart_lock s)))"

end
