(* ===== verification/Sleeplock.thy ===== *)
theory Sleeplock
  imports Console
begin

text \<open>
  \<^verbatim>\<open>kernel/sleeplock.c\<close>: locks whose waiters sleep.  A sleep lock is named by the spin lock
  inside it; \<open>slk\<close> holds its other fields.  A process that finds the lock taken leaves the CPU
  in \<^verbatim>\<open>sleep\<close>; \<open>acquiresleep_resume\<close> is the next iteration of its loop.
\<close>

record sleeplock =
  sl_locked :: bool
  sl_name :: string
  sl_pid :: int

record ksleep = kcons +
  slk :: "lockid \<Rightarrow> sleeplock"

definition upd_slk :: "lockid \<Rightarrow> (sleeplock \<Rightarrow> sleeplock) \<Rightarrow> 'a ksleep_scheme \<Rightarrow> 'a ksleep_scheme" where
  "upd_slk l f s = s\<lparr>slk := (slk s)(l := f (slk s l))\<rparr>"

definition initsleeplock :: "lockid \<Rightarrow> string \<Rightarrow> 'a ksleep_scheme \<Rightarrow> 'a ksleep_scheme" where
  "initsleeplock l nm s =
     upd_slk l (\<lambda>k. k\<lparr>sl_name := nm, sl_locked := False, sl_pid := 0\<rparr>) (initlock l ''sleep lock'' s)"

definition acquiresleep_loop :: "lockid \<Rightarrow> 'a ksleep_scheme \<Rightarrow> (unit, 'a ksleep_scheme) outcome" where
  "acquiresleep_loop l s =
     (if sl_locked (slk s l) then sleep (Sleeplock_chan l) l s
      else let s = upd_slk l (\<lambda>k. k\<lparr>sl_locked := True\<rparr>) s
           in bnd (curproc s) (\<lambda>p s.
              release l (upd_slk l (\<lambda>k. k\<lparr>sl_pid := p_pid (procs s p)\<rparr>) s)))"

definition acquiresleep :: "lockid \<Rightarrow> 'a ksleep_scheme \<Rightarrow> (unit, 'a ksleep_scheme) outcome" where
  "acquiresleep l s = bnd (acquire l s) (\<lambda>_ s. acquiresleep_loop l s)"

definition acquiresleep_resume ::
  "nat \<Rightarrow> lockid \<Rightarrow> bool \<Rightarrow> 'a ksleep_scheme \<Rightarrow> (unit, 'a ksleep_scheme) outcome" where
  "acquiresleep_resume p l old s = bnd (sleep_resume p l old s) (\<lambda>_ s. acquiresleep_loop l s)"

definition releasesleep :: "lockid \<Rightarrow> 'a ksleep_scheme \<Rightarrow> (unit, 'a ksleep_scheme) outcome" where
  "releasesleep l s =
     bnd (acquire l s) (\<lambda>_ s.
       let s = upd_slk l (\<lambda>k. k\<lparr>sl_locked := False, sl_pid := 0\<rparr>) s
       in bnd (wakeup (Sleeplock_chan l) s) (\<lambda>_ s. release l s))"

definition holdingsleep :: "lockid \<Rightarrow> 'a ksleep_scheme \<Rightarrow> (bool, 'a ksleep_scheme) outcome" where
  "holdingsleep l s =
     bnd (acquire l s) (\<lambda>_ s.
       bnd (if sl_locked (slk s l)
            then bnd (curproc s) (\<lambda>p s. Ret (sl_pid (slk s l) = p_pid (procs s p)) s)
            else Ret False s) (\<lambda>r s.
         bnd (release l s) (\<lambda>_ s. Ret r s)))"

end
