(* ===== verification/Virtio.thy ===== *)
theory Virtio
  imports Sleeplock
begin

text \<open>
  The disk driver, \<^verbatim>\<open>kernel/virtio_disk.c\<close>, with the buffers of \<^verbatim>\<open>kernel/buf.h\<close> it transfers
  and a model of the device at the other end of the queue.  The address in a descriptor is
  modelled by what it points to: the request header on the caller's stack, the data of a buffer,
  or the status byte of a request.

  \<^verbatim>\<open>virtio_disk_rw\<close> sleeps until the completion interrupt.  \<open>served\<close> is the schedule in
  which nothing else happens meanwhile: the thread switches to the scheduler of its CPU, the
  device works through the queue, the interrupt handler runs, and the scheduler switches back.
\<close>

section \<open>Buffers and the queue\<close>

definition BSIZE :: nat where "BSIZE = 1024"

record buf =
  b_valid :: bool
  b_disk :: bool
  b_dev :: uint32
  b_blockno :: uint32
  b_refcnt :: uint32
  b_prev :: nat
  b_next :: nat
  b_data :: "byte list"

definition NUM :: nat where "NUM = 8"
definition VRING_DESC_F_NEXT :: ushort where "VRING_DESC_F_NEXT = 1"
definition VRING_DESC_F_WRITE :: ushort where "VRING_DESC_F_WRITE = 2"
definition VIRTIO_BLK_T_IN :: uint32 where "VIRTIO_BLK_T_IN = 0"
definition VIRTIO_BLK_T_OUT :: uint32 where "VIRTIO_BLK_T_OUT = 1"

lemmas vring_defs = NUM_def VRING_DESC_F_NEXT_def VRING_DESC_F_WRITE_def VIRTIO_BLK_T_IN_def
  VIRTIO_BLK_T_OUT_def

datatype dma = Null | Hdr uint32 uint64 | Buf_data nat | Info_status nat

record VRingDesc =
  vr_addr :: dma
  vr_len :: uint32
  vr_flags :: ushort
  vr_next :: ushort

text \<open>
  The static variable \<^verbatim>\<open>disk\<close>: the descriptors, the available and used rings, and the driver's
  book-keeping.
\<close>

record vdisk =
  desc :: "nat \<Rightarrow> VRingDesc"
  avail_idx :: ushort
  avail_ring :: "nat \<Rightarrow> ushort"
  used_id :: ushort
  used_elems :: "nat \<Rightarrow> uint32"
  dfree :: "nat \<Rightarrow> bool"
  used_idx :: ushort
  info_b :: "nat \<Rightarrow> nat option"
  info_status :: "nat \<Rightarrow> byte"

text \<open>
  The device: its register file and how far it has read the available ring.  The medium is an
  array of 512-byte sectors; \<open>wlog\<close> is a ghost variable, the sector writes the device has
  performed, in order, from which the states a power failure can leave are read off.
\<close>

record vdevice =
  vmmio :: "uint64 \<Rightarrow> uint32"
  dev_seen :: ushort

record kdisk = ksleep +
  bufs :: "nat \<Rightarrow> buf"
  disk :: vdisk
  vdev :: vdevice
  sectors :: "uint64 \<Rightarrow> byte list"
  wlog :: "(uint64 \<times> byte list) list"

definition upd_buf :: "nat \<Rightarrow> (buf \<Rightarrow> buf) \<Rightarrow> 'a kdisk_scheme \<Rightarrow> 'a kdisk_scheme" where
  "upd_buf b f s = s\<lparr>bufs := (bufs s)(b := f (bufs s b))\<rparr>"

definition upd_disk :: "(vdisk \<Rightarrow> vdisk) \<Rightarrow> 'a kdisk_scheme \<Rightarrow> 'a kdisk_scheme" where
  "upd_disk f s = s\<lparr>disk := f (disk s)\<rparr>"

definition upd_desc :: "nat \<Rightarrow> (VRingDesc \<Rightarrow> VRingDesc) \<Rightarrow> vdisk \<Rightarrow> vdisk" where
  "upd_desc i f d = d\<lparr>desc := (desc d)(i := f (desc d i))\<rparr>"

section \<open>Initialisation\<close>

definition VIRTIO_MMIO_MAGIC_VALUE :: uint64 where "VIRTIO_MMIO_MAGIC_VALUE = 0x000"
definition VIRTIO_MMIO_VERSION :: uint64 where "VIRTIO_MMIO_VERSION = 0x004"
definition VIRTIO_MMIO_DEVICE_ID :: uint64 where "VIRTIO_MMIO_DEVICE_ID = 0x008"
definition VIRTIO_MMIO_VENDOR_ID :: uint64 where "VIRTIO_MMIO_VENDOR_ID = 0x00c"
definition VIRTIO_MMIO_DEVICE_FEATURES :: uint64 where "VIRTIO_MMIO_DEVICE_FEATURES = 0x010"
definition VIRTIO_MMIO_DRIVER_FEATURES :: uint64 where "VIRTIO_MMIO_DRIVER_FEATURES = 0x020"
definition VIRTIO_MMIO_GUEST_PAGE_SIZE :: uint64 where "VIRTIO_MMIO_GUEST_PAGE_SIZE = 0x028"
definition VIRTIO_MMIO_QUEUE_SEL :: uint64 where "VIRTIO_MMIO_QUEUE_SEL = 0x030"
definition VIRTIO_MMIO_QUEUE_NUM_MAX :: uint64 where "VIRTIO_MMIO_QUEUE_NUM_MAX = 0x034"
definition VIRTIO_MMIO_QUEUE_NUM :: uint64 where "VIRTIO_MMIO_QUEUE_NUM = 0x038"
definition VIRTIO_MMIO_QUEUE_PFN :: uint64 where "VIRTIO_MMIO_QUEUE_PFN = 0x040"
definition VIRTIO_MMIO_QUEUE_NOTIFY :: uint64 where "VIRTIO_MMIO_QUEUE_NOTIFY = 0x050"
definition VIRTIO_MMIO_INTERRUPT_STATUS :: uint64 where "VIRTIO_MMIO_INTERRUPT_STATUS = 0x060"
definition VIRTIO_MMIO_INTERRUPT_ACK :: uint64 where "VIRTIO_MMIO_INTERRUPT_ACK = 0x064"
definition VIRTIO_MMIO_STATUS :: uint64 where "VIRTIO_MMIO_STATUS = 0x070"
definition VIRTIO_CONFIG_S_ACKNOWLEDGE :: uint32 where "VIRTIO_CONFIG_S_ACKNOWLEDGE = 1"
definition VIRTIO_CONFIG_S_DRIVER :: uint32 where "VIRTIO_CONFIG_S_DRIVER = 2"
definition VIRTIO_CONFIG_S_DRIVER_OK :: uint32 where "VIRTIO_CONFIG_S_DRIVER_OK = 4"
definition VIRTIO_CONFIG_S_FEATURES_OK :: uint32 where "VIRTIO_CONFIG_S_FEATURES_OK = 8"
definition VIRTIO_BLK_F_RO :: nat where "VIRTIO_BLK_F_RO = 5"
definition VIRTIO_BLK_F_SCSI :: nat where "VIRTIO_BLK_F_SCSI = 7"
definition VIRTIO_BLK_F_CONFIG_WCE :: nat where "VIRTIO_BLK_F_CONFIG_WCE = 11"
definition VIRTIO_BLK_F_MQ :: nat where "VIRTIO_BLK_F_MQ = 12"
definition VIRTIO_F_ANY_LAYOUT :: nat where "VIRTIO_F_ANY_LAYOUT = 27"
definition VIRTIO_RING_F_INDIRECT_DESC :: nat where "VIRTIO_RING_F_INDIRECT_DESC = 28"
definition VIRTIO_RING_F_EVENT_IDX :: nat where "VIRTIO_RING_F_EVENT_IDX = 29"

definition vread :: "uint64 \<Rightarrow> 'a kdisk_scheme \<Rightarrow> uint32" where
  "vread r s = vmmio (vdev s) (VIRTIO0 + r)"

definition vwrite :: "uint64 \<Rightarrow> uint32 \<Rightarrow> 'a kdisk_scheme \<Rightarrow> 'a kdisk_scheme" where
  "vwrite r v s = s\<lparr>vdev := (vdev s)\<lparr>vmmio := (vmmio (vdev s))(VIRTIO0 + r := v)\<rparr>\<rparr>"

text \<open>
  \<^verbatim>\<open>virtio_disk_init\<close>; \<open>pages\<close> is the address of \<^verbatim>\<open>disk.pages\<close>, whose clearing empties the
  descriptors and the rings.
\<close>

definition virtio_disk_init :: "uint64 \<Rightarrow> 'a kdisk_scheme \<Rightarrow> (unit, 'a kdisk_scheme) outcome" where
  "virtio_disk_init pages s =
     (let s = initlock Vdisk_lock ''virtio_disk'' s
      in if vread VIRTIO_MMIO_MAGIC_VALUE s \<noteq> 0x74726976 \<or> vread VIRTIO_MMIO_VERSION s \<noteq> 1 \<or>
            vread VIRTIO_MMIO_DEVICE_ID s \<noteq> 2 \<or> vread VIRTIO_MMIO_VENDOR_ID s \<noteq> 0x554d4551
         then Panic ''could not find virtio disk''
         else
           let status = 0 OR VIRTIO_CONFIG_S_ACKNOWLEDGE;
               s = vwrite VIRTIO_MMIO_STATUS status s;
               status = status OR VIRTIO_CONFIG_S_DRIVER;
               s = vwrite VIRTIO_MMIO_STATUS status s;
               features = vread VIRTIO_MMIO_DEVICE_FEATURES s;
               features = features AND NOT (push_bit VIRTIO_BLK_F_RO 1);
               features = features AND NOT (push_bit VIRTIO_BLK_F_SCSI 1);
               features = features AND NOT (push_bit VIRTIO_BLK_F_CONFIG_WCE 1);
               features = features AND NOT (push_bit VIRTIO_BLK_F_MQ 1);
               features = features AND NOT (push_bit VIRTIO_F_ANY_LAYOUT 1);
               features = features AND NOT (push_bit VIRTIO_RING_F_EVENT_IDX 1);
               features = features AND NOT (push_bit VIRTIO_RING_F_INDIRECT_DESC 1);
               s = vwrite VIRTIO_MMIO_DRIVER_FEATURES features s;
               status = status OR VIRTIO_CONFIG_S_FEATURES_OK;
               s = vwrite VIRTIO_MMIO_STATUS status s;
               status = status OR VIRTIO_CONFIG_S_DRIVER_OK;
               s = vwrite VIRTIO_MMIO_STATUS status s;
               s = vwrite VIRTIO_MMIO_GUEST_PAGE_SIZE (ucast PGSIZE) s;
               s = vwrite VIRTIO_MMIO_QUEUE_SEL 0 s;
               max = vread VIRTIO_MMIO_QUEUE_NUM_MAX s
           in if max = 0 then Panic ''virtio disk has no queue 0''
              else if unat max < NUM then Panic ''virtio disk max queue too short''
              else
                let s = vwrite VIRTIO_MMIO_QUEUE_NUM (of_nat NUM) s;
                    s = upd_disk (\<lambda>d. d\<lparr>desc := \<lambda>_. \<lparr>vr_addr = Null, vr_len = 0, vr_flags = 0, vr_next = 0\<rparr>,
                          avail_idx := 0, avail_ring := \<lambda>_. 0, used_id := 0, used_elems := \<lambda>_. 0\<rparr>) s;
                    s = vwrite VIRTIO_MMIO_QUEUE_PFN (ucast (drop_bit PGSHIFT pages)) s
                in Ret () (upd_disk (\<lambda>d. d\<lparr>dfree := \<lambda>i. if i < NUM then True else dfree d i\<rparr>) s))"

section \<open>Descriptors\<close>

fun alloc_desc_from :: "nat list \<Rightarrow> vdisk \<Rightarrow> nat option \<times> vdisk" where
  "alloc_desc_from [] d = (None, d)"
| "alloc_desc_from (i # is) d =
     (if dfree d i then (Some i, d\<lparr>dfree := (dfree d)(i := False)\<rparr>) else alloc_desc_from is d)"

definition alloc_desc :: "'a kdisk_scheme \<Rightarrow> nat option \<times> 'a kdisk_scheme" where
  "alloc_desc s = (let (r, d) = alloc_desc_from [0..<NUM] (disk s) in (r, s\<lparr>disk := d\<rparr>))"

definition free_desc :: "nat \<Rightarrow> 'a kdisk_scheme \<Rightarrow> (unit, 'a kdisk_scheme) outcome" where
  "free_desc i s =
     (if NUM \<le> i then Panic ''virtio_disk_intr 1''
      else if dfree (disk s) i then Panic ''virtio_disk_intr 2''
      else wakeup Disk_free_chan
        (upd_disk (\<lambda>d. (upd_desc i (\<lambda>d. d\<lparr>vr_addr := Null\<rparr>) d)\<lparr>dfree := (dfree d)(i := True)\<rparr>) s))"

text \<open>
  The loop of \<^verbatim>\<open>free_chain\<close> ends on every chain: each step frees a descriptor that was in use,
  and freeing one twice panics.
\<close>

definition in_use :: "vdisk \<Rightarrow> nat" where
  "in_use d = card {i. i < NUM \<and> \<not> dfree d i}"

function free_chain :: "nat \<Rightarrow> 'a kdisk_scheme \<Rightarrow> (unit, 'a kdisk_scheme) outcome" where
  "free_chain i s =
     bnd (free_desc i s) (\<lambda>_ s.
       if vr_flags (desc (disk s) i) AND VRING_DESC_F_NEXT \<noteq> 0
       then free_chain (unat (vr_next (desc (disk s) i))) s
       else Ret () s)"
  by auto
termination
proof (relation "measure (\<lambda>(_, s). in_use (disk s))", simp)
  fix i :: nat and s t :: "'a kdisk_scheme" and r
  assume f: "free_desc i s = Ret r t"
  then have i: "i < NUM" "\<not> dfree (disk s) i" by (auto simp: free_desc_def split: if_splits)
  then have "dfree (disk t) = (dfree (disk s))(i := True)" using f 
    by (auto simp: free_desc_def upd_disk_def upd_desc_def sched_frame_def dest!: sched_frame_wakeup)
  then have "{j. j < NUM \<and> \<not> dfree (disk t) j} \<subset> {j. j < NUM \<and> \<not> dfree (disk s) j}" using i by auto
  then have "in_use (disk t) < in_use (disk s)" unfolding in_use_def by (intro psubset_card_mono) simp_all
  then show "((unat (vr_next (desc (disk t) i)), t), (i, s)) \<in> measure (\<lambda>(_, s). in_use (disk s))" by simp
qed

declare free_chain.simps [simp del]

definition alloc3_desc :: "'a kdisk_scheme \<Rightarrow> ((nat \<times> nat \<times> nat) option, 'a kdisk_scheme) outcome" where
  "alloc3_desc s =
     (case alloc_desc s of
        (None, s) \<Rightarrow> Ret None s
      | (Some i0, s) \<Rightarrow>
          (case alloc_desc s of
             (None, s) \<Rightarrow> bnd (free_desc i0 s) (\<lambda>_ s. Ret None s)
           | (Some i1, s) \<Rightarrow>
               (case alloc_desc s of
                  (None, s) \<Rightarrow> bnd (free_desc i0 s) (\<lambda>_ s. bnd (free_desc i1 s) (\<lambda>_ s. Ret None s))
                | (Some i2, s) \<Rightarrow> Ret (Some (i0, i1, i2)) s)))"

section \<open>The interrupt handler\<close>

function virtio_disk_intr_loop :: "'a kdisk_scheme \<Rightarrow> (unit, 'a kdisk_scheme) outcome" where
  "virtio_disk_intr_loop s =
     (if used_idx (disk s) mod 8 \<noteq> used_id (disk s) mod 8 then
        let id = unat (used_elems (disk s) (unat (used_idx (disk s))))
        in if info_status (disk s) id \<noteq> 0 then Panic ''virtio_disk_intr status''
           else bnd (deref (info_b (disk s) id) s) (\<lambda>b s.
             let s = upd_buf b (\<lambda>q. q\<lparr>b_disk := False\<rparr>) s
             in bnd (wakeup (Buf_chan b) s) (\<lambda>_ s.
                virtio_disk_intr_loop (upd_disk (\<lambda>d. d\<lparr>used_idx := (used_idx d + 1) mod 8\<rparr>) s)))
      else Ret () s)"
  by auto

text \<open>The handler catches up with the device: the distance shrinks with every element.\<close>

definition behind :: "vdisk \<Rightarrow> nat" where
  "behind d = (unat (used_id d) + 8 - unat (used_idx d) mod 8) mod 8"

lemma unat_mod8: "unat ((a :: ushort) mod 8) = unat a mod 8"
  by (simp add: unat_mod_distrib)

lemma unat_succ_mod8: "unat (((a :: ushort) + 1) mod 8) = (unat a + 1) mod 8"
proof -
  have "(2 :: nat) ^ 16 mod 8 = 0" by simp
  then have "(unat a + 1) mod 2 ^ 16 mod 8 = (unat a + 1) mod 8"
    by (intro mod_mod_cancel) simp
  then show ?thesis by (simp add: unat_mod8 unat_word_ariths)
qed

lemma ring_distance:
  fixes a b :: nat
  assumes "a mod 8 \<noteq> b mod 8"
  shows "(b + 8 - (a + 1) mod 8) mod 8 < (b + 8 - a mod 8) mod 8"
proof -
  define x y where "x = a mod 8" and "y = b mod 8"
  have b: "(b + 8 - k) mod 8 = (y + 8 - k) mod 8" if "k \<le> 8" for k
  proof -
    have "b + 8 - k = 8 * (b div 8) + (y + 8 - k)" using that by (simp add: y_def)
    then show ?thesis by simp
  qed
  have "(a + 1) mod 8 = (x + 1) mod 8" by (simp add: x_def mod_Suc_eq)
  moreover have "x < 8" "y < 8" "x \<noteq> y" using assms by (simp_all add: x_def y_def)
  then have "(y + 8 - (x + 1) mod 8) mod 8 < (y + 8 - x) mod 8"
    by (cases "x = 7"; cases "x < y") (simp_all add: mod_if, linarith+)
  ultimately show ?thesis using b [of "(x + 1) mod 8"] b [of x] \<open>x < 8\<close> by (simp add: x_def [symmetric])
qed

termination virtio_disk_intr_loop
proof (relation "measure (\<lambda>s. behind (disk s))")
  fix s t v u :: "'a kdisk_scheme" and x b r
  assume ne: "used_idx (disk s) mod 8 \<noteq> used_id (disk s) mod 8"
    and "x = unat (used_elems (disk s) (unat (used_idx (disk s))))"
    and "deref (info_b (disk s) x) s = Ret b t" and "v = upd_buf b (b_disk_update (\<lambda>_. False)) t"
    and "wakeup (Buf_chan b) v = Ret r u"
  then have "disk u = disk s"
    by (auto simp: deref_def upd_buf_def sched_frame_def split: option.splits dest!: sched_frame_wakeup)
  moreover have "unat (used_idx (disk s)) mod 8 \<noteq> unat (used_id (disk s)) mod 8"
    using ne by (metis unat_mod8 word_unat_eq_iff)
  ultimately show "(upd_disk (\<lambda>d. d\<lparr>used_idx := (used_idx d + 1) mod 8\<rparr>) u, s) \<in> measure (\<lambda>s. behind (disk s))"
    using ring_distance [of "unat (used_idx (disk s))" "unat (used_id (disk s))"]
    by (simp add: behind_def unat_succ_mod8 upd_disk_def)
qed simp

declare virtio_disk_intr_loop.simps [simp del]

definition virtio_disk_intr :: "'a kdisk_scheme \<Rightarrow> (unit, 'a kdisk_scheme) outcome" where
  "virtio_disk_intr s =
     bnd (acquire Vdisk_lock s) (\<lambda>_ s.
       bnd (virtio_disk_intr_loop s) (\<lambda>_ s.
         release Vdisk_lock
           (vwrite VIRTIO_MMIO_INTERRUPT_ACK (vread VIRTIO_MMIO_INTERRUPT_STATUS s AND 3) s)))"

section \<open>The device\<close>

text \<open>
  The block device takes the next chain from the available ring, transfers two sectors
  between the medium and the buffer, stores the status byte (0 for success) and appends the
  chain to the used ring.
\<close>

definition vdev_transfer :: "nat \<Rightarrow> 'a kdisk_scheme \<Rightarrow> 'a kdisk_scheme" where
  "vdev_transfer i s =
     (let d0 = desc (disk s) i;
          d1 = desc (disk s) (unat (vr_next d0));
          d2 = desc (disk s) (unat (vr_next d1));
          status = (\<lambda>k v. upd_disk (\<lambda>d. d\<lparr>info_status := (info_status d)(k := v)\<rparr>))
      in case (vr_addr d0, vr_addr d1, vr_addr d2) of
           (Hdr ty sec, Buf_data b, Info_status k) \<Rightarrow>
             (let w = vr_flags d1 AND VRING_DESC_F_WRITE \<noteq> 0
              in if ty = VIRTIO_BLK_T_OUT \<and> \<not> w then
                   let x = take 512 (b_data (bufs s b)); y = drop 512 (b_data (bufs s b))
                   in status k 0 (s\<lparr>sectors := (sectors s)(sec := x, sec + 1 := y),
                        wlog := wlog s @ [(sec, x), (sec + 1, y)]\<rparr>)
                 else if ty = VIRTIO_BLK_T_IN \<and> w then
                   status k 0 (upd_buf b (\<lambda>q. q\<lparr>b_data := sectors s sec @ sectors s (sec + 1)\<rparr>) s)
                 else status k 1 s)
         | _ \<Rightarrow> s)"

definition vdev_step :: "'a kdisk_scheme \<Rightarrow> 'a kdisk_scheme" where
  "vdev_step s =
     (let i = avail_ring (disk s) (unat (dev_seen (vdev s)) mod NUM);
          s = vdev_transfer (unat i) s;
          s = upd_disk (\<lambda>d. d\<lparr>used_elems := (used_elems d)(unat (used_id d) mod NUM := ucast i),
                used_id := used_id d + 1\<rparr>) s
      in s\<lparr>vdev := (vdev s)\<lparr>dev_seen := dev_seen (vdev s) + 1\<rparr>\<rparr>)"

lemma vdev_transfer_frame [simp]:
  "avail_idx (disk (vdev_transfer i s)) = avail_idx (disk s)" "vdev (vdev_transfer i s) = vdev s"
  by (simp_all add: vdev_transfer_def Let_def upd_buf_def upd_disk_def split: dma.splits)

function vdev_run :: "'a kdisk_scheme \<Rightarrow> 'a kdisk_scheme" where
  "vdev_run s = (if dev_seen (vdev s) = avail_idx (disk s) then s else vdev_run (vdev_step s))"
  by auto
termination
proof (relation "measure (\<lambda>s. unat (avail_idx (disk s) - dev_seen (vdev s)))")
  fix s :: "'a kdisk_scheme"
  assume "dev_seen (vdev s) \<noteq> avail_idx (disk s)"
  then have "avail_idx (disk s) - dev_seen (vdev s) \<noteq> 0" by simp
  then have "unat (avail_idx (disk s) - dev_seen (vdev s) - 1) < unat (avail_idx (disk s) - dev_seen (vdev s))"
    by (simp add: unat_minus_one unat_gt_0)
  then show "(vdev_step s, s) \<in> measure (\<lambda>s. unat (avail_idx (disk s) - dev_seen (vdev s)))"
    by (simp add: vdev_step_def Let_def diff_diff_eq upd_disk_def)
qed simp

declare vdev_run.simps [simp del]

section \<open>Requests\<close>

text \<open>
  \<^verbatim>\<open>virtio_disk_rw\<close> up to its wait for the interrupt; the value is \<^verbatim>\<open>idx[0]\<close>.  Without three
  free descriptors the thread goes to sleep.
\<close>

definition virtio_disk_start :: "nat \<Rightarrow> bool \<Rightarrow> 'a kdisk_scheme \<Rightarrow> (nat, 'a kdisk_scheme) outcome" where
  "virtio_disk_start b wr s =
     (let sector = ucast (b_blockno (bufs s b) * (1024 div 512)) :: uint64
      in bnd (acquire Vdisk_lock s) (\<lambda>_ s.
         bnd (alloc3_desc s) (\<lambda>r s.
           case r of
             None \<Rightarrow> bnd (sleep Disk_free_chan Vdisk_lock s) (\<lambda>_ s. Spin s)
           | Some (i0, i1, i2) \<Rightarrow>
               let s = upd_disk (upd_desc i0 (\<lambda>_.
                     \<lparr>vr_addr = Hdr (if wr then VIRTIO_BLK_T_OUT else VIRTIO_BLK_T_IN) sector,
                      vr_len = 16, vr_flags = VRING_DESC_F_NEXT, vr_next = of_nat i1\<rparr>)) s;
                   s = upd_disk (upd_desc i1 (\<lambda>_. \<lparr>vr_addr = Buf_data b, vr_len = of_nat BSIZE,
                     vr_flags = (if wr then 0 else VRING_DESC_F_WRITE) OR VRING_DESC_F_NEXT,
                     vr_next = of_nat i2\<rparr>)) s;
                   s = upd_disk (\<lambda>d. d\<lparr>info_status := (info_status d)(i0 := 0)\<rparr>) s;
                   s = upd_disk (upd_desc i2 (\<lambda>_. \<lparr>vr_addr = Info_status i0, vr_len = 1,
                     vr_flags = VRING_DESC_F_WRITE, vr_next = 0\<rparr>)) s;
                   s = upd_buf b (\<lambda>q. q\<lparr>b_disk := True\<rparr>) s;
                   s = upd_disk (\<lambda>d. d\<lparr>info_b := (info_b d)(i0 := Some b)\<rparr>) s;
                   s = upd_disk (\<lambda>d. d\<lparr>avail_ring := (avail_ring d)(unat (avail_idx d) mod NUM := of_nat i0)\<rparr>) s;
                   s = upd_disk (\<lambda>d. d\<lparr>avail_idx := avail_idx d + 1\<rparr>) s;
                   s = vwrite VIRTIO_MMIO_QUEUE_NOTIFY 0 s
               in Ret i0 s)))"

definition virtio_disk_finish :: "nat \<Rightarrow> 'a kdisk_scheme \<Rightarrow> (unit, 'a kdisk_scheme) outcome" where
  "virtio_disk_finish i s =
     bnd (free_chain i (upd_disk (\<lambda>d. d\<lparr>info_b := (info_b d)(i := None)\<rparr>) s)) (\<lambda>_ s. release Vdisk_lock s)"

text \<open>
  The wait: the thread sleeps on its buffer; the scheduler of this CPU regains control and
  enables interrupts; the device works through its queue and interrupts; the handler, which runs
  with interrupts off, wakes the thread; the scheduler switches back to it.
\<close>

definition virtio_trap :: "'a kdisk_scheme \<Rightarrow> (unit, 'a kdisk_scheme) outcome" where
  "virtio_trap s =
     bnd (virtio_disk_intr (intr_off s)) (\<lambda>_ t. Ret () (if intr_get s then intr_on t else t))"

definition served :: "nat \<Rightarrow> nat \<Rightarrow> 'a kdisk_scheme \<Rightarrow> (unit, 'a kdisk_scheme) outcome" where
  "served p b s =
     (case sleep (Buf_chan b) Vdisk_lock s of
        Swtch t \<Rightarrow>
          bnd (scheduler_back p t) (\<lambda>_ u.
            bnd (virtio_trap (vdev_run (intr_on u))) (\<lambda>_ u.
              bnd (scheduler_try p u) (\<lambda>r u.
                if r = Some p then sleep_resume p Vdisk_lock (intena (cpus t (mycpu t))) u
                else Swtch u)))
      | r \<Rightarrow> r)"

definition virtio_disk_rw :: "nat \<Rightarrow> bool \<Rightarrow> 'a kdisk_scheme \<Rightarrow> (unit, 'a kdisk_scheme) outcome" where
  "virtio_disk_rw b wr s =
     bnd (virtio_disk_start b wr s) (\<lambda>i s.
       bnd (deref (cproc (cpus s (mycpu s))) s) (\<lambda>p s.
         bnd (if b_disk (bufs s b) then served p b s else Ret () s) (\<lambda>_ s.
           if b_disk (bufs s b) then Spin s else virtio_disk_finish i s)))"

end
