(* ===== verification/Bio.thy ===== *)
theory Bio
  imports Virtio
begin

text \<open>
  The buffer cache, \<^verbatim>\<open>kernel/bio.c\<close>.  Buffers are numbered below \<^verbatim>\<open>NBUF\<close>; \<^verbatim>\<open>bcache.head\<close> is number
  \<^verbatim>\<open>NBUF\<close>.  The list through \<^verbatim>\<open>prev\<close> and \<^verbatim>\<open>next\<close> is kept as in the code.  A walk along the list
  gets one step for each buffer and one for the head; a walk that is not back at the head by
  then is on a cycle that misses the head and spins.
\<close>

abbreviation bhead :: nat where
  "bhead \<equiv> NBUF"

definition binit :: "'a kdisk_scheme \<Rightarrow> 'a kdisk_scheme" where
  "binit s =
     (let s = initlock Bcache_lock ''bcache'' s;
          s = upd_buf bhead (\<lambda>h. h\<lparr>b_prev := bhead\<rparr>) s;
          s = upd_buf bhead (\<lambda>h. h\<lparr>b_next := bhead\<rparr>) s
      in fold (\<lambda>b s.
           let s = upd_buf b (\<lambda>q. q\<lparr>b_next := b_next (bufs s bhead)\<rparr>) s;
               s = upd_buf b (\<lambda>q. q\<lparr>b_prev := bhead\<rparr>) s;
               s = initsleeplock (Buf_lk b) ''buffer'' s;
               s = upd_buf (b_next (bufs s bhead)) (\<lambda>q. q\<lparr>b_prev := b\<rparr>) s
           in upd_buf bhead (\<lambda>h. h\<lparr>b_next := b\<rparr>) s) [0..<NBUF] s)"

primrec bget_cached :: "nat \<Rightarrow> nat \<Rightarrow> uint32 \<Rightarrow> uint32 \<Rightarrow> 'a kdisk_scheme \<Rightarrow> (nat option, 'a kdisk_scheme) outcome" where
  "bget_cached 0 b dev blockno s = Spin s"
| "bget_cached (Suc n) b dev blockno s =
     (if b = bhead then Ret None s
      else if b_dev (bufs s b) = dev \<and> b_blockno (bufs s b) = blockno then Ret (Some b) s
      else bget_cached n (b_next (bufs s b)) dev blockno s)"

primrec bget_unused :: "nat \<Rightarrow> nat \<Rightarrow> 'a kdisk_scheme \<Rightarrow> (nat option, 'a kdisk_scheme) outcome" where
  "bget_unused 0 b s = Spin s"
| "bget_unused (Suc n) b s =
     (if b = bhead then Ret None s
      else if b_refcnt (bufs s b) = 0 then Ret (Some b) s
      else bget_unused n (b_prev (bufs s b)) s)"

definition bget :: "uint32 \<Rightarrow> uint32 \<Rightarrow> 'a kdisk_scheme \<Rightarrow> (nat, 'a kdisk_scheme) outcome" where
  "bget dev blockno s =
     bnd (acquire Bcache_lock s) (\<lambda>_ s.
       bnd (bget_cached (Suc NBUF) (b_next (bufs s bhead)) dev blockno s) (\<lambda>r s.
         case r of
           Some b \<Rightarrow>
             let s = upd_buf b (\<lambda>q. q\<lparr>b_refcnt := b_refcnt q + 1\<rparr>) s
             in bnd (release Bcache_lock s) (\<lambda>_ s.
                bnd (acquiresleep (Buf_lk b) s) (\<lambda>_ s. Ret b s))
         | None \<Rightarrow>
             bnd (bget_unused (Suc NBUF) (b_prev (bufs s bhead)) s) (\<lambda>r s.
               case r of
                 Some b \<Rightarrow>
                   let s = upd_buf b (\<lambda>q. q\<lparr>b_dev := dev, b_blockno := blockno, b_valid := False,
                         b_refcnt := 1\<rparr>) s
                   in bnd (release Bcache_lock s) (\<lambda>_ s.
                      bnd (acquiresleep (Buf_lk b) s) (\<lambda>_ s. Ret b s))
               | None \<Rightarrow> Panic ''bget: no buffers'')))"

definition bread :: "uint32 \<Rightarrow> uint32 \<Rightarrow> 'a kdisk_scheme \<Rightarrow> (nat, 'a kdisk_scheme) outcome" where
  "bread dev blockno s =
     bnd (bget dev blockno s) (\<lambda>b s.
       if \<not> b_valid (bufs s b) then
         bnd (virtio_disk_rw b False s) (\<lambda>_ s. Ret b (upd_buf b (\<lambda>q. q\<lparr>b_valid := True\<rparr>) s))
       else Ret b s)"

definition bwrite :: "nat \<Rightarrow> 'a kdisk_scheme \<Rightarrow> (unit, 'a kdisk_scheme) outcome" where
  "bwrite b s =
     bnd (holdingsleep (Buf_lk b) s) (\<lambda>h s.
       if \<not> h then Panic ''bwrite'' else virtio_disk_rw b True s)"

definition brelse_front :: "nat \<Rightarrow> 'a kdisk_scheme \<Rightarrow> 'a kdisk_scheme" where
  "brelse_front b s =
     (let s = upd_buf (b_next (bufs s b)) (\<lambda>q. q\<lparr>b_prev := b_prev (bufs s b)\<rparr>) s;
          s = upd_buf (b_prev (bufs s b)) (\<lambda>q. q\<lparr>b_next := b_next (bufs s b)\<rparr>) s;
          s = upd_buf b (\<lambda>q. q\<lparr>b_next := b_next (bufs s bhead)\<rparr>) s;
          s = upd_buf b (\<lambda>q. q\<lparr>b_prev := bhead\<rparr>) s;
          s = upd_buf (b_next (bufs s bhead)) (\<lambda>q. q\<lparr>b_prev := b\<rparr>) s
      in upd_buf bhead (\<lambda>h. h\<lparr>b_next := b\<rparr>) s)"

definition brelse :: "nat \<Rightarrow> 'a kdisk_scheme \<Rightarrow> (unit, 'a kdisk_scheme) outcome" where
  "brelse b s =
     bnd (holdingsleep (Buf_lk b) s) (\<lambda>h s.
       if \<not> h then Panic ''brelse''
       else bnd (releasesleep (Buf_lk b) s) (\<lambda>_ s.
         bnd (acquire Bcache_lock s) (\<lambda>_ s.
           let s = upd_buf b (\<lambda>q. q\<lparr>b_refcnt := b_refcnt q - 1\<rparr>) s;
               s = (if b_refcnt (bufs s b) = 0 then brelse_front b s else s)
           in release Bcache_lock s)))"

definition bpin :: "nat \<Rightarrow> 'a kdisk_scheme \<Rightarrow> (unit, 'a kdisk_scheme) outcome" where
  "bpin b s =
     bnd (acquire Bcache_lock s) (\<lambda>_ s.
       release Bcache_lock (upd_buf b (\<lambda>q. q\<lparr>b_refcnt := b_refcnt q + 1\<rparr>) s))"

definition bunpin :: "nat \<Rightarrow> 'a kdisk_scheme \<Rightarrow> (unit, 'a kdisk_scheme) outcome" where
  "bunpin b s =
     bnd (acquire Bcache_lock s) (\<lambda>_ s.
       release Bcache_lock (upd_buf b (\<lambda>q. q\<lparr>b_refcnt := b_refcnt q - 1\<rparr>) s))"

end
