(* ===== verification/Logging.thy ===== *)
theory Logging
  imports Bio
begin

text \<open>
  The redo log, \<^verbatim>\<open>kernel/log.c\<close>.  The fields of \<^verbatim>\<open>struct log\<close> and of the in-memory header extend
  the kernel state; the header block on disk is a 4-byte count and the block numbers.
\<close>

section \<open>The log\<close>

record klog = kdisk +
  log_start :: int
  log_size :: int
  log_outstanding :: int
  log_committing :: bool
  log_dev :: int
  lh_n :: int
  lh_block :: "nat \<Rightarrow> int"

record superblock =
  sb_magic :: uint32
  sb_size :: uint32
  sb_nblocks :: uint32
  sb_ninodes :: uint32
  sb_nlog :: uint32
  sb_logstart :: uint32
  sb_inodestart :: uint32
  sb_bmapstart :: uint32

abbreviation ldev :: "'a klog_scheme \<Rightarrow> uint32" where
  "ldev s \<equiv> word_of_int (log_dev s)"

definition install_trans_at :: "nat \<Rightarrow> 'a klog_scheme \<Rightarrow> (unit option, 'a klog_scheme) outcome" where
  "install_trans_at tail s =
     bnd (bread (ldev s) (word_of_int (log_start s + int tail + 1)) s) (\<lambda>lbuf s.
       bnd (bread (ldev s) (word_of_int (lh_block s tail)) s) (\<lambda>dbuf s.
         let s = upd_buf dbuf (\<lambda>q. q\<lparr>b_data := b_data (bufs s lbuf)\<rparr>) s
         in bnd (bwrite dbuf s) (\<lambda>_ s.
            bnd (bunpin dbuf s) (\<lambda>_ s.
              bnd (brelse lbuf s) (\<lambda>_ s.
                bnd (brelse dbuf s) (\<lambda>_ s. Ret None s))))))"

definition install_trans :: "'a klog_scheme \<Rightarrow> (unit, 'a klog_scheme) outcome" where
  "install_trans s = bnd (foreach [0..<nat (lh_n s)] install_trans_at s) (\<lambda>_ s. Ret () s)"

definition read_head :: "'a klog_scheme \<Rightarrow> (unit, 'a klog_scheme) outcome" where
  "read_head s =
     bnd (bread (ldev s) (word_of_int (log_start s)) s) (\<lambda>b s.
       let lh = b_data (bufs s b);
           s = s\<lparr>lh_n := sint (get32 0 lh)\<rparr>;
           s = s\<lparr>lh_block := \<lambda>i. if i < nat (lh_n s) then sint (get32 (4 + 4 * i) lh) else lh_block s i\<rparr>
       in brelse b s)"

definition write_head :: "'a klog_scheme \<Rightarrow> (unit, 'a klog_scheme) outcome" where
  "write_head s =
     bnd (bread (ldev s) (word_of_int (log_start s)) s) (\<lambda>b s.
       let s = upd_buf b (\<lambda>q. q\<lparr>b_data := put32 0 (word_of_int (lh_n s)) (b_data q)\<rparr>) s;
           s = upd_buf b (\<lambda>q. q\<lparr>b_data :=
             fold (\<lambda>i. put32 (4 + 4 * i) (word_of_int (lh_block s i))) [0..<nat (lh_n s)] (b_data q)\<rparr>) s
       in bnd (bwrite b s) (\<lambda>_ s. brelse b s))"

definition recover_from_log :: "'a klog_scheme \<Rightarrow> (unit, 'a klog_scheme) outcome" where
  "recover_from_log s =
     bnd (read_head s) (\<lambda>_ s.
       bnd (install_trans s) (\<lambda>_ s. write_head (s\<lparr>lh_n := 0\<rparr>)))"

definition initlog :: "uint32 \<Rightarrow> superblock \<Rightarrow> 'a klog_scheme \<Rightarrow> (unit, 'a klog_scheme) outcome" where
  "initlog dev sb s =
     (if BSIZE \<le> 4 + 4 * LOGSIZE then Panic ''initlog: too big logheader''
      else let s = initlock Log_lock ''log'' s
           in recover_from_log (s\<lparr>log_start := sint (sb_logstart sb), log_size := sint (sb_nlog sb),
                log_dev := sint dev\<rparr>))"

section \<open>Operations\<close>

definition begin_op_loop :: "'a klog_scheme \<Rightarrow> (unit, 'a klog_scheme) outcome" where
  "begin_op_loop s =
     (if log_committing s then sleep Log_chan Log_lock s
      else if int LOGSIZE < lh_n s + (log_outstanding s + 1) * int MAXOPBLOCKS then sleep Log_chan Log_lock s
      else release Log_lock (s\<lparr>log_outstanding := log_outstanding s + 1\<rparr>))"

definition begin_op :: "'a klog_scheme \<Rightarrow> (unit, 'a klog_scheme) outcome" where
  "begin_op s = bnd (acquire Log_lock s) (\<lambda>_ s. begin_op_loop s)"

definition begin_op_resume :: "nat \<Rightarrow> bool \<Rightarrow> 'a klog_scheme \<Rightarrow> (unit, 'a klog_scheme) outcome" where
  "begin_op_resume p old s = bnd (sleep_resume p Log_lock old s) (\<lambda>_ s. begin_op_loop s)"

definition write_log_at :: "nat \<Rightarrow> 'a klog_scheme \<Rightarrow> (unit option, 'a klog_scheme) outcome" where
  "write_log_at tail s =
     bnd (bread (ldev s) (word_of_int (log_start s + int tail + 1)) s) (\<lambda>to s.
       bnd (bread (ldev s) (word_of_int (lh_block s tail)) s) (\<lambda>from s.
         let s = upd_buf to (\<lambda>q. q\<lparr>b_data := b_data (bufs s from)\<rparr>) s
         in bnd (bwrite to s) (\<lambda>_ s.
            bnd (brelse from s) (\<lambda>_ s.
              bnd (brelse to s) (\<lambda>_ s. Ret None s)))))"

definition write_log :: "'a klog_scheme \<Rightarrow> (unit, 'a klog_scheme) outcome" where
  "write_log s = bnd (foreach [0..<nat (lh_n s)] write_log_at s) (\<lambda>_ s. Ret () s)"

definition commit :: "'a klog_scheme \<Rightarrow> (unit, 'a klog_scheme) outcome" where
  "commit s =
     (if 0 < lh_n s then
        bnd (write_log s) (\<lambda>_ s.
          bnd (write_head s) (\<lambda>_ s.
            bnd (install_trans s) (\<lambda>_ s. write_head (s\<lparr>lh_n := 0\<rparr>))))
      else Ret () s)"

definition end_op :: "'a klog_scheme \<Rightarrow> (unit, 'a klog_scheme) outcome" where
  "end_op s =
     bnd (acquire Log_lock s) (\<lambda>_ s.
       let s = s\<lparr>log_outstanding := log_outstanding s - 1\<rparr>
       in if log_committing s then Panic ''log.committing''
          else if log_outstanding s = 0 then
            bnd (release Log_lock (s\<lparr>log_committing := True\<rparr>)) (\<lambda>_ s.
              bnd (commit s) (\<lambda>_ s.
                bnd (acquire Log_lock s) (\<lambda>_ s.
                  bnd (wakeup Log_chan (s\<lparr>log_committing := False\<rparr>)) (\<lambda>_ s. release Log_lock s))))
          else bnd (wakeup Log_chan s) (\<lambda>_ s. release Log_lock s))"

text \<open>The slot \<^verbatim>\<open>log_write\<close> uses: the first that already names the block, or the first free one.\<close>

definition log_slot :: "'a klog_scheme \<Rightarrow> uint32 \<Rightarrow> nat" where
  "log_slot s blockno =
     (case List.find (\<lambda>i. word_of_int (lh_block s i) = blockno) [0..<nat (lh_n s)] of
        Some i \<Rightarrow> i | None \<Rightarrow> nat (lh_n s))"

definition log_write :: "nat \<Rightarrow> 'a klog_scheme \<Rightarrow> (unit, 'a klog_scheme) outcome" where
  "log_write b s =
     (if int LOGSIZE \<le> lh_n s \<or> log_size s - 1 \<le> lh_n s then Panic ''too big a transaction''
      else if log_outstanding s < 1 then Panic ''log_write outside of trans''
      else bnd (acquire Log_lock s) (\<lambda>_ s.
        let i = log_slot s (b_blockno (bufs s b));
            s = s\<lparr>lh_block := (lh_block s)(i := sint (b_blockno (bufs s b)))\<rparr>
        in if int i = lh_n s then
             bnd (bpin b s) (\<lambda>_ s. release Log_lock (s\<lparr>lh_n := lh_n s + 1\<rparr>))
           else release Log_lock s))"

end
