(* ===== verification/Fs.thy ===== *)
theory Fs
  imports Logging
begin

text \<open>
  The file system, \<^verbatim>\<open>kernel/fs.c\<close> and \<^verbatim>\<open>kernel/fs.h\<close>: block allocation, inodes, file contents,
  directories and path names.  The inode cache is \<open>inodes\<close>, indexed below \<^verbatim>\<open>NINODE\<close>; a pointer
  to a cached inode is its index, so the tests for a null pointer in \<^verbatim>\<open>ilock\<close> and \<^verbatim>\<open>iunlock\<close>
  have no counterpart.

  A kernel-side buffer of \<^verbatim>\<open>readi\<close> is either kernel memory (\<open>To_mem\<close>) or a local variable of
  the caller (\<open>To_local\<close>), whose contents \<open>readi\<close> returns; a kernel-side source of \<^verbatim>\<open>writei\<close> is
  given by its bytes.  Path names and directory entry names are the bytes before the NUL.
\<close>

section \<open>On-disk layout\<close>

definition ROOTINO :: uint32 where "ROOTINO = 1"
definition FSMAGIC :: uint32 where "FSMAGIC = 0x10203040"
definition NDIRECT :: nat where "NDIRECT = 12"
definition NINDIRECT :: nat where "NINDIRECT = BSIZE div 4"
definition MAXFILE :: nat where "MAXFILE = NDIRECT + NINDIRECT"
definition IPB :: nat where "IPB = BSIZE div 64"
definition BPB :: nat where "BPB = BSIZE * 8"
definition DIRSIZ :: nat where "DIRSIZ = 14"
definition T_DIR :: ushort where "T_DIR = 1"
definition T_FILE :: ushort where "T_FILE = 2"
definition T_DEVICE :: ushort where "T_DEVICE = 3"

lemmas fs_defs = ROOTINO_def FSMAGIC_def NDIRECT_def NINDIRECT_def MAXFILE_def IPB_def BPB_def
  DIRSIZ_def T_DIR_def T_FILE_def T_DEVICE_def BSIZE_def

definition IBLOCK :: "uint32 \<Rightarrow> superblock \<Rightarrow> uint32" where
  "IBLOCK i sb = i div of_nat IPB + sb_inodestart sb"

definition BBLOCK :: "uint32 \<Rightarrow> superblock \<Rightarrow> uint32" where
  "BBLOCK b sb = b div of_nat BPB + sb_bmapstart sb"

record dinode =
  d_type :: ushort
  d_major :: ushort
  d_minor :: ushort
  d_nlink :: ushort
  d_size :: uint32
  d_addrs :: "uint32 list"

definition get_dinode :: "nat \<Rightarrow> byte list \<Rightarrow> dinode" where
  "get_dinode off bs =
     \<lparr>d_type = dec (sub_bytes off 2 bs), d_major = dec (sub_bytes (off + 2) 2 bs),
      d_minor = dec (sub_bytes (off + 4) 2 bs), d_nlink = dec (sub_bytes (off + 6) 2 bs),
      d_size = get32 (off + 8) bs, d_addrs = map (\<lambda>i. get32 (off + 12 + 4 * i) bs) [0..<NDIRECT + 1]\<rparr>"

definition enc_dinode :: "dinode \<Rightarrow> byte list" where
  "enc_dinode d = enc 2 (d_type d) @ enc 2 (d_major d) @ enc 2 (d_minor d) @ enc 2 (d_nlink d) @
     enc 4 (d_size d) @ concat (map (enc 4) (d_addrs d))"

definition put_dinode :: "nat \<Rightarrow> dinode \<Rightarrow> byte list \<Rightarrow> byte list" where
  "put_dinode off d bs = put_at off (enc_dinode d) bs"

section \<open>State\<close>

record inode =
  i_dev :: uint32
  i_inum :: uint32
  i_ref :: int
  i_valid :: bool
  i_type :: ushort
  i_major :: ushort
  i_minor :: ushort
  i_nlink :: ushort
  i_size :: uint32
  i_addrs :: "nat \<Rightarrow> uint32"

record kfs = klog +
  sb :: superblock
  inodes :: "nat \<Rightarrow> inode"

definition upd_inode :: "nat \<Rightarrow> (inode \<Rightarrow> inode) \<Rightarrow> 'a kfs_scheme \<Rightarrow> 'a kfs_scheme" where
  "upd_inode i f s = s\<lparr>inodes := (inodes s)(i := f (inodes s i))\<rparr>"

definition readsb :: "uint32 \<Rightarrow> 'a kfs_scheme \<Rightarrow> (unit, 'a kfs_scheme) outcome" where
  "readsb dev s =
     bnd (bread dev 1 s) (\<lambda>bp s.
       let d = b_data (bufs s bp)
       in brelse bp (s\<lparr>sb := \<lparr>sb_magic = get32 0 d, sb_size = get32 4 d, sb_nblocks = get32 8 d,
            sb_ninodes = get32 12 d, sb_nlog = get32 16 d, sb_logstart = get32 20 d,
            sb_inodestart = get32 24 d, sb_bmapstart = get32 28 d\<rparr>\<rparr>))"

definition fsinit :: "uint32 \<Rightarrow> 'a kfs_scheme \<Rightarrow> (unit, 'a kfs_scheme) outcome" where
  "fsinit dev s =
     bnd (readsb dev s) (\<lambda>_ s.
       if sb_magic (sb s) \<noteq> FSMAGIC then Panic ''invalid file system''
       else initlog dev (sb s) s)"

section \<open>Blocks\<close>

definition bzero :: "uint32 \<Rightarrow> uint32 \<Rightarrow> 'a kfs_scheme \<Rightarrow> (unit, 'a kfs_scheme) outcome" where
  "bzero dev bno s =
     bnd (bread dev bno s) (\<lambda>bp s.
       let s = upd_buf bp (\<lambda>q. q\<lparr>b_data := replicate BSIZE 0\<rparr>) s
       in bnd (log_write bp s) (\<lambda>_ s. brelse bp s))"

definition bit_set :: "byte list \<Rightarrow> nat \<Rightarrow> bool" where
  "bit_set bs bi = ((bs ! (bi div 8)) AND push_bit (bi mod 8) 1 \<noteq> 0)"

definition balloc_block :: "uint32 \<Rightarrow> nat \<Rightarrow> 'a kfs_scheme \<Rightarrow> (uint32 option, 'a kfs_scheme) outcome" where
  "balloc_block dev b s =
     bnd (bread dev (BBLOCK (of_nat b) (sb s)) s) (\<lambda>bp s.
       case List.find (\<lambda>bi. b + bi < unat (sb_size (sb s)) \<and> \<not> bit_set (b_data (bufs s bp)) bi) [0..<BPB] of
         Some bi \<Rightarrow>
           let s = upd_buf bp (\<lambda>q. q\<lparr>b_data := (b_data q)[bi div 8 :=
                     (b_data q ! (bi div 8)) OR push_bit (bi mod 8) 1]\<rparr>) s
           in bnd (log_write bp s) (\<lambda>_ s.
              bnd (brelse bp s) (\<lambda>_ s.
                bnd (bzero dev (of_nat (b + bi)) s) (\<lambda>_ s. Ret (Some (of_nat (b + bi))) s)))
       | None \<Rightarrow> bnd (brelse bp s) (\<lambda>_ s. Ret None s))"

definition balloc :: "uint32 \<Rightarrow> 'a kfs_scheme \<Rightarrow> (uint32, 'a kfs_scheme) outcome" where
  "balloc dev s =
     bnd (foreach (map (\<lambda>k. k * BPB) [0..<(unat (sb_size (sb s)) + BPB - 1) div BPB])
       (balloc_block dev) s) (\<lambda>r s.
     case r of Some b \<Rightarrow> Ret b s | None \<Rightarrow> Panic ''balloc: out of blocks'')"

definition bfree :: "uint32 \<Rightarrow> uint32 \<Rightarrow> 'a kfs_scheme \<Rightarrow> (unit, 'a kfs_scheme) outcome" where
  "bfree dev b s =
     bnd (bread dev (BBLOCK b (sb s)) s) (\<lambda>bp s.
       let bi = unat b mod BPB
       in if \<not> bit_set (b_data (bufs s bp)) bi then Panic ''freeing free block''
          else let s = upd_buf bp (\<lambda>q. q\<lparr>b_data := (b_data q)[bi div 8 :=
                         (b_data q ! (bi div 8)) AND NOT (push_bit (bi mod 8) 1)]\<rparr>) s
               in bnd (log_write bp s) (\<lambda>_ s. brelse bp s))"

section \<open>Inodes\<close>

definition iinit :: "'a kfs_scheme \<Rightarrow> 'a kfs_scheme" where
  "iinit s = fold (\<lambda>i. initsleeplock (Inode_lk i) ''inode'') [0..<NINODE] (initlock Icache_lock ''icache'' s)"

text \<open>
  The scan of \<^verbatim>\<open>iget\<close>: the cached entry, or the first empty slot.
\<close>

definition iget :: "uint32 \<Rightarrow> uint32 \<Rightarrow> 'a kfs_scheme \<Rightarrow> (nat, 'a kfs_scheme) outcome" where
  "iget dev inum s =
     bnd (acquire Icache_lock s) (\<lambda>_ s.
       case List.find (\<lambda>i. 0 < i_ref (inodes s i) \<and> i_dev (inodes s i) = dev \<and> i_inum (inodes s i) = inum)
              [0..<NINODE] of
         Some ip \<Rightarrow>
           bnd (release Icache_lock (upd_inode ip (\<lambda>q. q\<lparr>i_ref := i_ref q + 1\<rparr>) s)) (\<lambda>_ s. Ret ip s)
       | None \<Rightarrow>
           (case List.find (\<lambda>i. i_ref (inodes s i) = 0) [0..<NINODE] of
              None \<Rightarrow> Panic ''iget: no inodes''
            | Some ip \<Rightarrow>
                bnd (release Icache_lock (upd_inode ip (\<lambda>q. q\<lparr>i_dev := dev, i_inum := inum, i_ref := 1,
                  i_valid := False\<rparr>) s)) (\<lambda>_ s. Ret ip s)))"

definition ialloc :: "uint32 \<Rightarrow> ushort \<Rightarrow> 'a kfs_scheme \<Rightarrow> (nat, 'a kfs_scheme) outcome" where
  "ialloc dev ty s =
     bnd (foreach [1..<unat (sb_ninodes (sb s))] (\<lambda>inum s.
       bnd (bread dev (IBLOCK (of_nat inum) (sb s)) s) (\<lambda>bp s.
         let off = inum mod IPB * 64
         in if d_type (get_dinode off (b_data (bufs s bp))) = 0 then
              let s = upd_buf bp (\<lambda>q. q\<lparr>b_data := put_dinode off
                        \<lparr>d_type = ty, d_major = 0, d_minor = 0, d_nlink = 0, d_size = 0,
                         d_addrs = replicate (NDIRECT + 1) 0\<rparr> (b_data q)\<rparr>) s
              in bnd (log_write bp s) (\<lambda>_ s.
                 bnd (brelse bp s) (\<lambda>_ s.
                   bnd (iget dev (of_nat inum) s) (\<lambda>ip s. Ret (Some ip) s)))
            else bnd (brelse bp s) (\<lambda>_ s. Ret None s))) s) (\<lambda>r s.
     case r of Some ip \<Rightarrow> Ret ip s | None \<Rightarrow> Panic ''ialloc: no inodes'')"

definition dinode_of :: "inode \<Rightarrow> dinode" where
  "dinode_of q = \<lparr>d_type = i_type q, d_major = i_major q, d_minor = i_minor q, d_nlink = i_nlink q, d_size = i_size q,
     d_addrs = map (i_addrs q) [0..<NDIRECT + 1]\<rparr>"

definition iload :: "dinode \<Rightarrow> inode \<Rightarrow> inode" where
  "iload d q = q\<lparr>i_type := d_type d, i_major := d_major d, i_minor := d_minor d, i_nlink := d_nlink d, i_size := d_size d,
     i_addrs := \<lambda>i. if i < NDIRECT + 1 then d_addrs d ! i else i_addrs q i\<rparr>"

text \<open>The offset of an inode in its block.\<close>

definition ioff :: "uint32 \<Rightarrow> nat" where
  "ioff inum = unat inum mod IPB * 64"

definition iupdate :: "nat \<Rightarrow> 'a kfs_scheme \<Rightarrow> (unit, 'a kfs_scheme) outcome" where
  "iupdate ip s =
     bnd (bread (i_dev (inodes s ip)) (IBLOCK (i_inum (inodes s ip)) (sb s)) s) (\<lambda>bp s.
       let n = inodes s ip;
           s = upd_buf bp (\<lambda>q. q\<lparr>b_data := put_dinode (ioff (i_inum n)) (dinode_of n) (b_data q)\<rparr>) s
       in bnd (log_write bp s) (\<lambda>_ s. brelse bp s))"

definition idup :: "nat \<Rightarrow> 'a kfs_scheme \<Rightarrow> (nat, 'a kfs_scheme) outcome" where
  "idup ip s =
     bnd (acquire Icache_lock s) (\<lambda>_ s.
       bnd (release Icache_lock (upd_inode ip (\<lambda>q. q\<lparr>i_ref := i_ref q + 1\<rparr>) s)) (\<lambda>_ s. Ret ip s))"

definition ilock :: "nat \<Rightarrow> 'a kfs_scheme \<Rightarrow> (unit, 'a kfs_scheme) outcome" where
  "ilock ip s =
     (if i_ref (inodes s ip) < 1 then Panic ''ilock''
      else bnd (acquiresleep (Inode_lk ip) s) (\<lambda>_ s.
        if \<not> i_valid (inodes s ip) then
          bnd (bread (i_dev (inodes s ip)) (IBLOCK (i_inum (inodes s ip)) (sb s)) s) (\<lambda>bp s.
            let s = upd_inode ip (iload (get_dinode (ioff (i_inum (inodes s ip))) (b_data (bufs s bp)))) s
            in bnd (brelse bp s) (\<lambda>_ s.
               let s = upd_inode ip (\<lambda>q. q\<lparr>i_valid := True\<rparr>) s
               in if i_type (inodes s ip) = 0 then Panic ''ilock: no type'' else Ret () s))
        else Ret () s))"

definition iunlock :: "nat \<Rightarrow> 'a kfs_scheme \<Rightarrow> (unit, 'a kfs_scheme) outcome" where
  "iunlock ip s =
     bnd (holdingsleep (Inode_lk ip) s) (\<lambda>h s.
       if \<not> h \<or> i_ref (inodes s ip) < 1 then Panic ''iunlock''
       else releasesleep (Inode_lk ip) s)"

definition bmap :: "nat \<Rightarrow> nat \<Rightarrow> 'a kfs_scheme \<Rightarrow> (uint32, 'a kfs_scheme) outcome" where
  "bmap ip bn s =
     (if bn < NDIRECT then
        if i_addrs (inodes s ip) bn = 0 then
          bnd (balloc (i_dev (inodes s ip)) s) (\<lambda>addr s.
            Ret addr (upd_inode ip (\<lambda>q. q\<lparr>i_addrs := (i_addrs q)(bn := addr)\<rparr>) s))
        else Ret (i_addrs (inodes s ip) bn) s
      else let bn = bn - NDIRECT
           in if bn < NINDIRECT then
                bnd (if i_addrs (inodes s ip) NDIRECT = 0 then
                       bnd (balloc (i_dev (inodes s ip)) s) (\<lambda>addr s.
                         Ret addr (upd_inode ip (\<lambda>q. q\<lparr>i_addrs := (i_addrs q)(NDIRECT := addr)\<rparr>) s))
                     else Ret (i_addrs (inodes s ip) NDIRECT) s) (\<lambda>addr s.
                  bnd (bread (i_dev (inodes s ip)) addr s) (\<lambda>bp s.
                    let addr = get32 (4 * bn) (b_data (bufs s bp))
                    in bnd (if addr = 0 then
                              bnd (balloc (i_dev (inodes s ip)) s) (\<lambda>addr s.
                                let s = upd_buf bp (\<lambda>q. q\<lparr>b_data := put32 (4 * bn) addr (b_data q)\<rparr>) s
                                in bnd (log_write bp s) (\<lambda>_ s. Ret addr s))
                            else Ret addr s) (\<lambda>addr s.
                       bnd (brelse bp s) (\<lambda>_ s. Ret addr s))))
              else Panic ''bmap: out of range'')"

definition itrunc :: "nat \<Rightarrow> 'a kfs_scheme \<Rightarrow> (unit, 'a kfs_scheme) outcome" where
  "itrunc ip s =
     bnd (foreach [0..<NDIRECT] (\<lambda>i s.
       if i_addrs (inodes s ip) i \<noteq> 0 then
         bnd (bfree (i_dev (inodes s ip)) (i_addrs (inodes s ip) i) s) (\<lambda>_ s.
           Ret (None :: unit option) (upd_inode ip (\<lambda>q. q\<lparr>i_addrs := (i_addrs q)(i := 0)\<rparr>) s))
       else Ret None s) s) (\<lambda>_ s.
     bnd (if i_addrs (inodes s ip) NDIRECT \<noteq> 0 then
            bnd (bread (i_dev (inodes s ip)) (i_addrs (inodes s ip) NDIRECT) s) (\<lambda>bp s.
              bnd (foreach [0..<NINDIRECT] (\<lambda>j s.
                let a = get32 (4 * j) (b_data (bufs s bp))
                in if a \<noteq> 0 then bnd (bfree (i_dev (inodes s ip)) a s) (\<lambda>_ s. Ret (None :: unit option) s)
                   else Ret None s) s) (\<lambda>_ s.
                bnd (brelse bp s) (\<lambda>_ s.
                  bnd (bfree (i_dev (inodes s ip)) (i_addrs (inodes s ip) NDIRECT) s) (\<lambda>_ s.
                    Ret () (upd_inode ip (\<lambda>q. q\<lparr>i_addrs := (i_addrs q)(NDIRECT := 0)\<rparr>) s)))))
          else Ret () s) (\<lambda>_ s.
       iupdate ip (upd_inode ip (\<lambda>q. q\<lparr>i_size := 0\<rparr>) s)))"

definition iput :: "nat \<Rightarrow> 'a kfs_scheme \<Rightarrow> (unit, 'a kfs_scheme) outcome" where
  "iput ip s =
     bnd (acquire Icache_lock s) (\<lambda>_ s.
       bnd (if i_ref (inodes s ip) = 1 \<and> i_valid (inodes s ip) \<and> i_nlink (inodes s ip) = 0 then
              bnd (acquiresleep (Inode_lk ip) s) (\<lambda>_ s.
                bnd (release Icache_lock s) (\<lambda>_ s.
                  bnd (itrunc ip s) (\<lambda>_ s.
                    bnd (iupdate ip (upd_inode ip (\<lambda>q. q\<lparr>i_type := 0\<rparr>) s)) (\<lambda>_ s.
                      bnd (releasesleep (Inode_lk ip) (upd_inode ip (\<lambda>q. q\<lparr>i_valid := False\<rparr>) s)) (\<lambda>_ s.
                        acquire Icache_lock s)))))
            else Ret () s) (\<lambda>_ s.
         release Icache_lock (upd_inode ip (\<lambda>q. q\<lparr>i_ref := i_ref q - 1\<rparr>) s)))"

definition iunlockput :: "nat \<Rightarrow> 'a kfs_scheme \<Rightarrow> (unit, 'a kfs_scheme) outcome" where
  "iunlockput ip s = bnd (iunlock ip s) (\<lambda>_ s. iput ip s)"

record stat =
  st_dev :: int
  st_ino :: uint32
  st_type :: ushort
  st_nlink :: ushort
  st_size :: uint64

definition stati :: "nat \<Rightarrow> 'a kfs_scheme \<Rightarrow> stat" where
  "stati ip s =
     (let n = inodes s ip
      in \<lparr>st_dev = sint (i_dev n), st_ino = i_inum n, st_type = i_type n, st_nlink = i_nlink n,
          st_size = ucast (i_size n)\<rparr>)"

section \<open>File contents\<close>

datatype target = To_user uint64 | To_mem uint64 | To_local
datatype origin = From_user uint64 | From_local "byte list"

text \<open>
  \<open>put_target\<close> and \<open>get_origin\<close> are the calls of \<^verbatim>\<open>either_copyout\<close> and \<^verbatim>\<open>either_copyin\<close>, \<open>k\<close> bytes
  into the transfer.
\<close>

definition put_target :: "target \<Rightarrow> nat \<Rightarrow> byte list \<Rightarrow> 'a kfs_scheme \<Rightarrow> (int, 'a kfs_scheme) outcome" where
  "put_target tgt k bs s =
     (case tgt of
        To_user a \<Rightarrow> either_copyout True (a + of_nat k) bs s
      | To_mem a \<Rightarrow> either_copyout False (a + of_nat k) bs s
      | To_local \<Rightarrow> Ret 0 s)"

definition get_origin :: "origin \<Rightarrow> nat \<Rightarrow> nat \<Rightarrow> 'a kfs_scheme \<Rightarrow> (int \<times> byte list, 'a kfs_scheme) outcome" where
  "get_origin src k m s =
     (case src of
        From_user a \<Rightarrow> either_copyin True (a + of_nat k) m s
      | From_local bs \<Rightarrow> Ret (0, sub_bytes k m bs) s)"

definition chunk :: "nat \<Rightarrow> nat \<Rightarrow> nat" where
  "chunk left off = min left (BSIZE - off mod BSIZE)"

lemma chunk_pos: "0 < left \<Longrightarrow> 0 < chunk left off"
  by (simp add: chunk_def BSIZE_def)

lemma chunk_le: "chunk left off \<le> left"
  by (simp add: chunk_def)

text \<open>
  The loops run after the tests that rule out a wrap-around of \<^verbatim>\<open>off + n\<close>, so their 32-bit
  counters are natural numbers here.
\<close>

function readi_loop :: "nat \<Rightarrow> target \<Rightarrow> nat \<Rightarrow> nat \<Rightarrow> nat \<Rightarrow> byte list \<Rightarrow> 'a kfs_scheme \<Rightarrow>
    (nat \<times> byte list, 'a kfs_scheme) outcome" where
  "readi_loop ip tgt off n tot acc s =
     (if tot < n then
        bnd (bmap ip (off div BSIZE) s) (\<lambda>addr s.
          bnd (bread (i_dev (inodes s ip)) addr s) (\<lambda>bp s.
            let m = chunk (n - tot) off;
                bs = sub_bytes (off mod BSIZE) m (b_data (bufs s bp))
            in bnd (put_target tgt tot bs s) (\<lambda>r s.
               if r = -1 then bnd (brelse bp s) (\<lambda>_ s. Ret (tot, acc) s)
               else bnd (brelse bp s) (\<lambda>_ s. readi_loop ip tgt (off + m) n (tot + m) (acc @ bs) s))))
      else Ret (tot, acc) s)"
  by pat_completeness auto
termination
  by (relation "measure (\<lambda>(_, _, _, n, tot, _, _). n - tot)") (auto simp: chunk_pos diff_less_mono2)

declare readi_loop.simps [simp del]

definition readi :: "nat \<Rightarrow> target \<Rightarrow> uint32 \<Rightarrow> uint32 \<Rightarrow> 'a kfs_scheme \<Rightarrow>
    (int \<times> byte list, 'a kfs_scheme) outcome" where
  "readi ip tgt off n s =
     (if i_size (inodes s ip) < off \<or> off + n < off then Ret (0, []) s
      else let n = (if i_size (inodes s ip) < off + n then i_size (inodes s ip) - off else n)
           in bnd (readi_loop ip tgt (unat off) (unat n) 0 [] s) (\<lambda>(tot, bs) s. Ret (int tot, bs) s))"

function writei_loop :: "nat \<Rightarrow> origin \<Rightarrow> nat \<Rightarrow> nat \<Rightarrow> nat \<Rightarrow> 'a kfs_scheme \<Rightarrow> (nat, 'a kfs_scheme) outcome" where
  "writei_loop ip src off n tot s =
     (if tot < n then
        bnd (bmap ip (off div BSIZE) s) (\<lambda>addr s.
          bnd (bread (i_dev (inodes s ip)) addr s) (\<lambda>bp s.
            let m = chunk (n - tot) off
            in bnd (get_origin src tot m s) (\<lambda>(r, bs) s.
               let s = upd_buf bp (\<lambda>q. q\<lparr>b_data := put_at (off mod BSIZE) bs (b_data q)\<rparr>) s
               in if r = -1 then bnd (brelse bp s) (\<lambda>_ s. Ret off s)
                  else bnd (log_write bp s) (\<lambda>_ s.
                    bnd (brelse bp s) (\<lambda>_ s. writei_loop ip src (off + m) n (tot + m) s)))))
      else Ret off s)"
  by pat_completeness auto
termination
  by (relation "measure (\<lambda>(_, _, _, n, tot, _). n - tot)") (auto simp: chunk_pos diff_less_mono2)

declare writei_loop.simps [simp del]

definition writei :: "nat \<Rightarrow> origin \<Rightarrow> uint32 \<Rightarrow> uint32 \<Rightarrow> 'a kfs_scheme \<Rightarrow> (int, 'a kfs_scheme) outcome" where
  "writei ip src off n s =
     (if i_size (inodes s ip) < off \<or> off + n < off then Ret (-1) s
      else if MAXFILE * BSIZE < unat (off + n) then Ret (-1) s
      else bnd (writei_loop ip src (unat off) (unat n) 0 s) (\<lambda>off s.
        if 0 < n then
          let s = (if unat (i_size (inodes s ip)) < off
                   then upd_inode ip (\<lambda>q. q\<lparr>i_size := of_nat off\<rparr>) s else s)
          in bnd (iupdate ip s) (\<lambda>_ s. Ret (sint n) s)
        else Ret (sint n) s))"

section \<open>Directories\<close>

text \<open>\<^verbatim>\<open>strncmp\<close> on names given by their bytes before the NUL, or by a full field.\<close>

primrec strncmp_bytes :: "nat \<Rightarrow> byte list \<Rightarrow> byte list \<Rightarrow> int" where
  "strncmp_bytes 0 p q = 0"
| "strncmp_bytes (Suc n) p q =
     (let a = (case p of [] \<Rightarrow> 0 | x # _ \<Rightarrow> x); b = (case q of [] \<Rightarrow> 0 | x # _ \<Rightarrow> x)
      in if a \<noteq> 0 \<and> a = b then strncmp_bytes n (tl p) (tl q) else uint a - uint b)"

definition namecmp :: "byte list \<Rightarrow> byte list \<Rightarrow> int" where
  "namecmp p q = strncmp_bytes DIRSIZ p q"

definition strncpy_bytes :: "nat \<Rightarrow> byte list \<Rightarrow> byte list" where
  "strncpy_bytes n p = (let q = take n (takeWhile (\<lambda>b. b \<noteq> 0) p) in q @ replicate (n - length q) 0)"

definition dirent_size :: nat where "dirent_size = 16"

definition de_inum :: "byte list \<Rightarrow> ushort" where
  "de_inum de = dec (sub_bytes 0 2 de)"

definition de_name :: "byte list \<Rightarrow> byte list" where
  "de_name de = sub_bytes 2 DIRSIZ de"

definition de_offsets :: "uint32 \<Rightarrow> nat list" where
  "de_offsets sz = map (\<lambda>k. k * dirent_size) [0..<(unat sz + dirent_size - 1) div dirent_size]"

definition dirlookup :: "nat \<Rightarrow> byte list \<Rightarrow> 'a kfs_scheme \<Rightarrow> ((nat \<times> uint32) option, 'a kfs_scheme) outcome" where
  "dirlookup dp name s =
     (if i_type (inodes s dp) \<noteq> T_DIR then Panic ''dirlookup not DIR''
      else foreach (de_offsets (i_size (inodes s dp))) (\<lambda>off s.
        bnd (readi dp To_local (of_nat off) (of_nat dirent_size) s) (\<lambda>(r, de) s.
          if r \<noteq> int dirent_size then Panic ''dirlookup read''
          else if de_inum de = 0 then Ret None s
          else if namecmp name (de_name de) = 0 then
            bnd (iget (i_dev (inodes s dp)) (ucast (de_inum de)) s) (\<lambda>ip s. Ret (Some (ip, of_nat off)) s)
          else Ret None s)) s)"

definition dirlink :: "nat \<Rightarrow> byte list \<Rightarrow> uint32 \<Rightarrow> 'a kfs_scheme \<Rightarrow> (int, 'a kfs_scheme) outcome" where
  "dirlink dp name inum s =
     bnd (dirlookup dp name s) (\<lambda>r s.
       case r of
         Some (ip, _) \<Rightarrow> bnd (iput ip s) (\<lambda>_ s. Ret (-1) s)
       | None \<Rightarrow>
           bnd (foreach (de_offsets (i_size (inodes s dp))) (\<lambda>off s.
             bnd (readi dp To_local (of_nat off) (of_nat dirent_size) s) (\<lambda>(r, de) s.
               if r \<noteq> int dirent_size then Panic ''dirlink read''
               else if de_inum de = 0 then Ret (Some off) s else Ret None s)) s) (\<lambda>r s.
           let off = (case r of Some off \<Rightarrow> of_nat off
                      | None \<Rightarrow> of_nat (dirent_size * length (de_offsets (i_size (inodes s dp)))));
               de = enc 2 (ucast inum :: ushort) @ strncpy_bytes DIRSIZ name
           in bnd (writei dp (From_local de) off (of_nat dirent_size) s) (\<lambda>r s.
              if r \<noteq> int dirent_size then Panic ''dirlink'' else Ret 0 s)))"

section \<open>Paths\<close>

definition slash :: byte where "slash = 47"

definition skipelem :: "byte list \<Rightarrow> (byte list \<times> byte list) option" where
  "skipelem path =
     (let path = dropWhile (\<lambda>c. c = slash) path
      in if path = [] then None
         else let name = takeWhile (\<lambda>c. c \<noteq> slash) path;
                  path = dropWhile (\<lambda>c. c \<noteq> slash) path
              in Some (dropWhile (\<lambda>c. c = slash) path, take DIRSIZ name))"

lemma skipelem_shorter: "skipelem path = Some (rest, name) \<Longrightarrow> length rest < length path"
proof -
  assume a: "skipelem path = Some (rest, name)"
  let ?p = "dropWhile (\<lambda>c. c = slash) path"
  have p: "?p \<noteq> []" and r: "rest = dropWhile (\<lambda>c. c = slash) (dropWhile (\<lambda>c. c \<noteq> slash) ?p)"
    using a by (auto simp: skipelem_def Let_def split: if_splits)
  then have "hd ?p \<noteq> slash" using hd_dropWhile [of "\<lambda>c. c = slash" path] by simp
  then have "dropWhile (\<lambda>c. c \<noteq> slash) ?p = dropWhile (\<lambda>c. c \<noteq> slash) (tl ?p)"
    using p by (cases ?p) simp_all
  then have "length rest \<le> length (dropWhile (\<lambda>c. c \<noteq> slash) (tl ?p))"
    unfolding r by (simp add: length_dropWhile_le)
  also have "\<dots> \<le> length (tl ?p)" by (rule length_dropWhile_le)
  finally have "length rest \<le> length (tl ?p)" .
  moreover have "length (tl ?p) < length ?p" using p by (cases ?p) simp_all
  moreover have "length ?p \<le> length path" by (rule length_dropWhile_le)
  ultimately show ?thesis by linarith
qed

text \<open>The loop of \<^verbatim>\<open>namex\<close>; the value carries the name of the last element it has read.\<close>

function namex_loop :: "nat \<Rightarrow> byte list \<Rightarrow> bool \<Rightarrow> byte list \<Rightarrow> 'a kfs_scheme \<Rightarrow>
    (nat option \<times> byte list, 'a kfs_scheme) outcome" where
  "namex_loop ip path nip name s =
     (case skipelem path of
        None \<Rightarrow> if nip then bnd (iput ip s) (\<lambda>_ s. Ret (None, name) s) else Ret (Some ip, name) s
      | Some (path, name) \<Rightarrow>
          bnd (ilock ip s) (\<lambda>_ s.
            if i_type (inodes s ip) \<noteq> T_DIR then bnd (iunlockput ip s) (\<lambda>_ s. Ret (None, name) s)
            else if nip \<and> path = [] then bnd (iunlock ip s) (\<lambda>_ s. Ret (Some ip, name) s)
            else bnd (dirlookup ip name s) (\<lambda>r s.
              case r of
                None \<Rightarrow> bnd (iunlockput ip s) (\<lambda>_ s. Ret (None, name) s)
              | Some (nx, _) \<Rightarrow> bnd (iunlockput ip s) (\<lambda>_ s. namex_loop nx path nip name s))))"
  by pat_completeness auto
termination
  by (relation "measure (\<lambda>(_, path, _, _, _). length path)") (auto dest!: skipelem_shorter)

declare namex_loop.simps [simp del]

definition namex :: "byte list \<Rightarrow> bool \<Rightarrow> 'a kfs_scheme \<Rightarrow> (nat option \<times> byte list, 'a kfs_scheme) outcome" where
  "namex path nip s =
     bnd (if path \<noteq> [] \<and> hd path = slash then iget ROOTDEV ROOTINO s
          else bnd (curproc s) (\<lambda>p s. bnd (deref (p_cwd (procs s p)) s) (\<lambda>c s. idup c s))) (\<lambda>ip s.
       namex_loop ip path nip [] s)"

definition namei :: "byte list \<Rightarrow> 'a kfs_scheme \<Rightarrow> (nat option, 'a kfs_scheme) outcome" where
  "namei path s = bnd (namex path False s) (\<lambda>(r, _) s. Ret r s)"

definition nameiparent :: "byte list \<Rightarrow> 'a kfs_scheme \<Rightarrow> (nat option \<times> byte list, 'a kfs_scheme) outcome" where
  "nameiparent path s = namex path True s"

end
