(* ===== verification/Files.thy ===== *)
theory Files
  imports Fs
begin

text \<open>
  Open files, \<^verbatim>\<open>kernel/file.c\<close>, and pipes, \<^verbatim>\<open>kernel/pipe.c\<close>.  The file table is \<open>files\<close>, indexed
  below \<^verbatim>\<open>NFILE\<close>; a pipe is named by the address of its page, and \<open>pipes\<close> holds the structure
  that lives in that page.  \<open>stat_pad\<close> stands for the four bytes of padding in
  \<^verbatim>\<open>struct stat\<close>, which \<^verbatim>\<open>filestat\<close> copies out without having set them.
\<close>

section \<open>State\<close>

datatype ftype = FD_NONE | FD_PIPE | FD_INODE | FD_DEVICE

record kfd =
  f_type :: ftype
  f_ref :: int
  f_readable :: bool
  f_writable :: bool
  f_pipe :: uint64
  f_ip :: "nat option"
  f_off :: uint32
  f_major :: ushort

definition PIPESIZE :: nat where "PIPESIZE = 512"

record pipe =
  pi_data :: "nat \<Rightarrow> byte"
  pi_nread :: uint32
  pi_nwrite :: uint32
  pi_readopen :: bool
  pi_writeopen :: bool

record kfile = kfs +
  files :: "nat \<Rightarrow> kfd"
  pipes :: "uint64 \<Rightarrow> pipe"
  stat_pad :: "byte list"

definition upd_file :: "nat \<Rightarrow> (kfd \<Rightarrow> kfd) \<Rightarrow> 'a kfile_scheme \<Rightarrow> 'a kfile_scheme" where
  "upd_file i f s = s\<lparr>files := (files s)(i := f (files s i))\<rparr>"

definition upd_pipe :: "uint64 \<Rightarrow> (pipe \<Rightarrow> pipe) \<Rightarrow> 'a kfile_scheme \<Rightarrow> 'a kfile_scheme" where
  "upd_pipe i f s = s\<lparr>pipes := (pipes s)(i := f (pipes s i))\<rparr>"

section \<open>Pipes\<close>

definition pipeclose :: "uint64 \<Rightarrow> bool \<Rightarrow> 'a kfile_scheme \<Rightarrow> (unit, 'a kfile_scheme) outcome" where
  "pipeclose pi writable s =
     bnd (acquire (Pipe_lock pi) s) (\<lambda>_ s.
       bnd (if writable then wakeup (Pipe_nread pi) (upd_pipe pi (\<lambda>q. q\<lparr>pi_writeopen := False\<rparr>) s)
            else wakeup (Pipe_nwrite pi) (upd_pipe pi (\<lambda>q. q\<lparr>pi_readopen := False\<rparr>) s)) (\<lambda>_ s.
         if \<not> pi_readopen (pipes s pi) \<and> \<not> pi_writeopen (pipes s pi)
         then bnd (release (Pipe_lock pi) s) (\<lambda>_ s. kfree pi s)
         else release (Pipe_lock pi) s))"

text \<open>
  The loop of \<^verbatim>\<open>pipewrite\<close>, with \<open>n\<close> bytes to go and \<open>i\<close> written.  A full pipe puts the
  writer to sleep.
\<close>

primrec pipewrite_loop :: "nat \<Rightarrow> nat \<Rightarrow> uint64 \<Rightarrow> uint64 \<Rightarrow> int \<Rightarrow> 'a kfile_scheme \<Rightarrow> (int, 'a kfile_scheme) outcome" where
  "pipewrite_loop 0 pr pi addr i s =
     bnd (wakeup (Pipe_nread pi) s) (\<lambda>_ s. bnd (release (Pipe_lock pi) s) (\<lambda>_ s. Ret i s))"
| "pipewrite_loop (Suc n) pr pi addr i s =
     (if pi_nwrite (pipes s pi) = pi_nread (pipes s pi) + of_nat PIPESIZE then
        if \<not> pi_readopen (pipes s pi) \<or> p_killed (procs s pr)
        then bnd (release (Pipe_lock pi) s) (\<lambda>_ s. Ret (-1) s)
        else bnd (wakeup (Pipe_nread pi) s) (\<lambda>_ s.
          bnd (sleep (Pipe_nwrite pi) (Pipe_lock pi) s) (\<lambda>_ s. Ret (-1) s))
      else bnd (copyin (p_pagetable (procs s pr)) addr 1 s) (\<lambda>(r, bs) s.
        if r = -1 then
          bnd (wakeup (Pipe_nread pi) s) (\<lambda>_ s. bnd (release (Pipe_lock pi) s) (\<lambda>_ s. Ret i s))
        else
          let s = upd_pipe pi (\<lambda>q. q\<lparr>pi_data := (pi_data q)(unat (pi_nwrite q) mod PIPESIZE := hd bs),
                    pi_nwrite := pi_nwrite q + 1\<rparr>) s
          in pipewrite_loop n pr pi (addr + 1) (i + 1) s))"

definition pipewrite :: "uint64 \<Rightarrow> uint64 \<Rightarrow> int \<Rightarrow> 'a kfile_scheme \<Rightarrow> (int, 'a kfile_scheme) outcome" where
  "pipewrite pi addr n s =
     bnd (curproc s) (\<lambda>pr s.
       bnd (acquire (Pipe_lock pi) s) (\<lambda>_ s. pipewrite_loop (nat n) pr pi addr 0 s))"

definition pipewrite_resume :: "bool \<Rightarrow> nat \<Rightarrow> nat \<Rightarrow> uint64 \<Rightarrow> uint64 \<Rightarrow> int \<Rightarrow> 'a kfile_scheme \<Rightarrow>
    (int, 'a kfile_scheme) outcome" where
  "pipewrite_resume old n pr pi addr i s =
     bnd (sleep_resume pr (Pipe_lock pi) old s) (\<lambda>_ s. pipewrite_loop n pr pi addr i s)"

primrec piperead_copy :: "nat \<Rightarrow> nat \<Rightarrow> uint64 \<Rightarrow> uint64 \<Rightarrow> int \<Rightarrow> 'a kfile_scheme \<Rightarrow> (int, 'a kfile_scheme) outcome" where
  "piperead_copy 0 pr pi addr i s = Ret i s"
| "piperead_copy (Suc n) pr pi addr i s =
     (if pi_nread (pipes s pi) = pi_nwrite (pipes s pi) then Ret i s
      else let ch = pi_data (pipes s pi) (unat (pi_nread (pipes s pi)) mod PIPESIZE);
               s = upd_pipe pi (\<lambda>q. q\<lparr>pi_nread := pi_nread q + 1\<rparr>) s
           in bnd (copyout (p_pagetable (procs s pr)) addr [ch] s) (\<lambda>r s.
              if r = -1 then Ret i s else piperead_copy n pr pi (addr + 1) (i + 1) s))"

definition piperead_loop :: "nat \<Rightarrow> uint64 \<Rightarrow> uint64 \<Rightarrow> int \<Rightarrow> 'a kfile_scheme \<Rightarrow> (int, 'a kfile_scheme) outcome" where
  "piperead_loop pr pi addr n s =
     (if pi_nread (pipes s pi) = pi_nwrite (pipes s pi) \<and> pi_writeopen (pipes s pi) then
        if p_killed (procs s pr) then bnd (release (Pipe_lock pi) s) (\<lambda>_ s. Ret (-1) s)
        else bnd (sleep (Pipe_nread pi) (Pipe_lock pi) s) (\<lambda>_ s. Ret (-1) s)
      else bnd (piperead_copy (nat n) pr pi addr 0 s) (\<lambda>i s.
        bnd (wakeup (Pipe_nwrite pi) s) (\<lambda>_ s.
          bnd (release (Pipe_lock pi) s) (\<lambda>_ s. Ret i s))))"

definition piperead :: "uint64 \<Rightarrow> uint64 \<Rightarrow> int \<Rightarrow> 'a kfile_scheme \<Rightarrow> (int, 'a kfile_scheme) outcome" where
  "piperead pi addr n s =
     bnd (curproc s) (\<lambda>pr s.
       bnd (acquire (Pipe_lock pi) s) (\<lambda>_ s. piperead_loop pr pi addr n s))"

definition piperead_resume :: "bool \<Rightarrow> nat \<Rightarrow> uint64 \<Rightarrow> uint64 \<Rightarrow> int \<Rightarrow> 'a kfile_scheme \<Rightarrow>
    (int, 'a kfile_scheme) outcome" where
  "piperead_resume old pr pi addr n s =
     bnd (sleep_resume pr (Pipe_lock pi) old s) (\<lambda>_ s. piperead_loop pr pi addr n s)"

section \<open>Files\<close>

definition fileinit :: "'a kfile_scheme \<Rightarrow> 'a kfile_scheme" where
  "fileinit s = initlock Ftable_lock ''ftable'' s"

definition filealloc :: "'a kfile_scheme \<Rightarrow> (nat option, 'a kfile_scheme) outcome" where
  "filealloc s =
     bnd (acquire Ftable_lock s) (\<lambda>_ s.
       case List.find (\<lambda>f. f_ref (files s f) = 0) [0..<NFILE] of
         Some f \<Rightarrow> bnd (release Ftable_lock (upd_file f (\<lambda>q. q\<lparr>f_ref := 1\<rparr>) s)) (\<lambda>_ s. Ret (Some f) s)
       | None \<Rightarrow> bnd (release Ftable_lock s) (\<lambda>_ s. Ret None s))"

definition filedup :: "nat \<Rightarrow> 'a kfile_scheme \<Rightarrow> (nat, 'a kfile_scheme) outcome" where
  "filedup f s =
     bnd (acquire Ftable_lock s) (\<lambda>_ s.
       if f_ref (files s f) < 1 then Panic ''filedup''
       else bnd (release Ftable_lock (upd_file f (\<lambda>q. q\<lparr>f_ref := f_ref q + 1\<rparr>) s)) (\<lambda>_ s. Ret f s))"

definition fileclose :: "nat \<Rightarrow> 'a kfile_scheme \<Rightarrow> (unit, 'a kfile_scheme) outcome" where
  "fileclose f s =
     bnd (acquire Ftable_lock s) (\<lambda>_ s.
       if f_ref (files s f) < 1 then Panic ''fileclose''
       else
         let s = upd_file f (\<lambda>q. q\<lparr>f_ref := f_ref q - 1\<rparr>) s
         in if 0 < f_ref (files s f) then release Ftable_lock s
            else
              let ff = files s f;
                  s = upd_file f (\<lambda>q. q\<lparr>f_ref := 0, f_type := FD_NONE\<rparr>) s
              in bnd (release Ftable_lock s) (\<lambda>_ s.
                 if f_type ff = FD_PIPE then pipeclose (f_pipe ff) (f_writable ff) s
                 else if f_type ff = FD_INODE \<or> f_type ff = FD_DEVICE then
                   bnd (begin_op s) (\<lambda>_ s.
                     bnd (deref (f_ip ff) s) (\<lambda>ip s.
                       bnd (iput ip s) (\<lambda>_ s. end_op s)))
                 else Ret () s))"

definition pipealloc :: "'a kfile_scheme \<Rightarrow> ((nat \<times> nat) option, 'a kfile_scheme) outcome" where
  "pipealloc s =
     bnd (filealloc s) (\<lambda>r0 s.
       case r0 of
         None \<Rightarrow> Ret None s
       | Some f0 \<Rightarrow>
           bnd (filealloc s) (\<lambda>r1 s.
             case r1 of
               None \<Rightarrow> bnd (fileclose f0 s) (\<lambda>_ s. Ret None s)
             | Some f1 \<Rightarrow>
                 bnd (kalloc s) (\<lambda>pi s.
                   if pi = 0 then
                     bnd (fileclose f0 s) (\<lambda>_ s. bnd (fileclose f1 s) (\<lambda>_ s. Ret None s))
                   else
                     let s = upd_pipe pi (\<lambda>q. q\<lparr>pi_readopen := True, pi_writeopen := True,
                               pi_nwrite := 0, pi_nread := 0\<rparr>) s;
                         s = initlock (Pipe_lock pi) ''pipe'' s;
                         s = upd_file f0 (\<lambda>q. q\<lparr>f_type := FD_PIPE, f_readable := True,
                               f_writable := False, f_pipe := pi\<rparr>) s;
                         s = upd_file f1 (\<lambda>q. q\<lparr>f_type := FD_PIPE, f_readable := False,
                               f_writable := True, f_pipe := pi\<rparr>) s
                     in Ret (Some (f0, f1)) s)))"

definition enc_stat :: "stat \<Rightarrow> byte list \<Rightarrow> byte list" where
  "enc_stat st pad = enc 4 (word_of_int (st_dev st) :: uint32) @ enc 4 (st_ino st) @ enc 2 (st_type st) @
     enc 2 (st_nlink st) @ pad @ enc 8 (st_size st)"

definition filestat :: "nat \<Rightarrow> uint64 \<Rightarrow> 'a kfile_scheme \<Rightarrow> (int, 'a kfile_scheme) outcome" where
  "filestat f addr s =
     bnd (curproc s) (\<lambda>p s.
       if f_type (files s f) = FD_INODE \<or> f_type (files s f) = FD_DEVICE then
         bnd (deref (f_ip (files s f)) s) (\<lambda>ip s.
           bnd (ilock ip s) (\<lambda>_ s.
             let st = stati ip s
             in bnd (iunlock ip s) (\<lambda>_ s.
                bnd (copyout (p_pagetable (procs s p)) addr (enc_stat st (stat_pad s)) s) (\<lambda>r s.
                  if r < 0 then Ret (-1) s else Ret 0 s))))
       else Ret (-1) s)"

text \<open>\<open>dev_index m\<close>: the test of a major number against \<^verbatim>\<open>NDEV\<close>, as a signed 16-bit number.\<close>

definition dev_index :: "ushort \<Rightarrow> nat option" where
  "dev_index m = (if sint m < 0 \<or> int NDEV \<le> sint m then None else Some (nat (sint m)))"

definition fileread :: "nat \<Rightarrow> uint64 \<Rightarrow> int \<Rightarrow> 'a kfile_scheme \<Rightarrow> (int, 'a kfile_scheme) outcome" where
  "fileread f addr n s =
     (if \<not> f_readable (files s f) then Ret (-1) s
      else case f_type (files s f) of
        FD_PIPE \<Rightarrow> piperead (f_pipe (files s f)) addr n s
      | FD_DEVICE \<Rightarrow>
          (case dev_index (f_major (files s f)) of
             None \<Rightarrow> Ret (-1) s
           | Some m \<Rightarrow> if \<not> devsw_read s m then Ret (-1) s else consoleread True addr n s)
      | FD_INODE \<Rightarrow>
          bnd (deref (f_ip (files s f)) s) (\<lambda>ip s.
            bnd (ilock ip s) (\<lambda>_ s.
              bnd (readi ip (To_user addr) (f_off (files s f)) (word_of_int n) s) (\<lambda>(r, _) s.
                let s = (if 0 < r then upd_file f (\<lambda>q. q\<lparr>f_off := f_off q + word_of_int r\<rparr>) s else s)
                in bnd (iunlock ip s) (\<lambda>_ s. Ret r s))))
      | FD_NONE \<Rightarrow> Panic ''fileread'')"

definition write_max :: nat where
  "write_max = ((MAXOPBLOCKS - 1 - 1 - 2) div 2) * BSIZE"

function filewrite_loop :: "nat \<Rightarrow> nat \<Rightarrow> uint64 \<Rightarrow> nat \<Rightarrow> nat \<Rightarrow> 'a kfile_scheme \<Rightarrow> (int, 'a kfile_scheme) outcome" where
  "filewrite_loop f ip addr n i s =
     (if i < n then
        let n1 = min (n - i) write_max
        in bnd (begin_op s) (\<lambda>_ s.
           bnd (ilock ip s) (\<lambda>_ s.
             bnd (writei ip (From_user (addr + of_nat i)) (f_off (files s f)) (of_nat n1) s) (\<lambda>r s.
               let s = (if 0 < r then upd_file f (\<lambda>q. q\<lparr>f_off := f_off q + word_of_int r\<rparr>) s else s)
               in bnd (iunlock ip s) (\<lambda>_ s.
                  bnd (end_op s) (\<lambda>_ s.
                    if r < 0 then Ret (-1) s
                    else if r \<noteq> int n1 then Panic ''short filewrite''
                    else filewrite_loop f ip addr n (i + n1) s)))))
      else Ret (int n) s)"
  by pat_completeness auto
termination
  by (relation "measure (\<lambda>(_, _, _, n, i, _). n - i)") (auto simp: write_max_def MAXOPBLOCKS_def BSIZE_def)

declare filewrite_loop.simps [simp del]

definition filewrite :: "nat \<Rightarrow> uint64 \<Rightarrow> int \<Rightarrow> 'a kfile_scheme \<Rightarrow> (int, 'a kfile_scheme) outcome" where
  "filewrite f addr n s =
     (if \<not> f_writable (files s f) then Ret (-1) s
      else case f_type (files s f) of
        FD_PIPE \<Rightarrow> pipewrite (f_pipe (files s f)) addr n s
      | FD_DEVICE \<Rightarrow>
          (case dev_index (f_major (files s f)) of
             None \<Rightarrow> Ret (-1) s
           | Some m \<Rightarrow> if \<not> devsw_write s m then Ret (-1) s else consolewrite True addr n s)
      | FD_INODE \<Rightarrow>
          if n \<le> 0 then Ret (if n = 0 then 0 else -1) s
          else bnd (deref (f_ip (files s f)) s) (\<lambda>ip s. filewrite_loop f ip addr (nat n) 0 s)
      | FD_NONE \<Rightarrow> Panic ''filewrite'')"

end
