(* ===== verification/Lifecycle.thy ===== *)
theory Lifecycle
  imports Files
begin

text \<open>
  The life of a process: the routines of \<^verbatim>\<open>kernel/proc.c\<close> that create and end processes and so
  need open files and inodes.
\<close>

text \<open>\<^verbatim>\<open>safestrcpy\<close> into a 16-byte name: at most 15 bytes, then a NUL; the rest stays.\<close>

definition set_name :: "byte list \<Rightarrow> byte list \<Rightarrow> byte list" where
  "set_name src old = put_at 0 (take 15 (takeWhile (\<lambda>b. b \<noteq> 0) src) @ [0]) old"

definition initcode :: "byte list" where
  "initcode = [
     0x17, 0x05, 0x00, 0x00, 0x13, 0x05, 0x45, 0x02,
     0x97, 0x05, 0x00, 0x00, 0x93, 0x85, 0x35, 0x02,
     0x93, 0x08, 0x70, 0x00, 0x73, 0x00, 0x00, 0x00,
     0x93, 0x08, 0x20, 0x00, 0x73, 0x00, 0x00, 0x00,
     0xef, 0xf0, 0x9f, 0xff, 0x2f, 0x69, 0x6e, 0x69,
     0x74, 0x00, 0x00, 0x24, 0x00, 0x00, 0x00, 0x00,
     0x00, 0x00, 0x00, 0x00]"

definition userinit :: "'a kfile_scheme \<Rightarrow> (unit, 'a kfile_scheme) outcome" where
  "userinit s =
     bnd (allocproc s) (\<lambda>r s.
       let s = s\<lparr>initproc := r\<rparr>
       in bnd (deref r s) (\<lambda>p s.
          bnd (uvminit (p_pagetable (procs s p)) initcode (of_nat (length initcode)) s) (\<lambda>_ s.
            let s = upd_proc p (\<lambda>q. q\<lparr>p_sz := PGSIZE\<rparr>) s;
                s = tf_put p tf_epc 0 s;
                s = tf_put p tf_sp PGSIZE s;
                s = upd_proc p (\<lambda>q. q\<lparr>p_name := set_name (chars ''initcode'') (p_name q)\<rparr>) s
            in bnd (namei [slash] s) (\<lambda>ip s.
               release (Proc_lock p) (upd_proc p (\<lambda>q. q\<lparr>p_cwd := ip, p_state := RUNNABLE\<rparr>) s)))))"

definition fork :: "'a kfile_scheme \<Rightarrow> (int, 'a kfile_scheme) outcome" where
  "fork s =
     bnd (curproc s) (\<lambda>p s.
       bnd (allocproc s) (\<lambda>r s.
         case r of
           None \<Rightarrow> Ret (-1) s
         | Some np \<Rightarrow>
             bnd (uvmcopy (p_pagetable (procs s p)) (p_pagetable (procs s np)) (p_sz (procs s p)) s) (\<lambda>r s.
               if r < 0 then
                 bnd (freeproc np s) (\<lambda>_ s. bnd (release (Proc_lock np) s) (\<lambda>_ s. Ret (-1) s))
               else
                 let s = upd_proc np (\<lambda>q. q\<lparr>p_sz := p_sz (procs s p), p_parent := Some p\<rparr>) s;
                     s = s\<lparr>mem := memmove (mem s) (p_trapframe (procs s np)) (p_trapframe (procs s p))
                           sizeof_trapframe\<rparr>;
                     s = tf_put np tf_a0 0 s
                 in bnd (foreach [0..<NOFILE] (\<lambda>i s.
                      case p_ofile (procs s p) i of
                        None \<Rightarrow> Ret (None :: unit option) s
                      | Some f \<Rightarrow> bnd (filedup f s) (\<lambda>f s.
                          Ret None (upd_proc np (\<lambda>q. q\<lparr>p_ofile := (p_ofile q)(i := Some f)\<rparr>) s))) s) (\<lambda>_ s.
                    bnd (deref (p_cwd (procs s p)) s) (\<lambda>c s.
                      bnd (idup c s) (\<lambda>c s.
                        let s = upd_proc np (\<lambda>q. q\<lparr>p_cwd := Some c,
                                  p_name := set_name (p_name (procs s p)) (p_name q)\<rparr>) s;
                            pid = p_pid (procs s np);
                            s = upd_proc np (\<lambda>q. q\<lparr>p_state := RUNNABLE\<rparr>) s
                        in bnd (release (Proc_lock np) s) (\<lambda>_ s. Ret pid s)))))))"

definition exit_close :: "nat \<Rightarrow> 'a kfile_scheme \<Rightarrow> (unit, 'a kfile_scheme) outcome" where
  "exit_close p s =
     bnd (foreach [0..<NOFILE] (\<lambda>fd s.
       case p_ofile (procs s p) fd of
         None \<Rightarrow> Ret (None :: unit option) s
       | Some f \<Rightarrow> bnd (fileclose f s) (\<lambda>_ s.
           Ret None (upd_proc p (\<lambda>q. q\<lparr>p_ofile := (p_ofile q)(fd := None)\<rparr>) s))) s) (\<lambda>_ s. Ret () s)"

definition exit :: "int \<Rightarrow> 'a kfile_scheme \<Rightarrow> (unit, 'a kfile_scheme) outcome" where
  "exit status s =
     bnd (myproc s) (\<lambda>r s.
       if r = initproc s then Panic ''init exiting''
       else bnd (deref r s) (\<lambda>p s.
         bnd (exit_close p s) (\<lambda>_ s.
           bnd (begin_op s) (\<lambda>_ s.
             bnd (deref (p_cwd (procs s p)) s) (\<lambda>c s.
               bnd (iput c s) (\<lambda>_ s.
                 bnd (end_op s) (\<lambda>_ s.
                   let s = upd_proc p (\<lambda>q. q\<lparr>p_cwd := None\<rparr>) s
                   in bnd (deref (initproc s) s) (\<lambda>ini s.
                      bnd (acquire (Proc_lock ini) s) (\<lambda>_ s.
                        bnd (wakeup1 ini s) (\<lambda>_ s.
                          bnd (release (Proc_lock ini) s) (\<lambda>_ s.
                            bnd (acquire (Proc_lock p) s) (\<lambda>_ s.
                              let parent = p_parent (procs s p)
                              in bnd (release (Proc_lock p) s) (\<lambda>_ s.
                                 bnd (deref parent s) (\<lambda>pp s.
                                   bnd (acquire (Proc_lock pp) s) (\<lambda>_ s.
                                     bnd (acquire (Proc_lock p) s) (\<lambda>_ s.
                                       bnd (reparent p s) (\<lambda>_ s.
                                         bnd (wakeup1 pp s) (\<lambda>_ s.
                                           let s = upd_proc p (\<lambda>q. q\<lparr>p_xstate := status,
                                                     p_state := ZOMBIE\<rparr>) s
                                           in bnd (release (Proc_lock pp) s) (\<lambda>_ s.
                                              bnd (sched s) (\<lambda>_ s.
                                                Panic ''zombie exit''))))))))))))))))))))"

end
