(* ===== verification/Syscalls.thy ===== *)
theory Syscalls
  imports Lifecycle Fcntl
begin

text \<open>
  System calls: argument fetching of \<^verbatim>\<open>kernel/syscall.c\<close>, the process calls of
  \<^verbatim>\<open>kernel/sysproc.c\<close>, the file calls of \<^verbatim>\<open>kernel/sysfile.c\<close>, \<^verbatim>\<open>kernel/exec.c\<close>, and the dispatcher.
  A system call returns the value the source returns before it is widened to 64 bits.
\<close>

record ksys = kfile +
  ticks :: uint32

section \<open>Arguments\<close>

definition fetchaddr :: "uint64 \<Rightarrow> 'a ksys_scheme \<Rightarrow> (uint64 option, 'a ksys_scheme) outcome" where
  "fetchaddr addr s =
     bnd (curproc s) (\<lambda>p s.
       if p_sz (procs s p) \<le> addr \<or> p_sz (procs s p) < addr + 8 then Ret None s
       else bnd (copyin (p_pagetable (procs s p)) addr 8 s) (\<lambda>(r, bs) s.
         if r \<noteq> 0 then Ret None s else Ret (Some (dec bs)) s))"

text \<open>The string without its NUL; \<open>None\<close> for \<^verbatim>\<open>-1\<close>.\<close>

definition fetchstr :: "uint64 \<Rightarrow> nat \<Rightarrow> 'a ksys_scheme \<Rightarrow> (byte list option, 'a ksys_scheme) outcome" where
  "fetchstr addr mx s =
     bnd (curproc s) (\<lambda>p s.
       bnd (copyinstr (p_pagetable (procs s p)) addr mx s) (\<lambda>(r, bs) s.
         if r < 0 then Ret None s else Ret (Some (takeWhile (\<lambda>b. b \<noteq> 0) bs)) s))"

definition argraw :: "nat \<Rightarrow> 'a ksys_scheme \<Rightarrow> (uint64, 'a ksys_scheme) outcome" where
  "argraw n s =
     bnd (curproc s) (\<lambda>p s.
       if n = 0 then Ret (tf_get p tf_a0 s) s
       else if n = 1 then Ret (tf_get p tf_a1 s) s
       else if n = 2 then Ret (tf_get p tf_a2 s) s
       else if n = 3 then Ret (tf_get p tf_a3 s) s
       else if n = 4 then Ret (tf_get p tf_a4 s) s
       else if n = 5 then Ret (tf_get p tf_a5 s) s
       else Panic ''argraw'')"

definition argint :: "nat \<Rightarrow> 'a ksys_scheme \<Rightarrow> (int, 'a ksys_scheme) outcome" where
  "argint n s = bnd (argraw n s) (\<lambda>v s. Ret (sint (ucast v :: uint32)) s)"

definition argaddr :: "nat \<Rightarrow> 'a ksys_scheme \<Rightarrow> (uint64, 'a ksys_scheme) outcome" where
  "argaddr n s = argraw n s"

definition argstr :: "nat \<Rightarrow> nat \<Rightarrow> 'a ksys_scheme \<Rightarrow> (byte list option, 'a ksys_scheme) outcome" where
  "argstr n mx s = bnd (argaddr n s) (\<lambda>addr s. fetchstr addr mx s)"

definition argfd :: "nat \<Rightarrow> 'a ksys_scheme \<Rightarrow> ((nat \<times> nat) option, 'a ksys_scheme) outcome" where
  "argfd n s =
     bnd (argint n s) (\<lambda>fd s.
       if fd < 0 \<or> int NOFILE \<le> fd then Ret None s
       else bnd (curproc s) (\<lambda>p s.
         case p_ofile (procs s p) (nat fd) of
           None \<Rightarrow> Ret None s
         | Some f \<Rightarrow> Ret (Some (nat fd, f)) s))"

definition fdalloc :: "nat \<Rightarrow> 'a ksys_scheme \<Rightarrow> (nat option, 'a ksys_scheme) outcome" where
  "fdalloc f s =
     bnd (curproc s) (\<lambda>p s.
       case List.find (\<lambda>fd. p_ofile (procs s p) fd = None) [0..<NOFILE] of
         Some fd \<Rightarrow> Ret (Some fd) (upd_proc p (\<lambda>q. q\<lparr>p_ofile := (p_ofile q)(fd := Some f)\<rparr>) s)
       | None \<Rightarrow> Ret None s)"

section \<open>Process calls\<close>

definition sys_exit :: "'a ksys_scheme \<Rightarrow> (int, 'a ksys_scheme) outcome" where
  "sys_exit s = bnd (argint 0 s) (\<lambda>n s. bnd (exit n s) (\<lambda>_ s. Ret 0 s))"

definition sys_getpid :: "'a ksys_scheme \<Rightarrow> (int, 'a ksys_scheme) outcome" where
  "sys_getpid s = bnd (curproc s) (\<lambda>p s. Ret (p_pid (procs s p)) s)"

definition sys_fork :: "'a ksys_scheme \<Rightarrow> (int, 'a ksys_scheme) outcome" where
  "sys_fork s = fork s"

definition sys_wait :: "'a ksys_scheme \<Rightarrow> (int, 'a ksys_scheme) outcome" where
  "sys_wait s = bnd (argaddr 0 s) (\<lambda>p s. wait p s)"

definition sys_sbrk :: "'a ksys_scheme \<Rightarrow> (int, 'a ksys_scheme) outcome" where
  "sys_sbrk s =
     bnd (argint 0 s) (\<lambda>n s.
       bnd (curproc s) (\<lambda>p s.
         let addr = sint (ucast (p_sz (procs s p)) :: uint32)
         in bnd (growproc n s) (\<lambda>r s. if r < 0 then Ret (-1) s else Ret addr s)))"

definition sys_sleep_loop :: "uint32 \<Rightarrow> int \<Rightarrow> 'a ksys_scheme \<Rightarrow> (int, 'a ksys_scheme) outcome" where
  "sys_sleep_loop ticks0 n s =
     (if ticks s - ticks0 < word_of_int n then
        bnd (curproc s) (\<lambda>p s.
          if p_killed (procs s p) then bnd (release Ticks_lock s) (\<lambda>_ s. Ret (-1) s)
          else bnd (sleep Ticks_chan Ticks_lock s) (\<lambda>_ s. Ret (-1) s))
      else bnd (release Ticks_lock s) (\<lambda>_ s. Ret 0 s))"

definition sys_sleep :: "'a ksys_scheme \<Rightarrow> (int, 'a ksys_scheme) outcome" where
  "sys_sleep s =
     bnd (argint 0 s) (\<lambda>n s.
       bnd (acquire Ticks_lock s) (\<lambda>_ s. sys_sleep_loop (ticks s) n s))"

definition sys_sleep_resume :: "nat \<Rightarrow> bool \<Rightarrow> uint32 \<Rightarrow> int \<Rightarrow> 'a ksys_scheme \<Rightarrow> (int, 'a ksys_scheme) outcome" where
  "sys_sleep_resume p old ticks0 n s =
     bnd (sleep_resume p Ticks_lock old s) (\<lambda>_ s. sys_sleep_loop ticks0 n s)"

definition sys_kill :: "'a ksys_scheme \<Rightarrow> (int, 'a ksys_scheme) outcome" where
  "sys_kill s = bnd (argint 0 s) (\<lambda>pid s. kill pid s)"

definition sys_uptime :: "'a ksys_scheme \<Rightarrow> (int, 'a ksys_scheme) outcome" where
  "sys_uptime s =
     bnd (acquire Ticks_lock s) (\<lambda>_ s.
       let x = ticks s in bnd (release Ticks_lock s) (\<lambda>_ s. Ret (uint x) s))"

section \<open>File calls\<close>

definition sys_dup :: "'a ksys_scheme \<Rightarrow> (int, 'a ksys_scheme) outcome" where
  "sys_dup s =
     bnd (argfd 0 s) (\<lambda>r s.
       case r of
         None \<Rightarrow> Ret (-1) s
       | Some (_, f) \<Rightarrow>
           bnd (fdalloc f s) (\<lambda>r s.
             case r of
               None \<Rightarrow> Ret (-1) s
             | Some fd \<Rightarrow> bnd (filedup f s) (\<lambda>_ s. Ret (int fd) s)))"

definition sys_read :: "'a ksys_scheme \<Rightarrow> (int, 'a ksys_scheme) outcome" where
  "sys_read s =
     bnd (argfd 0 s) (\<lambda>r s.
       case r of
         None \<Rightarrow> Ret (-1) s
       | Some (_, f) \<Rightarrow> bnd (argint 2 s) (\<lambda>n s. bnd (argaddr 1 s) (\<lambda>p s. fileread f p n s)))"

definition sys_write :: "'a ksys_scheme \<Rightarrow> (int, 'a ksys_scheme) outcome" where
  "sys_write s =
     bnd (argfd 0 s) (\<lambda>r s.
       case r of
         None \<Rightarrow> Ret (-1) s
       | Some (_, f) \<Rightarrow> bnd (argint 2 s) (\<lambda>n s. bnd (argaddr 1 s) (\<lambda>p s. filewrite f p n s)))"

definition sys_close :: "'a ksys_scheme \<Rightarrow> (int, 'a ksys_scheme) outcome" where
  "sys_close s =
     bnd (argfd 0 s) (\<lambda>r s.
       case r of
         None \<Rightarrow> Ret (-1) s
       | Some (fd, f) \<Rightarrow>
           bnd (curproc s) (\<lambda>p s.
             bnd (fileclose f (upd_proc p (\<lambda>q. q\<lparr>p_ofile := (p_ofile q)(fd := None)\<rparr>) s)) (\<lambda>_ s. Ret 0 s)))"

definition sys_fstat :: "'a ksys_scheme \<Rightarrow> (int, 'a ksys_scheme) outcome" where
  "sys_fstat s =
     bnd (argfd 0 s) (\<lambda>r s.
       case r of
         None \<Rightarrow> Ret (-1) s
       | Some (_, f) \<Rightarrow> bnd (argaddr 1 s) (\<lambda>st s. filestat f st s))"

text \<open>The tail of \<^verbatim>\<open>sys_link\<close> at its label \<^verbatim>\<open>bad\<close>.\<close>

definition link_bad :: "nat \<Rightarrow> 'a ksys_scheme \<Rightarrow> (int, 'a ksys_scheme) outcome" where
  "link_bad ip s =
     bnd (ilock ip s) (\<lambda>_ s.
       bnd (iupdate ip (upd_inode ip (\<lambda>q. q\<lparr>i_nlink := i_nlink q - 1\<rparr>) s)) (\<lambda>_ s.
         bnd (iunlockput ip s) (\<lambda>_ s.
           bnd (end_op s) (\<lambda>_ s. Ret (-1) s))))"

definition sys_link :: "'a ksys_scheme \<Rightarrow> (int, 'a ksys_scheme) outcome" where
  "sys_link s =
     bnd (argstr 0 MAXPATH s) (\<lambda>old s.
       bnd (if old = None then Ret None s else argstr 1 MAXPATH s) (\<lambda>new s.
         case (old, new) of
           (Some old, Some new) \<Rightarrow>
             bnd (begin_op s) (\<lambda>_ s.
               bnd (namei old s) (\<lambda>r s.
                 case r of
                   None \<Rightarrow> bnd (end_op s) (\<lambda>_ s. Ret (-1) s)
                 | Some ip \<Rightarrow>
                     bnd (ilock ip s) (\<lambda>_ s.
                       if i_type (inodes s ip) = T_DIR then
                         bnd (iunlockput ip s) (\<lambda>_ s. bnd (end_op s) (\<lambda>_ s. Ret (-1) s))
                       else
                         bnd (iupdate ip (upd_inode ip (\<lambda>q. q\<lparr>i_nlink := i_nlink q + 1\<rparr>) s)) (\<lambda>_ s.
                           bnd (iunlock ip s) (\<lambda>_ s.
                             bnd (nameiparent new s) (\<lambda>(r, name) s.
                               case r of
                                 None \<Rightarrow> link_bad ip s
                               | Some dp \<Rightarrow>
                                   bnd (ilock dp s) (\<lambda>_ s.
                                     bnd (if i_dev (inodes s dp) \<noteq> i_dev (inodes s ip) then Ret (-1) s
                                          else dirlink dp name (i_inum (inodes s ip)) s) (\<lambda>r s.
                                       if r < 0 then bnd (iunlockput dp s) (\<lambda>_ s. link_bad ip s)
                                       else bnd (iunlockput dp s) (\<lambda>_ s.
                                         bnd (iput ip s) (\<lambda>_ s.
                                           bnd (end_op s) (\<lambda>_ s. Ret 0 s)))))))))))
         | _ \<Rightarrow> Ret (-1) s))"

definition isdirempty :: "nat \<Rightarrow> 'a ksys_scheme \<Rightarrow> (bool, 'a ksys_scheme) outcome" where
  "isdirempty dp s =
     bnd (foreach (drop 2 (de_offsets (i_size (inodes s dp)))) (\<lambda>off s.
       bnd (readi dp To_local (of_nat off) (of_nat dirent_size) s) (\<lambda>(r, de) s.
         if r \<noteq> int dirent_size then Panic ''isdirempty: readi''
         else if de_inum de \<noteq> 0 then Ret (Some ()) s else Ret None s)) s) (\<lambda>r s. Ret (r = None) s)"

definition unlink_bad :: "nat \<Rightarrow> 'a ksys_scheme \<Rightarrow> (int, 'a ksys_scheme) outcome" where
  "unlink_bad dp s = bnd (iunlockput dp s) (\<lambda>_ s. bnd (end_op s) (\<lambda>_ s. Ret (-1) s))"

definition dot :: byte where "dot = 46"

definition sys_unlink :: "'a ksys_scheme \<Rightarrow> (int, 'a ksys_scheme) outcome" where
  "sys_unlink s =
     bnd (argstr 0 MAXPATH s) (\<lambda>path s.
       case path of
         None \<Rightarrow> Ret (-1) s
       | Some path \<Rightarrow>
           bnd (begin_op s) (\<lambda>_ s.
             bnd (nameiparent path s) (\<lambda>(r, name) s.
               case r of
                 None \<Rightarrow> bnd (end_op s) (\<lambda>_ s. Ret (-1) s)
               | Some dp \<Rightarrow>
                   bnd (ilock dp s) (\<lambda>_ s.
                     if namecmp name [dot] = 0 \<or> namecmp name [dot, dot] = 0 then unlink_bad dp s
                     else bnd (dirlookup dp name s) (\<lambda>r s.
                       case r of
                         None \<Rightarrow> unlink_bad dp s
                       | Some (ip, off) \<Rightarrow>
                           bnd (ilock ip s) (\<lambda>_ s.
                             if sint (i_nlink (inodes s ip)) < 1 then Panic ''unlink: nlink < 1''
                             else bnd (if i_type (inodes s ip) = T_DIR then isdirempty ip s else Ret True s) (\<lambda>e s.
                               if \<not> e then bnd (iunlockput ip s) (\<lambda>_ s. unlink_bad dp s)
                               else bnd (writei dp (From_local (replicate 16 0)) off (of_nat dirent_size) s) (\<lambda>r s.
                                 if r \<noteq> int dirent_size then Panic ''unlink: writei''
                                 else
                                   bnd (if i_type (inodes s ip) = T_DIR
                                        then iupdate dp (upd_inode dp (\<lambda>q. q\<lparr>i_nlink := i_nlink q - 1\<rparr>) s)
                                        else Ret () s) (\<lambda>_ s.
                                     bnd (iunlockput dp s) (\<lambda>_ s.
                                       bnd (iupdate ip (upd_inode ip (\<lambda>q. q\<lparr>i_nlink := i_nlink q - 1\<rparr>) s)) (\<lambda>_ s.
                                         bnd (iunlockput ip s) (\<lambda>_ s.
                                           bnd (end_op s) (\<lambda>_ s. Ret 0 s)))))))))))))"

definition create :: "byte list \<Rightarrow> ushort \<Rightarrow> ushort \<Rightarrow> ushort \<Rightarrow> 'a ksys_scheme \<Rightarrow> (nat option, 'a ksys_scheme) outcome" where
  "create path ty major minor s =
     bnd (nameiparent path s) (\<lambda>(r, name) s.
       case r of
         None \<Rightarrow> Ret None s
       | Some dp \<Rightarrow>
           bnd (ilock dp s) (\<lambda>_ s.
             bnd (dirlookup dp name s) (\<lambda>r s.
               case r of
                 Some (ip, _) \<Rightarrow>
                   bnd (iunlockput dp s) (\<lambda>_ s.
                     bnd (ilock ip s) (\<lambda>_ s.
                       if ty = T_FILE \<and> (i_type (inodes s ip) = T_FILE \<or> i_type (inodes s ip) = T_DEVICE)
                       then Ret (Some ip) s
                       else bnd (iunlockput ip s) (\<lambda>_ s. Ret None s)))
               | None \<Rightarrow>
                   bnd (ialloc (i_dev (inodes s dp)) ty s) (\<lambda>ip s.
                     bnd (ilock ip s) (\<lambda>_ s.
                       bnd (iupdate ip (upd_inode ip (\<lambda>q. q\<lparr>i_major := major, i_minor := minor,
                              i_nlink := 1\<rparr>) s)) (\<lambda>_ s.
                         bnd (if ty = T_DIR then
                                bnd (iupdate dp (upd_inode dp (\<lambda>q. q\<lparr>i_nlink := i_nlink q + 1\<rparr>) s)) (\<lambda>_ s.
                                  bnd (dirlink ip [dot] (i_inum (inodes s ip)) s) (\<lambda>r s.
                                    bnd (if r < 0 then Ret r s
                                         else dirlink ip [dot, dot] (i_inum (inodes s dp)) s) (\<lambda>r s.
                                      if r < 0 then Panic ''create dots'' else Ret () s)))
                              else Ret () s) (\<lambda>_ s.
                           bnd (dirlink dp name (i_inum (inodes s ip)) s) (\<lambda>r s.
                             if r < 0 then Panic ''create: dirlink''
                             else bnd (iunlockput dp s) (\<lambda>_ s. Ret (Some ip) s)))))))))"

text \<open>\<^verbatim>\<open>sys_open\<close> from the check of a device's major number on, with the inode locked.\<close>

definition open_inode :: "nat \<Rightarrow> uint32 \<Rightarrow> 'a ksys_scheme \<Rightarrow> (int, 'a ksys_scheme) outcome" where
  "open_inode ip omode s =
     (if i_type (inodes s ip) = T_DEVICE \<and> dev_index (i_major (inodes s ip)) = None then
        bnd (iunlockput ip s) (\<lambda>_ s. bnd (end_op s) (\<lambda>_ s. Ret (-1) s))
      else bnd (filealloc s) (\<lambda>r s.
        bnd (case r of None \<Rightarrow> Ret None s
             | Some f \<Rightarrow> bnd (fdalloc f s) (\<lambda>fd s. Ret (map_option (\<lambda>fd. (f, fd)) fd) s)) (\<lambda>r' s.
          case r' of
            None \<Rightarrow>
              bnd (case r of None \<Rightarrow> Ret () s | Some f \<Rightarrow> fileclose f s) (\<lambda>_ s.
                bnd (iunlockput ip s) (\<lambda>_ s. bnd (end_op s) (\<lambda>_ s. Ret (-1) s)))
          | Some (f, fd) \<Rightarrow>
              let s = (if i_type (inodes s ip) = T_DEVICE
                       then upd_file f (\<lambda>q. q\<lparr>f_type := FD_DEVICE, f_major := i_major (inodes s ip)\<rparr>) s
                       else upd_file f (\<lambda>q. q\<lparr>f_type := FD_INODE, f_off := 0\<rparr>) s);
                  s = upd_file f (\<lambda>q. q\<lparr>f_ip := Some ip, f_readable := (omode AND O_WRONLY = 0),
                        f_writable := (omode AND O_WRONLY \<noteq> 0 \<or> omode AND O_RDWR \<noteq> 0)\<rparr>) s
              in bnd (if omode AND O_TRUNC \<noteq> 0 \<and> i_type (inodes s ip) = T_FILE then itrunc ip s else Ret () s) (\<lambda>_ s.
                 bnd (iunlock ip s) (\<lambda>_ s.
                   bnd (end_op s) (\<lambda>_ s. Ret (int fd) s))))))"

definition sys_open :: "'a ksys_scheme \<Rightarrow> (int, 'a ksys_scheme) outcome" where
  "sys_open s =
     bnd (argstr 0 MAXPATH s) (\<lambda>path s.
       case path of
         None \<Rightarrow> Ret (-1) s
       | Some path \<Rightarrow>
           bnd (argint 1 s) (\<lambda>om s.
             let omode = (word_of_int om :: uint32)
             in bnd (begin_op s) (\<lambda>_ s.
                if omode AND O_CREATE \<noteq> 0 then
                  bnd (create path T_FILE 0 0 s) (\<lambda>r s.
                    case r of
                      None \<Rightarrow> bnd (end_op s) (\<lambda>_ s. Ret (-1) s)
                    | Some ip \<Rightarrow> open_inode ip omode s)
                else
                  bnd (namei path s) (\<lambda>r s.
                    case r of
                      None \<Rightarrow> bnd (end_op s) (\<lambda>_ s. Ret (-1) s)
                    | Some ip \<Rightarrow>
                        bnd (ilock ip s) (\<lambda>_ s.
                          if i_type (inodes s ip) = T_DIR \<and> omode \<noteq> O_RDONLY then
                            bnd (iunlockput ip s) (\<lambda>_ s. bnd (end_op s) (\<lambda>_ s. Ret (-1) s))
                          else open_inode ip omode s)))))"

definition sys_mkdir :: "'a ksys_scheme \<Rightarrow> (int, 'a ksys_scheme) outcome" where
  "sys_mkdir s =
     bnd (begin_op s) (\<lambda>_ s.
       bnd (argstr 0 MAXPATH s) (\<lambda>path s.
         bnd (case path of None \<Rightarrow> Ret None s | Some path \<Rightarrow> create path T_DIR 0 0 s) (\<lambda>r s.
           case r of
             None \<Rightarrow> bnd (end_op s) (\<lambda>_ s. Ret (-1) s)
           | Some ip \<Rightarrow> bnd (iunlockput ip s) (\<lambda>_ s. bnd (end_op s) (\<lambda>_ s. Ret 0 s)))))"

definition sys_mknod :: "'a ksys_scheme \<Rightarrow> (int, 'a ksys_scheme) outcome" where
  "sys_mknod s =
     bnd (begin_op s) (\<lambda>_ s.
       bnd (argstr 0 MAXPATH s) (\<lambda>path s.
         bnd (case path of
                None \<Rightarrow> Ret None s
              | Some path \<Rightarrow>
                  bnd (argint 1 s) (\<lambda>major s.
                    bnd (argint 2 s) (\<lambda>minor s.
                      create path T_DEVICE (word_of_int major) (word_of_int minor) s))) (\<lambda>r s.
           case r of
             None \<Rightarrow> bnd (end_op s) (\<lambda>_ s. Ret (-1) s)
           | Some ip \<Rightarrow> bnd (iunlockput ip s) (\<lambda>_ s. bnd (end_op s) (\<lambda>_ s. Ret 0 s)))))"

definition sys_chdir :: "'a ksys_scheme \<Rightarrow> (int, 'a ksys_scheme) outcome" where
  "sys_chdir s =
     bnd (curproc s) (\<lambda>p s.
       bnd (begin_op s) (\<lambda>_ s.
         bnd (argstr 0 MAXPATH s) (\<lambda>path s.
           bnd (case path of None \<Rightarrow> Ret None s | Some path \<Rightarrow> namei path s) (\<lambda>r s.
             case r of
               None \<Rightarrow> bnd (end_op s) (\<lambda>_ s. Ret (-1) s)
             | Some ip \<Rightarrow>
                 bnd (ilock ip s) (\<lambda>_ s.
                   if i_type (inodes s ip) \<noteq> T_DIR then
                     bnd (iunlockput ip s) (\<lambda>_ s. bnd (end_op s) (\<lambda>_ s. Ret (-1) s))
                   else
                     bnd (iunlock ip s) (\<lambda>_ s.
                       bnd (deref (p_cwd (procs s p)) s) (\<lambda>c s.
                         bnd (iput c s) (\<lambda>_ s.
                           bnd (end_op s) (\<lambda>_ s.
                             Ret 0 (upd_proc p (\<lambda>q. q\<lparr>p_cwd := Some ip\<rparr>) s))))))))))"

definition sys_pipe :: "'a ksys_scheme \<Rightarrow> (int, 'a ksys_scheme) outcome" where
  "sys_pipe s =
     bnd (curproc s) (\<lambda>p s.
       bnd (argaddr 0 s) (\<lambda>fdarray s.
         bnd (pipealloc s) (\<lambda>r s.
           case r of
             None \<Rightarrow> Ret (-1) s
           | Some (rfile, wfile) \<Rightarrow>
               bnd (fdalloc rfile s) (\<lambda>r0 s.
                 bnd (case r0 of None \<Rightarrow> Ret None s | Some _ \<Rightarrow> fdalloc wfile s) (\<lambda>r1 s.
                   case (r0, r1) of
                     (Some fd0, Some fd1) \<Rightarrow>
                       bnd (copyout (p_pagetable (procs s p)) fdarray (enc 4 (of_nat fd0 :: uint32)) s) (\<lambda>r s.
                         bnd (if r < 0 then Ret r s
                              else copyout (p_pagetable (procs s p)) (fdarray + 4) (enc 4 (of_nat fd1 :: uint32)) s) (\<lambda>r s.
                           if r < 0 then
                             let s = upd_proc p (\<lambda>q. q\<lparr>p_ofile := (p_ofile q)(fd0 := None, fd1 := None)\<rparr>) s
                             in bnd (fileclose rfile s) (\<lambda>_ s.
                                bnd (fileclose wfile s) (\<lambda>_ s. Ret (-1) s))
                           else Ret 0 s))
                   | _ \<Rightarrow>
                       let s = (case r0 of None \<Rightarrow> s
                                | Some fd0 \<Rightarrow> upd_proc p (\<lambda>q. q\<lparr>p_ofile := (p_ofile q)(fd0 := None)\<rparr>) s)
                       in bnd (fileclose rfile s) (\<lambda>_ s.
                          bnd (fileclose wfile s) (\<lambda>_ s. Ret (-1) s)))))))"

end
