(* ===== verification/Exec.thy ===== *)
theory Exec
  imports Syscalls
begin

text \<open>
  \<^verbatim>\<open>kernel/exec.c\<close>, \<^verbatim>\<open>kernel/elf.h\<close>, the system call \<^verbatim>\<open>sys_exec\<close>, and the dispatcher of
  \<^verbatim>\<open>kernel/syscall.c\<close>.  Argument strings are the bytes before the NUL.
\<close>

section \<open>ELF files\<close>

definition ELF_MAGIC :: uint32 where "ELF_MAGIC = 0x464C457F"
definition ELF_PROG_LOAD :: uint32 where "ELF_PROG_LOAD = 1"
definition sizeof_elfhdr :: nat where "sizeof_elfhdr = 64"
definition sizeof_proghdr :: nat where "sizeof_proghdr = 56"

definition get64 :: "nat \<Rightarrow> byte list \<Rightarrow> uint64" where
  "get64 off bs = dec (sub_bytes off 8 bs)"

record elfhdr =
  elf_magic :: uint32
  elf_entry :: uint64
  elf_phoff :: uint64
  elf_phnum :: ushort

definition get_elfhdr :: "byte list \<Rightarrow> elfhdr" where
  "get_elfhdr bs = \<lparr>elf_magic = get32 0 bs, elf_entry = get64 24 bs, elf_phoff = get64 32 bs,
     elf_phnum = dec (sub_bytes 56 2 bs)\<rparr>"

record proghdr =
  ph_type :: uint32
  ph_off :: uint64
  ph_vaddr :: uint64
  ph_filesz :: uint64
  ph_memsz :: uint64

definition get_proghdr :: "byte list \<Rightarrow> proghdr" where
  "get_proghdr bs = \<lparr>ph_type = get32 0 bs, ph_off = get64 8 bs, ph_vaddr = get64 16 bs,
     ph_filesz = get64 32 bs, ph_memsz = get64 40 bs\<rparr>"

section \<open>Loading a program\<close>

definition loadseg :: "uint64 \<Rightarrow> uint64 \<Rightarrow> nat \<Rightarrow> uint32 \<Rightarrow> uint32 \<Rightarrow> 'a ksys_scheme \<Rightarrow> (int, 'a ksys_scheme) outcome" where
  "loadseg pagetable va ip off sz s =
     (if va mod PGSIZE \<noteq> 0 then Panic ''loadseg: va must be page aligned''
      else bnd (foreach (map (\<lambda>k. k * 4096) [0..<(unat sz + 4095) div 4096]) (\<lambda>i s.
        bnd (walkaddr pagetable (va + of_nat i) s) (\<lambda>pa s.
          if pa = 0 then Panic ''loadseg: address should exist''
          else let n = min (unat sz - i) 4096
               in bnd (readi ip (To_mem pa) (off + of_nat i) (of_nat n) s) (\<lambda>(r, _) s.
                  if r \<noteq> int n then Ret (Some ()) s else Ret None s))) s) (\<lambda>r s.
        Ret (if r = None then 0 else -1) s))"

text \<open>
  The loop over the program headers, \<open>k\<close> of them to go: whether it succeeded, and the size
  reached.
\<close>

primrec exec_load :: "nat \<Rightarrow> uint32 \<Rightarrow> nat \<Rightarrow> uint64 \<Rightarrow> uint64 \<Rightarrow> 'a ksys_scheme \<Rightarrow> (bool \<times> uint64, 'a ksys_scheme) outcome" where
  "exec_load 0 off ip pagetable sz s = Ret (True, sz) s"
| "exec_load (Suc k) off ip pagetable sz s =
     bnd (readi ip To_local off (of_nat sizeof_proghdr) s) (\<lambda>(r, bs) s.
       if r \<noteq> int sizeof_proghdr then Ret (False, sz) s
       else let ph = get_proghdr bs; off' = off + of_nat sizeof_proghdr
            in if ph_type ph \<noteq> ELF_PROG_LOAD then exec_load k off' ip pagetable sz s
               else if ph_memsz ph < ph_filesz ph then Ret (False, sz) s
               else if ph_vaddr ph + ph_memsz ph < ph_vaddr ph then Ret (False, sz) s
               else bnd (uvmalloc pagetable sz (ph_vaddr ph + ph_memsz ph) s) (\<lambda>sz1 s.
                 if sz1 = 0 then Ret (False, sz) s
                 else if ph_vaddr ph mod PGSIZE \<noteq> 0 then Ret (False, sz1) s
                 else bnd (loadseg pagetable (ph_vaddr ph) ip (ucast (ph_off ph)) (ucast (ph_filesz ph)) s) (\<lambda>r s.
                   if r < 0 then Ret (False, sz1) s else exec_load k off' ip pagetable sz1 s)))"

text \<open>
  The argument strings pushed on the new stack: the stack pointer and the pointers pushed so
  far, or \<open>None\<close> when \<^verbatim>\<open>exec\<close> goes to \<^verbatim>\<open>bad\<close>.
\<close>

primrec exec_args :: "byte list list \<Rightarrow> uint64 list \<Rightarrow> uint64 \<Rightarrow> uint64 \<Rightarrow> uint64 \<Rightarrow> 'a ksys_scheme \<Rightarrow>
    ((uint64 \<times> uint64 list) option, 'a ksys_scheme) outcome" where
  "exec_args [] ustack pagetable sp stackbase s = Ret (Some (sp, ustack)) s"
| "exec_args (arg # argv) ustack pagetable sp stackbase s =
     (if MAXARG \<le> length ustack then Ret None s
      else let sp = sp - of_nat (length arg + 1);
               sp = sp - sp mod 16
           in if sp < stackbase then Ret None s
              else bnd (copyout pagetable sp (arg @ [0]) s) (\<lambda>r s.
                if r < 0 then Ret None s
                else exec_args argv (ustack @ [sp]) pagetable sp stackbase s))"

definition exec_bad :: "uint64 \<Rightarrow> uint64 \<Rightarrow> nat option \<Rightarrow> 'a ksys_scheme \<Rightarrow> (int, 'a ksys_scheme) outcome" where
  "exec_bad pagetable sz ip s =
     bnd (if pagetable \<noteq> 0 then proc_freepagetable pagetable sz s else Ret () s) (\<lambda>_ s.
       case ip of
         None \<Rightarrow> Ret (-1) s
       | Some ip \<Rightarrow> bnd (iunlockput ip s) (\<lambda>_ s. bnd (end_op s) (\<lambda>_ s. Ret (-1) s)))"

definition base_name :: "byte list \<Rightarrow> byte list" where
  "base_name path = rev (takeWhile (\<lambda>c. c \<noteq> slash) (rev path))"

text \<open>\<^verbatim>\<open>exec\<close> once the image is loaded: the stack, the arguments, and the switch to the new image.\<close>

definition exec_commit :: "nat \<Rightarrow> byte list \<Rightarrow> byte list list \<Rightarrow> elfhdr \<Rightarrow> uint64 \<Rightarrow> uint64 \<Rightarrow> 'a ksys_scheme \<Rightarrow>
    (int, 'a ksys_scheme) outcome" where
  "exec_commit p path argv elf pagetable sz s =
     (let oldsz = p_sz (procs s p);
          sz = PGROUNDUP sz
      in bnd (uvmalloc pagetable sz (sz + 2 * PGSIZE) s) (\<lambda>sz1 s.
         if sz1 = 0 then exec_bad pagetable sz None s
         else let sz = sz1
              in bnd (uvmclear pagetable (sz - 2 * PGSIZE) s) (\<lambda>_ s.
                 let stackbase = sz - PGSIZE
                 in bnd (exec_args argv [] pagetable sz stackbase s) (\<lambda>r s.
                    case r of
                      None \<Rightarrow> exec_bad pagetable sz None s
                    | Some (sp, ustack) \<Rightarrow>
                        let argc = length ustack;
                            sp = sp - of_nat ((argc + 1) * 8);
                            sp = sp - sp mod 16
                        in if sp < stackbase then exec_bad pagetable sz None s
                           else bnd (copyout pagetable sp (concat (map (enc 8) (ustack @ [0]))) s) (\<lambda>r s.
                             if r < 0 then exec_bad pagetable sz None s
                             else
                               let s = tf_put p tf_a1 sp s;
                                   s = upd_proc p (\<lambda>q. q\<lparr>p_name := set_name (base_name path) (p_name q)\<rparr>) s;
                                   oldpagetable = p_pagetable (procs s p);
                                   s = upd_proc p (\<lambda>q. q\<lparr>p_pagetable := pagetable, p_sz := sz\<rparr>) s;
                                   s = tf_put p tf_epc (elf_entry elf) s;
                                   s = tf_put p tf_sp sp s
                               in bnd (proc_freepagetable oldpagetable oldsz s) (\<lambda>_ s.
                                  Ret (int argc) s))))))"

definition exec :: "byte list \<Rightarrow> byte list list \<Rightarrow> 'a ksys_scheme \<Rightarrow> (int, 'a ksys_scheme) outcome" where
  "exec path argv s =
     bnd (curproc s) (\<lambda>p s.
       bnd (begin_op s) (\<lambda>_ s.
         bnd (namei path s) (\<lambda>r s.
           case r of
             None \<Rightarrow> bnd (end_op s) (\<lambda>_ s. Ret (-1) s)
           | Some ip \<Rightarrow>
               bnd (ilock ip s) (\<lambda>_ s.
                 bnd (readi ip To_local 0 (of_nat sizeof_elfhdr) s) (\<lambda>(r, bs) s.
                   let elf = get_elfhdr bs
                   in if r \<noteq> int sizeof_elfhdr then exec_bad 0 0 (Some ip) s
                      else if elf_magic elf \<noteq> ELF_MAGIC then exec_bad 0 0 (Some ip) s
                      else bnd (proc_pagetable p s) (\<lambda>pagetable s.
                        if pagetable = 0 then exec_bad 0 0 (Some ip) s
                        else bnd (exec_load (unat (elf_phnum elf)) (ucast (elf_phoff elf)) ip pagetable 0 s) (\<lambda>(ok, sz) s.
                          if \<not> ok then exec_bad pagetable sz (Some ip) s
                          else bnd (iunlockput ip s) (\<lambda>_ s.
                            bnd (end_op s) (\<lambda>_ s.
                              bnd (curproc s) (\<lambda>p s.
                                exec_commit p path argv elf pagetable sz s))))))))))"

section \<open>System calls\<close>

text \<open>
  The loop of \<^verbatim>\<open>sys_exec\<close> that fetches the arguments, \<open>k\<close> slots of \<^verbatim>\<open>argv\<close> to go: the pages it
  has taken, and the strings unless it goes to \<^verbatim>\<open>bad\<close>.
\<close>

primrec fetch_argv :: "nat \<Rightarrow> uint64 \<Rightarrow> (uint64 \<times> byte list) list \<Rightarrow> 'a ksys_scheme \<Rightarrow>
    ((uint64 \<times> byte list) list \<times> bool, 'a ksys_scheme) outcome" where
  "fetch_argv 0 uargv got s = Ret (got, False) s"
| "fetch_argv (Suc k) uargv got s =
     bnd (fetchaddr uargv s) (\<lambda>r s.
       case r of
         None \<Rightarrow> Ret (got, False) s
       | Some uarg \<Rightarrow>
           if uarg = 0 then Ret (got, True) s
           else bnd (kalloc s) (\<lambda>pg s.
             if pg = 0 then Ret (got, False) s
             else bnd (fetchstr uarg 4096 s) (\<lambda>r s.
               case r of
                 None \<Rightarrow> Ret (got @ [(pg, [])], False) s
               | Some str \<Rightarrow> fetch_argv k (uargv + 8) (got @ [(pg, str)])
                   (s\<lparr>mem := put_bytes (mem s) pg (str @ [0])\<rparr>))))"

definition free_argv :: "(uint64 \<times> byte list) list \<Rightarrow> 'a ksys_scheme \<Rightarrow> (unit, 'a ksys_scheme) outcome" where
  "free_argv got s =
     bnd (foreach got (\<lambda>(pg, _) s. bnd (kfree pg s) (\<lambda>_ s. Ret (None :: unit option) s)) s) (\<lambda>_ s. Ret () s)"

definition sys_exec :: "'a ksys_scheme \<Rightarrow> (int, 'a ksys_scheme) outcome" where
  "sys_exec s =
     bnd (argstr 0 MAXPATH s) (\<lambda>path s.
       case path of
         None \<Rightarrow> Ret (-1) s
       | Some path \<Rightarrow>
           bnd (argaddr 1 s) (\<lambda>uargv s.
             bnd (fetch_argv MAXARG uargv [] s) (\<lambda>(got, ok) s.
               if \<not> ok then bnd (free_argv got s) (\<lambda>_ s. Ret (-1) s)
               else bnd (exec path (map snd got) s) (\<lambda>r s.
                 bnd (free_argv got s) (\<lambda>_ s. Ret r s)))))"

text \<open>The table \<^verbatim>\<open>syscalls\<close>, by the numbers of \<^verbatim>\<open>kernel/syscall.h\<close>.\<close>

definition syscalls :: "int \<Rightarrow> ('a ksys_scheme \<Rightarrow> (int, 'a ksys_scheme) outcome) option" where
  "syscalls num =
     (if num = 1 then Some sys_fork
      else if num = 2 then Some sys_exit
      else if num = 3 then Some sys_wait
      else if num = 4 then Some sys_pipe
      else if num = 5 then Some sys_read
      else if num = 6 then Some sys_kill
      else if num = 7 then Some sys_exec
      else if num = 8 then Some sys_fstat
      else if num = 9 then Some sys_chdir
      else if num = 10 then Some sys_dup
      else if num = 11 then Some sys_getpid
      else if num = 12 then Some sys_sbrk
      else if num = 13 then Some sys_sleep
      else if num = 14 then Some sys_uptime
      else if num = 15 then Some sys_open
      else if num = 16 then Some sys_write
      else if num = 17 then Some sys_mknod
      else if num = 18 then Some sys_unlink
      else if num = 19 then Some sys_link
      else if num = 20 then Some sys_mkdir
      else if num = 21 then Some sys_close
      else None)"

definition syscall :: "'a ksys_scheme \<Rightarrow> (unit, 'a ksys_scheme) outcome" where
  "syscall s =
     bnd (curproc s) (\<lambda>p s.
       let num = sint (ucast (tf_get p tf_a7 s) :: uint32)
       in case syscalls num of
            Some f \<Rightarrow> bnd (f s) (\<lambda>r s. Ret () (tf_put p tf_a0 (word_of_int r) s))
          | None \<Rightarrow>
              bnd (printf (chars ''%d %s: unknown sys call %d'' @ [10])
                [PInt (p_pid (procs s p)), PStr (takeWhile (\<lambda>c. c \<noteq> 0) (p_name (procs s p))), PInt num] s) (\<lambda>_ s.
                Ret () (tf_put p tf_a0 (-1) s)))"

end
