(* ===== verification/Trap.thy ===== *)
theory Trap
  imports Exec
begin

text \<open>
  Traps, \<^verbatim>\<open>kernel/trap.c\<close>, the interrupt controller, \<^verbatim>\<open>kernel/plic.c\<close>, \<^verbatim>\<open>forkret\<close> of
  \<^verbatim>\<open>kernel/proc.c\<close>, and the boot code of \<^verbatim>\<open>kernel/start.c\<close> and \<^verbatim>\<open>kernel/main.c\<close>.  The jump to
  \<^verbatim>\<open>userret\<close> at the end of \<^verbatim>\<open>usertrapret\<close> leaves the kernel; the model returns its second
  argument, the user page table as \<^verbatim>\<open>satp\<close> value.
\<close>

section \<open>State\<close>

text \<open>
  The registers of the PLIC and the CLINT, the scratch areas of the timer interrupts, and the
  addresses of code that the C sources take: \<^verbatim>\<open>kernelvec\<close>, \<^verbatim>\<open>usertrap\<close>, \<^verbatim>\<open>timervec\<close>, \<^verbatim>\<open>main\<close> and the
  offsets of \<^verbatim>\<open>uservec\<close> and \<^verbatim>\<open>userret\<close> in the trampoline.
\<close>

record ktrap = ksys +
  plic_reg :: "uint64 \<Rightarrow> uint32"
  clint_reg :: "uint64 \<Rightarrow> uint64"
  mscratch0 :: "nat \<Rightarrow> uint64"
  mscratch0_addr :: uint64
  disk_pages :: uint64
  kernelvec_addr :: uint64
  usertrap_addr :: uint64
  timervec_addr :: uint64
  main_addr :: uint64
  uservec_off :: uint64
  userret_off :: uint64
  started :: bool

section \<open>The interrupt controller\<close>

definition plicinit :: "'a ktrap_scheme \<Rightarrow> 'a ktrap_scheme" where
  "plicinit s = s\<lparr>plic_reg := (plic_reg s)(PLIC + word_of_int UART0_IRQ * 4 := 1,
     PLIC + word_of_int VIRTIO0_IRQ * 4 := 1)\<rparr>"

definition plicinithart :: "'a ktrap_scheme \<Rightarrow> 'a ktrap_scheme" where
  "plicinithart s =
     (let hart = word_of_int (cpuid s)
      in s\<lparr>plic_reg := (plic_reg s)(
             PLIC_SENABLE hart := push_bit (nat UART0_IRQ) 1 OR push_bit (nat VIRTIO0_IRQ) 1,
             PLIC_SPRIORITY hart := 0)\<rparr>)"

definition plic_claim :: "'a ktrap_scheme \<Rightarrow> int" where
  "plic_claim s = sint (plic_reg s (PLIC_SCLAIM (word_of_int (cpuid s))))"

definition plic_complete :: "int \<Rightarrow> 'a ktrap_scheme \<Rightarrow> 'a ktrap_scheme" where
  "plic_complete irq s =
     s\<lparr>plic_reg := (plic_reg s)(PLIC_SCLAIM (word_of_int (cpuid s)) := word_of_int irq)\<rparr>"

section \<open>Traps\<close>

definition trapinit :: "'a ktrap_scheme \<Rightarrow> 'a ktrap_scheme" where
  "trapinit s = initlock Ticks_lock ''time'' s"

definition trapinithart :: "'a ktrap_scheme \<Rightarrow> 'a ktrap_scheme" where
  "trapinithart s = w_stvec (kernelvec_addr s) s"

definition clockintr :: "'a ktrap_scheme \<Rightarrow> (unit, 'a ktrap_scheme) outcome" where
  "clockintr s =
     bnd (acquire Ticks_lock s) (\<lambda>_ s.
       bnd (wakeup Ticks_chan (s\<lparr>ticks := ticks s + 1\<rparr>)) (\<lambda>_ s. release Ticks_lock s))"

definition devintr :: "'a ktrap_scheme \<Rightarrow> (int, 'a ktrap_scheme) outcome" where
  "devintr s =
     (let scause = r_scause s
      in if scause AND 0x8000000000000000 \<noteq> 0 \<and> scause AND 0xff = 9 then
           let irq = plic_claim s
           in bnd (if irq = UART0_IRQ then uartintr s
                   else if irq = VIRTIO0_IRQ then virtio_disk_intr s
                   else if irq \<noteq> 0 then printf (chars ''unexpected interrupt irq=%d'' @ [10]) [PInt irq] s
                   else Ret () s) (\<lambda>_ s.
              Ret 1 (if irq \<noteq> 0 then plic_complete irq s else s))
         else if scause = 0x8000000000000001 then
           bnd (if cpuid s = 0 then clockintr s else Ret () s) (\<lambda>_ s.
             Ret 2 (w_sip (r_sip s AND NOT 2) s))
         else Ret 0 s)"

definition usertrapret :: "'a ktrap_scheme \<Rightarrow> (uint64, 'a ktrap_scheme) outcome" where
  "usertrapret s =
     bnd (curproc s) (\<lambda>p s.
       let s = intr_off s;
           s = w_stvec (TRAMPOLINE + uservec_off s) s;
           s = tf_put p tf_kernel_satp (r_satp s) s;
           s = tf_put p tf_kernel_sp (p_kstack (procs s p) + PGSIZE) s;
           s = tf_put p tf_kernel_trap (usertrap_addr s) s;
           s = tf_put p tf_kernel_hartid (r_tp s) s;
           x = (r_sstatus s AND NOT SSTATUS_SPP) OR SSTATUS_SPIE;
           s = w_sstatus x s;
           s = w_sepc (tf_get p tf_epc s) s
       in Ret (MAKE_SATP (p_pagetable (procs s p))) s)"

definition usertrap :: "'a ktrap_scheme \<Rightarrow> (uint64, 'a ktrap_scheme) outcome" where
  "usertrap s =
     (if r_sstatus s AND SSTATUS_SPP \<noteq> 0 then Panic ''usertrap: not from user mode''
      else let s = w_stvec (kernelvec_addr s) s
           in bnd (curproc s) (\<lambda>p s.
              let s = tf_put p tf_epc (r_sepc s) s
              in bnd (if r_scause s = 8 then
                        bnd (if p_killed (procs s p) then exit (-1) s else Ret () s) (\<lambda>_ s.
                          let s = tf_put p tf_epc (tf_get p tf_epc s + 4) s
                          in bnd (syscall (intr_on s)) (\<lambda>_ s. Ret 0 s))
                      else bnd (devintr s) (\<lambda>which s.
                        if which \<noteq> 0 then Ret which s
                        else
                          bnd (printf (chars ''usertrap(): unexpected scause %p pid=%d'' @ [10])
                                 [PPtr (r_scause s), PInt (p_pid (procs s p))] s) (\<lambda>_ s.
                            bnd (printf (chars ''            sepc=%p stval=%p'' @ [10])
                                   [PPtr (r_sepc s), PPtr (r_stval s)] s) (\<lambda>_ s.
                              Ret 0 (upd_proc p (\<lambda>q. q\<lparr>p_killed := True\<rparr>) s))))) (\<lambda>which s.
                 bnd (if p_killed (procs s p) then exit (-1) s else Ret () s) (\<lambda>_ s.
                   bnd (if which = 2 then yield s else Ret () s) (\<lambda>_ s.
                     usertrapret s)))))"

definition kerneltrap :: "'a ktrap_scheme \<Rightarrow> (unit, 'a ktrap_scheme) outcome" where
  "kerneltrap s =
     (let sepc = r_sepc s;
          sstatus = r_sstatus s;
          scause = r_scause s
      in if sstatus AND SSTATUS_SPP = 0 then Panic ''kerneltrap: not from supervisor mode''
         else if intr_get s then Panic ''kerneltrap: interrupts enabled''
         else bnd (devintr s) (\<lambda>which s.
           if which = 0 then
             bnd (printf (chars ''scause %p'' @ [10]) [PPtr scause] s) (\<lambda>_ s.
               bnd (printf (chars ''sepc=%p stval=%p'' @ [10]) [PPtr (r_sepc s), PPtr (r_stval s)] s) (\<lambda>_ s.
                 Panic ''kerneltrap''))
           else
             bnd (if which = 2 then
                    bnd (myproc s) (\<lambda>r s.
                      case r of
                        None \<Rightarrow> Ret () s
                      | Some _ \<Rightarrow> bnd (curproc s) (\<lambda>p s. if p_state (procs s p) = RUNNING then yield s else Ret () s))
                  else Ret () s) (\<lambda>_ s.
               Ret () (w_sstatus sstatus (w_sepc sepc s)))))"

text \<open>The rest of \<^verbatim>\<open>kerneltrap\<close> when its \<^verbatim>\<open>yield\<close> comes back.\<close>

definition kerneltrap_resume :: "nat \<Rightarrow> bool \<Rightarrow> uint64 \<Rightarrow> uint64 \<Rightarrow> 'a ktrap_scheme \<Rightarrow> (unit, 'a ktrap_scheme) outcome" where
  "kerneltrap_resume p old sepc sstatus s =
     bnd (yield_resume p old s) (\<lambda>_ s. Ret () (w_sstatus sstatus (w_sepc sepc s)))"

definition forkret :: "'a ktrap_scheme \<Rightarrow> (uint64, 'a ktrap_scheme) outcome" where
  "forkret s =
     bnd (curproc s) (\<lambda>p s.
       bnd (release (Proc_lock p) s) (\<lambda>_ s.
         bnd (if first s then fsinit ROOTDEV (s\<lparr>first := False\<rparr>) else Ret () s) (\<lambda>_ s.
           usertrapret s)))"

section \<open>Booting\<close>

definition timerinit :: "'a ktrap_scheme \<Rightarrow> 'a ktrap_scheme" where
  "timerinit s =
     (let ident = unat (r_mhartid s);
          interval = 1000000;
          cmp = CLINT_MTIMECMP (of_nat ident);
          s = s\<lparr>clint_reg := (clint_reg s)(cmp := clint_reg s CLINT_MTIME + interval)\<rparr>;
          s = s\<lparr>mscratch0 := (mscratch0 s)(32 * ident + 4 := cmp, 32 * ident + 5 := interval)\<rparr>;
          s = w_mscratch (mscratch0_addr s + of_nat (8 * (32 * ident))) s;
          s = w_mtvec (timervec_addr s) s;
          s = w_mstatus (r_mstatus s OR MSTATUS_MIE) s
      in w_mie (r_mie s OR MIE_MTIE) s)"

definition start :: "'a ktrap_scheme \<Rightarrow> 'a ktrap_scheme" where
  "start s =
     (let x = (r_mstatus s AND NOT MSTATUS_MPP_MASK) OR MSTATUS_MPP_S;
          s = w_mstatus x s;
          s = w_mepc (main_addr s) s;
          s = w_satp 0 s;
          s = w_medeleg 0xffff s;
          s = w_mideleg 0xffff s;
          s = w_sie (r_sie s OR SIE_SEIE OR SIE_STIE OR SIE_SSIE) s;
          s = timerinit s
      in w_tp (scast (ucast (r_mhartid s) :: uint32)) s)"

definition main :: "'a ktrap_scheme \<Rightarrow> (nat option, 'a ktrap_scheme) outcome" where
  "main s =
     (if cpuid s = 0 then
        let s = printfinit (consoleinit s)
        in bnd (printf [10] [] s) (\<lambda>_ s.
           bnd (printf (chars ''xv6 kernel is booting'' @ [10]) [] s) (\<lambda>_ s.
             bnd (printf [10] [] s) (\<lambda>_ s.
               bnd (kinit s) (\<lambda>_ s.
                 bnd (kvminit s) (\<lambda>_ s.
                   bnd (procinit (kvminithart s)) (\<lambda>_ s.
                     let s = fileinit (iinit (binit (plicinithart (plicinit (trapinithart (trapinit s))))))
                     in bnd (virtio_disk_init (disk_pages s) s) (\<lambda>_ s.
                        bnd (userinit s) (\<lambda>_ s.
                          scheduler (s\<lparr>started := True\<rparr>)))))))))
      else if \<not> started s then Spin s
      else bnd (printf (chars ''hart %d starting'' @ [10]) [PInt (cpuid s)] s) (\<lambda>_ s.
        scheduler (plicinithart (trapinithart (kvminithart s)))))"

end
