(* ===== verification/Scheduling.thy ===== *)
theory Scheduling
  imports Proc
begin

text \<open>
  What the scheduler, \<^verbatim>\<open>sleep\<close> and \<^verbatim>\<open>wakeup\<close> do, as equations between states: each routine,
  started in a quiet state with the locks it needs free, computes a pure update of the process
  table.
\<close>

section \<open>Fields that locking does not touch\<close>

lemma quiet_iff:
  "quiet s \<longleftrightarrow> cpu_ok s \<and> (noff (cpus s (mycpu s)) = 0 \<longrightarrow> intena (cpus s (mycpu s)) = intr_get s)"
proof -
  have "c\<lparr>intena := x\<rparr> = c \<longleftrightarrow> intena c = x" for c :: cpu and x
    by (cases c) auto
  then show ?thesis by (auto simp: quiet_def tcpus_eq fun_eq_iff)
qed

lemma quiet_local:
  assumes "csrs t (hart t) = csrs s (hart s)"
  shows "mycpu t = mycpu s" "cpus t (mycpu s) = cpus s (mycpu s) \<Longrightarrow> quiet t = quiet s"
proof -
  show "mycpu t = mycpu s" using assms by (simp add: mycpu_def cpuid_def csr_defs)
  then show "quiet t = quiet s" if "cpus t (mycpu s) = cpus s (mycpu s)"
    using assms that by (simp add: quiet_iff cpu_ok_def intr_get_iff csr_defs)
qed

lemma acquired_field:
  assumes "\<And>cs cp k. f (s\<lparr>csrs := cs, cpus := cp, lk := k\<rparr>) = f s"
  shows "f (acquired l s) = f s"
  by (subst acquired_form) (rule assms)

lemma acquired_kproc [simp]:
  "procs (acquired l s) = procs s" "initproc (acquired l s) = initproc s" "nextpid (acquired l s) = nextpid s"
  "mem (acquired l s) = mem s" "freelist (acquired l s) = freelist s" "end_addr (acquired l s) = end_addr s"
  "forkret_addr (acquired l s) = forkret_addr s" "first (acquired l s) = first s"
  "trampoline_addr (acquired l s) = trampoline_addr s" "kernel_pagetable (acquired l s) = kernel_pagetable s"
  by (rule acquired_field, simp)+

lemma upd_proc_core [simp]:
  "hart (upd_proc p f s) = hart s" "csrs (upd_proc p f s) = csrs s" "cpus (upd_proc p f s) = cpus s"
  "lk (upd_proc p f s) = lk s" "procs (upd_proc p f s) = (procs s)(p := f (procs s p))"
  "mem (upd_proc p f s) = mem s" "freelist (upd_proc p f s) = freelist s"
  by (simp_all add: upd_proc_def)

lemma upd_proc_quiet [simp]:
  "quiet (upd_proc p f s) = quiet s" "lock_free l (upd_proc p f s) = lock_free l s"
  "mycpu (upd_proc p f s) = mycpu s" "intr_get (upd_proc p f s) = intr_get s"
  "holding l (upd_proc p f s) = holding l s" "cpu_ok (upd_proc p f s) = cpu_ok s"
  by (rule quiet_cong core_cong; simp)+

lemma upd_proc_upd_proc [simp]: "upd_proc p f (upd_proc p g s) = upd_proc p (f o g) s"
  by (simp add: upd_proc_def)

lemma upd_proc_id: "f (procs s p) = procs s p \<Longrightarrow> upd_proc p f s = s"
  by (simp add: upd_proc_def)

definition procs_free :: "'a kproc_scheme \<Rightarrow> bool" where
  "procs_free s \<longleftrightarrow> (\<forall>p<NPROC. lock_free (Proc_lock p) s)"

lemma procs_free_acquired:
  "procs_free s \<Longrightarrow> (\<And>p. l \<noteq> Proc_lock p) \<Longrightarrow> procs_free (acquired l s)"
  by (auto simp: procs_free_def lock_free_acquired)

lemma procs_free_upd [simp]: "procs_free (upd_proc p f s) = procs_free s"
  by (simp add: procs_free_def)

section \<open>Wakeup\<close>

definition wake :: "chan \<Rightarrow> nat set \<Rightarrow> (nat \<Rightarrow> proc) \<Rightarrow> nat \<Rightarrow> proc" where
  "wake ch A ps p = (if p \<in> A \<and> p_state (ps p) = SLEEPING \<and> p_chan (ps p) = Some ch
     then (ps p)\<lparr>p_state := RUNNABLE\<rparr> else ps p)"

definition woken :: "chan \<Rightarrow> nat set \<Rightarrow> 'a kproc_scheme \<Rightarrow> 'a kproc_scheme" where
  "woken ch A s = s\<lparr>procs := wake ch A (procs s)\<rparr>"

lemma woken_core [simp]:
  "hart (woken ch A s) = hart s" "csrs (woken ch A s) = csrs s" "cpus (woken ch A s) = cpus s"
  "lk (woken ch A s) = lk s" "mem (woken ch A s) = mem s" "freelist (woken ch A s) = freelist s"
  by (simp_all add: woken_def)

lemma woken_quiet [simp]:
  "quiet (woken ch A s) = quiet s" "lock_free l (woken ch A s) = lock_free l s"
  "mycpu (woken ch A s) = mycpu s" "procs_free (woken ch A s) = procs_free s"
  "cpu_ok (woken ch A s) = cpu_ok s" "intr_get (woken ch A s) = intr_get s"
proof -
  show l: "lock_free l (woken ch A s) = lock_free l s" for l by (rule quiet_cong; simp)
  show "procs_free (woken ch A s) = procs_free s" by (simp add: procs_free_def l)
qed (rule quiet_cong core_cong; simp)+

lemma wake_empty [simp]: "wake ch {} ps = ps"
  by (simp add: wake_def fun_eq_iff)

lemma wake_insert: "wake ch {p} (wake ch A ps) = wake ch (insert p A) ps"
  by (auto simp: wake_def fun_eq_iff)

lemma wake_one: "wake ch {p} ps = (if p_state (ps p) = SLEEPING \<and> p_chan (ps p) = Some ch
     then ps(p := (ps p)\<lparr>p_state := RUNNABLE\<rparr>) else ps)"
  by (auto simp: wake_def fun_eq_iff)

lemma woken_one:
  "woken ch {p} s = (if p_state (procs s p) = SLEEPING \<and> p_chan (procs s p) = Some ch
     then upd_proc p (\<lambda>q. q\<lparr>p_state := RUNNABLE\<rparr>) s else s)"
  by (simp add: woken_def wake_one upd_proc_def)

lemma wakeup_step:
  assumes "quiet s" "lock_free (Proc_lock p) s"
  shows "wakeup_at ch p s = Ret None (woken ch {p} s)"
proof -
  have "release (Proc_lock p) (woken ch {p} (acquired (Proc_lock p) s)) = Ret () (woken ch {p} s)"
    by (rule critical_quiet [OF assms]) (simp_all add: woken_def)
  then show ?thesis by (simp add: wakeup_at_def acquire_quiet [OF assms] Let_def woken_one)
qed

lemma fold_woken: "fold (\<lambda>p. woken ch {p}) ps s = woken ch (set ps) s"
proof (induction ps rule: rev_induct)
  case Nil
  then show ?case by (simp add: woken_def)
next
  case (snoc p ps)
  then show ?case by (simp add: woken_def wake_insert)
qed

lemma wakeup_eq:
  fixes s :: "'a kproc_scheme"
  assumes "quiet s" "procs_free s"
  shows "wakeup ch s = Ret () (woken ch {..<NPROC} s)"
proof -
  have "\<forall>p\<in>set [0..<NPROC]. \<forall>s :: 'a kproc_scheme. quiet s \<and> procs_free s \<longrightarrow>
      wakeup_at ch p s = Ret None (woken ch {p} s) \<and> quiet (woken ch {p} s) \<and> procs_free (woken ch {p} s)"
    by (auto simp: procs_free_def wakeup_step)
  from foreach_fold [OF this] assms show ?thesis
    by (simp add: wakeup_def fold_woken atLeast0LessThan)
qed

text \<open>\<^verbatim>\<open>wakeup\<close> waits for the lock of a process that another CPU holds.\<close>

lemma wakeup_spin:
  fixes s :: "'a kproc_scheme"
  assumes "quiet s" "\<forall>q<p. lock_free (Proc_lock q) s" "p < NPROC"
    and "locked (lk s (Proc_lock p))" "lcpu (lk s (Proc_lock p)) \<noteq> Some (mycpu s)"
  shows "\<exists>t. wakeup ch s = Spin t"
proof -
  let ?P = "\<lambda>s :: 'a kproc_scheme. quiet s \<and> (\<forall>q<p. lock_free (Proc_lock q) s)"
  have "\<forall>q\<in>set [0..<p]. \<forall>s :: 'a kproc_scheme. ?P s \<longrightarrow>
      wakeup_at ch q s = Ret None (woken ch {q} s) \<and> ?P (woken ch {q} s)"
    by (simp add: wakeup_step)
  from foreach_stop [OF this, of s p "[Suc p..<NPROC]"] assms(1,2)
  have "foreach ([0..<p] @ p # [Suc p..<NPROC]) (wakeup_at ch) s =
      bnd (wakeup_at ch p (woken ch {..<p} s))
        (\<lambda>r s. case r of Some b \<Rightarrow> Ret (Some b) s | None \<Rightarrow> foreach [Suc p..<NPROC] (wakeup_at ch) s)"
    by (simp add: fold_woken atLeast0LessThan)
  moreover have "[0..<p] @ p # [Suc p..<NPROC] = [0..<NPROC]"
    using assms(3) by (metis upt_conv_Cons upt_add_eq_append le_add_diff_inverse less_imp_le_nat zero_le)
  moreover have "\<exists>t. wakeup_at ch p (woken ch {..<p} s) = Spin t"
    using assms(4,5) by (simp add: wakeup_at_def acquire_def holding_def Let_def)
  ultimately show ?thesis by (auto simp: wakeup_def)
qed

section \<open>Giving up the CPU\<close>

lemma released_cproc:
  "released l (upd_cpu (\<lambda>c. c\<lparr>cproc := x\<rparr>) s) = upd_cpu (\<lambda>c. c\<lparr>cproc := x\<rparr>) (released l s)"
proof -
  have "(\<lambda>c :: cpu. c\<lparr>cproc := x, noff := noff c - 1\<rparr>) = (\<lambda>c. c\<lparr>noff := noff c - 1, cproc := x\<rparr>)"
    by (simp add: fun_eq_iff)
  then show ?thesis by (simp add: released_def Let_def core_normal comp_def)
qed

lemma upd_proc_normal:
  "upd_proc p f (upd_cpu g s) = upd_cpu g (upd_proc p f s)" "upd_proc p f (upd_lk l h s) = upd_lk l h (upd_proc p f s)"
  "upd_proc p f (intr_on s) = intr_on (upd_proc p f s)" "upd_proc p f (intr_off s) = intr_off (upd_proc p f s)"
  by (simp_all add: upd_proc_def upd_cpu_def upd_lk_def intr_on_def intr_off_def csr_defs cpu_defs)

lemma released_upd_proc: "released l (upd_proc p f s) = upd_proc p f (released l s)"
  by (simp add: released_def Let_def upd_proc_normal)

lemma curproc_quiet: "quiet s \<Longrightarrow> cproc (cpus s (mycpu s)) = Some p \<Longrightarrow> curproc s = Ret p s"
  by (simp add: curproc_def myproc_quiet)

lemma sched_eq:
  assumes "quiet s" "cproc (cpus s (mycpu s)) = Some p" "holding (Proc_lock p) s"
    and "noff (cpus s (mycpu s)) = 1" "p_state (procs s p) \<noteq> RUNNING"
  shows "sched s = Swtch s"
  using assms by (simp add: sched_def curproc_quiet quiet_def cpu_ok_def)

text \<open>
  A thread of process \<open>p\<close> that runs on this CPU with interrupts enabled or disabled and holds
  no spin lock.
\<close>

definition runs :: "nat \<Rightarrow> 'a kproc_scheme \<Rightarrow> bool" where
  "runs p s \<longleftrightarrow> quiet s \<and> cproc (cpus s (mycpu s)) = Some p \<and> noff (cpus s (mycpu s)) = 0 \<and>
     p < NPROC \<and> procs_free s \<and> p_state (procs s p) = RUNNING"

lemma runs_D:
  assumes "runs p s"
  shows "quiet s" "cproc (cpus s (mycpu s)) = Some p" "noff (cpus s (mycpu s)) = 0" "p < NPROC"
    "procs_free s" "lock_free (Proc_lock p) s" "p_state (procs s p) = RUNNING" "cpu_ok s"
    "intena (cpus s (mycpu s)) = intr_get s"
proof -
  show "quiet s" and *: "cproc (cpus s (mycpu s)) = Some p" "noff (cpus s (mycpu s)) = 0" "p < NPROC"
    "procs_free s" "p_state (procs s p) = RUNNING"
    using assms by (simp_all add: runs_def)
  then show "lock_free (Proc_lock p) s" "cpu_ok s" by (simp_all add: procs_free_def quiet_def)
  show "intena (cpus s (mycpu s)) = intr_get s" using \<open>quiet s\<close> * by (simp add: quiet_iff)
qed

lemma yield_eq:
  assumes "runs p s"
  shows "yield s = Swtch (upd_proc p (\<lambda>q. q\<lparr>p_state := RUNNABLE\<rparr>) (acquired (Proc_lock p) s))"
proof -
  note D = runs_D [OF assms]
  let ?t = "upd_proc p (\<lambda>q. q\<lparr>p_state := RUNNABLE\<rparr>) (acquired (Proc_lock p) s)"
  have "sched ?t = Swtch ?t"
    by (rule sched_eq [where p = p])
      (use D acquired_noff [of "Proc_lock p" s] in \<open>simp_all add: quiet_acquired acquired_cproc\<close>)
  then show ?thesis
    using D by (simp add: yield_def curproc_quiet acquire_quiet)
qed


lemma scheduler_back_eq:
  assumes "quiet s" "lock_free (Proc_lock p) s"
  shows "scheduler_back p (upd_proc p f (acquired (Proc_lock p) s)) =
    Ret () (upd_cpu (\<lambda>c. c\<lparr>cproc := None\<rparr>) (upd_proc p f s))"
proof -
  let ?a = "acquired (Proc_lock p) s"
  let ?t = "upd_cpu (\<lambda>c. c\<lparr>cproc := None\<rparr>) (upd_proc p f ?a)"
  have "holding (Proc_lock p) ?t" by (simp add: holding_def acquired_def)
  moreover have "\<not> intr_get ?t" by simp
  moreover have "1 \<le> noff (cpus ?t (mycpu ?t))"
    using assms(1) acquired_noff [of "Proc_lock p" s] by (simp add: quiet_def cpu_ok_def)
  ultimately have "release (Proc_lock p) ?t = Ret () (released (Proc_lock p) ?t)" by (rule release_ok)
  also have "released (Proc_lock p) ?t =
      upd_cpu (\<lambda>c. c\<lparr>cproc := None\<rparr>) (upd_proc p f (released (Proc_lock p) ?a))"
    by (simp add: released_cproc released_upd_proc)
  also have "released (Proc_lock p) ?a = s"
    using released_acquired [OF quiet_lockable [OF assms]] quiet_touched [OF assms(1)] by simp
  finally show ?thesis by (simp add: scheduler_back_def)
qed

lemma scheduler_try_some:
  assumes "cpu_ok s" "lock_free (Proc_lock p) s" "p_state (procs s p) = RUNNABLE"
  shows "scheduler_try p s = Ret (Some p) (upd_cpu (\<lambda>c. c\<lparr>cproc := Some p\<rparr>)
    (upd_proc p (\<lambda>q. q\<lparr>p_state := RUNNING\<rparr>) (acquired (Proc_lock p) s)))"
  using assms acquire_ok [of "Proc_lock p" s] by (simp add: scheduler_try_def lockable_def)

lemma scheduler_try_none:
  assumes "quiet s" "lock_free (Proc_lock p) s" "p_state (procs s p) \<noteq> RUNNABLE"
  shows "scheduler_try p s = Ret None s"
proof -
  have "release (Proc_lock p) (acquired (Proc_lock p) s) = Ret () s"
    by (rule critical_quiet [OF assms(1,2), where body = "\<lambda>s. s"]) simp_all
  then show ?thesis using assms by (simp add: scheduler_try_def acquire_quiet)
qed

text \<open>
  Handing the CPU back: the scheduler has just taken the process' lock, in the state \<open>s\<close> of
  the CPU; the thread restores its own interrupt state and releases the lock.
\<close>

lemma resume_release:
  assumes "lock_free (Proc_lock p) s" "noff (cpus s (mycpu s)) = 0"
  shows "release (Proc_lock p) (upd_cpu (\<lambda>c. c\<lparr>intena := old\<rparr>)
      (upd_cpu (\<lambda>c. c\<lparr>cproc := Some p\<rparr>) (upd_proc p f (acquired (Proc_lock p) s)))) =
    Ret () (upd_cpu (\<lambda>c. c\<lparr>cproc := Some p, intena := old\<rparr>)
      (upd_proc p f (if old then intr_on s else intr_off s)))"
proof -
  let ?a = "acquired (Proc_lock p) s"
  let ?t = "upd_cpu (\<lambda>c. c\<lparr>intena := old\<rparr>) (upd_cpu (\<lambda>c. c\<lparr>cproc := Some p\<rparr>) (upd_proc p f ?a))"
  have "holding (Proc_lock p) ?t" by (simp add: holding_def acquired_def)
  moreover have "\<not> intr_get ?t" by simp
  moreover have "1 \<le> noff (cpus ?t (mycpu ?t))"
    using assms(2) acquired_noff [of "Proc_lock p" s] by simp
  ultimately have r: "release (Proc_lock p) ?t = Ret () (released (Proc_lock p) ?t)" by (rule release_ok)
  have l: "(lk s (Proc_lock p))\<lparr>lcpu := None, locked := False\<rparr> = lk s (Proc_lock p)"
    using assms(1) by (simp add: lock_free_def)
  then have "upd_lk (Proc_lock p) (\<lambda>x. x\<lparr>lcpu := None, locked := False\<rparr>) (upd_proc p f s) = upd_proc p f s"
    by (intro upd_lk_id) simp
  then have "released (Proc_lock p) ?t = upd_cpu (\<lambda>c. c\<lparr>cproc := Some p, intena := old\<rparr>)
      (upd_proc p f (if old then intr_on s else intr_off s))"
    using assms(2)
    by (simp add: released_def acquired_def push_off_def Let_def core_normal comp_def upd_proc_normal)
  then show ?thesis using r by simp
qed

text \<open>
  \<^verbatim>\<open>sleep\<close> exchanges the caller's lock for the process' lock.
\<close>

lemma swap_locks:
  assumes "l \<noteq> l'" "lock_free l s" "noff (cpus s (mycpu s)) = 0"
  shows "released l (acquired l' (acquired l s)) = acquired l' s"
proof -
  have "(lk s l)\<lparr>lcpu := None, locked := False\<rparr> = lk s l" using assms(2) by (simp add: lock_free_def)
  then have "upd_lk l (\<lambda>k. k\<lparr>lcpu := None, locked := False\<rparr>)
      (upd_lk l' g (upd_lk l (\<lambda>k. k\<lparr>locked := True, lcpu := c\<rparr>) s)) = upd_lk l' g s" for g c
    using assms(1) by (simp add: upd_lk_def fun_upd_twist)
  with assms(3) show ?thesis
    by (simp add: released_def acquired_def push_off_def Let_def core_normal comp_def add.commute)
qed

text \<open>\<^verbatim>\<open>sleep\<close> under the lock \<open>l\<close>, up to the switch.\<close>

lemma sleep_eq:
  assumes "runs p s" "lock_free l s" "l \<noteq> Proc_lock p"
  shows "sleep ch l (acquired l s) =
    Swtch (upd_proc p (\<lambda>q. q\<lparr>p_chan := Some ch, p_state := SLEEPING\<rparr>) (acquired (Proc_lock p) s))"
proof -
  note D = runs_D [OF assms(1)]
  let ?a = "acquired (Proc_lock p) (acquired l s)"
  let ?t = "upd_proc p (\<lambda>q. q\<lparr>p_chan := Some ch, p_state := SLEEPING\<rparr>) (acquired (Proc_lock p) s)"
  have q: "quiet (acquired l s)" using D by (simp add: quiet_acquired)
  have c: "curproc (acquired l s) = Ret p (acquired l s)"
    using D by (intro curproc_quiet [OF q]) (simp add: acquired_cproc)
  have a: "acquire (Proc_lock p) (acquired l s) = Ret () ?a"
    using D assms(3) by (intro acquire_quiet [OF q]) (simp add: lock_free_acquired)
  have "holding l ?a" using assms(3) by (simp add: holding_def acquired_def)
  moreover have "1 \<le> noff (cpus ?a (mycpu ?a))"
    using D acquired_noff [of "Proc_lock p" "acquired l s"] acquired_noff [of l s] by simp
  ultimately have "release l ?a = Ret () (released l ?a)" by (intro release_ok) simp_all
  then have r: "release l ?a = Ret () (acquired (Proc_lock p) s)"
    using swap_locks [of l "Proc_lock p" s] assms(2,3) D(3) by simp
  have "sched ?t = Swtch ?t"
    by (rule sched_eq [where p = p])
      (use D acquired_noff [of "Proc_lock p" s] in \<open>simp_all add: quiet_acquired acquired_cproc\<close>)
  then show ?thesis
    using assms(3) c a r by (simp add: sleep_def upd_proc_upd_proc comp_def)
qed

section \<open>Coming back\<close>

text \<open>
  \<open>parked s\<close>: the thread that ran on this CPU is gone and its scheduler runs.  \<open>resumed p old s\<close>:
  a thread of process \<open>p\<close> runs again, with its own interrupt state.
\<close>

definition parked :: "'a kproc_scheme \<Rightarrow> 'a kproc_scheme" where
  "parked s = upd_cpu (\<lambda>c. c\<lparr>cproc := None\<rparr>) s"

definition resumed :: "nat \<Rightarrow> bool \<Rightarrow> 'a kproc_scheme \<Rightarrow> 'a kproc_scheme" where
  "resumed p old s = upd_cpu (\<lambda>c. c\<lparr>cproc := Some p, intena := old\<rparr>) (if old then intr_on s else intr_off s)"

lemma resumed_parked:
  assumes "cproc (cpus s (mycpu s)) = Some p" "intena (cpus s (mycpu s)) = intr_get s"
  shows "resumed p (intr_get s) (intr_on (parked s)) = s" "resumed p (intr_get s) (parked s) = s"
proof -
  have "upd_cpu (\<lambda>x. x\<lparr>cproc := Some p, intena := intr_get s\<rparr>) s = s"
    using assms by (intro upd_cpu_id) simp
  then show "resumed p (intr_get s) (intr_on (parked s)) = s" "resumed p (intr_get s) (parked s) = s"
    by (cases "intr_get s"; simp add: resumed_def parked_def core_normal comp_def intr_on_idle intr_off_idle)+
qed

lemma parked_simps [simp]:
  "hart (parked s) = hart s" "csrs (parked s) = csrs s" "lk (parked s) = lk s" "procs (parked s) = procs s"
  "mycpu (parked s) = mycpu s" "intr_get (parked s) = intr_get s" "lock_free l (parked s) = lock_free l s"
  "noff (cpus (parked s) h) = noff (cpus s h)" "mem (parked s) = mem s"
  by (simp_all add: parked_def lock_free_def) (simp_all add: upd_cpu_def)

lemma parked_cpu_ok: "quiet s \<Longrightarrow> cpu_ok (parked s)"
  by (simp add: quiet_def cpu_ok_def)

lemma quiet_parked: "quiet s \<Longrightarrow> quiet (parked s)"
  by (simp add: quiet_iff cpu_ok_def parked_def)

lemma resumed_upd_proc: "resumed p old (upd_proc p f s) = upd_proc p f (resumed p old s)"
  by (simp add: resumed_def upd_proc_normal)

lemma yield_resume_eq:
  assumes "cpu_ok s" "noff (cpus s (mycpu s)) = 0" "lock_free (Proc_lock p) s" "p_state (procs s p) = RUNNABLE"
  shows "bnd (scheduler_try p s) (\<lambda>_. yield_resume p old) =
    Ret () (upd_proc p (\<lambda>q. q\<lparr>p_state := RUNNING\<rparr>) (resumed p old s))"
  using assms
  by (simp add: yield_resume_def sched_resume_def scheduler_try_some resume_release resumed_def upd_proc_normal)

lemma sleep_resume_eq:
  assumes "cpu_ok s" "noff (cpus s (mycpu s)) = 0" "lock_free (Proc_lock p) s" "p_state (procs s p) = RUNNABLE"
    and "l \<noteq> Proc_lock p"
  shows "bnd (scheduler_try p s) (\<lambda>_. sleep_resume p l old) =
    acquire l (upd_proc p (\<lambda>q. q\<lparr>p_state := RUNNING, p_chan := None\<rparr>) (resumed p old s))"
  using assms resume_release [of p s old "\<lambda>q. q\<lparr>p_state := RUNNING, p_chan := None\<rparr>"]
  by (simp add: sleep_resume_def sched_resume_def scheduler_try_some resumed_def upd_proc_normal comp_def)

text \<open>How the scheduler's view of a CPU moves through the other updates.\<close>

lemma parked_upd_proc: "parked (upd_proc p f s) = upd_proc p f (parked s)"
  by (simp add: parked_def upd_proc_normal)

lemma woken_moves:
  "woken ch A (parked s) = parked (woken ch A s)" "woken ch A (intr_on s) = intr_on (woken ch A s)"
  by (simp_all add: woken_def parked_def upd_cpu_def intr_on_def csr_defs cpu_defs)

lemma woken_upd_proc:
  assumes "p \<in> A" "p_state (f (procs s p)) = SLEEPING" "p_chan (f (procs s p)) = Some ch"
  shows "woken ch A (upd_proc p f s) =
    upd_proc p (\<lambda>q. (f q)\<lparr>p_state := RUNNABLE\<rparr>) (woken ch (A - {p}) s)"
  using assms by (auto simp: woken_def upd_proc_def wake_def fun_eq_iff)

lemma procs_intr [simp]: "procs (intr_on s) = procs s" "procs (intr_off s) = procs s"
  by (simp_all add: intr_on_def intr_off_def csr_defs)

lemma lock_free_intr [simp]: "lock_free l (intr_on s) = lock_free l s"
  by (simp add: lock_free_def)

lemma cpu_ok_idle: "noff (cpus s (mycpu s)) = 0 \<Longrightarrow> cpu_ok s"
  by (simp add: cpu_ok_def)

text \<open>
  A process that slept on \<open>ch\<close> and was woken is the one the scheduler switches to: its
  \<^verbatim>\<open>sleep\<close> returns holding the lock again.
\<close>

lemma sleep_returns:
  assumes "runs p s" "lock_free l s" "l \<noteq> Proc_lock p" "p_state (f (procs s p)) = RUNNABLE"
  shows "bnd (scheduler_try p (intr_on (parked (upd_proc p f s)))) (\<lambda>_. sleep_resume p l (intr_get s)) =
    Ret () (acquired l (upd_proc p (\<lambda>q. (f q)\<lparr>p_state := RUNNING, p_chan := None\<rparr>) s))"
proof -
  note D = runs_D [OF assms(1)]
  have "bnd (scheduler_try p (intr_on (parked (upd_proc p f s)))) (\<lambda>_. sleep_resume p l (intr_get s)) =
    acquire l (upd_proc p (\<lambda>q. q\<lparr>p_state := RUNNING, p_chan := None\<rparr>)
      (resumed p (intr_get s) (intr_on (parked (upd_proc p f s)))))"
    using D assms(3,4) by (intro sleep_resume_eq) (simp_all add: cpu_ok_idle)
  also have "resumed p (intr_get s) (intr_on (parked (upd_proc p f s))) = upd_proc p f s"
    using resumed_parked(1) [of "upd_proc p f s" p] D by simp
  finally show ?thesis using D assms(2) by (simp add: acquire_quiet comp_def)
qed

lemma runs_woken: "runs p s \<Longrightarrow> p \<notin> A \<Longrightarrow> runs p (woken ch A s)"
  by (simp add: runs_def) (simp add: woken_def wake_def)

section \<open>Table scans\<close>

lemma scheduler_scan_eq:
  assumes "quiet s" "procs_free s"
  shows "scheduler_scan i s = (case find (\<lambda>p. p_state (procs s p) = RUNNABLE) [i..<NPROC] of
      None \<Rightarrow> Ret None s
    | Some p \<Rightarrow> Ret (Some p) (upd_cpu (\<lambda>c. c\<lparr>cproc := Some p\<rparr>)
        (upd_proc p (\<lambda>q. q\<lparr>p_state := RUNNING\<rparr>) (acquired (Proc_lock p) s))))"
  unfolding scheduler_scan_def
  using assms by (intro foreach_find) (auto simp: procs_free_def scheduler_try_some scheduler_try_none quiet_cpu_ok)

lemma upd_proc_critical:
  assumes "quiet s" "lock_free (Proc_lock p) s"
  shows "release (Proc_lock p) (upd_proc p f (acquired (Proc_lock p) s)) = Ret () (upd_proc p f s)"
  by (rule critical_quiet [OF assms]) (simp_all add: upd_proc_def)

lemma lock_critical:
  assumes "quiet s" "lock_free l s"
  shows "release l (acquired l s) = Ret () s"
  by (rule critical_quiet [OF assms, where body = "\<lambda>s. s"]) simp_all

lemma kill_at_eq:
  assumes "quiet s" "lock_free (Proc_lock p) s"
  shows "kill_at pid p s = (if p_pid (procs s p) = pid
    then Ret (Some 0) (upd_proc p (\<lambda>q. q\<lparr>p_killed := True,
        p_state := if p_state q = SLEEPING then RUNNABLE else p_state q\<rparr>) s)
    else Ret None s)"
  using upd_proc_critical [OF assms]
  by (simp add: kill_at_def acquire_quiet [OF assms] lock_critical [OF assms] Let_def) (auto simp: upd_proc_def)

lemma kill_eq:
  assumes "quiet s" "procs_free s"
  shows "kill pid s = (case find (\<lambda>p. p_pid (procs s p) = pid) [0..<NPROC] of
      None \<Rightarrow> Ret (-1) s
    | Some p \<Rightarrow> Ret 0 (upd_proc p (\<lambda>q. q\<lparr>p_killed := True,
        p_state := if p_state q = SLEEPING then RUNNABLE else p_state q\<rparr>) s))"
proof -
  have "foreach [0..<NPROC] (kill_at pid) s = (case find (\<lambda>p. p_pid (procs s p) = pid) [0..<NPROC] of
      None \<Rightarrow> Ret None s
    | Some p \<Rightarrow> Ret (Some 0) (upd_proc p (\<lambda>q. q\<lparr>p_killed := True,
        p_state := if p_state q = SLEEPING then RUNNABLE else p_state q\<rparr>) s))"
    using assms by (intro foreach_find) (auto simp: procs_free_def kill_at_eq)
  then show ?thesis by (simp add: kill_def split: option.splits)
qed

section \<open>Properties\<close>

definition demo_kproc :: kproc where
  "demo_kproc = \<lparr>hart = 0, csrs = csrs demo_core,
     cpus = (\<lambda>h. \<lparr>cproc = if h = 0 then Some 5 else None, noff = 0, intena = True\<rparr>),
     lk = lk demo_core, mem = (\<lambda>_. 0), freelist = 0, end_addr = 0x80026000,
     kernel_pagetable = 0x87FFF000, etext_addr = 0x80008000, trampoline_addr = 0x80007000,
     procs = (\<lambda>p. \<lparr>p_state = if p = 5 then RUNNING else if p = 9 then RUNNABLE else UNUSED, p_parent = None,
       p_chan = None, p_killed = False, p_xstate = 0, p_pid = if p = 5 then 1 else if p = 9 then 2 else 0,
       p_kstack = 0, p_sz = 0, p_pagetable = 0, p_trapframe = 0,
       p_context = \<lparr>ctx_ra = 0, ctx_sp = 0, ctx_s = replicate 12 0\<rparr>, p_ofile = (\<lambda>_. None), p_cwd = None,
       p_name = replicate 16 0\<rparr>),
     initproc = Some 5, nextpid = 3, forkret_addr = 0x80001000, first = False\<rparr>"

lemma demo_kproc_hart [simp]: "h < NCPU \<Longrightarrow> mycpu (demo_kproc\<lparr>hart := h\<rparr>) = h"
  by (rule mycpu_hart) (simp_all add: demo_kproc_def demo_core_def)

lemma demo_kproc_mycpu [simp]: "mycpu demo_kproc = 0"
  using demo_kproc_hart [of 0] by (simp add: demo_kproc_def NCPU_def)

lemma demo_kproc_runs: "runs 5 demo_kproc"
  by (simp add: runs_def quiet_iff cpu_ok_def procs_free_def lock_free_def NPROC_def)
    (simp add: demo_kproc_def demo_core_def intr_get_iff csr_defs bit_simps)

text \<open>
  C21: \<^verbatim>\<open>yield\<close> is transparent to its caller.  A running thread without spin locks gets to
  \<^verbatim>\<open>swtch\<close>; the scheduler of its CPU then owns the CPU, with the process runnable and its lock
  free; and when that scheduler, having enabled interrupts, picks the process again, the rest of
  \<^verbatim>\<open>yield\<close> returns exactly the state before the call, the interrupt enable included.
\<close>

theorem yield_transparent:
  assumes "runs p s"
  shows "\<exists>t u. yield s = Swtch t \<and> scheduler_back p t = Ret () u \<and>
    p_state (procs u p) = RUNNABLE \<and> cproc (cpus u (mycpu u)) = None \<and> lock_free (Proc_lock p) u \<and>
    bnd (scheduler_try p (intr_on u)) (\<lambda>_. yield_resume p (intena (cpus t (mycpu t)))) = Ret () s"
proof -
  note D = runs_D [OF assms]
  let ?f = "\<lambda>q. q\<lparr>p_state := RUNNABLE\<rparr>"
  let ?t = "upd_proc p ?f (acquired (Proc_lock p) s)" and ?u = "parked (upd_proc p ?f s)"
  have "scheduler_back p ?t = Ret () ?u" using D by (simp add: scheduler_back_eq parked_def)
  moreover have "intena (cpus ?t (mycpu ?t)) = intr_get s"
    using D by (simp add: acquired_def push_off_def Let_def)
  moreover have "upd_proc p (\<lambda>q. q\<lparr>p_state := RUNNING\<rparr>) (resumed p (intr_get s) (intr_on ?u)) = s"
    using resumed_parked(1) [of "upd_proc p ?f s" p] D by (simp add: comp_def) (simp add: upd_proc_id)
  then have "bnd (scheduler_try p (intr_on ?u)) (\<lambda>_. yield_resume p (intr_get s)) = Ret () s"
    using D by (subst yield_resume_eq) (simp_all add: cpu_ok_idle)
  moreover have "cproc (cpus ?u (mycpu ?u)) = None" by (simp add: parked_def)
  ultimately show ?thesis using yield_eq [OF assms] D by auto
qed

theorem yield_transparent_witness:
  "\<exists>t u. yield demo_kproc = Swtch t \<and> scheduler_back 5 t = Ret () u \<and>
    bnd (scheduler_try 5 (intr_on u)) (\<lambda>_. yield_resume 5 (intena (cpus t (mycpu t)))) = Ret () demo_kproc"
  using yield_transparent [OF demo_kproc_runs] by (elim exE conjE) (intro exI conjI)



text \<open>
  C22: a pass of the scheduler switches to the first runnable process of the table, marked
  running, with its lock held and the CPU's process set; when there is none, the pass leaves the
  state as it was.
\<close>

theorem scheduler_picks_first:
  assumes "quiet s" "procs_free s"
  shows "(\<exists>p<NPROC. p_state (procs s p) = RUNNABLE \<and> (\<forall>q<p. p_state (procs s q) \<noteq> RUNNABLE) \<and>
      (\<exists>t. scheduler_scan 0 s = Ret (Some p) t \<and> holding (Proc_lock p) t \<and> cproc (cpus t (mycpu t)) = Some p \<and>
        procs t = (procs s)(p := (procs s p)\<lparr>p_state := RUNNING\<rparr>))) \<or>
    (\<forall>p<NPROC. p_state (procs s p) \<noteq> RUNNABLE) \<and> scheduler_scan 0 s = Ret None s"
proof (cases "find (\<lambda>p. p_state (procs s p) = RUNNABLE) [0..<NPROC]")
  case None
  then have "scheduler_scan 0 s = Ret None s" using scheduler_scan_eq [OF assms, of 0] by simp
  moreover have "\<forall>p<NPROC. p_state (procs s p) \<noteq> RUNNABLE" using None by (auto simp: find_None_iff)
  ultimately show ?thesis by blast
next
  case (Some p)
  then have p: "p < NPROC" "p_state (procs s p) = RUNNABLE" "\<forall>q<p. p_state (procs s q) \<noteq> RUNNABLE"
    by (auto simp: find_Some_iff)
  moreover have "holding (Proc_lock p) (upd_cpu (\<lambda>c. c\<lparr>cproc := Some p\<rparr>)
        (upd_proc p (\<lambda>q. q\<lparr>p_state := RUNNING\<rparr>) (acquired (Proc_lock p) s)))"
    by (simp add: holding_def acquired_def)
  moreover have "procs (upd_cpu f t) = procs t" for f and t :: "'a kproc_scheme" by (simp add: upd_cpu_def)
  ultimately show ?thesis using scheduler_scan_eq [OF assms, of 0] Some by auto
qed

theorem scheduler_picks_first_witness:
  "\<exists>t. scheduler_scan 0 demo_kproc = Ret (Some 9) t \<and> cproc (cpus t (mycpu t)) = Some 9"
proof -
  have r: "p_state (procs demo_kproc p) = RUNNABLE \<longleftrightarrow> p = 9" for p by (simp add: demo_kproc_def)
  moreover have "9 < NPROC" by (simp add: NPROC_def)
  ultimately obtain p t where "p_state (procs demo_kproc p) = RUNNABLE"
    "scheduler_scan 0 demo_kproc = Ret (Some p) t" "cproc (cpus t (mycpu t)) = Some p"
    using scheduler_picks_first [OF runs_D(1,5) [OF demo_kproc_runs]] by blast
  then show ?thesis using r by auto
qed



end
