(* ===== verification/Disk_Transfer.thy ===== *)
theory Disk_Transfer
  imports Virtio Scheduling
begin

text \<open>
  What \<^verbatim>\<open>virtio_disk_rw\<close> does when the disk is idle and no one else waits for it: the request
  completes, the block has been transferred, and everything but the driver's own book-keeping is
  as before.
\<close>

section \<open>Updates of the disk's fields move inwards\<close>

lemma acquired_cpus: "cpus (acquired l s) =
    (cpus s)(mycpu s := (if noff (cpus s (mycpu s)) = 0 then (cpus s (mycpu s))\<lparr>intena := intr_get s\<rparr>
      else cpus s (mycpu s))\<lparr>noff := noff (cpus s (mycpu s)) + 1\<rparr>)"
  by (simp add: acquired_def push_off_def Let_def)

lemma intr_off_cong: "hart t = hart s \<Longrightarrow> csrs t = csrs s \<Longrightarrow> csrs (intr_off t) = csrs (intr_off s)"
  by (simp add: intr_off_def csr_defs)

lemma acquired_commute:
  assumes "\<And>cs cp k. F (s\<lparr>csrs := cs, cpus := cp, lk := k\<rparr>) = (F s)\<lparr>csrs := cs, cpus := cp, lk := k\<rparr>"
    and "hart (F s) = hart s" "csrs (F s) = csrs s" "cpus (F s) = cpus s" "lk (F s) = lk s"
  shows "F (acquired l s) = acquired l (F s)"
proof -
  have m: "mycpu (F s) = mycpu s" "intr_get (F s) = intr_get s"
    by (rule mycpu_cong [OF assms(2,3)], rule intr_get_cong [OF assms(2,3)])
  have e1: "csrs (acquired l (F s)) = csrs (acquired l s)"
    unfolding acquired_core(3) using assms(2,3) by (rule intr_off_cong)
  have e2: "cpus (acquired l (F s)) = cpus (acquired l s)" unfolding acquired_cpus m assms(4) ..
  have e3: "lk (acquired l (F s)) = lk (acquired l s)" unfolding acquired_core(1) m assms(5) ..
  have "F (acquired l s) = F (s\<lparr>csrs := csrs (acquired l s), cpus := cpus (acquired l s), lk := lk (acquired l s)\<rparr>)"
    by (rule arg_cong [OF acquired_form])
  also have "\<dots> = (F s)\<lparr>csrs := csrs (acquired l s), cpus := cpus (acquired l s), lk := lk (acquired l s)\<rparr>"
    by (rule assms(1))
  also have "\<dots> = acquired l (F s)"
    unfolding e1 [symmetric] e2 [symmetric] e3 [symmetric] by (rule acquired_form [symmetric])
  finally show ?thesis .
qed

text \<open>
  \<open>dset d v bs ss w\<close> sets the fields of this layer; every state has this form.
\<close>

definition dset :: "vdisk \<Rightarrow> vdevice \<Rightarrow> (nat \<Rightarrow> buf) \<Rightarrow> (uint64 \<Rightarrow> byte list) \<Rightarrow> (uint64 \<times> byte list) list \<Rightarrow>
    'a kdisk_scheme \<Rightarrow> 'a kdisk_scheme" where
  "dset d v bs ss w s = s\<lparr>bufs := bs, disk := d, vdev := v, sectors := ss, wlog := w\<rparr>"

lemma dset_id: "dset (disk s) (vdev s) (bufs s) (sectors s) (wlog s) s = s"
  by (simp add: dset_def)

lemma dset_fields [simp]:
  "disk (dset d v bs ss w s) = d" "vdev (dset d v bs ss w s) = v" "bufs (dset d v bs ss w s) = bs"
  "sectors (dset d v bs ss w s) = ss" "wlog (dset d v bs ss w s) = w"
  "hart (dset d v bs ss w s) = hart s" "csrs (dset d v bs ss w s) = csrs s" "cpus (dset d v bs ss w s) = cpus s"
  "lk (dset d v bs ss w s) = lk s" "procs (dset d v bs ss w s) = procs s" "slk (dset d v bs ss w s) = slk s"
  "mem (dset d v bs ss w s) = mem s"
  by (simp_all add: dset_def)

lemma dset_core [simp]:
  "quiet (dset d v bs ss w s) = quiet s" "lock_free l (dset d v bs ss w s) = lock_free l s"
  "mycpu (dset d v bs ss w s) = mycpu s" "intr_get (dset d v bs ss w s) = intr_get s"
  "cpu_ok (dset d v bs ss w s) = cpu_ok s"
  by (rule quiet_cong core_cong; simp)+

lemma dset_runs [simp]: "runs p (dset d v bs ss w s) = runs p s" "procs_free (dset d v bs ss w s) = procs_free s"
  by (simp_all add: runs_def procs_free_def)

lemma dset_dset [simp]: "dset d v bs ss w (dset d' v' bs' ss' w' s) = dset d v bs ss w s"
  by (simp add: dset_def)

lemma dset_upd:
  "upd_disk f (dset d v bs ss w s) = dset (f d) v bs ss w s"
  "upd_buf b g (dset d v bs ss w s) = dset d v (bs(b := g (bs b))) ss w s"
  "vwrite r x (dset d v bs ss w s) = dset d (v\<lparr>vmmio := (vmmio v)(VIRTIO0 + r := x)\<rparr>) bs ss w s"
  "vread r (dset d v bs ss w s) = vmmio v (VIRTIO0 + r)"
  "(dset d v bs ss w s)\<lparr>disk := d'\<rparr> = dset d' v bs ss w s"
  "(dset d v bs ss w s)\<lparr>vdev := v'\<rparr> = dset d v' bs ss w s"
  "(dset d v bs ss w s)\<lparr>bufs := bs'\<rparr> = dset d v bs' ss w s"
  "(dset d v bs ss w s)\<lparr>sectors := ss'\<rparr> = dset d v bs ss' w s"
  "(dset d v bs ss w s)\<lparr>wlog := w'\<rparr> = dset d v bs ss w' s"
  "(dset d v bs ss w s)\<lparr>sectors := ss', wlog := w'\<rparr> = dset d v bs ss' w' s"
  by (simp_all add: dset_def upd_disk_def upd_buf_def vwrite_def vread_def)

lemma dset_moves:
  "acquired l (dset d v bs ss w s) = dset d v bs ss w (acquired l s)"
  "intr_on (dset d v bs ss w s) = dset d v bs ss w (intr_on s)"
  "intr_off (dset d v bs ss w s) = dset d v bs ss w (intr_off s)"
  "parked (dset d v bs ss w s) = dset d v bs ss w (parked s)"
  "upd_proc p f (dset d v bs ss w s) = dset d v bs ss w (upd_proc p f s)"
  "woken ch A (dset d v bs ss w s) = dset d v bs ss w (woken ch A s)"
  "resumed p old (dset d v bs ss w s) = dset d v bs ss w (resumed p old s)"
proof -
  show "acquired l (dset d v bs ss w s) = dset d v bs ss w (acquired l s)"
    by (rule acquired_commute [symmetric]) (simp_all add: dset_def)
  show on: "intr_on (dset d v bs ss w s) = dset d v bs ss w (intr_on s)" for s :: "'a kdisk_scheme"
    by (simp add: dset_def intr_on_def csr_defs)
  show off: "intr_off (dset d v bs ss w s) = dset d v bs ss w (intr_off s)" for s :: "'a kdisk_scheme"
    by (simp add: dset_def intr_off_def csr_defs)
  have cpu: "upd_cpu g (dset d v bs ss w s) = dset d v bs ss w (upd_cpu g s)" for g and s :: "'a kdisk_scheme"
    unfolding upd_cpu_def dset_core dset_fields by (simp add: dset_def)
  show "parked (dset d v bs ss w s) = dset d v bs ss w (parked s)" by (simp add: parked_def cpu)
  show "resumed p old (dset d v bs ss w s) = dset d v bs ss w (resumed p old s)"
    by (simp add: resumed_def on off cpu)
  show "upd_proc p f (dset d v bs ss w s) = dset d v bs ss w (upd_proc p f s)" by (simp add: dset_def upd_proc_def)
  show "woken ch A (dset d v bs ss w s) = dset d v bs ss w (woken ch A s)" by (simp add: dset_def woken_def)
qed

section \<open>An idle disk\<close>

text \<open>
  \<open>disk_idle\<close>: every descriptor is free, and the device and the driver have both seen every
  request.  \<open>calm\<close>: nobody waits for the disk, a buffer, a sleep lock or the log.
\<close>

definition disk_idle :: "vdisk \<Rightarrow> vdevice \<Rightarrow> bool" where
  "disk_idle d v \<longleftrightarrow> (\<forall>i<NUM. dfree d i) \<and> dev_seen v = avail_idx d \<and> used_id d = avail_idx d \<and>
     unat (used_idx d) = unat (avail_idx d) mod 8"

fun fs_chan :: "chan \<Rightarrow> bool" where
  "fs_chan Disk_free_chan = True"
| "fs_chan (Buf_chan b) = True"
| "fs_chan (Sleeplock_chan l) = True"
| "fs_chan Log_chan = True"
| "fs_chan _ = False"

definition calm :: "(nat \<Rightarrow> proc) \<Rightarrow> bool" where
  "calm ps \<longleftrightarrow> (\<forall>q ch. p_state (ps q) = SLEEPING \<and> p_chan (ps q) = Some ch \<longrightarrow> \<not> fs_chan ch)"

lemma calm_woken: "calm (procs s) \<Longrightarrow> fs_chan ch \<Longrightarrow> woken ch A s = s"
proof -
  assume "calm (procs s)" "fs_chan ch"
  then have "wake ch A (procs s) = procs s" by (auto simp: calm_def wake_def fun_eq_iff)
  then show ?thesis by (simp add: woken_def)
qed

definition req_desc :: "nat \<Rightarrow> bool \<Rightarrow> uint64 \<Rightarrow> nat \<Rightarrow> VRingDesc" where
  "req_desc b wr sec i =
     (if i = 0 then \<lparr>vr_addr = Hdr (if wr then VIRTIO_BLK_T_OUT else VIRTIO_BLK_T_IN) sec, vr_len = 16,
        vr_flags = VRING_DESC_F_NEXT, vr_next = 1\<rparr>
      else if i = 1 then \<lparr>vr_addr = Buf_data b, vr_len = of_nat BSIZE,
        vr_flags = (if wr then 0 else VRING_DESC_F_WRITE) OR VRING_DESC_F_NEXT, vr_next = 2\<rparr>
      else \<lparr>vr_addr = Info_status 0, vr_len = 1, vr_flags = VRING_DESC_F_WRITE, vr_next = 0\<rparr>)"

definition requested :: "nat \<Rightarrow> bool \<Rightarrow> uint64 \<Rightarrow> vdisk \<Rightarrow> vdisk" where
  "requested b wr sec d = d\<lparr>dfree := (dfree d)(0 := False, 1 := False, 2 := False),
     info_status := (info_status d)(0 := 0),
     desc := (desc d)(0 := req_desc b wr sec 0, 1 := req_desc b wr sec 1, 2 := req_desc b wr sec 2), info_b := (info_b d)(0 := Some b),
     avail_ring := (avail_ring d)(unat (avail_idx d) mod 8 := 0), avail_idx := avail_idx d + 1\<rparr>"

lemma upt_NUM: "[0..<NUM] = [0, 1, 2, 3, 4, 5, 6, 7]"
  by (simp add: NUM_def upt_rec)

lemma alloc3_desc_idle:
  assumes "\<forall>i<NUM. dfree d i"
  shows "alloc3_desc (dset d v bs ss w s) =
    Ret (Some (0, 1, 2)) (dset (d\<lparr>dfree := (dfree d)(0 := False, 1 := False, 2 := False)\<rparr>) v bs ss w s)"
proof -
  have "dfree d 0" "dfree d 1" "dfree d 2" using assms by (simp_all add: NUM_def)
  then show ?thesis by (simp add: alloc3_desc_def alloc_desc_def upt_NUM dset_upd Let_def)
qed

definition sector_of :: "buf \<Rightarrow> uint64" where
  "sector_of b = ucast (b_blockno b * (1024 div 512))"

lemma virtio_disk_start_eq:
  assumes "quiet s" "lock_free Vdisk_lock s" "disk_idle (disk s) (vdev s)"
  shows "virtio_disk_start b wr s = Ret 0 (acquired Vdisk_lock
    (dset (requested b wr (sector_of (bufs s b)) (disk s))
      ((vdev s)\<lparr>vmmio := (vmmio (vdev s))(VIRTIO0 + VIRTIO_MMIO_QUEUE_NOTIFY := 0)\<rparr>)
      ((bufs s)(b := (bufs s b)\<lparr>b_disk := True\<rparr>)) (sectors s) (wlog s) s))"
proof -
  have 1: "acquired Vdisk_lock s = dset (disk s) (vdev s) (bufs s) (sectors s) (wlog s) (acquired Vdisk_lock s)"
    using dset_moves(1) [of Vdisk_lock "disk s" "vdev s" "bufs s" "sectors s" "wlog s" s] by (simp add: dset_id)
  have "\<forall>i<NUM. dfree (disk s) i" using assms(3) by (simp add: disk_idle_def)
  note a = alloc3_desc_idle [OF this]
  show ?thesis
    unfolding virtio_disk_start_def acquire_quiet [OF assms(1,2)] Let_def bnd.simps
    by (subst 1) (simp add: a dset_upd dset_moves sector_of_def requested_def req_desc_def upd_desc_def NUM_def)
qed

section \<open>The device and the interrupt handler\<close>

text \<open>The transfer of a block, and the queue after the device has worked off the request.\<close>

definition xfer_bufs :: "nat \<Rightarrow> bool \<Rightarrow> uint64 \<Rightarrow> (uint64 \<Rightarrow> byte list) \<Rightarrow> (nat \<Rightarrow> buf) \<Rightarrow> nat \<Rightarrow> buf" where
  "xfer_bufs b wr sec ss bs = (if wr then bs else bs(b := (bs b)\<lparr>b_data := ss sec @ ss (sec + 1)\<rparr>))"

definition xfer_sectors :: "byte list \<Rightarrow> bool \<Rightarrow> uint64 \<Rightarrow> (uint64 \<Rightarrow> byte list) \<Rightarrow> uint64 \<Rightarrow> byte list" where
  "xfer_sectors bs wr sec ss = (if wr then ss(sec := take 512 bs, sec + 1 := drop 512 bs) else ss)"

definition xfer_writes :: "byte list \<Rightarrow> bool \<Rightarrow> uint64 \<Rightarrow> (uint64 \<times> byte list) list" where
  "xfer_writes bs wr sec = (if wr then [(sec, take 512 bs), (sec + 1, drop 512 bs)] else [])"

definition completed :: "vdisk \<Rightarrow> vdisk" where
  "completed d = d\<lparr>info_status := (info_status d)(0 := 0),
     used_elems := (used_elems d)(unat (used_id d) mod NUM := 0), used_id := used_id d + 1\<rparr>"

lemmas xfer_defs = xfer_bufs_def xfer_sectors_def xfer_writes_def

lemma vdev_run_eq:
  assumes "dev_seen v = avail_idx d" "used_id d = avail_idx d"
  shows "vdev_run (dset (requested b wr sec d) v bs ss w s) =
    dset (completed (requested b wr sec d)) (v\<lparr>dev_seen := dev_seen v + 1\<rparr>) (xfer_bufs b wr sec ss bs)
      (xfer_sectors (b_data (bs b)) wr sec ss) (w @ xfer_writes (b_data (bs b)) wr sec) s"
proof -
  let ?d = "requested b wr sec d"
  have f: "desc ?d 0 = req_desc b wr sec 0" "desc ?d (Suc 0) = req_desc b wr sec 1" "desc ?d 2 = req_desc b wr sec 2"
    "avail_idx ?d = avail_idx d + 1" "avail_ring ?d (unat (avail_idx d) mod 8) = 0" "used_id ?d = used_id d"
    by (simp_all add: requested_def)
  have t: "vdev_transfer 0 (dset ?d v bs ss w s) =
    dset (?d\<lparr>info_status := (info_status ?d)(0 := 0)\<rparr>) v (xfer_bufs b wr sec ss bs)
      (xfer_sectors (b_data (bs b)) wr sec ss) (w @ xfer_writes (b_data (bs b)) wr sec) s"
    by (simp add: vdev_transfer_def f req_desc_def Let_def vring_defs dset_upd xfer_defs)
  have st: "vdev_step (dset ?d v bs ss w s) =
    dset (completed ?d) (v\<lparr>dev_seen := dev_seen v + 1\<rparr>) (xfer_bufs b wr sec ss bs)
      (xfer_sectors (b_data (bs b)) wr sec ss) (w @ xfer_writes (b_data (bs b)) wr sec) s"
    by (simp add: vdev_step_def Let_def assms f NUM_def t dset_upd completed_def)
  have "dev_seen v \<noteq> avail_idx ?d" using assms f by simp
  moreover have "avail_idx (completed ?d) = dev_seen v + 1" using assms f by (simp add: completed_def)
  ultimately show ?thesis
    by (subst vdev_run.simps) (simp add: st, subst vdev_run.simps, simp)
qed

definition caught_up :: "vdisk \<Rightarrow> vdisk" where
  "caught_up d = d\<lparr>used_idx := (used_idx d + 1) mod 8\<rparr>"

lemma virtio_disk_intr_loop_eq:
  assumes "quiet s" "procs_free s" "used_id d = avail_idx d" "unat (used_idx d) = unat (avail_idx d) mod 8"
  shows "virtio_disk_intr_loop (dset (completed (requested b wr sec d)) v bs ss w s) =
    Ret () (dset (caught_up (completed (requested b wr sec d))) v (bs(b := (bs b)\<lparr>b_disk := False\<rparr>)) ss w
      (woken (Buf_chan b) {..<NPROC} s))"
proof -
  let ?d = "completed (requested b wr sec d)"
  have f: "used_idx ?d = used_idx d" "used_id ?d = avail_idx d + 1" "info_b ?d 0 = Some b" "info_status ?d 0 = 0"
    "used_elems ?d (unat (used_idx d)) = 0"
    using assms(3,4) by (simp_all add: completed_def requested_def NUM_def)
  have "a mod 8 mod 8 \<noteq> (a + 1) mod (8 :: nat)" for a by (auto simp: mod_Suc)
  then have "unat (used_idx ?d mod 8) \<noteq> unat (used_id ?d mod 8)"
    unfolding f unat_succ_mod8 unat_mod8 [of "used_idx d"] assms(4) .
  then have ne: "used_idx ?d mod 8 \<noteq> used_id ?d mod 8" by metis
  have "(a mod 8 + 1) mod 8 mod 8 = (a + 1) mod (8 :: nat)" for a by (simp add: mod_Suc_eq)
  then have "unat ((used_idx ?d + 1) mod 8 mod 8) = unat (used_id ?d mod 8)"
    unfolding f unat_mod8 [of "(used_idx d + 1) mod 8"] unat_succ_mod8 assms(4) .
  then have "used_idx (caught_up ?d) mod 8 = used_id (caught_up ?d) mod 8"
    by (simp add: caught_up_def flip: word_unat_eq_iff)
  then have stop: "virtio_disk_intr_loop (dset (caught_up ?d) v bs ss w s) = Ret () (dset (caught_up ?d) v bs ss w s)"
    for v bs ss w and s :: "'a kdisk_scheme"
    by (subst virtio_disk_intr_loop.simps) simp
  show ?thesis
    using ne wakeup_eq [OF assms(1,2), of "Buf_chan b"]
    by (subst virtio_disk_intr_loop.simps)
      (simp add: f assms(1,2) Let_def dset_upd wakeup_eq dset_moves stop flip: caught_up_def)
qed

definition acked :: "vdevice \<Rightarrow> vdevice" where
  "acked v = v\<lparr>vmmio := (vmmio v)(VIRTIO0 + VIRTIO_MMIO_INTERRUPT_ACK :=
     vmmio v (VIRTIO0 + VIRTIO_MMIO_INTERRUPT_STATUS) AND 3)\<rparr>"

lemma virtio_trap_eq:
  assumes "noff (cpus s (mycpu s)) = 0" "intr_get s" "lock_free Vdisk_lock s" "procs_free s"
    and "used_id d = avail_idx d" "unat (used_idx d) = unat (avail_idx d) mod 8"
  shows "virtio_trap (dset (completed (requested b wr sec d)) v bs ss w s) =
    Ret () (dset (caught_up (completed (requested b wr sec d))) (acked v) (bs(b := (bs b)\<lparr>b_disk := False\<rparr>)) ss w
      (upd_cpu (\<lambda>c. c\<lparr>intena := False\<rparr>) (woken (Buf_chan b) {..<NPROC} s)))"
proof -
  let ?d = "completed (requested b wr sec d)" and ?o = "intr_off s" and ?bs = "bs(b := (bs b)\<lparr>b_disk := False\<rparr>)"
  have ok: "cpu_ok ?o" using assms(1) by (simp add: cpu_ok_idle)
  have free: "lock_free Vdisk_lock ?o" "procs_free ?o" using assms(3,4) by (simp_all add: lock_free_def procs_free_def)
  have a: "acquire Vdisk_lock (dset ?d v bs ss w ?o) = Ret () (dset ?d v bs ss w (acquired Vdisk_lock ?o))"
    using acquire_ok [of Vdisk_lock "dset ?d v bs ss w ?o"] ok free by (simp add: lockable_def dset_moves)
  have l: "virtio_disk_intr_loop (dset ?d v bs ss w (acquired Vdisk_lock ?o)) =
    Ret () (dset (caught_up ?d) v ?bs ss w (woken (Buf_chan b) {..<NPROC} (acquired Vdisk_lock ?o)))"
    using ok free assms(5,6) by (intro virtio_disk_intr_loop_eq) (simp_all add: quiet_acquired procs_free_acquired)
  have "release Vdisk_lock (dset (caught_up ?d) (acked v) ?bs ss w (woken (Buf_chan b) {..<NPROC} (acquired Vdisk_lock ?o))) =
    Ret () ((dset (caught_up ?d) (acked v) ?bs ss w (woken (Buf_chan b) {..<NPROC} ?o))\<lparr>cpus := tcpus ?o\<rparr>)"
    using ok free(1) by (intro critical) (simp_all add: lockable_def dset_def woken_def)
  moreover have "(dset (caught_up ?d) (acked v) ?bs ss w (woken (Buf_chan b) {..<NPROC} ?o))\<lparr>cpus := tcpus ?o\<rparr> =
    dset (caught_up ?d) (acked v) ?bs ss w (intr_off (upd_cpu (\<lambda>c. c\<lparr>intena := False\<rparr>) (woken (Buf_chan b) {..<NPROC} s)))"
  proof -
    have 1: "tcpus ?o = (cpus s)(mycpu s := (cpus s (mycpu s))\<lparr>intena := False\<rparr>)"
      using assms(1) by (simp add: tcpus_eq)
    have 2: "woken (Buf_chan b) {..<NPROC} ?o = intr_off (woken (Buf_chan b) {..<NPROC} s)"
      by (simp add: woken_def intr_off_def csr_defs)
    have 3: "(intr_off t)\<lparr>cpus := C\<rparr> = intr_off (t\<lparr>cpus := C\<rparr>)" for t :: "'a kdisk_scheme" and C
      by (simp add: intr_off_def csr_defs)
    have 4: "(dset d v bs ss w t)\<lparr>cpus := C\<rparr> = dset d v bs ss w (t\<lparr>cpus := C\<rparr>)" for d v bs ss w C and t :: "'a kdisk_scheme"
      by (simp add: dset_def)
    show ?thesis unfolding 1 2 3 4 by (simp add: upd_cpu_def)
  qed
  ultimately show ?thesis using assms(2) a l
    by (simp add: virtio_trap_def virtio_disk_intr_def dset_moves dset_upd flip: acked_def)
      (simp add: intr_on_idle flip: core_normal)
qed

section \<open>The wait for the interrupt\<close>

lemma resumed_intena: "resumed p old (upd_cpu (\<lambda>c. c\<lparr>intena := x\<rparr>) s) = resumed p old s"
  by (simp add: resumed_def core_normal comp_def)

lemma upd_cpu_frame [simp]: "lock_free l (upd_cpu f s) = lock_free l s" "procs (upd_cpu f t) = procs t"
  by (simp add: lock_free_def) (simp add: upd_cpu_def)

lemma served_eq:
  assumes r: "runs p s" and free: "lock_free Vdisk_lock s" and calm: "calm (procs s)" "p_chan (procs s p) = None"
    and d: "dev_seen v = avail_idx d" "used_id d = avail_idx d" "unat (used_idx d) = unat (avail_idx d) mod 8"
  shows "served p b (acquired Vdisk_lock (dset (requested b wr sec d) v bs ss w s)) =
    Ret () (acquired Vdisk_lock (dset (caught_up (completed (requested b wr sec d)))
      (acked (v\<lparr>dev_seen := dev_seen v + 1\<rparr>))
      ((xfer_bufs b wr sec ss bs)(b := (xfer_bufs b wr sec ss bs b)\<lparr>b_disk := False\<rparr>))
      (xfer_sectors (b_data (bs b)) wr sec ss) (w @ xfer_writes (b_data (bs b)) wr sec) s))"
proof -
  note D = runs_D [OF r]
  let ?X = "dset (requested b wr sec d) v bs ss w" and ?f = "\<lambda>q. q\<lparr>p_chan := Some (Buf_chan b), p_state := SLEEPING\<rparr>"
  let ?g = "\<lambda>q. q\<lparr>p_chan := Some (Buf_chan b), p_state := RUNNABLE\<rparr>"
  let ?Y = "dset (caught_up (completed (requested b wr sec d))) (acked (v\<lparr>dev_seen := dev_seen v + 1\<rparr>))
      ((xfer_bufs b wr sec ss bs)(b := (xfer_bufs b wr sec ss bs b)\<lparr>b_disk := False\<rparr>))
      (xfer_sectors (b_data (bs b)) wr sec ss) (w @ xfer_writes (b_data (bs b)) wr sec)"
  let ?t = "upd_proc p ?f (acquired (Proc_lock p) (?X s))"
  let ?u = "?X (intr_on (parked (upd_proc p ?f s)))"
  let ?v = "?Y (upd_cpu (\<lambda>c. c\<lparr>intena := False\<rparr>) (intr_on (parked (upd_proc p ?g s))))"
  have 1: "sleep (Buf_chan b) Vdisk_lock (acquired Vdisk_lock (?X s)) = Swtch ?t"
    using r free by (intro sleep_eq) simp_all
  have 2: "scheduler_back p ?t = Ret () (?X (parked (upd_proc p ?f s)))"
    using D scheduler_back_eq [of "?X s" p ?f] by (simp add: dset_moves flip: parked_def)
  have "woken (Buf_chan b) {..<NPROC} (intr_on (parked (upd_proc p ?f s))) = intr_on (parked (upd_proc p ?g s))"
    using D(4) woken_upd_proc [of p "{..<NPROC}" ?f s "Buf_chan b"] calm_woken [of s "Buf_chan b"] calm
    by (simp add: woken_moves)
  then have 3: "virtio_trap (vdev_run ?u) = Ret () ?v"
    using D free d by (subst vdev_run_eq, simp, simp, subst virtio_trap_eq) (simp_all add: procs_free_def)
  have 4: "intena (cpus ?t (mycpu ?t)) = intr_get s" using D by (simp add: acquired_def push_off_def Let_def)
  have "resumed p (intr_get s) ?v = ?Y (upd_proc p ?g s)"
    using resumed_parked(1) [of "upd_proc p ?g s" p] D by (simp add: dset_moves resumed_intena)
  moreover have "upd_proc p (\<lambda>q. q\<lparr>p_state := RUNNING, p_chan := None\<rparr>) (upd_proc p ?g s) = s"
    using D(7) calm(2) by (simp add: comp_def) (simp add: upd_proc_id)
  moreover have "bnd (scheduler_try p ?v) (\<lambda>_. sleep_resume p Vdisk_lock (intr_get s)) =
    acquire Vdisk_lock (upd_proc p (\<lambda>q. q\<lparr>p_state := RUNNING, p_chan := None\<rparr>) (resumed p (intr_get s) ?v))"
    using D by (intro sleep_resume_eq) (simp_all add: cpu_ok_idle)
  ultimately have "bnd (scheduler_try p ?v) (\<lambda>_. sleep_resume p Vdisk_lock (intr_get s)) =
    Ret () (acquired Vdisk_lock (?Y s))"
    using D free by (simp add: dset_moves acquire_quiet)
  moreover have "\<exists>x. scheduler_try p ?v = Ret (Some p) x"
    using D by (subst scheduler_try_some) (simp_all add: cpu_ok_idle)
  ultimately show ?thesis using 1 2 3 4 by (auto simp: served_def dset_moves)
qed

section \<open>The whole request\<close>

definition freed :: "nat \<Rightarrow> vdisk \<Rightarrow> vdisk" where
  "freed i d = (upd_desc i (\<lambda>d. d\<lparr>vr_addr := Null\<rparr>) d)\<lparr>dfree := (dfree d)(i := True)\<rparr>"

lemma free_desc_eq:
  assumes "quiet s" "procs_free s" "calm (procs s)" "i < NUM" "\<not> dfree d i"
  shows "free_desc i (dset d v bs ss w s) = Ret () (dset (freed i d) v bs ss w s)"
  using assms by (simp add: free_desc_def dset_upd wakeup_eq calm_woken flip: freed_def)

lemma freed_fields [simp]:
  "vr_flags (desc (freed i d) j) = vr_flags (desc d j)" "vr_next (desc (freed i d) j) = vr_next (desc d j)"
  "dfree (freed i d) = (dfree d)(i := True)" "avail_idx (freed i d) = avail_idx d" "used_id (freed i d) = used_id d"
  "used_idx (freed i d) = used_idx d"
  by (simp_all add: freed_def upd_desc_def)

lemma free_chain_eq:
  assumes "quiet s" "procs_free s" "calm (procs s)" "\<not> dfree d 0" "\<not> dfree d 1" "\<not> dfree d 2"
    and "desc d 0 = req_desc b wr sec 0" "desc d 1 = req_desc b wr sec 1" "desc d 2 = req_desc b wr sec 2"
  shows "free_chain 0 (dset d v bs ss w s) = Ret () (dset (freed 2 (freed 1 (freed 0 d))) v bs ss w s)"
proof -
  note f = free_desc_eq [OF assms(1-3)]
  have 2: "free_chain 2 (dset (freed 1 (freed 0 d)) v bs ss w s) = Ret () (dset (freed 2 (freed 1 (freed 0 d))) v bs ss w s)"
    by (subst free_chain.simps) (use assms in \<open>simp add: f NUM_def req_desc_def vring_defs\<close>)
  have 1: "free_chain 1 (dset (freed 0 d) v bs ss w s) = Ret () (dset (freed 2 (freed 1 (freed 0 d))) v bs ss w s)"
    by (subst free_chain.simps) (use assms 2 in \<open>simp add: f NUM_def req_desc_def vring_defs\<close>)
  show ?thesis
    by (subst free_chain.simps) (use assms 1 in \<open>simp add: f NUM_def req_desc_def vring_defs\<close>)
qed

text \<open>The queue and the device after a request.\<close>

definition served_disk :: "nat \<Rightarrow> bool \<Rightarrow> uint64 \<Rightarrow> vdisk \<Rightarrow> vdisk" where
  "served_disk b wr sec d = freed 2 (freed 1 (freed 0 ((caught_up (completed (requested b wr sec d)))
     \<lparr>info_b := (info_b d)(0 := None)\<rparr>)))"

definition served_dev :: "vdevice \<Rightarrow> vdevice" where
  "served_dev v = acked (v\<lparr>vmmio := (vmmio v)(VIRTIO0 + VIRTIO_MMIO_QUEUE_NOTIFY := 0), dev_seen := dev_seen v + 1\<rparr>)"

lemma disk_idle_served:
  assumes "disk_idle d v"
  shows "disk_idle (served_disk b wr sec d) (served_dev v)"
proof -
  have "unat (used_idx d) mod 8 = unat (avail_idx d) mod 8" using assms by (simp add: disk_idle_def)
  then have "(unat (used_idx d) + 1) mod 8 = unat (avail_idx d + 1) mod 8"
    using unat_succ_mod8 [of "avail_idx d"] unat_mod8 [of "avail_idx d + 1"] by (metis mod_add_left_eq)
  then show ?thesis
    using assms unat_succ_mod8 [of "used_idx d"]
    by (simp add: disk_idle_def served_disk_def served_dev_def acked_def caught_up_def completed_def requested_def)
qed

lemma virtio_disk_rw_eq:
  assumes "runs p s" "lock_free Vdisk_lock s" "disk_idle (disk s) (vdev s)" "calm (procs s)"
    and "p_chan (procs s p) = None" "\<not> b_disk (bufs s b)"
  shows "virtio_disk_rw b wr s = Ret () (dset (served_disk b wr (sector_of (bufs s b)) (disk s)) (served_dev (vdev s))
    (xfer_bufs b wr (sector_of (bufs s b)) (sectors s) (bufs s))
    (xfer_sectors (b_data (bufs s b)) wr (sector_of (bufs s b)) (sectors s))
    (wlog s @ xfer_writes (b_data (bufs s b)) wr (sector_of (bufs s b))) s)"
proof -
  note D = runs_D [OF assms(1)]
  let ?sec = "sector_of (bufs s b)" and ?bs = "(bufs s)(b := (bufs s b)\<lparr>b_disk := True\<rparr>)"
  let ?v = "(vdev s)\<lparr>vmmio := (vmmio (vdev s))(VIRTIO0 + VIRTIO_MMIO_QUEUE_NOTIFY := 0)\<rparr>"
  let ?X = "dset (requested b wr ?sec (disk s)) ?v ?bs (sectors s) (wlog s)"
  let ?xb = "xfer_bufs b wr ?sec (sectors s) (bufs s)"
  let ?Y = "\<lambda>d. dset d (served_dev (vdev s)) ?xb
    (xfer_sectors (b_data (bufs s b)) wr ?sec (sectors s))
    (wlog s @ xfer_writes (b_data (bufs s b)) wr ?sec)"
  let ?d = "caught_up (completed (requested b wr ?sec (disk s)))"
  have d: "dev_seen ?v = avail_idx (disk s)" "used_id (disk s) = avail_idx (disk s)"
    "unat (used_idx (disk s)) = unat (avail_idx (disk s)) mod 8"
    using assms(3) by (simp_all add: disk_idle_def)
  have 1: "virtio_disk_start b wr s = Ret 0 (acquired Vdisk_lock (?X s))"
    using D(1) assms(2,3) by (rule virtio_disk_start_eq)
  have "(xfer_bufs b wr ?sec (sectors s) ?bs)(b := (xfer_bufs b wr ?sec (sectors s) ?bs b)\<lparr>b_disk := False\<rparr>) = ?xb"
    using assms(6) by (auto simp: xfer_bufs_def fun_eq_iff)
  then have 2: "served p b (acquired Vdisk_lock (?X s)) = Ret () (acquired Vdisk_lock (?Y ?d s))"
    using served_eq [OF assms(1,2,4,5) d] by (simp add: served_dev_def)
  have 3: "\<not> b_disk (bufs (?Y ?d s) b)" using assms(6) by (simp add: xfer_bufs_def)
  have "quiet (acquired Vdisk_lock s)" "procs_free (acquired Vdisk_lock s)"
    using D by (simp_all add: quiet_acquired procs_free_acquired)
  then have 4: "free_chain 0 (?Y (?d\<lparr>info_b := (info_b (disk s))(0 := None)\<rparr>) (acquired Vdisk_lock s)) =
    Ret () (?Y (served_disk b wr ?sec (disk s)) (acquired Vdisk_lock s))"
    unfolding served_disk_def using assms(4)
    by (intro free_chain_eq) (simp_all add: caught_up_def completed_def requested_def)
  have "release Vdisk_lock (?Y (served_disk b wr ?sec (disk s)) (acquired Vdisk_lock s)) =
    Ret () (?Y (served_disk b wr ?sec (disk s)) s)"
    using D assms(2) by (intro critical_quiet) (simp_all add: dset_def)
  moreover have "info_b ?d = (info_b (disk s))(0 := Some b)"
    by (simp add: caught_up_def completed_def requested_def)
  ultimately have 5: "virtio_disk_finish 0 (acquired Vdisk_lock (?Y ?d s)) = Ret () (?Y (served_disk b wr ?sec (disk s)) s)"
    using 4 by (simp add: virtio_disk_finish_def dset_moves dset_upd)
  show ?thesis
    using 1 2 3 5 D by (simp add: virtio_disk_rw_def dset_moves acquired_cproc)
qed

section \<open>Properties\<close>

text \<open>
  An idle disk whose sector \<open>n\<close> holds 512 bytes \<open>n\<close>, and an empty buffer cache, under process 5.
\<close>

definition demo_bufs :: "nat \<Rightarrow> buf" where
  "demo_bufs b = \<lparr>b_valid = False, b_disk = False, b_dev = 0, b_blockno = 0, b_refcnt = 0,
     b_prev = (b + 30) mod 31, b_next = (b + 1) mod 31, b_data = replicate 1024 0\<rparr>"

definition demo_disk :: vdisk where
  "demo_disk = \<lparr>desc = (\<lambda>_. \<lparr>vr_addr = Null, vr_len = 0, vr_flags = 0, vr_next = 0\<rparr>), avail_idx = 0,
     avail_ring = (\<lambda>_. 0), used_id = 0, used_elems = (\<lambda>_. 0), dfree = (\<lambda>_. True), used_idx = 0,
     info_b = (\<lambda>_. None), info_status = (\<lambda>_. 0)\<rparr>"

definition demo_sectors :: "uint64 \<Rightarrow> byte list" where
  "demo_sectors n = replicate 512 (ucast n)"

definition demo_kdisk :: kdisk where
  "demo_kdisk = \<lparr>hart = 0, csrs = csrs demo_kproc, cpus = cpus demo_kproc, lk = lk demo_kproc,
     mem = mem demo_kproc, freelist = 0, end_addr = end_addr demo_kproc,
     kernel_pagetable = 0x87FFF000, etext_addr = 0x80008000, trampoline_addr = 0x80007000,
     procs = procs demo_kproc, initproc = Some 5, nextpid = 3, forkret_addr = 0x80001000, first = False,
     uart_in = [], uart_out = [], uart_room = 16, uart_reg = (\<lambda>_. 0), uart_tx_buf = (\<lambda>_. 0), uart_tx_w = 0,
     uart_tx_r = 0, panicked = False, pr_locking = True, cons_buf = (\<lambda>_. 0), cons_r = 0, cons_w = 0, cons_e = 0,
     devsw_read = (\<lambda>_. False), devsw_write = (\<lambda>_. False),
     slk = (\<lambda>_. \<lparr>sl_locked = False, sl_name = [], sl_pid = 0\<rparr>),
     bufs = demo_bufs, disk = demo_disk, vdev = \<lparr>vmmio = (\<lambda>_. 0), dev_seen = 0\<rparr>,
     sectors = demo_sectors, wlog = []\<rparr>"

lemma demo_kdisk_runs: "runs 5 demo_kdisk" "lock_free l demo_kdisk" "calm (procs demo_kdisk)"
  "p_chan (procs demo_kdisk 5) = None" "disk_idle (disk demo_kdisk) (vdev demo_kdisk)"
proof -
  have eq: "hart demo_kdisk = hart demo_kproc" "csrs demo_kdisk = csrs demo_kproc" "cpus demo_kdisk = cpus demo_kproc"
    "lk demo_kdisk = lk demo_kproc" "procs demo_kdisk = procs demo_kproc"
    by (simp_all add: demo_kdisk_def) (simp add: demo_kproc_def)
  have "mycpu demo_kdisk = mycpu demo_kproc" "intr_get demo_kdisk = intr_get demo_kproc"
    by (simp_all add: mycpu_def cpuid_def intr_get_def csr_defs eq)
  then show "runs 5 demo_kdisk"
    using demo_kproc_runs by (simp add: runs_def quiet_iff cpu_ok_def procs_free_def lock_free_def eq)
  show "lock_free l demo_kdisk" by (simp add: lock_free_def eq) (simp add: demo_kproc_def demo_core_def)
  show "calm (procs demo_kdisk)" "p_chan (procs demo_kdisk 5) = None"
    by (simp_all add: eq calm_def) (simp_all add: demo_kproc_def)
  show "disk_idle (disk demo_kdisk) (vdev demo_kdisk)"
    by (simp add: disk_idle_def demo_kdisk_def demo_disk_def)
qed



end
