(* ===== verification/Dring.thy ===== *)
theory Dring
  imports Prelude
begin

text \<open>
  Circular doubly linked lists with a head, as the buffer cache keeps them: \<open>linked nx pv h xs\<close>
  says that the successors of \<open>h\<close> are \<open>xs\<close>, then \<open>h\<close> again, and that the predecessors are the
  same list backwards.
\<close>

primrec chain :: "('n \<Rightarrow> 'n) \<Rightarrow> 'n \<Rightarrow> 'n list \<Rightarrow> 'n \<Rightarrow> bool" where
  "chain f a [] h \<longleftrightarrow> a = h"
| "chain f a (x # xs) h \<longleftrightarrow> a = x \<and> chain f (f x) xs h"

definition linked :: "('n \<Rightarrow> 'n) \<Rightarrow> ('n \<Rightarrow> 'n) \<Rightarrow> 'n \<Rightarrow> 'n list \<Rightarrow> bool" where
  "linked nx pv h xs \<longleftrightarrow> distinct (h # xs) \<and> chain nx (nx h) xs h \<and> chain pv (pv h) (rev xs) h"

lemma chain_append: "chain f a (xs @ ys) h \<longleftrightarrow> (\<exists>m. chain f a xs m \<and> chain f m ys h)"
  by (induction xs arbitrary: a) auto

lemma chain_upd [simp]: "x \<notin> set xs \<Longrightarrow> chain (f(x := y)) a xs h = chain f a xs h"
  by (induction xs arbitrary: a) auto

lemma chain_cong: "(\<And>x. x \<in> set xs \<Longrightarrow> f x = g x) \<Longrightarrow> chain f a xs h = chain g a xs h"
  by (induction xs arbitrary: a) auto

lemma chain_upt: "(\<And>x. a \<le> x \<Longrightarrow> x < h \<Longrightarrow> f x = Suc x) \<Longrightarrow> a \<le> h \<Longrightarrow> chain f a [a..<h] h"
proof (induction "h - a" arbitrary: a)
  case 0
  then show ?case by simp
next
  case (Suc k)
  then have "chain f (Suc a) [Suc a..<h] h" by (intro Suc.hyps(1)) auto
  then show ?case using Suc by (simp add: upt_conv_Cons)
qed

lemma chain_downto: "(\<And>x. x < k \<Longrightarrow> f (Suc x) = x) \<Longrightarrow> f 0 = h \<Longrightarrow> chain f k (rev [0..<Suc k]) h"
  by (induction k) auto

text \<open>Where a chain starts.\<close>

lemma chain_start: "chain f a xs h \<Longrightarrow> a = hd (xs @ [h])"
  by (cases xs) auto

text \<open>What follows and precedes a member.\<close>

lemma linked_neighbours:
  assumes "linked nx pv h (us @ b # vs)"
  shows "nx b = hd (vs @ [h])" "pv b = hd (rev us @ [h])" "nx h = hd (us @ [b])" "pv h = hd (rev vs @ [b])"
proof -
  from assms have n: "chain nx (nx h) us b" "chain nx (nx b) vs h"
    and p: "chain pv (pv h) (rev vs) b" "chain pv (pv b) (rev us) h"
    by (auto simp: linked_def chain_append)
  show "nx b = hd (vs @ [h])" "pv b = hd (rev us @ [h])" "nx h = hd (us @ [b])" "pv h = hd (rev vs @ [b])"
    using n p by (auto dest: chain_start)
qed

lemma chain_redirect:
  assumes "chain f (f h) us b" "chain f (f b) vs k" "distinct (h # us)" "set (h # us) \<inter> set vs = {}"
    and "h \<notin> set vs" "b \<notin> set us" "b \<noteq> h"
  shows "chain (f(hd (rev us @ [h]) := f b)) ((f(hd (rev us @ [h]) := f b)) h) (us @ vs) k"
proof (cases us rule: rev_cases)
  case Nil
  then show ?thesis using assms by simp
next
  case (snoc ws u)
  let ?f = "f(u := f b)"
  from snoc assms have w: "chain f (f h) ws u" "u \<notin> set ws" "u \<noteq> h" "u \<notin> set vs"
    by (auto simp: chain_append)
  then have "chain ?f (?f h) ws u" "chain ?f (?f u) vs k" using assms(2) by simp_all
  then show ?thesis using snoc by (auto simp: chain_append)
qed

lemma linked_unlink:
  assumes "linked nx pv h (us @ b # vs)"
  shows "linked (nx(pv b := nx b)) (pv(nx b := pv b)) h (us @ vs)"
proof -
  note N = linked_neighbours [OF assms]
  from assms have d: "distinct (h # us @ b # vs)" and n: "chain nx (nx h) us b" "chain nx (nx b) vs h"
    and p: "chain pv (pv h) (rev vs) b" "chain pv (pv b) (rev us) h"
    by (auto simp: linked_def chain_append)
  have "chain (nx(pv b := nx b)) ((nx(pv b := nx b)) h) (us @ vs) h"
    unfolding N(2) using n d by (intro chain_redirect) auto
  moreover have "chain (pv(nx b := pv b)) ((pv(nx b := pv b)) h) (rev vs @ rev us) h"
    unfolding N(1) by (rule chain_redirect [OF p, unfolded rev_rev_ident]) (use d in auto)
  ultimately show ?thesis using d by (simp add: linked_def)
qed

lemma linked_push:
  assumes "linked nx pv h xs" "b \<notin> set (h # xs)"
  shows "linked (nx(b := nx h, h := b)) ((pv(b := h))(nx h := b)) h (b # xs)"
proof (cases xs)
  case Nil
  then show ?thesis using assms by (simp add: linked_def)
next
  case v: (Cons v vs)
  from assms have d: "distinct (h # xs)" and n: "chain nx (nx h) xs h" and p: "chain pv (pv h) (rev xs) h"
    by (auto simp: linked_def)
  let ?pv = "(pv(b := h))(nx h := b)"
  have nh: "nx h = v" using n v by simp
  have "chain pv (pv h) (rev vs) v" "pv v = h" using p v by (auto simp: chain_append)
  then have "chain ?pv (?pv h) (rev vs) v" "?pv v = b" "?pv b = h"
    using assms(2) d v nh by auto
  then have "chain ?pv (?pv h) (rev xs @ [b]) h" using v by (auto simp: chain_append)
  moreover have "chain (nx(b := nx h, h := b)) ((nx(b := nx h, h := b)) h) (b # xs) h"
    using n assms(2) d by auto
  moreover have "distinct (h # b # xs)" using assms(2) d by auto
  ultimately show ?thesis by (simp add: linked_def del: fun_upd_apply chain.simps)
qed

text \<open>A member is moved to the front.\<close>

lemma linked_to_front:
  assumes "linked nx pv h (us @ b # vs)"
    and "nx' = nx(pv b := nx b)" "pv' = pv(nx b := pv b)"
  shows "linked (nx'(b := nx' h, h := b)) ((pv'(b := h))(nx' h := b)) h (b # us @ vs)"
proof -
  have "linked nx' pv' h (us @ vs)" unfolding assms(2,3) by (rule linked_unlink [OF assms(1)])
  moreover have "b \<notin> set (h # us @ vs)" using assms(1) by (auto simp: linked_def)
  ultimately show ?thesis by (rule linked_push)
qed

end
