(* ===== verification/Cache.thy ===== *)
theory Cache
  imports Bio Disk_Transfer Dring
begin

text \<open>
  The buffer cache as one thread sees it while nothing else runs: equations for the sleep locks,
  the invariant that ties the cache to the disk and to the blocks the log has pinned, and what
  \<^verbatim>\<open>bread\<close>, \<^verbatim>\<open>bwrite\<close>, \<^verbatim>\<open>brelse\<close>, \<^verbatim>\<open>bpin\<close> and \<^verbatim>\<open>bunpin\<close> do under it.
\<close>

section \<open>A thread alone with the file system\<close>

definition fs_idle :: "nat \<Rightarrow> 'a kdisk_scheme \<Rightarrow> bool" where
  "fs_idle p s \<longleftrightarrow> runs p s \<and> (\<forall>l. lock_free l s) \<and> calm (procs s) \<and> p_chan (procs s p) = None \<and>
     disk_idle (disk s) (vdev s)"

lemma fs_idle_D:
  assumes "fs_idle p s"
  shows "runs p s" "lock_free l s" "calm (procs s)" "p_chan (procs s p) = None" "disk_idle (disk s) (vdev s)"
    "quiet s" "procs_free s" "cproc (cpus s (mycpu s)) = Some p"
  using assms runs_D [of p s] by (simp_all add: fs_idle_def)

lemma runs_cong:
  fixes s t :: "'a kproc_scheme"
  assumes "hart t = hart s" "csrs t = csrs s" "cpus t = cpus s" "lk t = lk s" "procs t = procs s"
  shows "runs p t = runs p s"
  using quiet_cong [OF assms(1-4)] mycpu_cong [OF assms(1,2)] assms(3,5) by (simp add: runs_def procs_free_def)

lemma fs_idle_cong:
  fixes s t :: "'a kdisk_scheme"
  assumes "hart t = hart s" "csrs t = csrs s" "cpus t = cpus s" "lk t = lk s" "procs t = procs s"
    and "fs_idle p s" "disk_idle (disk t) (vdev t)"
  shows "fs_idle p t"
  using runs_cong [OF assms(1-5)] quiet_cong(2) [OF assms(1-4)] assms(5-7) by (simp add: fs_idle_def)

section \<open>Sleep locks\<close>

lemma upd_slk_frame [simp]:
  "hart (upd_slk l f s) = hart s" "csrs (upd_slk l f s) = csrs s" "cpus (upd_slk l f s) = cpus s"
  "lk (upd_slk l f s) = lk s" "procs (upd_slk l f s) = procs s" "slk (upd_slk l f s) = (slk s)(l := f (slk s l))"
  "bufs (upd_slk l f t) = bufs t" "disk (upd_slk l f t) = disk t" "vdev (upd_slk l f t) = vdev t"
  "sectors (upd_slk l f t) = sectors t" "wlog (upd_slk l f t) = wlog t"
  by (simp_all add: upd_slk_def)

lemma upd_slk_core [simp]:
  "quiet (upd_slk l f s) = quiet s" "lock_free k (upd_slk l f s) = lock_free k s"
  "mycpu (upd_slk l f s) = mycpu s" "procs_free (upd_slk l f s) = procs_free s"
proof -
  show "lock_free k (upd_slk l f s) = lock_free k s" for k by (rule quiet_cong; simp)
  then show "procs_free (upd_slk l f s) = procs_free s" by (simp add: procs_free_def)
qed (rule quiet_cong core_cong; simp)+

lemma upd_slk_critical:
  assumes "quiet s" "lock_free k s"
  shows "release k (upd_slk l f (acquired k s)) = Ret () (upd_slk l f s)"
  by (rule critical_quiet [OF assms]) (simp_all add: upd_slk_def)

lemma acquired_slk [simp]: "slk (acquired l s) = slk s"
  by (rule acquired_field) simp

lemma acquiresleep_eq:
  assumes "runs p s" "lock_free l s" "\<not> sl_locked (slk s l)"
  shows "acquiresleep l s = Ret () (upd_slk l (\<lambda>k. k\<lparr>sl_locked := True, sl_pid := p_pid (procs s p)\<rparr>) s)"
proof -
  note D = runs_D [OF assms(1)]
  let ?a = "upd_slk l (\<lambda>k. k\<lparr>sl_locked := True\<rparr>) (acquired l s)"
  have "curproc ?a = Ret p ?a"
    using D by (intro curproc_quiet) (simp_all add: quiet_acquired acquired_cproc)
  moreover have "upd_slk l f (upd_slk l g t) = upd_slk l (f o g) t" for f g and t :: "'a ksleep_scheme"
    by (simp add: upd_slk_def)
  ultimately show ?thesis
    using assms D upd_slk_critical [of s l l]
    by (simp add: acquiresleep_def acquiresleep_loop_def acquire_quiet Let_def comp_def)
qed

lemma releasesleep_eq:
  assumes "quiet s" "procs_free s" "lock_free l s" "calm (procs s)" "\<And>q. l \<noteq> Proc_lock q"
  shows "releasesleep l s = Ret () (upd_slk l (\<lambda>k. k\<lparr>sl_locked := False, sl_pid := 0\<rparr>) s)"
proof -
  let ?a = "upd_slk l (\<lambda>k. k\<lparr>sl_locked := False, sl_pid := 0\<rparr>) (acquired l s)"
  have "wakeup (Sleeplock_chan l) ?a = Ret () ?a"
    using assms by (subst wakeup_eq) (simp_all add: quiet_acquired quiet_cpu_ok procs_free_acquired calm_woken)
  then show ?thesis
    using assms upd_slk_critical [of s l l] by (simp add: releasesleep_def acquire_quiet Let_def)
qed

lemma holdingsleep_eq:
  assumes "runs p s" "lock_free l s"
  shows "holdingsleep l s = Ret (sl_locked (slk s l) \<and> sl_pid (slk s l) = p_pid (procs s p)) s"
proof -
  note D = runs_D [OF assms(1)]
  have "curproc (acquired l s) = Ret p (acquired l s)"
    using D by (intro curproc_quiet) (simp_all add: quiet_acquired acquired_cproc)
  then show ?thesis
    using assms D by (simp add: holdingsleep_def acquire_quiet lock_critical)
qed

section \<open>Blocks on the medium\<close>

text \<open>
  Block \<open>n\<close> occupies the sectors \<open>2 n\<close> and \<open>2 n + 1\<close>; the driver computes the sector in 32 bits,
  so distinct blocks have distinct sectors below \<^verbatim>\<open>2 ^ 31\<close>.
\<close>

definition secno :: "uint32 \<Rightarrow> uint64" where
  "secno n = ucast (n * 2)"

definition block :: "(uint64 \<Rightarrow> byte list) \<Rightarrow> uint32 \<Rightarrow> byte list" where
  "block ss n = ss (secno n) @ ss (secno n + 1)"

definition put_block :: "uint32 \<Rightarrow> byte list \<Rightarrow> (uint64 \<Rightarrow> byte list) \<Rightarrow> uint64 \<Rightarrow> byte list" where
  "put_block n bs ss = ss(secno n := take 512 bs, secno n + 1 := drop 512 bs)"

definition small :: "uint32 \<Rightarrow> bool" where
  "small n \<longleftrightarrow> n < 2 ^ 31"

definition sectored :: "(uint64 \<Rightarrow> byte list) \<Rightarrow> bool" where
  "sectored ss \<longleftrightarrow> (\<forall>x. length (ss x) = 512)"

lemma unat_secno: "small n \<Longrightarrow> unat (secno n) = 2 * unat n"
proof -
  assume "small n"
  then have b: "unat n < 2 ^ 31" by (simp add: small_def word_less_nat_alt)
  then have "unat (n * 2) = 2 * unat n" by (simp add: unat_word_ariths)
  then show ?thesis using b by (simp add: secno_def unsigned_ucast_eq take_bit_nat_eq_self)
qed

lemma unat_secno_succ: "small n \<Longrightarrow> unat (secno n + 1) = 2 * unat n + 1"
proof -
  assume n: "small n"
  then have "unat n < 2 ^ 31" by (simp add: small_def word_less_nat_alt)
  then show ?thesis using unat_secno [OF n] by (simp add: unat_word_ariths)
qed

lemma secno_apart:
  assumes "small n" "small m"
  shows "secno n = secno m \<longleftrightarrow> n = m" "secno n + 1 = secno m + 1 \<longleftrightarrow> n = m" "secno n \<noteq> secno m + 1" "secno n + 1 \<noteq> secno m"
proof -
  note u = unat_secno [OF assms(1)] unat_secno [OF assms(2)] unat_secno_succ [OF assms(1)] unat_secno_succ [OF assms(2)]
  show "secno n = secno m \<longleftrightarrow> n = m" using u(1,2) by (metis mult_left_cancel word_unat_eq_iff zero_neq_numeral)
  then show "secno n + 1 = secno m + 1 \<longleftrightarrow> n = m" by simp
  have "2 * unat n \<noteq> 2 * unat m + 1" "2 * unat n + 1 \<noteq> 2 * unat m" by presburger+
  then show "secno n \<noteq> secno m + 1" "secno n + 1 \<noteq> secno m" using u by metis+
qed

lemma block_put_block:
  "small n \<Longrightarrow> small m \<Longrightarrow> block (put_block n bs ss) m = (if m = n then bs else block ss m)"
  using secno_apart [of n m] by (auto simp: block_def put_block_def)

lemma sectored_put_block: "sectored ss \<Longrightarrow> length bs = BSIZE \<Longrightarrow> sectored (put_block n bs ss)"
  by (simp add: sectored_def put_block_def BSIZE_def)

lemma length_block [simp]: "sectored ss \<Longrightarrow> length (block ss n) = BSIZE"
  by (simp add: sectored_def block_def BSIZE_def)

section \<open>The cache invariant\<close>

text \<open>
  \<open>H\<close> are the buffers the thread holds and \<open>P n\<close> counts the calls of \<^verbatim>\<open>bpin\<close> less those of
  \<^verbatim>\<open>bunpin\<close> on block \<open>n\<close>, as the reference counts see it.  The list links all buffers; a block of the
  root device is in one buffer at most; the reference counts are those of the holder and the pins;
  a buffer that is neither held nor pinned agrees with the disk.
\<close>

definition caches :: "buf \<Rightarrow> uint32 \<Rightarrow> bool" where
  "caches q n \<longleftrightarrow> b_dev q = ROOTDEV \<and> b_blockno q = n"

definition refs :: "nat set \<Rightarrow> (uint32 \<Rightarrow> uint32) \<Rightarrow> nat \<Rightarrow> buf \<Rightarrow> uint32" where
  "refs H P b q = (if b \<in> H then 1 else 0) + (if b_dev q = ROOTDEV then P (b_blockno q) else 0)"

definition buf_ok :: "nat set \<Rightarrow> (uint32 \<Rightarrow> uint32) \<Rightarrow> (uint64 \<Rightarrow> byte list) \<Rightarrow> nat \<Rightarrow> buf \<Rightarrow> bool" where
  "buf_ok H P ss b q \<longleftrightarrow> \<not> b_disk q \<and> b_refcnt q = refs H P b q \<and> (b \<in> H \<longrightarrow> b_dev q = ROOTDEV) \<and>
     (b_dev q = ROOTDEV \<longrightarrow> small (b_blockno q) \<and> b_valid q \<and> length (b_data q) = BSIZE \<and>
        (b \<notin> H \<and> P (b_blockno q) \<noteq> 1 \<longrightarrow> b_data q = block ss (b_blockno q)))"

definition ringed :: "(nat \<Rightarrow> buf) \<Rightarrow> nat list \<Rightarrow> bool" where
  "ringed B xs \<longleftrightarrow> linked (\<lambda>b. b_next (B b)) (\<lambda>b. b_prev (B b)) NBUF xs \<and> set xs = {..<NBUF}"

definition cache_inv :: "nat set \<Rightarrow> (uint32 \<Rightarrow> uint32) \<Rightarrow> (nat \<Rightarrow> buf) \<Rightarrow> (uint64 \<Rightarrow> byte list) \<Rightarrow> bool" where
  "cache_inv H P B ss \<longleftrightarrow> (\<exists>xs. ringed B xs) \<and> (\<forall>b<NBUF. buf_ok H P ss b (B b)) \<and> H \<subseteq> {..<NBUF} \<and>
     (\<forall>b<NBUF. \<forall>c<NBUF. \<forall>n. caches (B b) n \<and> caches (B c) n \<longrightarrow> b = c) \<and>
     (\<forall>n. P n \<noteq> 0 \<longrightarrow> (\<exists>b<NBUF. caches (B b) n)) \<and> sectored ss"

text \<open>The contents of block \<open>n\<close> as the rest of the kernel sees it.\<close>

definition contents :: "(nat \<Rightarrow> buf) \<Rightarrow> (uint64 \<Rightarrow> byte list) \<Rightarrow> uint32 \<Rightarrow> byte list" where
  "contents B ss n = (case List.find (\<lambda>b. caches (B b) n) [0..<NBUF] of
     Some b \<Rightarrow> b_data (B b) | None \<Rightarrow> block ss n)"

lemma cache_inv_D:
  assumes "cache_inv H P B ss"
  shows "b < NBUF \<Longrightarrow> buf_ok H P ss b (B b)" "H \<subseteq> {..<NBUF}" "sectored ss"
    "b < NBUF \<Longrightarrow> c < NBUF \<Longrightarrow> caches (B b) n \<Longrightarrow> caches (B c) n \<Longrightarrow> b = c"
    "P n \<noteq> 0 \<Longrightarrow> \<exists>b<NBUF. caches (B b) n"
  using assms unfolding cache_inv_def by blast+

lemma contents_cached:
  assumes "cache_inv H P B ss" "b < NBUF" "caches (B b) n"
  shows "contents B ss n = b_data (B b)"
proof -
  obtain c where c: "List.find (\<lambda>b. caches (B b) n) [0..<NBUF] = Some c"
    using assms by (cases "List.find (\<lambda>b. caches (B b) n) [0..<NBUF]") (auto simp: find_None_iff)
  then have "c < NBUF" "caches (B c) n" by (auto simp: find_Some_iff)
  then have "c = b" using assms cache_inv_D(4) [OF assms(1)] by blast
  then show ?thesis using c by (simp add: contents_def)
qed

lemma contents_uncached:
  assumes "\<And>b. b < NBUF \<Longrightarrow> \<not> caches (B b) n"
  shows "contents B ss n = block ss n"
proof -
  have "List.find (\<lambda>b. caches (B b) n) [0..<NBUF] = None" using assms by (auto simp: find_None_iff)
  then show ?thesis by (simp add: contents_def)
qed

lemma contents_cong:
  assumes "\<And>c. b_dev (C c) = b_dev (B c)" "\<And>c. b_blockno (C c) = b_blockno (B c)" "\<And>c. b_data (C c) = b_data (B c)"
    and "block ss' m = block ss m"
  shows "contents C ss' m = contents B ss m"
  using assms by (simp add: contents_def caches_def split: option.split)

lemma contents_clean:
  assumes "cache_inv H P B ss" "P n \<noteq> 1" "\<forall>b\<in>H. b_blockno (B b) \<noteq> n"
  shows "contents B ss n = block ss n"
proof (cases "\<exists>b<NBUF. caches (B b) n")
  case True
  then obtain b where b: "b < NBUF" "caches (B b) n" by blast
  then have "b_data (B b) = block ss n"
    using cache_inv_D(1) [OF assms(1) b(1)] assms(2,3) by (auto simp: buf_ok_def caches_def)
  then show ?thesis using contents_cached [OF assms(1) b] by simp
next
  case False
  then show ?thesis by (intro contents_uncached) blast
qed

lemma ringed_cong:
  assumes "ringed B xs" "\<And>b. b_next (C b) = b_next (B b)" "\<And>b. b_prev (C b) = b_prev (B b)"
  shows "ringed C xs"
  using assms by (simp add: ringed_def)

text \<open>One buffer changes, its links apart.\<close>

lemma cache_inv_upd:
  assumes "cache_inv H P B ss" "b < NBUF" "b_next q = b_next (B b)" "b_prev q = b_prev (B b)"
    and "buf_ok H' P' ss b q" "\<And>c. c < NBUF \<Longrightarrow> c \<noteq> b \<Longrightarrow> buf_ok H' P' ss c (B c)" "H' \<subseteq> {..<NBUF}"
    and "\<And>c n. c < NBUF \<Longrightarrow> c \<noteq> b \<Longrightarrow> caches q n \<Longrightarrow> \<not> caches (B c) n"
    and "\<And>n. P' n \<noteq> 0 \<Longrightarrow> caches q n \<or> (\<exists>c<NBUF. c \<noteq> b \<and> caches (B c) n)"
  shows "cache_inv H' P' (B(b := q)) ss"
proof -
  obtain xs where "ringed B xs" using assms(1) by (auto simp: cache_inv_def)
  then have "ringed (B(b := q)) xs" by (rule ringed_cong) (simp_all add: assms(3,4))
  moreover have "\<forall>c<NBUF. buf_ok H' P' ss c ((B(b := q)) c)" using assms(5,6) by simp
  moreover have "\<forall>c<NBUF. \<forall>d<NBUF. \<forall>n. caches ((B(b := q)) c) n \<and> caches ((B(b := q)) d) n \<longrightarrow> c = d"
    using assms(8) cache_inv_D(4) [OF assms(1)] by (metis fun_upd_apply)
  moreover have "\<forall>n. P' n \<noteq> 0 \<longrightarrow> (\<exists>c<NBUF. caches ((B(b := q)) c) n)" using assms(2,9) by (metis fun_upd_apply)
  moreover have "sectored ss" using assms(1) by (rule cache_inv_D(3))
  ultimately show ?thesis using assms(7) unfolding cache_inv_def by (intro conjI exI)
qed

section \<open>Looking up a buffer\<close>

lemma upd_buf_frame [simp]:
  "hart (upd_buf b f s) = hart s" "csrs (upd_buf b f s) = csrs s" "cpus (upd_buf b f s) = cpus s"
  "lk (upd_buf b f s) = lk s" "procs (upd_buf b f s) = procs s" "slk (upd_buf b f s) = slk s"
  "bufs (upd_buf b f s) = (bufs s)(b := f (bufs s b))" "disk (upd_buf b f s) = disk s"
  "vdev (upd_buf b f s) = vdev s" "sectors (upd_buf b f s) = sectors s" "wlog (upd_buf b f s) = wlog s"
  by (simp_all add: upd_buf_def)

lemma fs_idle_upd [simp]: "fs_idle p (upd_buf b f s) = fs_idle p s" "fs_idle p (upd_slk l g s) = fs_idle p s"
proof -
  show "fs_idle p (upd_buf b f s) = fs_idle p s"
    using fs_idle_cong [of s "upd_buf b f s" p] fs_idle_cong [of "upd_buf b f s" s p] fs_idle_D(5) [of p]
    by (metis upd_buf_frame)
  show "fs_idle p (upd_slk l g s) = fs_idle p s"
    using fs_idle_cong [of s "upd_slk l g s" p] fs_idle_cong [of "upd_slk l g s" s p] fs_idle_D(5) [of p]
    by (metis upd_slk_frame(1-5,8,9))
qed

lemma acquired_kdisk [simp]:
  "bufs (acquired l s) = bufs s" "disk (acquired l s) = disk s" "vdev (acquired l s) = vdev s"
  "sectors (acquired l s) = sectors s"
  by (rule acquired_field, simp)+

lemma upd_buf_critical:
  assumes "quiet s" "lock_free k s"
  shows "release k (upd_buf b f (acquired k s)) = Ret () (upd_buf b f s)"
  by (rule critical_quiet [OF assms]) (simp_all add: upd_buf_def)

lemma bget_cached_walk:
  "chain (\<lambda>b. b_next (bufs s b)) a xs NBUF \<Longrightarrow> NBUF \<notin> set xs \<Longrightarrow> length xs < n \<Longrightarrow>
   bget_cached n a dev m s = Ret (List.find (\<lambda>b. b_dev (bufs s b) = dev \<and> b_blockno (bufs s b) = m) xs) s"
proof (induction xs arbitrary: a n)
  case Nil
  then show ?case by (cases n) auto
next
  case (Cons x xs)
  then show ?case by (cases n) auto
qed

lemma bget_unused_walk:
  "chain (\<lambda>b. b_prev (bufs s b)) a xs NBUF \<Longrightarrow> NBUF \<notin> set xs \<Longrightarrow> length xs < n \<Longrightarrow>
   bget_unused n a s = Ret (List.find (\<lambda>b. b_refcnt (bufs s b) = 0) xs) s"
proof (induction xs arbitrary: a n)
  case Nil
  then show ?case by (cases n) auto
next
  case (Cons x xs)
  then show ?case by (cases n) auto
qed

lemma ringed_D:
  assumes "ringed B xs"
  shows "chain (\<lambda>b. b_next (B b)) (b_next (B NBUF)) xs NBUF" "chain (\<lambda>b. b_prev (B b)) (b_prev (B NBUF)) (rev xs) NBUF"
    "NBUF \<notin> set xs" "length xs < Suc NBUF" "distinct xs" "set xs = {..<NBUF}"
  using assms distinct_card [of xs] by (auto simp: ringed_def linked_def)

text \<open>A hit takes a reference; a miss recycles the least recently used buffer without any.\<close>

definition grab :: "uint32 \<Rightarrow> uint32 \<Rightarrow> buf \<Rightarrow> buf" where
  "grab dev n q = q\<lparr>b_dev := dev, b_blockno := n, b_valid := False, b_refcnt := 1\<rparr>"

definition sl_take :: "nat \<Rightarrow> nat \<Rightarrow> 'a kdisk_scheme \<Rightarrow> 'a kdisk_scheme" where
  "sl_take p b s = upd_slk (Buf_lk b) (\<lambda>k. k\<lparr>sl_locked := True, sl_pid := p_pid (procs s p)\<rparr>) s"

lemma bget_hit:
  assumes "fs_idle p s" "ringed (bufs s) xs"
    and "List.find (\<lambda>b. b_dev (bufs s b) = dev \<and> b_blockno (bufs s b) = n) xs = Some b" "\<not> sl_locked (slk s (Buf_lk b))"
  shows "bget dev n s = Ret b (sl_take p b (upd_buf b (\<lambda>q. q\<lparr>b_refcnt := b_refcnt q + 1\<rparr>) s))"
proof -
  note D = fs_idle_D [OF assms(1)] and R = ringed_D [OF assms(2)]
  let ?t = "upd_buf b (\<lambda>q. q\<lparr>b_refcnt := b_refcnt q + 1\<rparr>) s"
  have "fs_idle p ?t" using assms(1) by simp
  then have "acquiresleep (Buf_lk b) ?t = Ret () (sl_take p b ?t)"
    using assms(4) fs_idle_D [of p ?t] by (simp add: acquiresleep_eq sl_take_def)
  then show ?thesis
    using D R assms(3) bget_cached_walk [of "acquired Bcache_lock s" "b_next (bufs s NBUF)" xs "Suc NBUF"]
      upd_buf_critical [OF D(6,2), of Bcache_lock b]
    by (simp add: bget_def acquire_quiet Let_def del: bget_cached.simps)
qed

lemma bget_miss:
  assumes "fs_idle p s" "ringed (bufs s) xs"
    and "List.find (\<lambda>b. b_dev (bufs s b) = dev \<and> b_blockno (bufs s b) = n) xs = None"
    and "List.find (\<lambda>b. b_refcnt (bufs s b) = 0) (rev xs) = Some b" "\<not> sl_locked (slk s (Buf_lk b))"
  shows "bget dev n s = Ret b (sl_take p b (upd_buf b (grab dev n) s))"
proof -
  note D = fs_idle_D [OF assms(1)] and R = ringed_D [OF assms(2)]
  let ?t = "upd_buf b (grab dev n) s"
  have "fs_idle p ?t" using assms(1) by simp
  then have "acquiresleep (Buf_lk b) ?t = Ret () (sl_take p b ?t)"
    using assms(5) fs_idle_D [of p ?t] by (simp add: acquiresleep_eq sl_take_def)
  then show ?thesis
    using D R assms(3,4) bget_cached_walk [of "acquired Bcache_lock s" "b_next (bufs s NBUF)" xs "Suc NBUF"]
      bget_unused_walk [of "acquired Bcache_lock s" "b_prev (bufs s NBUF)" "rev xs" "Suc NBUF"]
      upd_buf_critical [OF D(6,2), of Bcache_lock b "grab dev n"]
    by (simp add: bget_def acquire_quiet Let_def flip: grab_def del: bget_cached.simps bget_unused.simps)
qed

lemma bget_full:
  assumes "fs_idle p s" "ringed (bufs s) xs"
    and "List.find (\<lambda>b. b_dev (bufs s b) = dev \<and> b_blockno (bufs s b) = n) xs = None"
    and "List.find (\<lambda>b. b_refcnt (bufs s b) = 0) (rev xs) = None"
  shows "bget dev n s = Panic ''bget: no buffers''"
proof -
  note D = fs_idle_D [OF assms(1)] and R = ringed_D [OF assms(2)]
  show ?thesis
    using D R assms(3,4) bget_cached_walk [of "acquired Bcache_lock s" "b_next (bufs s NBUF)" xs "Suc NBUF"]
      bget_unused_walk [of "acquired Bcache_lock s" "b_prev (bufs s NBUF)" "rev xs" "Suc NBUF"]
    by (simp add: bget_def acquire_quiet del: bget_cached.simps bget_unused.simps)
qed

section \<open>Reading a block\<close>

text \<open>
  \<open>bio p H P s\<close>: process \<open>p\<close> is alone with a sane cache and holds the buffers in \<open>H\<close>.
  \<open>bframe s t\<close>: at most the cache, its sleep locks and the disk differ.
\<close>

definition bio :: "nat \<Rightarrow> nat set \<Rightarrow> (uint32 \<Rightarrow> uint32) \<Rightarrow> 'a kdisk_scheme \<Rightarrow> bool" where
  "bio p H P s \<longleftrightarrow> fs_idle p s \<and> cache_inv H P (bufs s) (sectors s) \<and>
     (\<forall>b<NBUF. sl_locked (slk s (Buf_lk b)) = (b \<in> H) \<and> (b \<in> H \<longrightarrow> sl_pid (slk s (Buf_lk b)) = p_pid (procs s p)))"

definition view :: "'a kdisk_scheme \<Rightarrow> uint32 \<Rightarrow> byte list" where
  "view s n = contents (bufs s) (sectors s) n"

definition bframe :: "'a kdisk_scheme \<Rightarrow> 'a kdisk_scheme \<Rightarrow> bool" where
  "bframe s t \<longleftrightarrow> (\<exists>K B d v ss w. t = s\<lparr>slk := K, bufs := B, disk := d, vdev := v, sectors := ss, wlog := w\<rparr> \<and>
     (\<forall>l. (\<forall>b. l \<noteq> Buf_lk b) \<longrightarrow> K l = slk s l))"

lemma bframe_refl [simp]: "bframe s s"
proof -
  have "s = s\<lparr>slk := slk s, bufs := bufs s, disk := disk s, vdev := vdev s, sectors := sectors s, wlog := wlog s\<rparr>" by simp
  then show ?thesis unfolding bframe_def by blast
qed

lemma bframe_trans: "bframe s t \<Longrightarrow> bframe t u \<Longrightarrow> bframe s u"
  unfolding bframe_def by (elim exE conjE) (simp, metis)

lemma bframe_upd [simp]:
  "bframe s (upd_buf b f s)" "bframe s (upd_slk (Buf_lk b) g s)" "bframe s (sl_take p b s)" "bframe s (dset d v bs ss w s)"
proof -
  have "upd_buf b f s = s\<lparr>slk := slk s, bufs := bufs (upd_buf b f s), disk := disk s, vdev := vdev s,
      sectors := sectors s, wlog := wlog s\<rparr>" by (simp add: upd_buf_def)
  then show "bframe s (upd_buf b f s)" unfolding bframe_def by blast
  have *: "upd_slk (Buf_lk b) g s = s\<lparr>slk := slk (upd_slk (Buf_lk b) g s), bufs := bufs s, disk := disk s, vdev := vdev s,
      sectors := sectors s, wlog := wlog s\<rparr>" for g by (simp add: upd_slk_def)
  have "bframe s (upd_slk (Buf_lk b) g s)" for g unfolding bframe_def by (intro exI conjI, rule *) simp
  then show "bframe s (upd_slk (Buf_lk b) g s)" "bframe s (sl_take p b s)" unfolding sl_take_def by blast+
  have "dset d v bs ss w s = s\<lparr>slk := slk s, bufs := bs, disk := d, vdev := v, sectors := ss, wlog := w\<rparr>"
    by (simp add: dset_def)
  then show "bframe s (dset d v bs ss w s)" unfolding bframe_def by blast
qed

lemma bio_D:
  assumes "bio p H P s"
  shows "fs_idle p s" "cache_inv H P (bufs s) (sectors s)"
    "b < NBUF \<Longrightarrow> sl_locked (slk s (Buf_lk b)) = (b \<in> H)"
    "b \<in> H \<Longrightarrow> sl_pid (slk s (Buf_lk b)) = p_pid (procs s p)" "b \<in> H \<Longrightarrow> b < NBUF"
  using assms cache_inv_D(2) [of H P "bufs s" "sectors s"] by (auto simp: bio_def)

lemma refs_insert: "b \<notin> H \<Longrightarrow> refs (insert b H) P b q = refs H P b q + 1"
  by (simp add: refs_def)

lemma refs_zero:
  assumes "refs H P b q = 0" "b \<in> H \<Longrightarrow> b_dev q = ROOTDEV \<and> P (b_blockno q) \<noteq> - 1"
  shows "b \<notin> H" "b_dev q = ROOTDEV \<Longrightarrow> P (b_blockno q) = 0"
  using assms by (auto simp: refs_def add_eq_0_iff split: if_splits)

lemma buf_ok_other: "c \<noteq> b \<Longrightarrow> buf_ok (insert b H) P ss c q = buf_ok H P ss c q"
  by (simp add: buf_ok_def refs_def)

lemma caches_iff: "caches (B b) n \<longleftrightarrow> b_dev (B b) = ROOTDEV \<and> b_blockno (B b) = n"
  by (simp add: caches_def)

lemma find_caches:
  assumes "ringed B xs" "cache_inv H P B ss" "b < NBUF" "caches (B b) n"
  shows "List.find (\<lambda>b. b_dev (B b) = ROOTDEV \<and> b_blockno (B b) = n) xs = Some b"
proof -
  have "b \<in> set xs" using assms(1,3) by (simp add: ringed_def)
  then obtain c where c: "List.find (\<lambda>b. caches (B b) n) xs = Some c"
    using assms(4) by (cases "List.find (\<lambda>b. caches (B b) n) xs") (auto simp: find_None_iff)
  then have "c \<in> set xs" "caches (B c) n" by (auto simp: find_Some_iff)
  then have "c = b" using assms cache_inv_D(4) [OF assms(2)] by (auto simp: ringed_def)
  then show ?thesis using c by (simp add: caches_def)
qed

lemma bio_take:
  assumes "bio p H P s" "fs_idle p t" "cache_inv (insert b H) P (bufs t) (sectors t)"
    and "slk t = (slk s)(Buf_lk b := (slk s (Buf_lk b))\<lparr>sl_locked := True, sl_pid := p_pid (procs s p)\<rparr>)" "procs t = procs s"
  shows "bio p (insert b H) P t"
  using assms bio_D(3,4) [OF assms(1)] by (auto simp: bio_def)

lemma bread_hit:
  assumes "bio p H P s" "b < NBUF" "caches (bufs s b) n" "b \<notin> H"
    and t: "t = sl_take p b (upd_buf b (\<lambda>q. q\<lparr>b_refcnt := b_refcnt q + 1\<rparr>) s)"
  shows "bread ROOTDEV n s = Ret b t" "bio p (insert b H) P t" "view t m = view s m"
proof -
  note D = bio_D [OF assms(1)]
  obtain xs where r: "ringed (bufs s) xs" using D(2) by (auto simp: cache_inv_def)
  let ?q = "(bufs s b)\<lparr>b_refcnt := b_refcnt (bufs s b) + 1\<rparr>"
  have ok: "buf_ok H P (sectors s) b (bufs s b)" using D(2) assms(2) by (rule cache_inv_D)
  then have "b_valid (bufs s b)" using assms(3) by (simp add: buf_ok_def caches_def)
  then show "bread ROOTDEV n s = Ret b t"
    using bget_hit [OF D(1) r find_caches [OF r D(2) assms(2,3)]] D(3) [OF assms(2)] assms(4)
    by (simp add: t bread_def sl_take_def)
  have "cache_inv (insert b H) P ((bufs s)(b := ?q)) (sectors s)"
  proof (rule cache_inv_upd [OF D(2) assms(2)])
    show "buf_ok (insert b H) P (sectors s) b ?q"
      using ok assms(3,4) by (auto simp: buf_ok_def refs_insert refs_def caches_def)
    show "\<And>c. c < NBUF \<Longrightarrow> c \<noteq> b \<Longrightarrow> buf_ok (insert b H) P (sectors s) c (bufs s c)"
      using cache_inv_D(1) [OF D(2)] by (simp add: buf_ok_other)
    show "\<And>c m. c < NBUF \<Longrightarrow> c \<noteq> b \<Longrightarrow> caches ?q m \<Longrightarrow> \<not> caches (bufs s c) m"
      using cache_inv_D(4) [OF D(2) assms(2)] by (simp add: caches_def) metis
    show "\<And>m. P m \<noteq> 0 \<Longrightarrow> caches ?q m \<or> (\<exists>c<NBUF. c \<noteq> b \<and> caches (bufs s c) m)"
      using cache_inv_D(5) [OF D(2)] by (force simp: caches_def)
  qed (use D(5) assms(2) in auto)
  then show "bio p (insert b H) P t"
    by (intro bio_take [OF assms(1)]) (simp_all add: t sl_take_def D(1))
  show "view t m = view s m" unfolding view_def by (rule contents_cong) (simp_all add: t sl_take_def)
qed

lemma contents_upd:
  assumes "cache_inv H P B ss" "cache_inv H' P' (B(b := q)) ss'" "b < NBUF"
    and "\<And>n. caches (B b) n \<Longrightarrow> n \<noteq> m" "\<And>n. caches q n \<Longrightarrow> n \<noteq> m" "block ss' m = block ss m"
  shows "contents (B(b := q)) ss' m = contents B ss m"
proof (cases "\<exists>c<NBUF. caches (B c) m")
  case True
  then obtain c where c: "c < NBUF" "caches (B c) m" by blast
  then have "c \<noteq> b" using assms(4) by blast
  then show ?thesis using contents_cached [OF assms(1) c] contents_cached [OF assms(2) c(1), of m] c(2) by simp
next
  case False
  then have "\<And>c. c < NBUF \<Longrightarrow> \<not> caches ((B(b := q)) c) m" using assms(5) by auto
  then show ?thesis using contents_uncached [of B m ss] contents_uncached [of "B(b := q)" m ss'] False assms(6) by auto
qed

lemma bread_miss:
  fixes s :: "'a kdisk_scheme"
  assumes "bio p H P s" "small n" "\<And>c. c < NBUF \<Longrightarrow> \<not> caches (bufs s c) n" "\<exists>b<NBUF. b_refcnt (bufs s b) = 0"
    and "\<forall>b\<in>H. P (b_blockno (bufs s b)) \<noteq> - 1"
  obtains b t where "bread ROOTDEV n s = Ret b t" "b < NBUF" "b \<notin> H" "bio p (insert b H) P t" "bframe s t"
    "sectors t = sectors s" "wlog t = wlog s" "caches (bufs t b) n" "\<And>m. view t m = view s m"
    "\<And>c. c \<noteq> b \<Longrightarrow> bufs t c = bufs s c"
proof -
  note D = bio_D [OF assms(1)]
  obtain xs where r: "ringed (bufs s) xs" using D(2) by (auto simp: cache_inv_def)
  have none: "List.find (\<lambda>b. b_dev (bufs s b) = ROOTDEV \<and> b_blockno (bufs s b) = n) xs = None"
    using assms(3) r by (auto simp: find_None_iff caches_def ringed_def)
  obtain b where b: "List.find (\<lambda>b. b_refcnt (bufs s b) = 0) (rev xs) = Some b"
    using assms(4) r by (cases "List.find (\<lambda>b. b_refcnt (bufs s b) = 0) (rev xs)") (auto simp: find_None_iff ringed_def)
  then have bset: "b \<in> set (rev xs)" "b_refcnt (bufs s b) = 0" by (auto simp: find_Some_iff simp del: set_rev)
  then have bN: "b < NBUF" using r by (simp add: ringed_def)
  have ok: "buf_ok H P (sectors s) b (bufs s b)" using D(2) bN by (rule cache_inv_D)
  then have "refs H P b (bufs s b) = 0" using bset(2) by (simp add: buf_ok_def)
  then have bH: "b \<notin> H" and bD: "b_dev (bufs s b) = ROOTDEV \<Longrightarrow> P (b_blockno (bufs s b)) = 0"
    using refs_zero [of H P b "bufs s b"] ok assms(5) by (auto simp: buf_ok_def)
  let ?s = "sl_take p b (upd_buf b (grab ROOTDEV n) s)"
  have get: "bget ROOTDEV n s = Ret b ?s"
    using bget_miss [OF D(1) r none b] D(3) [OF bN] bH by simp
  have idle: "fs_idle p ?s" using D(1) by (simp add: sl_take_def)
  note I = fs_idle_D [OF idle]
  have bs: "bufs ?s b = grab ROOTDEV n (bufs s b)" "sectors ?s = sectors s" "wlog ?s = wlog s" "slk ?s = slk (sl_take p b s)"
    by (simp_all add: sl_take_def)
  have sec: "sector_of (bufs ?s b) = secno n" by (simp add: bs(1) grab_def sector_of_def secno_def)
  have "\<not> b_disk (bufs ?s b)" using ok bs(1) by (simp add: grab_def buf_ok_def)
  note rw = virtio_disk_rw_eq [OF I(1,2,5,3,4) this, of False] and di = disk_idle_served [OF I(5), of b False "secno n"]
  let ?q = "(grab ROOTDEV n (bufs s b))\<lparr>b_data := block (sectors s) n, b_valid := True\<rparr>"
  let ?t = "dset (served_disk b False (secno n) (disk ?s)) (served_dev (vdev ?s)) ((bufs s)(b := ?q)) (sectors s) (wlog s) ?s"
  have rd: "bread ROOTDEV n s = Ret b ?t"
    using rw get sec bs(1) by (simp add: bread_def xfer_defs grab_def block_def dset_upd) (simp add: sl_take_def grab_def)
  have inv: "cache_inv (insert b H) P ((bufs s)(b := ?q)) (sectors s)"
  proof (rule cache_inv_upd [OF D(2) bN])
    have "P n = 0" using assms(3) cache_inv_D(5) [OF D(2)] by blast
    then show "buf_ok (insert b H) P (sectors s) b ?q"
      using ok assms(2) cache_inv_D(3) [OF D(2)] by (simp add: buf_ok_def refs_def grab_def)
    show "\<And>c. c < NBUF \<Longrightarrow> c \<noteq> b \<Longrightarrow> buf_ok (insert b H) P (sectors s) c (bufs s c)"
      using cache_inv_D(1) [OF D(2)] by (simp add: buf_ok_other)
    show "\<And>c m. c < NBUF \<Longrightarrow> c \<noteq> b \<Longrightarrow> caches ?q m \<Longrightarrow> \<not> caches (bufs s c) m"
      using assms(3) by (auto simp: caches_def grab_def)
    show "\<And>m. P m \<noteq> 0 \<Longrightarrow> caches ?q m \<or> (\<exists>c<NBUF. c \<noteq> b \<and> caches (bufs s c) m)"
      using cache_inv_D(5) [OF D(2)] bD by (metis caches_def)
  qed (use D(5) bN in \<open>auto simp: grab_def\<close>)
  have idle_t: "fs_idle p ?t" by (rule fs_idle_cong [OF _ _ _ _ _ idle]) (use di in \<open>simp_all add: sl_take_def\<close>)
  have 1: "bio p (insert b H) P ?t"
    by (rule bio_take [OF assms(1) idle_t]) (use inv in \<open>simp_all add: sl_take_def\<close>)
  have 2: "view ?t m = view s m" for m
  proof (cases "m = n \<or> caches (bufs s b) m")
    case True
    have "contents (bufs s) (sectors s) m = block (sectors s) m"
      using True contents_uncached [OF assms(3)] contents_cached [OF D(2) bN] ok bH bD by (auto simp: buf_ok_def caches_def)
    moreover have "contents ((bufs s)(b := ?q)) (sectors s) m = block (sectors s) m"
    proof (cases "m = n")
      case True
      then show ?thesis using contents_cached [OF inv bN, of n] by (simp add: caches_def grab_def)
    next
      case False
      with True have b: "caches (bufs s b) m" "\<not> caches ?q m" by (simp_all add: caches_def grab_def)
      have "\<not> caches (((bufs s)(b := ?q)) c) m" if "c < NBUF" for c
      proof (cases "c = b")
        case True
        then show ?thesis using b(2) by (simp only: fun_upd_same not_False_eq_True)
      next
        case False
        then show ?thesis using cache_inv_D(4) [OF D(2) bN that b(1)] by (metis fun_upd_other)
      qed
      then show ?thesis by (rule contents_uncached)
    qed
    ultimately show ?thesis by (simp add: view_def)
  next
    case False
    then show ?thesis using contents_upd [OF D(2) inv bN, of m] by (auto simp: view_def caches_def grab_def)
  qed
  have 3: "bframe s ?t"
    by (rule bframe_trans [OF bframe_trans [OF bframe_upd(1) bframe_upd(3)] bframe_upd(4)])
  show thesis
    by (rule that [OF rd bN bH 1 3 _ _ _ 2]) (simp_all add: caches_def grab_def)
qed

lemma free_buffer:
  assumes "cache_inv H P B ss" "finite {n. P n \<noteq> 0}" "card H + card {n. P n \<noteq> 0} < NBUF"
  shows "\<exists>b<NBUF. b_refcnt (B b) = 0"
proof (rule ccontr)
  assume "\<not> (\<exists>b<NBUF. b_refcnt (B b) = 0)"
  then have all: "refs H P b (B b) \<noteq> 0" if "b < NBUF" for b
    using that cache_inv_D(1) [OF assms(1)] by (auto simp: buf_ok_def)
  let ?P = "{b. b < NBUF \<and> b_dev (B b) = ROOTDEV \<and> P (b_blockno (B b)) \<noteq> 0}"
  have "inj_on (\<lambda>b. b_blockno (B b)) ?P"
    using cache_inv_D(4) [OF assms(1)] by (auto simp: inj_on_def caches_def)
  then have "card ?P \<le> card {n. P n \<noteq> 0}" by (rule card_inj_on_le) (use assms(2) in auto)
  moreover have "refs H P b (B b) = 0" if "b \<notin> H" "b \<notin> ?P" "b < NBUF" for b using that by (auto simp: refs_def)
  then have "{..<NBUF} \<subseteq> H \<union> ?P" using all by blast
  then have "card {..<NBUF} \<le> card (H \<union> ?P)"
    using cache_inv_D(2) [OF assms(1)] by (intro card_mono) (auto intro: finite_subset)
  ultimately show False using assms(3) card_Un_le [of H ?P] by simp
qed

lemma bread_ok:
  fixes s :: "'a kdisk_scheme"
  assumes "bio p H P s" "small n" "\<forall>b\<in>H. b_blockno (bufs s b) \<noteq> n \<and> P (b_blockno (bufs s b)) \<noteq> - 1"
    and "finite {n. P n \<noteq> 0}" "P n \<noteq> 0 \<or> card H + card {n. P n \<noteq> 0} < NBUF"
  obtains b t where "bread ROOTDEV n s = Ret b t" "b < NBUF" "b \<notin> H" "bio p (insert b H) P t" "bframe s t"
    "sectors t = sectors s" "wlog t = wlog s" "caches (bufs t b) n" "b_data (bufs t b) = view s n"
    "\<And>m. view t m = view s m" "\<And>c. c \<noteq> b \<Longrightarrow> bufs t c = bufs s c"
proof (cases "\<exists>b<NBUF. caches (bufs s b) n")
  case True
  then obtain b where b: "b < NBUF" "caches (bufs s b) n" by blast
  with assms(3) have bH: "b \<notin> H" by (auto simp: caches_def)
  note h = bread_hit [OF assms(1) b bH refl]
  have c: "caches (bufs (sl_take p b (upd_buf b (\<lambda>q. q\<lparr>b_refcnt := b_refcnt q + 1\<rparr>) s)) b) n"
    using b(2) by (simp add: sl_take_def caches_def)
  show thesis
  proof (rule that [OF h(1) b(1) bH h(2) _ _ _ c _ h(3)])
    show "bframe s (sl_take p b (upd_buf b (\<lambda>q. q\<lparr>b_refcnt := b_refcnt q + 1\<rparr>) s))"
      by (rule bframe_trans [OF bframe_upd(1) bframe_upd(3)])
  qed (use contents_cached [OF bio_D(2) [OF assms(1)] b] in \<open>simp_all add: sl_take_def view_def\<close>)
next
  case False
  then have un: "\<And>c. c < NBUF \<Longrightarrow> \<not> caches (bufs s c) n" by blast
  then have "P n = 0" using cache_inv_D(5) [OF bio_D(2) [OF assms(1)]] by blast
  then have "\<exists>b<NBUF. b_refcnt (bufs s b) = 0"
    using free_buffer [OF bio_D(2) [OF assms(1)] assms(4)] assms(5) by blast
  from bread_miss [OF assms(1,2) un this] assms(3) obtain b t where
    t: "bread ROOTDEV n s = Ret b t" "b < NBUF" "b \<notin> H" "bio p (insert b H) P t" "bframe s t"
      "sectors t = sectors s" "wlog t = wlog s" "caches (bufs t b) n" "\<And>m. view t m = view s m"
      "\<And>c. c \<noteq> b \<Longrightarrow> bufs t c = bufs s c" by blast
  then have "b_data (bufs t b) = view s n"
    using contents_cached [OF bio_D(2) [OF t(4)] t(2,8)] by (simp add: view_def flip: t(9))
  then show thesis using t by (intro that)
qed

lemma bread_ex:
  assumes "bio p H P s" "small n" "\<forall>b\<in>H. b_blockno (bufs s b) \<noteq> n \<and> P (b_blockno (bufs s b)) \<noteq> - 1"
    and "finite {n. P n \<noteq> 0}" "P n \<noteq> 0 \<or> card H + card {n. P n \<noteq> 0} < NBUF"
  shows "\<exists>b t. bread ROOTDEV n s = Ret b t \<and> b < NBUF \<and> b \<notin> H \<and> bio p (insert b H) P t \<and> bframe s t \<and>
    sectors t = sectors s \<and> wlog t = wlog s \<and> b_blockno (bufs t b) = n \<and> b_data (bufs t b) = view s n \<and>
    (\<forall>m. view t m = view s m) \<and> (\<forall>c. c \<noteq> b \<longrightarrow> bufs t c = bufs s c)"
  by (rule bread_ok [OF assms]) (auto simp: caches_def)

section \<open>Writing, pinning and releasing\<close>

lemma bwrite_ok:
  assumes "bio p H P s" "b \<in> H"
  shows "\<exists>t. bwrite b s = Ret () t \<and> bio p H P t \<and> bframe s t \<and> bufs t = bufs s \<and>
    sectors t = put_block (b_blockno (bufs s b)) (b_data (bufs s b)) (sectors s) \<and>
    wlog t = wlog s @ [(secno (b_blockno (bufs s b)), take 512 (b_data (bufs s b))),
      (secno (b_blockno (bufs s b)) + 1, drop 512 (b_data (bufs s b)))]"
proof -
  note D = bio_D [OF assms(1)] and I = fs_idle_D [OF bio_D(1) [OF assms(1)]]
  have bN: "b < NBUF" using D(5) assms(2) .
  have ok: "buf_ok H P (sectors s) b (bufs s b)" using D(2) bN by (rule cache_inv_D)
  let ?n = "b_blockno (bufs s b)" and ?bs = "b_data (bufs s b)"
  have hold: "holdingsleep (Buf_lk b) s = Ret True s"
    using holdingsleep_eq [OF I(1,2), of "Buf_lk b"] D(3) [OF bN] D(4) [OF assms(2)] assms(2) by simp
  have sec: "sector_of (bufs s b) = secno ?n" by (simp add: sector_of_def secno_def)
  have nd: "\<not> b_disk (bufs s b)" using ok by (simp add: buf_ok_def)
  let ?t = "dset (served_disk b True (secno ?n) (disk s)) (served_dev (vdev s)) (bufs s) (put_block ?n ?bs (sectors s))
    (wlog s @ [(secno ?n, take 512 ?bs), (secno ?n + 1, drop 512 ?bs)]) s"
  have wr: "bwrite b s = Ret () ?t"
    using virtio_disk_rw_eq [OF I(1,2,5,3,4) nd, of True] hold by (simp add: bwrite_def xfer_defs sec put_block_def)
  have "fs_idle p ?t"
    by (rule fs_idle_cong [OF _ _ _ _ _ D(1)]) (use disk_idle_served [OF I(5)] in simp_all)
  moreover have "buf_ok H P (put_block ?n ?bs (sectors s)) c (bufs s c)" if "c < NBUF" for c
  proof -
    have c: "buf_ok H P (sectors s) c (bufs s c)" using D(2) that by (rule cache_inv_D)
    moreover have "b_blockno (bufs s c) \<noteq> ?n" if "c \<notin> H" "b_dev (bufs s c) = ROOTDEV"
      using cache_inv_D(4) [OF D(2) bN \<open>c < NBUF\<close>, of ?n] assms(2) that ok by (auto simp: caches_def buf_ok_def)
    moreover have "small ?n" using ok assms(2) by (simp add: buf_ok_def)
    ultimately show ?thesis by (auto simp: buf_ok_def block_put_block)
  qed
  moreover have "sectored (put_block ?n ?bs (sectors s))"
    using ok assms(2) cache_inv_D(3) [OF D(2)] by (intro sectored_put_block) (simp_all add: buf_ok_def)
  ultimately have "bio p H P ?t" using assms(1) by (simp add: bio_def cache_inv_def)
  then show ?thesis using wr bframe_upd(4) by (intro exI [of _ ?t]) simp
qed

lemma bwrite_view:
  assumes "cache_inv H P B ss" "b < NBUF" "caches (B b) n" "small n" "small m"
  shows "contents B (put_block n bs ss) m = contents B ss m"
proof (cases "m = n")
  case True
  then have "List.find (\<lambda>b. caches (B b) m) [0..<NBUF] \<noteq> None" using assms(2,3) by (auto simp: find_None_iff)
  then show ?thesis by (auto simp: contents_def)
next
  case False
  then show ?thesis using block_put_block [OF assms(4,5)] by (intro contents_cong) simp_all
qed

lemma held_D:
  assumes "bio p H P s" "b \<in> H"
  shows "b < NBUF" "b_dev (bufs s b) = ROOTDEV" "small (b_blockno (bufs s b))" "length (b_data (bufs s b)) = BSIZE"
    "view s (b_blockno (bufs s b)) = b_data (bufs s b)" "caches (bufs s b) (b_blockno (bufs s b))"
proof -
  note D = bio_D [OF assms(1)]
  show b: "b < NBUF" using D(5) assms(2) .
  have ok: "buf_ok H P (sectors s) b (bufs s b)" using D(2) b by (rule cache_inv_D)
  then show d: "b_dev (bufs s b) = ROOTDEV" "small (b_blockno (bufs s b))" "length (b_data (bufs s b)) = BSIZE"
    using assms(2) by (auto simp: buf_ok_def)
  then show c: "caches (bufs s b) (b_blockno (bufs s b))" by (simp add: caches_def)
  show "view s (b_blockno (bufs s b)) = b_data (bufs s b)"
    using contents_cached [OF D(2) b c] by (simp add: view_def)
qed

text \<open>The holder of a buffer may change its data, which changes what the block looks like.\<close>

lemma bio_modify:
  assumes "bio p H P s" "b \<in> H" "length bs = BSIZE"
  shows "bio p H P (upd_buf b (\<lambda>q. q\<lparr>b_data := bs\<rparr>) s)"
    "view (upd_buf b (\<lambda>q. q\<lparr>b_data := bs\<rparr>) s) = (view s)(b_blockno (bufs s b) := bs)"
proof -
  note D = bio_D [OF assms(1)] and h = held_D [OF assms(1,2)]
  have ok: "buf_ok H P (sectors s) b (bufs s b)" using D(2) h(1) by (rule cache_inv_D)
  let ?q = "(bufs s b)\<lparr>b_data := bs\<rparr>"
  have inv: "cache_inv H P ((bufs s)(b := ?q)) (sectors s)"
  proof (rule cache_inv_upd [OF D(2) h(1)])
    show "buf_ok H P (sectors s) b ?q" using ok assms(2,3) by (auto simp: buf_ok_def refs_def)
    show "\<And>c. c < NBUF \<Longrightarrow> c \<noteq> b \<Longrightarrow> buf_ok H P (sectors s) c (bufs s c)" using cache_inv_D(1) [OF D(2)] .
    show "\<And>c m. c < NBUF \<Longrightarrow> c \<noteq> b \<Longrightarrow> caches ?q m \<Longrightarrow> \<not> caches (bufs s c) m"
      using cache_inv_D(4) [OF D(2) h(1)] by (simp add: caches_def) metis
    show "\<And>m. P m \<noteq> 0 \<Longrightarrow> caches ?q m \<or> (\<exists>c<NBUF. c \<noteq> b \<and> caches (bufs s c) m)"
      using cache_inv_D(5) [OF D(2)] by (force simp: caches_def)
  qed (use D(5) in auto)
  then show "bio p H P (upd_buf b (\<lambda>q. q\<lparr>b_data := bs\<rparr>) s)" using assms(1) by (simp add: bio_def)
  have "contents ((bufs s)(b := ?q)) (sectors s) m = (if m = b_blockno (bufs s b) then bs else contents (bufs s) (sectors s) m)" for m
  proof (cases "m = b_blockno (bufs s b)")
    case True
    then show ?thesis using contents_cached [OF inv h(1), of m] h(2) by (simp add: caches_def)
  next
    case False
    then show ?thesis using contents_upd [OF D(2) inv h(1), of m] by (simp add: caches_def)
  qed
  then show "view (upd_buf b (\<lambda>q. q\<lparr>b_data := bs\<rparr>) s) = (view s)(b_blockno (bufs s b) := bs)"
    by (simp add: view_def fun_eq_iff)
qed

text \<open>Changes of a reference count that go with a change of the pins.\<close>

lemma bio_repin:
  assumes "bio p H P s" "b \<in> H" "n = b_blockno (bufs s b)" "P' = P(n := P n + x)"
  shows "bio p H P' (upd_buf b (\<lambda>q. q\<lparr>b_refcnt := b_refcnt q + x\<rparr>) s)"
    "view (upd_buf b (\<lambda>q. q\<lparr>b_refcnt := b_refcnt q + x\<rparr>) s) m = view s m"
proof -
  note D = bio_D [OF assms(1)] and h = held_D [OF assms(1,2)]
  let ?q = "(bufs s b)\<lparr>b_refcnt := b_refcnt (bufs s b) + x\<rparr>"
  have eq: "P' k = P k" if "k \<noteq> n" for k using assms(4) that by simp
  have "cache_inv H P' ((bufs s)(b := ?q)) (sectors s)"
  proof (rule cache_inv_upd [OF D(2) h(1)])
    have "buf_ok H P (sectors s) b (bufs s b)" using D(2) h(1) by (rule cache_inv_D)
    then show "buf_ok H P' (sectors s) b ?q"
      using assms(2-4) h(2) by (auto simp: buf_ok_def refs_def)
    show "buf_ok H P' (sectors s) c (bufs s c)" if "c < NBUF" "c \<noteq> b" for c
    proof -
      have "b_blockno (bufs s c) \<noteq> n" if "b_dev (bufs s c) = ROOTDEV"
        using cache_inv_D(4) [OF D(2) h(1) \<open>c < NBUF\<close>, of n] h(2) that \<open>c \<noteq> b\<close> assms(3) by (auto simp: caches_def)
      then have "b_dev (bufs s c) = ROOTDEV \<Longrightarrow> P' (b_blockno (bufs s c)) = P (b_blockno (bufs s c))"
        by (intro eq) simp
      then show ?thesis using cache_inv_D(1) [OF D(2) that(1)] by (auto simp: buf_ok_def refs_def)
    qed
    show "\<And>c m. c < NBUF \<Longrightarrow> c \<noteq> b \<Longrightarrow> caches ?q m \<Longrightarrow> \<not> caches (bufs s c) m"
      using cache_inv_D(4) [OF D(2) h(1)] by (simp add: caches_def) metis
    show "\<And>m. P' m \<noteq> 0 \<Longrightarrow> caches ?q m \<or> (\<exists>c<NBUF. c \<noteq> b \<and> caches (bufs s c) m)"
      using cache_inv_D(5) [OF D(2)] eq assms(3) h(2) by (simp add: caches_def) metis
  qed (use D(5) in auto)
  then show "bio p H P' (upd_buf b (\<lambda>q. q\<lparr>b_refcnt := b_refcnt q + x\<rparr>) s)" using assms(1) by (simp add: bio_def)
  show "view (upd_buf b (\<lambda>q. q\<lparr>b_refcnt := b_refcnt q + x\<rparr>) s) m = view s m"
    unfolding view_def by (rule contents_cong) simp_all
qed

lemma bpin_ok:
  assumes "bio p H P s" "b \<in> H" "n = b_blockno (bufs s b)"
  shows "\<exists>t. bpin b s = Ret () t \<and> bio p H (P(n := P n + 1)) t \<and> bframe s t \<and> sectors t = sectors s \<and> wlog t = wlog s \<and>
    (\<forall>m. view t m = view s m) \<and> (\<forall>c. b_blockno (bufs t c) = b_blockno (bufs s c))"
proof -
  note I = fs_idle_D [OF bio_D(1) [OF assms(1)]]
  let ?t = "upd_buf b (\<lambda>q. q\<lparr>b_refcnt := b_refcnt q + 1\<rparr>) s"
  have "bpin b s = Ret () ?t" using I by (simp add: bpin_def acquire_quiet upd_buf_critical)
  moreover have "bio p H (P(n := P n + 1)) ?t" "\<forall>m. view ?t m = view s m"
    using bio_repin [OF assms refl, of 1] by simp_all
  ultimately show ?thesis by (intro exI [of _ ?t]) simp
qed

lemma bunpin_ok:
  assumes "bio p H P s" "b \<in> H" "n = b_blockno (bufs s b)"
  shows "\<exists>t. bunpin b s = Ret () t \<and> bio p H (P(n := P n - 1)) t \<and> bframe s t \<and> sectors t = sectors s \<and> wlog t = wlog s \<and>
    (\<forall>m. view t m = view s m) \<and> (\<forall>c. b_blockno (bufs t c) = b_blockno (bufs s c)) \<and>
    (\<forall>c. b_data (bufs t c) = b_data (bufs s c))"
proof -
  note I = fs_idle_D [OF bio_D(1) [OF assms(1)]]
  let ?t = "upd_buf b (\<lambda>q. q\<lparr>b_refcnt := b_refcnt q + (- 1)\<rparr>) s"
  have "bunpin b s = Ret () ?t" using I upd_buf_critical [of s Bcache_lock b "\<lambda>q. q\<lparr>b_refcnt := b_refcnt q + (- 1)\<rparr>"]
    by (simp add: bunpin_def acquire_quiet)
  moreover have "bio p H (P(n := P n - 1)) ?t" "\<forall>m. view ?t m = view s m"
    using bio_repin [OF assms refl, of "- 1"] by simp_all
  ultimately show ?thesis by (intro exI [of _ ?t]) simp
qed

text \<open>The move of a buffer to the front of the list, on the array of buffers.\<close>

definition to_front :: "nat \<Rightarrow> (nat \<Rightarrow> buf) \<Rightarrow> nat \<Rightarrow> buf" where
  "to_front b B =
     (let B = B(b_next (B b) := (B (b_next (B b)))\<lparr>b_prev := b_prev (B b)\<rparr>);
          B = B(b_prev (B b) := (B (b_prev (B b)))\<lparr>b_next := b_next (B b)\<rparr>);
          B = B(b := (B b)\<lparr>b_next := b_next (B NBUF)\<rparr>);
          B = B(b := (B b)\<lparr>b_prev := NBUF\<rparr>);
          B = B(b_next (B NBUF) := (B (b_next (B NBUF)))\<lparr>b_prev := b\<rparr>)
      in B(NBUF := (B NBUF)\<lparr>b_next := b\<rparr>))"

lemma link_upd_data:
  "b_dev ((B(a := (B a)\<lparr>b_prev := x\<rparr>)) c) = b_dev (B c)" "b_blockno ((B(a := (B a)\<lparr>b_prev := x\<rparr>)) c) = b_blockno (B c)"
  "b_data ((B(a := (B a)\<lparr>b_prev := x\<rparr>)) c) = b_data (B c)" "b_valid ((B(a := (B a)\<lparr>b_prev := x\<rparr>)) c) = b_valid (B c)"
  "b_disk ((B(a := (B a)\<lparr>b_prev := x\<rparr>)) c) = b_disk (B c)" "b_refcnt ((B(a := (B a)\<lparr>b_prev := x\<rparr>)) c) = b_refcnt (B c)"
  "b_dev ((B(a := (B a)\<lparr>b_next := x\<rparr>)) c) = b_dev (B c)" "b_blockno ((B(a := (B a)\<lparr>b_next := x\<rparr>)) c) = b_blockno (B c)"
  "b_data ((B(a := (B a)\<lparr>b_next := x\<rparr>)) c) = b_data (B c)" "b_valid ((B(a := (B a)\<lparr>b_next := x\<rparr>)) c) = b_valid (B c)"
  "b_disk ((B(a := (B a)\<lparr>b_next := x\<rparr>)) c) = b_disk (B c)" "b_refcnt ((B(a := (B a)\<lparr>b_next := x\<rparr>)) c) = b_refcnt (B c)"
  by simp_all

lemma to_front_data:
  "b_dev (to_front b B c) = b_dev (B c)" "b_blockno (to_front b B c) = b_blockno (B c)"
  "b_data (to_front b B c) = b_data (B c)" "b_valid (to_front b B c) = b_valid (B c)"
  "b_disk (to_front b B c) = b_disk (B c)" "b_refcnt (to_front b B c) = b_refcnt (B c)"
  unfolding to_front_def Let_def link_upd_data by (rule refl)+

lemma ringed_to_front:
  assumes "ringed B (us @ b # vs)"
  shows "ringed (to_front b B) (b # us @ vs)"
proof -
  let ?nx = "\<lambda>c. b_next (B c)" and ?pv = "\<lambda>c. b_prev (B c)"
  have l: "linked ?nx ?pv NBUF (us @ b # vs)" using assms by (simp add: ringed_def)
  have "b \<notin> set (vs @ [NBUF])" "b \<notin> set (rev us @ [NBUF])" "b \<noteq> NBUF" using l by (auto simp: linked_def)
  moreover have "?nx b \<in> set (vs @ [NBUF])" "?pv b \<in> set (rev us @ [NBUF])"
    unfolding linked_neighbours(1,2) [OF l] by (rule hd_in_set, simp)+
  ultimately have d: "b \<noteq> NBUF" "?nx b \<noteq> b" "?pv b \<noteq> b" by metis+
  define C where "C = B(?nx b := (B (?nx b))\<lparr>b_prev := ?pv b\<rparr>)"
  define E where "E = C(b_prev (C b) := (C (b_prev (C b)))\<lparr>b_next := b_next (C b)\<rparr>)"
  define F where "F = E(b := (E b)\<lparr>b_next := b_next (E NBUF)\<rparr>)"
  define G where "G = F(b := (F b)\<lparr>b_prev := NBUF\<rparr>)"
  define K where "K = G(b_next (G NBUF) := (G (b_next (G NBUF)))\<lparr>b_prev := b\<rparr>)"
  have t: "to_front b B = K(NBUF := (K NBUF)\<lparr>b_next := b\<rparr>)"
    unfolding to_front_def Let_def K_def G_def F_def E_def C_def by (rule refl)
  have C: "(\<lambda>c. b_next (C c)) = ?nx" "(\<lambda>c. b_prev (C c)) = ?pv(?nx b := ?pv b)" "b_prev (C b) = ?pv b" "b_next (C b) = ?nx b"
    using d by (auto simp: C_def fun_eq_iff)
  have E: "(\<lambda>c. b_next (E c)) = ?nx(?pv b := ?nx b)" "(\<lambda>c. b_prev (E c)) = ?pv(?nx b := ?pv b)"
    unfolding C(1) [symmetric] C(2) [symmetric] E_def C(3,4) by (auto simp: fun_eq_iff C(4))
  have F: "(\<lambda>c. b_next (F c)) = (\<lambda>c. b_next (E c))(b := b_next (E NBUF))" "(\<lambda>c. b_prev (F c)) = (\<lambda>c. b_prev (E c))"
    by (auto simp: F_def fun_eq_iff)
  have G: "(\<lambda>c. b_next (G c)) = (\<lambda>c. b_next (F c))" "(\<lambda>c. b_prev (G c)) = (\<lambda>c. b_prev (F c))(b := NBUF)"
    by (auto simp: G_def fun_eq_iff)
  have n: "b_next (G NBUF) = b_next (E NBUF)" using fun_cong [OF G(1), of NBUF] fun_cong [OF F(1), of NBUF] d(1) by simp
  have K: "(\<lambda>c. b_next (K c)) = (\<lambda>c. b_next (G c))" "(\<lambda>c. b_prev (K c)) = (\<lambda>c. b_prev (G c))(b_next (E NBUF) := b)"
    by (auto simp: K_def fun_eq_iff n)
  have "(\<lambda>c. b_next (to_front b B c)) = (\<lambda>c. b_next (K c))(NBUF := b)" "(\<lambda>c. b_prev (to_front b B c)) = (\<lambda>c. b_prev (K c))"
    by (auto simp: t fun_eq_iff)
  then have "linked (\<lambda>c. b_next (to_front b B c)) (\<lambda>c. b_prev (to_front b B c)) NBUF (b # us @ vs)"
    unfolding K G F using linked_to_front [OF l E] by simp
  then show ?thesis using assms by (auto simp: ringed_def)
qed

definition unref :: "nat \<Rightarrow> (nat \<Rightarrow> buf) \<Rightarrow> nat \<Rightarrow> buf" where
  "unref b B = (let B = B(b := (B b)\<lparr>b_refcnt := b_refcnt (B b) - 1\<rparr>)
     in if b_refcnt (B b) = 0 then to_front b B else B)"

lemma bufs_upd: "bufs (s\<lparr>bufs := B\<rparr>) = B"
  by simp

lemma upd_buf_upd: "upd_buf a f (s\<lparr>bufs := B\<rparr>) = s\<lparr>bufs := B(a := f (B a))\<rparr>"
  by (simp add: upd_buf_def)

lemma brelse_front_eq: "brelse_front b (s\<lparr>bufs := B\<rparr>) = s\<lparr>bufs := to_front b B\<rparr>"
proof -
  define C where "C = B(b_next (B b) := (B (b_next (B b)))\<lparr>b_prev := b_prev (B b)\<rparr>)"
  define E where "E = C(b_prev (C b) := (C (b_prev (C b)))\<lparr>b_next := b_next (C b)\<rparr>)"
  define F where "F = E(b := (E b)\<lparr>b_next := b_next (E NBUF)\<rparr>)"
  define G where "G = F(b := (F b)\<lparr>b_prev := NBUF\<rparr>)"
  define K where "K = G(b_next (G NBUF) := (G (b_next (G NBUF)))\<lparr>b_prev := b\<rparr>)"
  have "to_front b B = K(NBUF := (K NBUF)\<lparr>b_next := b\<rparr>)"
    unfolding to_front_def Let_def K_def G_def F_def E_def C_def by (rule refl)
  then show ?thesis
    unfolding brelse_front_def
    by (simp only: Let_def bufs_upd upd_buf_upd C_def [symmetric] E_def [symmetric] F_def [symmetric]
        G_def [symmetric] K_def [symmetric])
qed

lemma brelse_eq:
  assumes "fs_idle p s" "sl_locked (slk s (Buf_lk b))" "sl_pid (slk s (Buf_lk b)) = p_pid (procs s p)"
  shows "brelse b s = Ret () ((upd_slk (Buf_lk b) (\<lambda>k. k\<lparr>sl_locked := False, sl_pid := 0\<rparr>) s)\<lparr>bufs := unref b (bufs s)\<rparr>)"
proof -
  note I = fs_idle_D [OF assms(1)]
  let ?s = "upd_slk (Buf_lk b) (\<lambda>k. k\<lparr>sl_locked := False, sl_pid := 0\<rparr>) s"
  have "fs_idle p ?s" using assms(1) by simp
  note J = fs_idle_D [OF this]
  have "holdingsleep (Buf_lk b) s = Ret True s" using holdingsleep_eq [OF I(1,2)] assms(2,3) by simp
  moreover have "releasesleep (Buf_lk b) s = Ret () ?s" using I by (intro releasesleep_eq) simp_all
  moreover have "acquire Bcache_lock ?s = Ret () (acquired Bcache_lock ?s)" using J(6,2) by (rule acquire_quiet)
  moreover have "release Bcache_lock ((acquired Bcache_lock ?s)\<lparr>bufs := unref b (bufs (acquired Bcache_lock ?s))\<rparr>) =
      Ret () (?s\<lparr>bufs := unref b (bufs ?s)\<rparr>)"
    by (rule critical_quiet [OF J(6,2)]) simp_all
  moreover have "(let s = upd_buf b (\<lambda>q. q\<lparr>b_refcnt := b_refcnt q - 1\<rparr>) t
      in if b_refcnt (bufs s b) = 0 then brelse_front b s else s) = t\<lparr>bufs := unref b (bufs t)\<rparr>" for t :: "'a kdisk_scheme"
    by (simp add: Let_def unref_def upd_buf_def brelse_front_eq)
  ultimately show ?thesis by (simp add: brelse_def Let_def)
qed

lemma unref_data:
  "b_dev (unref b B c) = b_dev (B c)" "b_blockno (unref b B c) = b_blockno (B c)" "b_data (unref b B c) = b_data (B c)"
  "b_valid (unref b B c) = b_valid (B c)" "b_disk (unref b B c) = b_disk (B c)"
  "b_refcnt (unref b B c) = (if c = b then b_refcnt (B b) - 1 else b_refcnt (B c))"
  by (simp_all add: unref_def Let_def to_front_data)

lemma ringed_unref:
  assumes "ringed B xs" "b < NBUF"
  shows "\<exists>ys. ringed (unref b B) ys"
proof -
  let ?B = "B(b := (B b)\<lparr>b_refcnt := b_refcnt (B b) - 1\<rparr>)"
  have r: "ringed ?B xs" using assms(1) by (rule ringed_cong) simp_all
  moreover have "b \<in> set xs" using assms by (simp add: ringed_def)
  then obtain us vs where "xs = us @ b # vs" by (auto simp: in_set_conv_decomp)
  ultimately have "ringed (to_front b ?B) (b # us @ vs)" using ringed_to_front by blast
  then show ?thesis unfolding unref_def Let_def using r by (cases "b_refcnt (?B b) = 0") auto
qed

lemma brelse_ok:
  assumes "bio p H P s" "b \<in> H" "n = b_blockno (bufs s b)" "P n = 1 \<or> b_data (bufs s b) = block (sectors s) n"
  shows "\<exists>t. brelse b s = Ret () t \<and> bio p (H - {b}) P t \<and> bframe s t \<and> sectors t = sectors s \<and> wlog t = wlog s \<and>
    (\<forall>m. view t m = view s m) \<and> (\<forall>c. b_blockno (bufs t c) = b_blockno (bufs s c)) \<and>
    (\<forall>c. b_data (bufs t c) = b_data (bufs s c))"
proof -
  note D = bio_D [OF assms(1)] and h = held_D [OF assms(1,2)]
  let ?s = "upd_slk (Buf_lk b) (\<lambda>k. k\<lparr>sl_locked := False, sl_pid := 0\<rparr>) s"
  let ?t = "?s\<lparr>bufs := unref b (bufs s)\<rparr>"
  have r: "brelse b s = Ret () ?t"
    using D(3) [OF h(1)] D(4) [OF assms(2)] assms(2) by (intro brelse_eq [OF D(1)]) simp_all
  have idle: "fs_idle p ?t"
    by (rule fs_idle_cong [OF _ _ _ _ _ D(1)]) (use fs_idle_D(5) [OF D(1)] in simp_all)
  have "buf_ok (H - {b}) P (sectors s) c (unref b (bufs s) c)" if "c < NBUF" for c
  proof (cases "c = b")
    case True
    have "buf_ok H P (sectors s) b (bufs s b)" using D(2) h(1) by (rule cache_inv_D)
    then show ?thesis using True assms(2-4) by (auto simp: buf_ok_def unref_data refs_def)
  next
    case False
    have "buf_ok H P (sectors s) c (bufs s c)" using D(2) that by (rule cache_inv_D)
    then show ?thesis using False by (auto simp: buf_ok_def unref_data refs_def)
  qed
  moreover have "\<exists>xs. ringed (unref b (bufs s)) xs"
    using D(2) ringed_unref [of "bufs s" _ b] h(1) by (auto simp: cache_inv_def)
  ultimately have "cache_inv (H - {b}) P (unref b (bufs s)) (sectors s)"
    using D(2) by (auto simp: cache_inv_def caches_def unref_data)
  then have 1: "bio p (H - {b}) P ?t" using assms(1) idle by (auto simp: bio_def)
  have 2: "bframe s ?t"
  proof -
    have "bframe s ?s" by simp
    moreover have "bframe ?s ?t"
    proof -
      have "?t = ?s\<lparr>slk := slk ?s, bufs := unref b (bufs s), disk := disk ?s, vdev := vdev ?s, sectors := sectors ?s, wlog := wlog ?s\<rparr>"
        by simp
      then show ?thesis unfolding bframe_def by blast
    qed
    ultimately show ?thesis using bframe_trans by blast
  qed
  have "view ?t m = view s m" for m unfolding view_def by (rule contents_cong) (simp_all add: unref_data)
  then show ?thesis using r 1 2 by (intro exI [of _ ?t]) (simp add: unref_data)
qed

end
