(* ===== verification/Journal.thy ===== *)
theory Journal
  imports Logging Cache
begin

text \<open>
  The redo log on top of the cache: what the steps of \<^verbatim>\<open>commit()\<close> and of recovery write to the
  disk, as sequences of sector writes.
\<close>

section \<open>Sequences of sector writes\<close>

definition apply_writes :: "(uint64 \<times> byte list) list \<Rightarrow> (uint64 \<Rightarrow> byte list) \<Rightarrow> uint64 \<Rightarrow> byte list" where
  "apply_writes ws ss = fold (\<lambda>(a, x) ss. ss(a := x)) ws ss"

definition bw :: "uint32 \<Rightarrow> byte list \<Rightarrow> (uint64 \<times> byte list) list" where
  "bw n bs = [(secno n, take 512 bs), (secno n + 1, drop 512 bs)]"

definition emits :: "'a kdisk_scheme \<Rightarrow> 'a kdisk_scheme \<Rightarrow> (uint64 \<times> byte list) list \<Rightarrow> bool" where
  "emits s t ws \<longleftrightarrow> wlog t = wlog s @ ws \<and> sectors t = apply_writes ws (sectors s)"

lemma apply_writes_simps [simp]:
  "apply_writes [] ss = ss" "apply_writes (v @ w) ss = apply_writes w (apply_writes v ss)"
  "apply_writes (bw n bs) ss = put_block n bs ss"
  by (simp_all add: apply_writes_def bw_def put_block_def)

lemma emits_trans: "emits s t v \<Longrightarrow> emits t u w \<Longrightarrow> emits s u (v @ w)"
  by (simp add: emits_def)

lemma emits_refl [simp]: "emits s s []"
  by (simp add: emits_def)

lemma bframe_klog:
  fixes s t :: "'a klog_scheme"
  assumes "bframe s t"
  shows "log_start t = log_start s" "log_size t = log_size s" "log_outstanding t = log_outstanding s"
    "log_committing t = log_committing s" "log_dev t = log_dev s" "lh_n t = lh_n s" "lh_block t = lh_block s"
    "procs t = procs s"
proof -
  obtain K B d v ss w where t: "t = s\<lparr>slk := K, bufs := B, disk := d, vdev := v, sectors := ss, wlog := w\<rparr>"
    using assms unfolding bframe_def by blast
  show "log_start t = log_start s" "log_size t = log_size s" "log_outstanding t = log_outstanding s"
    "log_committing t = log_committing s" "log_dev t = log_dev s" "lh_n t = lh_n s" "lh_block t = lh_block s"
    "procs t = procs s"
    unfolding t by simp_all
qed

lemma bframe_head:
  fixes s t :: "'a klog_scheme"
  assumes "bframe s t"
  shows "bframe (s\<lparr>lh_n := x\<rparr>) (t\<lparr>lh_n := x\<rparr>)"
    "bframe (s\<lparr>lh_n := x, lh_block := y\<rparr>) (t\<lparr>lh_n := x, lh_block := y\<rparr>)"
proof -
  obtain K B d v ss w where t: "t = s\<lparr>slk := K, bufs := B, disk := d, vdev := v, sectors := ss, wlog := w\<rparr>"
    and K: "\<forall>l. (\<forall>b. l \<noteq> Buf_lk b) \<longrightarrow> K l = slk s l"
    using assms unfolding bframe_def by blast
  show "bframe (s\<lparr>lh_n := x\<rparr>) (t\<lparr>lh_n := x\<rparr>)"
    "bframe (s\<lparr>lh_n := x, lh_block := y\<rparr>) (t\<lparr>lh_n := x, lh_block := y\<rparr>)"
    unfolding bframe_def using K
    by (intro exI [of _ K] exI [of _ B] exI [of _ d] exI [of _ v] exI [of _ ss] exI [of _ w], simp add: t)+
qed

section \<open>One block at a time\<close>

text \<open>The blocks of the log: its header, the copies, and where the copies belong.\<close>

definition hblk :: "'a klog_scheme \<Rightarrow> uint32" where
  "hblk s = word_of_int (log_start s)"

definition lblk :: "'a klog_scheme \<Rightarrow> nat \<Rightarrow> uint32" where
  "lblk s i = word_of_int (log_start s + int i + 1)"

definition dblk :: "'a klog_scheme \<Rightarrow> nat \<Rightarrow> uint32" where
  "dblk s i = word_of_int (lh_block s i)"

lemma blk_bframe:
  "bframe s t \<Longrightarrow> hblk t = hblk s" "bframe s t \<Longrightarrow> lblk t = lblk s" "bframe s t \<Longrightarrow> dblk t = dblk s"
  by (simp_all add: hblk_def lblk_def dblk_def bframe_klog fun_eq_iff)

lemma ldev_root: "log_dev s = 1 \<Longrightarrow> ldev s = ROOTDEV"
  by (simp add: ROOTDEV_def)

definition npins :: "(uint32 \<Rightarrow> uint32) \<Rightarrow> nat" where
  "npins P = card {n. P n \<noteq> 0}"

abbreviation finpins :: "(uint32 \<Rightarrow> uint32) \<Rightarrow> bool" where
  "finpins P \<equiv> finite {n. P n \<noteq> 0}"

text \<open>The cache operations, in terms of what they write.\<close>

lemma bread_step:
  fixes s :: "'a kdisk_scheme"
  assumes "bio p H P s" "small n" "\<forall>b\<in>H. b_blockno (bufs s b) \<noteq> n \<and> P (b_blockno (bufs s b)) \<noteq> - 1"
    and "finpins P" "P n \<noteq> 0 \<or> card H + npins P < NBUF"
  obtains b t where "bread ROOTDEV n s = Ret b t" "b \<notin> H" "bio p (insert b H) P t" "bframe s t" "emits s t []"
    "b_blockno (bufs t b) = n" "b_data (bufs t b) = view s n" "view t = view s" "\<forall>c. c \<noteq> b \<longrightarrow> bufs t c = bufs s c"
  using bread_ex [OF assms(1-4)] assms(5) by (auto simp: npins_def emits_def fun_eq_iff)

lemma bwrite_step:
  fixes s :: "'a kdisk_scheme"
  assumes "bio p H P s" "b \<in> H" "n = b_blockno (bufs s b)"
  obtains t where "bwrite b s = Ret () t" "bio p H P t" "bframe s t" "emits s t (bw n (b_data (bufs s b)))" "bufs t = bufs s"
    "\<forall>m. small m \<longrightarrow> view t m = view s m" "block (sectors t) n = b_data (bufs s b)"
    "\<forall>m. small m \<and> m \<noteq> n \<longrightarrow> block (sectors t) m = block (sectors s) m"
proof -
  note h = held_D [OF assms(1,2), folded assms(3)]
  from bwrite_ok [OF assms(1,2)] obtain t where t: "bwrite b s = Ret () t" "bio p H P t" "bframe s t" "bufs t = bufs s"
    "emits s t (bw n (b_data (bufs s b)))"
    by (auto simp: assms(3) emits_def bw_def [symmetric])
  have ss: "sectors t = put_block n (b_data (bufs s b)) (sectors s)" using t(5) by (simp add: emits_def)
  have "view t m = view s m" if "small m" for m
    using bwrite_view [OF bio_D(2) [OF assms(1)] h(1,6,3) that] by (simp add: view_def t(4) ss)
  then show thesis using that [OF t(1-3,5,4)] block_put_block [OF h(3)] h(3) by (simp add: ss)
qed

lemma brelse_step:
  fixes s :: "'a kdisk_scheme"
  assumes "bio p (insert b H) P s" "b \<notin> H" "n = b_blockno (bufs s b)" "P n = 1 \<or> b_data (bufs s b) = block (sectors s) n"
  obtains t where "brelse b s = Ret () t" "bio p H P t" "bframe s t" "emits s t []" "view t = view s"
    "\<forall>c. b_blockno (bufs t c) = b_blockno (bufs s c)" "\<forall>c. b_data (bufs t c) = b_data (bufs s c)"
proof -
  have "insert b H - {b} = H" using assms(2) by simp
  then show thesis using brelse_ok [OF assms(1) _ assms(3,4)] that by (auto simp: emits_def fun_eq_iff)
qed

lemma write_log_at_ok:
  fixes s :: "'a klog_scheme"
  assumes "bio p {} P s" "log_dev s = 1" "finpins P" "npins P < NBUF"
    and "small (lblk s i)" "small (dblk s i)" "dblk s i \<noteq> lblk s i" "P (dblk s i) = 1" "P (lblk s i) = 0"
  shows "\<exists>t. write_log_at i s = Ret None t \<and> bio p {} P t \<and> bframe s t \<and> emits s t (bw (lblk s i) (view s (dblk s i))) \<and>
    (\<forall>m. small m \<longrightarrow> view t m = ((view s)(lblk s i := view s (dblk s i))) m)"
proof -
  let ?l = "lblk s i" and ?d = "dblk s i" and ?bs = "view s (dblk s i)"
  obtain x t1 where 1: "bread ROOTDEV ?l s = Ret x t1" "bio p {x} P t1" "bframe s t1" "emits s t1 []"
      "b_blockno (bufs t1 x) = ?l" "view t1 = view s"
    by (rule bread_step [OF assms(1,5) _ assms(3)]) (use assms(4) in auto)
  obtain y t2 where 2: "bread ROOTDEV ?d t1 = Ret y t2" "y \<noteq> x" "bio p {y, x} P t2" "bframe t1 t2" "emits t1 t2 []"
      "b_blockno (bufs t2 y) = ?d" "b_data (bufs t2 y) = ?bs" "view t2 = view s" "bufs t2 x = bufs t1 x"
    by (rule bread_step [OF 1(2) assms(6) _ assms(3)]) (use assms(7-9) 1(5,6) in auto)
  let ?t3 = "upd_buf x (\<lambda>q. q\<lparr>b_data := ?bs\<rparr>) t2"
  have len: "length ?bs = BSIZE" using held_D(4) [OF 2(3), of y] 2(7) by simp
  have 3: "bio p {y, x} P ?t3" "view ?t3 = (view s)(?l := ?bs)"
    using bio_modify [OF 2(3) _ len, of x] 1(5) 2(8,9) by simp_all
  obtain t4 where 4: "bwrite x ?t3 = Ret () t4" "bio p {y, x} P t4" "bframe ?t3 t4" "emits ?t3 t4 (bw ?l ?bs)" "bufs t4 = bufs ?t3"
    "\<forall>m. small m \<longrightarrow> view t4 m = view ?t3 m" "block (sectors t4) ?l = ?bs"
    by (rule bwrite_step [OF 3(1), of x ?l]) (use 1(5) 2(9) in auto)
  obtain t5 where 5: "brelse y t4 = Ret () t5" "bio p {x} P t5" "bframe t4 t5" "emits t4 t5 []" "view t5 = view t4"
    "\<forall>c. b_blockno (bufs t5 c) = b_blockno (bufs t4 c)" "\<forall>c. b_data (bufs t5 c) = b_data (bufs t4 c)"
    by (rule brelse_step [OF 4(2), of ?d]) (use 4(5) 2(2,6) assms(8) in auto)
  obtain t6 where 6: "brelse x t5 = Ret () t6" "bio p {} P t6" "bframe t5 t6" "emits t5 t6 []" "view t6 = view t5"
    by (rule brelse_step [OF 5(2), of ?l]) (use 5(4,6,7) 4(5,7) 1(5) 2(9) in \<open>auto simp: emits_def\<close>)
  have "bframe s t6" by (meson 1(3) 2(4) 4(3) 5(3) 6(3) bframe_trans bframe_upd(1))
  moreover have "emits s t6 (bw ?l ?bs)" using 1(4) 2(5) 4(4) 5(4) 6(4) by (simp add: emits_def)
  moreover have "\<forall>m. small m \<longrightarrow> view t6 m = ((view s)(?l := ?bs)) m"
    using 3(2) 4(6) 5(5) 6(5) by simp
  moreover have "write_log_at i s = Ret None t6"
  proof -
    have "word_of_int (lh_block t1 i) = ?d" using bframe_klog(7) [OF 1(3)] by (simp add: dblk_def)
    moreover have "word_of_int (log_start s) + word_of_nat i + 1 = ?l" by (simp add: lblk_def)
    moreover have "ldev t1 = ROOTDEV" using bframe_klog(5) [OF 1(3)] ldev_root [of t1] assms(2) by simp
    ultimately show ?thesis
      using 1(1) 2(1,7) 4(1) 5(1) 6(1) ldev_root [OF assms(2)] by (simp add: write_log_at_def Let_def)
  qed
  ultimately show ?thesis using 6(2) by blast
qed

text \<open>
  The same for \<^verbatim>\<open>install_trans\<close>; \<^verbatim>\<open>bunpin\<close> takes back a pin that may never have been given.
\<close>

lemma install_trans_at_ok:
  fixes s :: "'a klog_scheme"
  assumes "bio p {} P s" "log_dev s = 1" "finpins P" "npins P < NBUF" "P (dblk s i) \<noteq> 0 \<or> Suc (npins P) < NBUF"
    and "small (lblk s i)" "small (dblk s i)" "dblk s i \<noteq> lblk s i" "P (lblk s i) = 0"
  shows "\<exists>t. install_trans_at i s = Ret None t \<and> bio p {} (P(dblk s i := P (dblk s i) - 1)) t \<and> bframe s t \<and>
    emits s t (bw (dblk s i) (view s (lblk s i))) \<and>
    (\<forall>m. small m \<longrightarrow> view t m = ((view s)(dblk s i := view s (lblk s i))) m)"
proof -
  let ?l = "lblk s i" and ?d = "dblk s i" and ?bs = "view s (lblk s i)" and ?P = "P(dblk s i := P (dblk s i) - 1)"
  obtain x t1 where 1: "bread ROOTDEV ?l s = Ret x t1" "bio p {x} P t1" "bframe s t1" "emits s t1 []"
      "b_blockno (bufs t1 x) = ?l" "b_data (bufs t1 x) = ?bs" "view t1 = view s"
    by (rule bread_step [OF assms(1,6) _ assms(3)]) (use assms(4) in auto)
  have clean: "?bs = block (sectors s) ?l"
    using contents_clean [OF bio_D(2) [OF assms(1)], of ?l] assms(9) by (simp add: view_def)
  obtain y t2 where 2: "bread ROOTDEV ?d t1 = Ret y t2" "y \<noteq> x" "bio p {y, x} P t2" "bframe t1 t2" "emits t1 t2 []"
      "b_blockno (bufs t2 y) = ?d" "view t2 = view s" "bufs t2 x = bufs t1 x"
    by (rule bread_step [OF 1(2) assms(7) _ assms(3)]) (use assms(5,8,9) 1(5,7) in auto)
  let ?t3 = "upd_buf y (\<lambda>q. q\<lparr>b_data := ?bs\<rparr>) t2"
  have len: "length ?bs = BSIZE" using held_D(4) [OF 2(3), of x] 1(6) 2(8) by simp
  have 3: "bio p {y, x} P ?t3" "view ?t3 = (view s)(?d := ?bs)"
    using bio_modify [OF 2(3) _ len, of y] 2(6,7) by simp_all
  obtain t4 where 4: "bwrite y ?t3 = Ret () t4" "bio p {y, x} P t4" "bframe ?t3 t4" "emits ?t3 t4 (bw ?d ?bs)" "bufs t4 = bufs ?t3"
    "\<forall>m. small m \<longrightarrow> view t4 m = view ?t3 m" "block (sectors t4) ?d = ?bs"
    "\<forall>m. small m \<and> m \<noteq> ?d \<longrightarrow> block (sectors t4) m = block (sectors ?t3) m"
    by (rule bwrite_step [OF 3(1), of y ?d]) (use 2(6) in auto)
  have b4: "b_blockno (bufs t4 y) = ?d" "b_data (bufs t4 y) = ?bs" "b_blockno (bufs t4 x) = ?l" "b_data (bufs t4 x) = ?bs"
    using 4(5) 1(5,6) 2(2,6,8) by simp_all
  obtain t5 where 5: "bunpin y t4 = Ret () t5" "bio p {y, x} ?P t5" "bframe t4 t5" "emits t4 t5 []" "view t5 = view t4"
    "\<forall>c. b_blockno (bufs t5 c) = b_blockno (bufs t4 c)" "\<forall>c. b_data (bufs t5 c) = b_data (bufs t4 c)"
    using bunpin_ok [OF 4(2) _ b4(1) [symmetric]] by (auto simp: emits_def fun_eq_iff)
  have ss: "sectors t5 = sectors t4" "sectors ?t3 = sectors s" using 1(4) 2(5) 5(4) by (simp_all add: emits_def)
  obtain t6 where 6: "brelse x t5 = Ret () t6" "bio p {y} ?P t6" "bframe t5 t6" "emits t5 t6 []" "view t6 = view t5"
    "\<forall>c. b_blockno (bufs t6 c) = b_blockno (bufs t5 c)" "\<forall>c. b_data (bufs t6 c) = b_data (bufs t5 c)"
  proof (rule brelse_step [of p x "{y}" ?P t5 ?l])
    show "bio p {x, y} ?P t5" using 5(2) by (simp add: insert_commute)
    have "block (sectors t5) ?l = block (sectors s) ?l"
      using 4(8) ss assms(6,8) by metis
    then show "?P ?l = 1 \<or> b_data (bufs t5 x) = block (sectors t5) ?l" using 5(7) b4(4) clean by simp
  qed (use 2(2) 5(6) b4(3) in auto)
  obtain t7 where 7: "brelse y t6 = Ret () t7" "bio p {} ?P t7" "bframe t6 t7" "emits t6 t7 []" "view t7 = view t6"
    by (rule brelse_step [OF 6(2), of ?d]) (use 6(4,6,7) 5(6,7) b4 4(7) ss in \<open>auto simp: emits_def\<close>)
  have "bframe s t7" by (meson 1(3) 2(4) 4(3) 5(3) 6(3) 7(3) bframe_trans bframe_upd(1))
  moreover have "emits s t7 (bw ?d ?bs)" using 1(4) 2(5) 4(4) 5(4) 6(4) 7(4) by (simp add: emits_def)
  moreover have "\<forall>m. small m \<longrightarrow> view t7 m = ((view s)(?d := ?bs)) m"
    using 3(2) 4(6) 5(5) 6(5) 7(5) by simp
  moreover have "install_trans_at i s = Ret None t7"
  proof -
    have "word_of_int (lh_block t1 i) = ?d" using bframe_klog(7) [OF 1(3)] by (simp add: dblk_def)
    moreover have "word_of_int (log_start s) + word_of_nat i + 1 = ?l" by (simp add: lblk_def)
    moreover have "ldev t1 = ROOTDEV" using bframe_klog(5) [OF 1(3)] ldev_root [of t1] assms(2) by simp
    moreover have "b_data (bufs t2 x) = ?bs" using 1(6) 2(8) by simp
    ultimately show ?thesis
      using 1(1) 2(1) 4(1) 5(1) 6(1) 7(1) ldev_root [OF assms(2)] by (simp add: install_trans_at_def Let_def)
  qed
  ultimately show ?thesis using 7(2) by blast
qed

section \<open>The loops\<close>

definition in_log :: "'a klog_scheme \<Rightarrow> uint32 \<Rightarrow> bool" where
  "in_log s m \<longleftrightarrow> (\<exists>j<LOGSIZE. m = word_of_int (log_start s + int j))"

definition log_wf :: "'a klog_scheme \<Rightarrow> bool" where
  "log_wf s \<longleftrightarrow> log_dev s = 1 \<and> 0 \<le> log_start s \<and> log_start s + int LOGSIZE < 2 ^ 31 \<and>
     0 \<le> lh_n s \<and> lh_n s < int LOGSIZE \<and>
     (\<forall>i<nat (lh_n s). small (dblk s i) \<and> \<not> in_log s (dblk s i)) \<and> inj_on (dblk s) {..<nat (lh_n s)}"

lemma word_of_int_small_inj:
  assumes "0 \<le> a" "a < 2 ^ 31" "0 \<le> b" "b < 2 ^ 31"
  shows "(word_of_int a :: uint32) = word_of_int b \<longleftrightarrow> a = b"
proof
  assume "(word_of_int a :: uint32) = word_of_int b"
  then have "uint (word_of_int a :: uint32) = uint (word_of_int b :: uint32)" by simp
  then show "a = b" using assms by (simp add: uint_word_of_int_eq take_bit_int_eq_self)
qed simp

lemma small_word_of_int: "0 \<le> a \<Longrightarrow> a < 2 ^ 31 \<Longrightarrow> small (word_of_int a)"
  unfolding small_def word_less_def by (simp add: uint_word_of_int_eq take_bit_int_eq_self)

lemma log_wf_D:
  assumes "log_wf s"
  shows "log_dev s = 1" "small (hblk s)" "in_log s (hblk s)" "nat (lh_n s) < LOGSIZE" "0 \<le> lh_n s"
    "Suc i < LOGSIZE \<Longrightarrow> small (lblk s i)" "Suc i < LOGSIZE \<Longrightarrow> in_log s (lblk s i)" "Suc i < LOGSIZE \<Longrightarrow> lblk s i \<noteq> hblk s"
    "Suc i < LOGSIZE \<Longrightarrow> Suc j < LOGSIZE \<Longrightarrow> lblk s i = lblk s j \<longleftrightarrow> i = j"
    "i < nat (lh_n s) \<Longrightarrow> small (dblk s i)" "i < nat (lh_n s) \<Longrightarrow> \<not> in_log s (dblk s i)"
    "i < nat (lh_n s) \<Longrightarrow> j < nat (lh_n s) \<Longrightarrow> dblk s i = dblk s j \<longleftrightarrow> i = j"
    "i < nat (lh_n s) \<Longrightarrow> Suc i < LOGSIZE"
proof -
  note a = assms [unfolded log_wf_def]
  show "log_dev s = 1" "nat (lh_n s) < LOGSIZE" "0 \<le> lh_n s" using a by auto
  show "Suc i < LOGSIZE" if "i < nat (lh_n s)" using a that by linarith
  show "small (hblk s)" unfolding hblk_def using a by (intro small_word_of_int) auto
  show "in_log s (hblk s)" unfolding in_log_def hblk_def by (rule exI [of _ 0]) (simp add: LOGSIZE_def MAXOPBLOCKS_def)
  show "small (lblk s i)" if "Suc i < LOGSIZE" unfolding lblk_def using a that by (intro small_word_of_int) auto
  show "in_log s (lblk s i)" if "Suc i < LOGSIZE" unfolding in_log_def lblk_def
    using that by (intro exI [of _ "Suc i"]) (simp add: algebra_simps)
  show "lblk s i \<noteq> hblk s" if "Suc i < LOGSIZE" unfolding lblk_def hblk_def
    using a that by (subst word_of_int_small_inj) auto
  show "lblk s i = lblk s j \<longleftrightarrow> i = j" if "Suc i < LOGSIZE" "Suc j < LOGSIZE" unfolding lblk_def
    using a that by (subst word_of_int_small_inj) auto
  show "small (dblk s i)" "\<not> in_log s (dblk s i)" if "i < nat (lh_n s)" using a that by auto
  show "dblk s i = dblk s j \<longleftrightarrow> i = j" if "i < nat (lh_n s)" "j < nat (lh_n s)"
    using a that by (auto simp: inj_on_def)
qed

lemma log_wf_bframe: "bframe s t \<Longrightarrow> log_wf t = log_wf s" "bframe s t \<Longrightarrow> in_log t = in_log s"
  by (simp_all add: log_wf_def in_log_def bframe_klog blk_bframe fun_eq_iff)

definition pins :: "'a klog_scheme \<Rightarrow> uint32 \<Rightarrow> uint32" where
  "pins s m = (if m \<in> dblk s ` {..<nat (lh_n s)} then 1 else 0)"

lemma pins_card:
  assumes "log_wf s"
  shows "finpins (pins s)" "npins (pins s) = nat (lh_n s)"
proof -
  have "{m. pins s m \<noteq> 0} = dblk s ` {..<nat (lh_n s)}" by (auto simp: pins_def)
  moreover have "inj_on (dblk s) {..<nat (lh_n s)}" using assms by (simp add: log_wf_def)
  ultimately show "finpins (pins s)" "npins (pins s) = nat (lh_n s)" by (simp_all add: npins_def card_image)
qed

lemma LOGSIZE_NBUF: "LOGSIZE = NBUF"
  by (simp add: LOGSIZE_def NBUF_def)

lemma write_log_loop:
  fixes s :: "'a klog_scheme"
  assumes "bio p {} (pins s) s" "log_wf s" "k \<le> nat (lh_n s)"
  shows "\<exists>t. foreach [0..<k] write_log_at s = Ret None t \<and> bio p {} (pins s) t \<and> bframe s t \<and>
    emits s t (concat (map (\<lambda>i. bw (lblk s i) (view s (dblk s i))) [0..<k])) \<and>
    (\<forall>i<k. view t (lblk s i) = view s (dblk s i)) \<and>
    (\<forall>m. small m \<and> (\<forall>i<k. m \<noteq> lblk s i) \<longrightarrow> view t m = view s m)"
  using assms(3)
proof (induction k)
  case 0
  then show ?case using assms(1) by simp
next
  case (Suc k)
  note W = log_wf_D [OF assms(2)]
  from Suc obtain t where t: "foreach [0..<k] write_log_at s = Ret None t" "bio p {} (pins s) t" "bframe s t"
    "emits s t (concat (map (\<lambda>i. bw (lblk s i) (view s (dblk s i))) [0..<k]))"
    "\<forall>i<k. view t (lblk s i) = view s (dblk s i)" "\<forall>m. small m \<and> (\<forall>i<k. m \<noteq> lblk s i) \<longrightarrow> view t m = view s m"
    by auto
  have k: "k < nat (lh_n s)" "Suc k < LOGSIZE" using Suc.prems W(4) by auto
  have eq: "lblk t = lblk s" "dblk t = dblk s" using blk_bframe [OF t(3)] by auto
  have nl: "dblk s k \<noteq> lblk s i" if "Suc i < LOGSIZE" for i using W(7) [OF that] W(11) [OF k(1)] by auto
  have pl: "pins s (lblk s k) = 0" using W(7) [OF k(2)] W(11) by (auto simp: pins_def)
  have pd: "pins s (dblk s k) = 1" using k(1) by (auto simp: pins_def)
  obtain u where u: "write_log_at k t = Ret None u" "bio p {} (pins s) u" "bframe t u"
    "emits t u (bw (lblk s k) (view t (dblk s k)))"
    "\<forall>m. small m \<longrightarrow> view u m = ((view t)(lblk s k := view t (dblk s k))) m"
    using write_log_at_ok [OF t(2), of k] pins_card [OF assms(2)] W(1) W(4) W(6) [OF k(2)] W(10) [OF k(1)] nl [OF k(2)] pl pd
      bframe_klog(5) [OF t(3)] LOGSIZE_NBUF by (auto simp: eq)
  have d: "view t (dblk s k) = view s (dblk s k)" using t(6) W(10) [OF k(1)] nl k(2) by auto
  have "foreach [0..<Suc k] write_log_at s = Ret None u" using t(1) u(1) by (simp add: foreach_append)
  moreover have "emits s u (concat (map (\<lambda>i. bw (lblk s i) (view s (dblk s i))) [0..<Suc k]))"
    using emits_trans [OF t(4) u(4)] d by simp
  moreover have "\<forall>i<Suc k. view u (lblk s i) = view s (dblk s i)"
    using u(5) t(5) d W(6) W(9) k(2) by (auto simp: less_Suc_eq)
  moreover have "\<forall>m. small m \<and> (\<forall>i<Suc k. m \<noteq> lblk s i) \<longrightarrow> view u m = view s m"
    using u(5) t(6) by auto
  ultimately show ?case using u(2) bframe_trans [OF t(3) u(3)] by blast
qed

text \<open>The pins after the first \<open>k\<close> blocks have been installed.\<close>

definition unpinned :: "'a klog_scheme \<Rightarrow> nat \<Rightarrow> (uint32 \<Rightarrow> uint32) \<Rightarrow> uint32 \<Rightarrow> uint32" where
  "unpinned s k P m = (if m \<in> dblk s ` {..<k} then P m - 1 else P m)"

lemma unpinned_Suc:
  assumes "log_wf s" "k < nat (lh_n s)"
  shows "unpinned s (Suc k) P = (unpinned s k P)(dblk s k := unpinned s k P (dblk s k) - 1)"
    "unpinned s k P (dblk s k) = P (dblk s k)"
proof -
  have "dblk s k \<notin> dblk s ` {..<k}" using log_wf_D(12) [OF assms] assms(2)
    by (metis imageE lessThan_iff less_irrefl order.strict_trans)
  then show "unpinned s (Suc k) P = (unpinned s k P)(dblk s k := unpinned s k P (dblk s k) - 1)"
    "unpinned s k P (dblk s k) = P (dblk s k)"
    by (auto simp: unpinned_def fun_eq_iff lessThan_Suc)
qed

lemma unpinned_0 [simp]: "unpinned s 0 P = P"
  by (simp add: unpinned_def fun_eq_iff)

lemma install_loop:
  fixes s :: "'a klog_scheme"
  assumes "bio p {} P s" "log_wf s" "k \<le> nat (lh_n s)"
    and pins: "\<And>i. i < nat (lh_n s) \<Longrightarrow> finpins (unpinned s i P) \<and> npins (unpinned s i P) < NBUF \<and>
      (P (dblk s i) \<noteq> 0 \<or> Suc (npins (unpinned s i P)) < NBUF)" and "\<And>m. in_log s m \<Longrightarrow> P m = 0"
  shows "\<exists>t. foreach [0..<k] install_trans_at s = Ret None t \<and> bio p {} (unpinned s k P) t \<and> bframe s t \<and>
    emits s t (concat (map (\<lambda>i. bw (dblk s i) (view s (lblk s i))) [0..<k])) \<and>
    (\<forall>i<k. view t (dblk s i) = view s (lblk s i)) \<and>
    (\<forall>m. small m \<and> (\<forall>i<k. m \<noteq> dblk s i) \<longrightarrow> view t m = view s m)"
  using assms(3)
proof (induction k)
  case 0
  then show ?case using assms(1) by simp
next
  case (Suc k)
  note W = log_wf_D [OF assms(2)]
  from Suc obtain t where t: "foreach [0..<k] install_trans_at s = Ret None t" "bio p {} (unpinned s k P) t" "bframe s t"
    "emits s t (concat (map (\<lambda>i. bw (dblk s i) (view s (lblk s i))) [0..<k]))"
    "\<forall>i<k. view t (dblk s i) = view s (lblk s i)" "\<forall>m. small m \<and> (\<forall>i<k. m \<noteq> dblk s i) \<longrightarrow> view t m = view s m"
    by auto
  have k: "k < nat (lh_n s)" "Suc k < LOGSIZE" using Suc.prems W(4) by auto
  have eq: "lblk t = lblk s" "dblk t = dblk s" using blk_bframe [OF t(3)] by auto
  have nl: "lblk s k \<noteq> dblk s i" if "i < nat (lh_n s)" for i using W(7) [OF k(2)] W(11) [OF that] by auto
  have "lblk s k \<notin> dblk s ` {..<k}" using nl k(1) by (metis imageE lessThan_iff order.strict_trans)
  then have pl: "unpinned s k P (lblk s k) = 0" using assms(5) [OF W(7) [OF k(2)]] by (simp add: unpinned_def)
  note u1 = unpinned_Suc [OF assms(2) k(1), of P]
  obtain u where u: "install_trans_at k t = Ret None u" "bio p {} (unpinned s (Suc k) P) u" "bframe t u"
    "emits t u (bw (dblk s k) (view t (lblk s k)))"
    "\<forall>m. small m \<longrightarrow> view u m = ((view t)(dblk s k := view t (lblk s k))) m"
    using install_trans_at_ok [OF t(2), of k] pins [OF k(1)] W(1) W(6) [OF k(2)] W(10) [OF k(1)] nl [OF k(1)] pl
      bframe_klog(5) [OF t(3)] u1 by (auto simp: eq)
  have d: "view t (lblk s k) = view s (lblk s k)" using t(6) W(6) [OF k(2)] nl k(1) by auto
  have "foreach [0..<Suc k] install_trans_at s = Ret None u" using t(1) u(1) by (simp add: foreach_append)
  moreover have "emits s u (concat (map (\<lambda>i. bw (dblk s i) (view s (lblk s i))) [0..<Suc k]))"
    using emits_trans [OF t(4) u(4)] d by simp
  moreover have "\<forall>i<Suc k. view u (dblk s i) = view s (lblk s i)"
    using u(5) t(5) d W(10) W(12) k(1) by (auto simp: less_Suc_eq)
  moreover have "\<forall>m. small m \<and> (\<forall>i<Suc k. m \<noteq> dblk s i) \<longrightarrow> view u m = view s m"
    using u(5) t(6) by auto
  ultimately show ?case using u(2) bframe_trans [OF t(3) u(3)] by blast
qed

section \<open>The header\<close>

definition head_bytes :: "nat \<Rightarrow> (nat \<Rightarrow> int) \<Rightarrow> byte list \<Rightarrow> byte list" where
  "head_bytes n f bs = fold (\<lambda>i. put32 (4 + 4 * i) (word_of_int (f i))) [0..<n] (put32 0 (of_nat n) bs)"

lemma write_head_ok:
  fixes s :: "'a klog_scheme"
  assumes "bio p {} P s" "log_dev s = 1" "finpins P" "npins P < NBUF" "small (hblk s)" "0 \<le> lh_n s" "lh_n s < int LOGSIZE"
  shows "\<exists>t. write_head s = Ret () t \<and> bio p {} P t \<and> bframe s t \<and>
    emits s t (bw (hblk s) (head_bytes (nat (lh_n s)) (lh_block s) (view s (hblk s)))) \<and>
    (\<forall>m. small m \<longrightarrow> view t m = ((view s)(hblk s := head_bytes (nat (lh_n s)) (lh_block s) (view s (hblk s)))) m)"
proof -
  let ?h = "hblk s" and ?bs = "head_bytes (nat (lh_n s)) (lh_block s) (view s (hblk s))"
  obtain b t1 where 1: "bread ROOTDEV ?h s = Ret b t1" "bio p {b} P t1" "bframe s t1" "emits s t1 []"
      "b_blockno (bufs t1 b) = ?h" "b_data (bufs t1 b) = view s ?h" "view t1 = view s"
    by (rule bread_step [OF assms(1,5) _ assms(3)]) (use assms(4) in auto)
  have len: "length (view s ?h) = BSIZE" using held_D(4) [OF 1(2), of b] 1(6) by simp
  have "length (fold (\<lambda>i. put32 (4 + 4 * i) (word_of_int (f i))) [0..<n] bs) = length bs" if "n < LOGSIZE" "length bs = BSIZE" for n f bs
    using that by (induction n) (auto simp: BSIZE_def LOGSIZE_def MAXOPBLOCKS_def)
  moreover have "nat (lh_n s) < LOGSIZE" using assms(7) by (simp add: nat_less_iff LOGSIZE_def MAXOPBLOCKS_def)
  ultimately have len2: "length ?bs = BSIZE" using len by (simp add: head_bytes_def BSIZE_def)
  let ?t2 = "upd_buf b (\<lambda>q. q\<lparr>b_data := ?bs\<rparr>) t1"
  have 2: "bio p {b} P ?t2" "view ?t2 = (view s)(?h := ?bs)"
    using bio_modify [OF 1(2) _ len2, of b] 1(5,7) by simp_all
  obtain t3 where 3: "bwrite b ?t2 = Ret () t3" "bio p {b} P t3" "bframe ?t2 t3" "emits ?t2 t3 (bw ?h ?bs)" "bufs t3 = bufs ?t2"
    "\<forall>m. small m \<longrightarrow> view t3 m = view ?t2 m" "block (sectors t3) ?h = ?bs"
    by (rule bwrite_step [OF 2(1), of b ?h]) (use 1(5) in auto)
  obtain t4 where 4: "brelse b t3 = Ret () t4" "bio p {} P t4" "bframe t3 t4" "emits t3 t4 []" "view t4 = view t3"
    by (rule brelse_step [OF 3(2), of ?h]) (use 3(5,7) 1(5) in auto)
  have "bframe s t4" by (meson 1(3) 3(3) 4(3) bframe_trans bframe_upd(1))
  moreover have "emits s t4 (bw ?h ?bs)" using 1(4) 3(4) 4(4) by (simp add: emits_def)
  moreover have "\<forall>m. small m \<longrightarrow> view t4 m = ((view s)(?h := ?bs)) m" using 2(2) 3(6) 4(5) by simp
  moreover have "write_head s = Ret () t4"
  proof -
    have "word_of_int (lh_n s) = (of_nat (nat (lh_n s)) :: uint32)" using assms(6) by simp
    then have "upd_buf b (\<lambda>q. q\<lparr>b_data := fold (\<lambda>i. put32 (4 + 4 * i) (word_of_int (lh_block t1 i))) [0..<nat (lh_n t1)] (b_data q)\<rparr>)
       (upd_buf b (\<lambda>q. q\<lparr>b_data := put32 0 (word_of_int (lh_n t1)) (b_data q)\<rparr>) t1) = ?t2"
      using 1(6) bframe_klog(6,7) [OF 1(3)] by (simp add: upd_buf_def head_bytes_def)
    moreover have "lh_n (upd_buf b f t1) = lh_n t1" "lh_block (upd_buf b f t1) = lh_block t1" for f by (simp_all add: upd_buf_def)
    ultimately show ?thesis
      using 1(1) 3(1) 4(1) ldev_root [OF assms(2)] by (simp add: write_head_def Let_def flip: hblk_def)
  qed
  ultimately show ?thesis using 4(2) by blast
qed

lemma bio_cong:
  fixes s t :: "'a kdisk_scheme"
  assumes "hart t = hart s" "csrs t = csrs s" "cpus t = cpus s" "lk t = lk s" "procs t = procs s"
    and "disk t = disk s" "vdev t = vdev s" "bufs t = bufs s" "sectors t = sectors s" "slk t = slk s"
  shows "bio p H P t = bio p H P s"
proof -
  have "fs_idle p t = fs_idle p s"
    using fs_idle_cong [OF assms(1-5)] fs_idle_cong [OF assms(1-5) [symmetric]] assms(6,7) fs_idle_D(5) by metis
  then show ?thesis using assms by (simp add: bio_def)
qed

lemma bio_log [simp]:
  "bio p H P (s\<lparr>lh_n := x\<rparr>) = bio p H P s" "bio p H P (s\<lparr>lh_n := x, lh_block := y\<rparr>) = bio p H P s"
  "bio p H P (s\<lparr>log_outstanding := z\<rparr>) = bio p H P s" "bio p H P (s\<lparr>log_committing := c\<rparr>) = bio p H P s"
  by (rule bio_cong; simp)+

lemma view_log [simp]: "view (s\<lparr>lh_n := x\<rparr>) = view s" "view (s\<lparr>lh_n := x, lh_block := y\<rparr>) = view s"
  "hblk (s\<lparr>lh_n := x\<rparr>) = hblk s" "hblk (s\<lparr>lh_n := x, lh_block := y\<rparr>) = hblk s"
  "lblk (s\<lparr>lh_n := x\<rparr>) = lblk s" "lblk (s\<lparr>lh_n := x, lh_block := y\<rparr>) = lblk s"
  "in_log (s\<lparr>lh_n := x\<rparr>) = in_log s" "in_log (s\<lparr>lh_n := x, lh_block := y\<rparr>) = in_log s"
  "emits (s\<lparr>lh_n := x\<rparr>) = emits s" "emits (s\<lparr>lh_n := x, lh_block := y\<rparr>) = emits s"
  by (simp_all add: view_def hblk_def lblk_def in_log_def emits_def fun_eq_iff)

definition log_writes :: "'a klog_scheme \<Rightarrow> (uint64 \<times> byte list) list" where
  "log_writes s = concat (map (\<lambda>i. bw (lblk s i) (view s (dblk s i))) [0..<nat (lh_n s)])"

definition install_writes :: "'a klog_scheme \<Rightarrow> (uint64 \<times> byte list) list" where
  "install_writes s = concat (map (\<lambda>i. bw (dblk s i) (view s (dblk s i))) [0..<nat (lh_n s)])"

definition new_head :: "'a klog_scheme \<Rightarrow> byte list" where
  "new_head s = head_bytes (nat (lh_n s)) (lh_block s) (view s (hblk s))"

definition commit_writes :: "'a klog_scheme \<Rightarrow> (uint64 \<times> byte list) list" where
  "commit_writes s = log_writes s @ bw (hblk s) (new_head s) @ install_writes s @ bw (hblk s) (put32 0 0 (new_head s))"

lemma pins_unpinned:
  assumes "log_wf s" "i \<le> nat (lh_n s)"
  shows "finpins (unpinned s i (pins s))" "npins (unpinned s i (pins s)) < NBUF" "unpinned s (nat (lh_n s)) (pins s) = (\<lambda>_. 0)"
proof -
  have sub: "{m. unpinned s i (pins s) m \<noteq> 0} \<subseteq> {m. pins s m \<noteq> 0}" using assms(2) by (auto simp: unpinned_def pins_def)
  then show "finpins (unpinned s i (pins s))" using pins_card(1) [OF assms(1)] by (rule finite_subset)
  show "npins (unpinned s i (pins s)) < NBUF"
    using card_mono [OF pins_card(1) [OF assms(1)] sub] pins_card(2) [OF assms(1)] log_wf_D(4) [OF assms(1)] LOGSIZE_NBUF
    by (simp add: npins_def)
  show "unpinned s (nat (lh_n s)) (pins s) = (\<lambda>_. 0)" by (auto simp: unpinned_def pins_def fun_eq_iff)
qed

lemma npins_none [simp]: "npins (\<lambda>_. 0) = 0"
  by (simp add: npins_def)

lemma commit_ok:
  fixes s :: "'a klog_scheme"
  assumes "bio p {} (pins s) s" "log_wf s" "0 < lh_n s"
  shows "\<exists>t. commit s = Ret () t \<and> bio p {} (\<lambda>_. 0) t \<and> bframe (s\<lparr>lh_n := 0\<rparr>) t \<and> emits s t (commit_writes s) \<and>
    (\<forall>m. small m \<and> \<not> in_log s m \<longrightarrow> view t m = view s m)"
proof -
  note W = log_wf_D [OF assms(2)]
  let ?n = "nat (lh_n s)" and ?h = "hblk s"
  obtain t where t: "foreach [0..<?n] write_log_at s = Ret None t" "bio p {} (pins s) t" "bframe s t" "emits s t (log_writes s)"
    "\<forall>i<?n. view t (lblk s i) = view s (dblk s i)" "\<forall>m. small m \<and> (\<forall>i<?n. m \<noteq> lblk s i) \<longrightarrow> view t m = view s m"
    using write_log_loop [OF assms(1,2) order_refl] unfolding log_writes_def by blast
  have n: "lh_n t = lh_n s" "lh_block t = lh_block s" "log_dev t = 1" "hblk t = ?h" "lh_n s < int LOGSIZE"
    using bframe_klog [OF t(3)] blk_bframe [OF t(3)] W(1) assms(2) by (auto simp: log_wf_def)
  have lb: "lblk s i \<noteq> ?h" "small (lblk s i)" "in_log s (lblk s i)" if "i < ?n" for i using W(6-8) [OF W(13) [OF that]] by simp_all
  have vh: "view t ?h = view s ?h" using t(6) W(2) lb(1) by metis
  obtain u where u: "write_head t = Ret () u" "bio p {} (pins s) u" "bframe t u" "emits t u (bw ?h (new_head s))"
    "\<forall>m. small m \<longrightarrow> view u m = ((view t)(?h := new_head s)) m"
    using write_head_ok [OF t(2) n(3) pins_card(1) [OF assms(2)]] pins_card(2) [OF assms(2)] W(2,4,5) LOGSIZE_NBUF n vh
    by (auto simp: new_head_def)
  have su: "bframe s u" using t(3) u(3) by (rule bframe_trans)
  have eq: "dblk u = dblk s" "lblk u = lblk s" "lh_n u = lh_n s" "lh_block u = lh_block s" "log_dev u = 1" "hblk u = ?h" "log_wf u" "in_log u = in_log s"
    using blk_bframe [OF su] bframe_klog [OF su] log_wf_bframe [OF su] W(1) assms(2) by auto
  then have un: "unpinned u = unpinned s" "pins u = pins s" by (simp_all add: unpinned_def pins_def fun_eq_iff)
  have vl: "view u (lblk s i) = view s (dblk s i)" if "i < ?n" for i using u(5) t(5) lb(1,2) that by simp
  have vd: "view u m = view s m" if "small m" "\<not> in_log s m" for m
    using u(5) t(6) that W(3) lb(3) by (metis fun_upd_other)
  have pd: "pins s (dblk s i) = 1" if "i < ?n" for i using that by (auto simp: pins_def)
  have pl: "pins s m = 0" if "in_log s m" for m using that W(11) by (auto simp: pins_def)
  obtain v where v: "foreach [0..<?n] install_trans_at u = Ret None v" "bio p {} (\<lambda>_. 0) v" "bframe u v"
    "emits u v (concat (map (\<lambda>i. bw (dblk s i) (view u (lblk s i))) [0..<?n]))"
    "\<forall>i<?n. view v (dblk s i) = view u (lblk s i)" "\<forall>m. small m \<and> (\<forall>i<?n. m \<noteq> dblk s i) \<longrightarrow> view v m = view u m"
    using install_loop [OF u(2) eq(7), of ?n] pins_unpinned(1,2) [OF assms(2)] pd pl
    unfolding eq un pins_unpinned(3) [OF assms(2) order_refl] by auto
  have "map (\<lambda>i. bw (dblk s i) (view u (lblk s i))) [0..<?n] = map (\<lambda>i. bw (dblk s i) (view s (dblk s i))) [0..<?n]"
    using vl by auto
  then have v4: "emits u v (install_writes s)" using v(4) unfolding install_writes_def by metis
  have vh2: "view v ?h = new_head s" using v(6) u(5) W(2,3,11) by auto
  let ?v = "v\<lparr>lh_n := 0\<rparr>"
  have dv: "log_dev ?v = 1" "hblk ?v = ?h" using bframe_klog(5) [OF v(3)] blk_bframe(1) [OF v(3)] eq by (auto simp: hblk_def)
  obtain w where w: "write_head ?v = Ret () w" "bio p {} (\<lambda>_. 0) w" "bframe ?v w" "emits ?v w (bw ?h (put32 0 0 (new_head s)))"
    "\<forall>m. small m \<longrightarrow> view w m = ((view ?v)(?h := put32 0 0 (new_head s))) m"
    using write_head_ok [of p "\<lambda>_. 0" ?v] v(2) dv W(2) vh2
    by (auto simp: head_bytes_def LOGSIZE_def NBUF_def MAXOPBLOCKS_def)
  have "emits s w (commit_writes s)"
    using t(4) u(4) v4 w(4) unfolding commit_writes_def emits_def by simp
  moreover have "view w m = view s m" if "small m" "\<not> in_log s m" for m
  proof -
    have "view v m = view s m"
    proof (cases "\<exists>i<?n. m = dblk s i")
      case True
      then show ?thesis using v(5) vl by auto
    next
      case False
      then show ?thesis using v(6) vd that by auto
    qed
    moreover have "m \<noteq> ?h" using that W(3) by auto
    ultimately show ?thesis using w(5) that by auto
  qed
  moreover have "bframe (s\<lparr>lh_n := 0\<rparr>) w"
  proof -
    have "bframe s v" using su v(3) by (rule bframe_trans)
    then have "bframe (s\<lparr>lh_n := 0\<rparr>) ?v" by (rule bframe_head(1))
    then show ?thesis using w(3) by (rule bframe_trans)
  qed
  moreover have "commit s = Ret () w"
    using assms(3) t(1) u(1) v(1) w(1) n(1) eq(3) by (simp add: commit_def write_log_def install_trans_def)
  ultimately show ?thesis using w(2) by blast
qed

end
