(* ===== verification/Cache_Props.thy ===== *)
theory Cache_Props
  imports Cache
begin

text \<open>
  The buffer cache as an array of blocks: a client that reads and writes whole blocks through it
  sees the disk, and the disk holds what it wrote.
\<close>

section \<open>Block stores\<close>

text \<open>
  A store with a read and a write operation, its invariant and its contents.  \<open>run\<close> executes
  requests and collects what the reads return; \<open>results\<close> and \<open>final\<close> are the same on an array.
\<close>

datatype ('n, 'b) request = Rd 'n | Wr 'n 'b

primrec run :: "('n \<Rightarrow> 's \<Rightarrow> ('b, 's) outcome) \<Rightarrow> ('n \<Rightarrow> 'b \<Rightarrow> 's \<Rightarrow> (unit, 's) outcome) \<Rightarrow> ('n, 'b) request list \<Rightarrow>
    's \<Rightarrow> ('b list, 's) outcome" where
  "run rd wr [] s = Ret [] s"
| "run rd wr (r # rs) s =
     (case r of
        Rd n \<Rightarrow> bnd (rd n s) (\<lambda>b s. bnd (run rd wr rs s) (\<lambda>bs s. Ret (b # bs) s))
      | Wr n b \<Rightarrow> bnd (wr n b s) (\<lambda>_ s. run rd wr rs s))"

primrec results :: "('n, 'b) request list \<Rightarrow> ('n \<Rightarrow> 'b) \<Rightarrow> 'b list" where
  "results [] a = []"
| "results (r # rs) a = (case r of Rd n \<Rightarrow> a n # results rs a | Wr n b \<Rightarrow> results rs (a(n := b)))"

primrec final :: "('n, 'b) request list \<Rightarrow> ('n \<Rightarrow> 'b) \<Rightarrow> 'n \<Rightarrow> 'b" where
  "final [] a = a"
| "final (r # rs) a = (case r of Rd n \<Rightarrow> final rs a | Wr n b \<Rightarrow> final rs (a(n := b)))"

definition request_ok :: "('n \<Rightarrow> bool) \<Rightarrow> ('b \<Rightarrow> bool) \<Rightarrow> ('n, 'b) request \<Rightarrow> bool" where
  "request_ok okn okb r = (case r of Rd n \<Rightarrow> okn n | Wr n b \<Rightarrow> okn n \<and> okb b)"

locale block_store =
  fixes rd :: "'n \<Rightarrow> 's \<Rightarrow> ('b, 's) outcome"
    and wr :: "'n \<Rightarrow> 'b \<Rightarrow> 's \<Rightarrow> (unit, 's) outcome"
    and inv :: "'s \<Rightarrow> bool" and abs :: "'s \<Rightarrow> 'n \<Rightarrow> 'b"
    and okn :: "'n \<Rightarrow> bool" and okb :: "'b \<Rightarrow> bool"
  assumes read_law: "inv s \<Longrightarrow> okn n \<Longrightarrow> \<exists>t. rd n s = Ret (abs s n) t \<and> inv t \<and> (\<forall>m. okn m \<longrightarrow> abs t m = abs s m)"
    and write_law: "inv s \<Longrightarrow> okn n \<Longrightarrow> okb b \<Longrightarrow>
      \<exists>t. wr n b s = Ret () t \<and> inv t \<and> (\<forall>m. okn m \<longrightarrow> abs t m = ((abs s)(n := b)) m)"
begin

lemma results_cong:
  "list_all (request_ok okn okb) rs \<Longrightarrow> \<forall>m. okn m \<longrightarrow> a m = c m \<Longrightarrow>
   results rs a = results rs c \<and> (\<forall>m. okn m \<longrightarrow> final rs a m = final rs c m)"
proof (induction rs arbitrary: a c)
  case Nil
  then show ?case by simp
next
  case (Cons r rs)
  have "\<forall>m. okn m \<longrightarrow> (a(n := b)) m = (c(n := b)) m" for n b using Cons.prems(2) by simp
  then show ?case using Cons by (cases r) (auto simp: request_ok_def)
qed

theorem run_refines:
  "inv s \<Longrightarrow> list_all (request_ok okn okb) rs \<Longrightarrow>
   \<exists>t. run rd wr rs s = Ret (results rs (abs s)) t \<and> inv t \<and> (\<forall>m. okn m \<longrightarrow> abs t m = final rs (abs s) m)"
proof (induction rs arbitrary: s)
  case Nil
  then show ?case by simp
next
  case (Cons r rs)
  show ?case
  proof (cases r)
    case (Rd n)
    with Cons.prems obtain t where t: "rd n s = Ret (abs s n) t" "inv t" "\<forall>m. okn m \<longrightarrow> abs t m = abs s m"
      using read_law [of s n] by (auto simp: request_ok_def)
    from Cons.IH [OF t(2)] Cons.prems(2) obtain u where "run rd wr rs t = Ret (results rs (abs t)) u" "inv u"
      "\<forall>m. okn m \<longrightarrow> abs u m = final rs (abs t) m" by auto
    then show ?thesis using Rd t(1) results_cong [of rs "abs t" "abs s"] t(3) Cons.prems(2) by simp
  next
    case (Wr n b)
    with Cons.prems obtain t where t: "wr n b s = Ret () t" "inv t" "\<forall>m. okn m \<longrightarrow> abs t m = ((abs s)(n := b)) m"
      using write_law [of s n b] by (auto simp: request_ok_def)
    from Cons.IH [OF t(2)] Cons.prems(2) obtain u where "run rd wr rs t = Ret (results rs (abs t)) u" "inv u"
      "\<forall>m. okn m \<longrightarrow> abs u m = final rs (abs t) m" by auto
    then show ?thesis using Wr t(1) results_cong [of rs "abs t" "(abs s)(n := b)"] t(3) Cons.prems(2) by simp
  qed
qed

end

section \<open>The cache is a block store\<close>

text \<open>A whole block is read, and a whole block is written through to the disk.\<close>

definition read_block :: "uint32 \<Rightarrow> 'a kdisk_scheme \<Rightarrow> (byte list, 'a kdisk_scheme) outcome" where
  "read_block n s =
     bnd (bread ROOTDEV n s) (\<lambda>b s.
       let bs = b_data (bufs s b) in bnd (brelse b s) (\<lambda>_ s. Ret bs s))"

definition write_block :: "uint32 \<Rightarrow> byte list \<Rightarrow> 'a kdisk_scheme \<Rightarrow> (unit, 'a kdisk_scheme) outcome" where
  "write_block n bs s =
     bnd (bread ROOTDEV n s) (\<lambda>b s.
       bnd (bwrite b (upd_buf b (\<lambda>q. q\<lparr>b_data := bs\<rparr>) s)) (\<lambda>_ s. brelse b s))"

lemma read_block_ok:
  assumes "bio p {} P s" "small n" "finite {n. P n \<noteq> 0}" "card {n. P n \<noteq> 0} < NBUF"
  shows "\<exists>t. read_block n s = Ret (view s n) t \<and> bio p {} P t \<and> bframe s t \<and> sectors t = sectors s \<and> wlog t = wlog s \<and>
    (\<forall>m. view t m = view s m)"
proof -
  obtain b t where t: "bread ROOTDEV n s = Ret b t" "b < NBUF" "bio p {b} P t" "bframe s t" "sectors t = sectors s"
    "wlog t = wlog s" "b_blockno (bufs t b) = n" "b_data (bufs t b) = view s n" "\<forall>m. view t m = view s m"
    using bread_ex [OF assms(1,2) _ assms(3)] assms(4) by auto
  have "P n = 1 \<or> b_data (bufs t b) = block (sectors t) n"
    using contents_clean [OF bio_D(2) [OF assms(1)], of n] t(5,8) by (auto simp: view_def)
  then obtain u where "brelse b t = Ret () u" "bio p {} P u" "bframe t u" "sectors u = sectors t" "wlog u = wlog t"
    "\<forall>m. view u m = view t m"
    using brelse_ok [OF t(3), of b n] t(7) by auto
  then show ?thesis using t bframe_trans [OF t(4)] by (auto simp: read_block_def Let_def)
qed

lemma write_block_ok:
  assumes "bio p {} P s" "small n" "finite {n. P n \<noteq> 0}" "card {n. P n \<noteq> 0} < NBUF" "length bs = BSIZE"
  shows "\<exists>t. write_block n bs s = Ret () t \<and> bio p {} P t \<and> bframe s t \<and> sectors t = put_block n bs (sectors s) \<and>
    wlog t = wlog s @ [(secno n, take 512 bs), (secno n + 1, drop 512 bs)] \<and>
    (\<forall>m. small m \<longrightarrow> view t m = ((view s)(n := bs)) m)"
proof -
  obtain b t where t: "bread ROOTDEV n s = Ret b t" "b < NBUF" "bio p {b} P t" "bframe s t" "sectors t = sectors s"
    "wlog t = wlog s" "b_blockno (bufs t b) = n" "\<forall>m. view t m = view s m"
    using bread_ex [OF assms(1,2) _ assms(3)] assms(4) by auto
  let ?u = "upd_buf b (\<lambda>q. q\<lparr>b_data := bs\<rparr>) t"
  note n = t(7)
  have u: "bio p {b} P ?u" "view ?u = (view t)(n := bs)"
    using bio_modify [OF t(3) _ assms(5), of b] n by simp_all
  obtain v where v: "bwrite b ?u = Ret () v" "bio p {b} P v" "bframe ?u v" "bufs v = bufs ?u"
    "sectors v = put_block n bs (sectors s)" "wlog v = wlog s @ [(secno n, take 512 bs), (secno n + 1, drop 512 bs)]"
    using bwrite_ok [OF u(1), of b] t(5,6) n by auto
  have vv: "view v m = view ?u m" if "small m" for m
    using bwrite_view [OF bio_D(2) [OF u(1)] t(2) _ assms(2) that] held_D(6) [OF u(1), of b] n v(4,5) t(5)
    by (simp add: view_def)
  have "b_data (bufs v b) = block (sectors v) n" using v(4,5) block_put_block [OF assms(2,2)] by simp
  then obtain w where w: "brelse b v = Ret () w" "bio p {} P w" "bframe v w" "sectors w = sectors v" "wlog w = wlog v"
    "\<forall>m. view w m = view v m"
    using brelse_ok [OF v(2), of b n] v(4) n by auto
  have "bframe s w" using t(4) v(3) w(3) bframe_trans bframe_upd(1) by metis
  then show ?thesis using t(1,8) v(1,5,6) w vv u(2) by (auto simp: write_block_def)
qed

interpretation cache: block_store read_block write_block "bio p {} (\<lambda>_. 0)" view small "\<lambda>bs. length bs = BSIZE" for p
proof
  fix s :: "'a kdisk_scheme" and n and bs :: "byte list"
  assume s: "bio p {} (\<lambda>_. 0) s" "small n"
  show "\<exists>t. read_block n s = Ret (view s n) t \<and> bio p {} (\<lambda>_. 0) t \<and> (\<forall>m. small m \<longrightarrow> view t m = view s m)"
    using read_block_ok [OF s] by (force simp: NBUF_def MAXOPBLOCKS_def)
  assume "length bs = BSIZE"
  then show "\<exists>t. write_block n bs s = Ret () t \<and> bio p {} (\<lambda>_. 0) t \<and> (\<forall>m. small m \<longrightarrow> view t m = ((view s)(n := bs)) m)"
    using write_block_ok [OF s] by (force simp: NBUF_def MAXOPBLOCKS_def)
qed

section \<open>Properties\<close>

lemma demo_ringed: "ringed demo_bufs [0..<NBUF]"
proof -
  have N: "NBUF = 30" by (simp add: NBUF_def MAXOPBLOCKS_def)
  have "chain (\<lambda>b. b_next (demo_bufs b)) 0 [0..<30] 30" by (rule chain_upt) (simp_all add: demo_bufs_def)
  moreover have "chain (\<lambda>b. b_prev (demo_bufs b)) 29 (rev [0..<Suc 29]) 30"
  proof (rule chain_downto)
    fix x :: nat assume "x < 29"
    then have "(Suc x + 30) mod 31 = x" by (simp add: mod_if)
    then show "b_prev (demo_bufs (Suc x)) = x" by (simp add: demo_bufs_def)
  qed (simp add: demo_bufs_def)
  moreover have "b_next (demo_bufs 30) = 0" "b_prev (demo_bufs 30) = 29" by (simp_all add: demo_bufs_def)
  moreover have "Suc 29 = (30 :: nat)" by simp
  ultimately show ?thesis unfolding ringed_def linked_def N by (simp del: upt.simps add: atLeast0LessThan)
qed

text \<open>States of any layer that agree with \<open>demo_kdisk\<close> are idle, with an empty cache.\<close>

lemma fs_idle_demo:
  fixes s :: "'a kdisk_scheme"
  assumes "hart s = hart demo_kdisk" "csrs s = csrs demo_kdisk" "cpus s = cpus demo_kdisk" "lk s = lk demo_kdisk"
    and "procs s = procs demo_kdisk" "disk s = disk demo_kdisk" "vdev s = vdev demo_kdisk"
  shows "fs_idle 5 s"
proof -
  have "mycpu s = mycpu demo_kdisk" "intr_get s = intr_get demo_kdisk"
    using assms by (simp_all add: mycpu_def cpuid_def intr_get_def csr_defs)
  then show ?thesis
    using demo_kdisk_runs assms by (simp add: fs_idle_def runs_def quiet_iff cpu_ok_def procs_free_def lock_free_def)
qed

lemma bio_demo:
  fixes s :: "'a kdisk_scheme"
  assumes "fs_idle 5 s" "bufs s = demo_bufs" "sectored (sectors s)" "\<And>b. \<not> sl_locked (slk s (Buf_lk b))"
  shows "bio 5 {} (\<lambda>_. 0) s"
proof -
  have "buf_ok {} (\<lambda>_. 0) (sectors s) b (demo_bufs b)" "\<not> caches (demo_bufs b) n" for b n
    by (simp_all add: buf_ok_def demo_bufs_def refs_def ROOTDEV_def caches_def)
  then show ?thesis using demo_ringed assms by (auto simp: bio_def cache_inv_def)
qed

lemma demo_bio: "bio 5 {} (\<lambda>_. 0) demo_kdisk"
  by (rule bio_demo, rule fs_idle_demo) (simp_all, simp_all add: demo_kdisk_def sectored_def demo_sectors_def)

text \<open>
  C3: the buffer cache is transparent.  Whatever sequence of whole blocks a process reads and
  writes through \<^verbatim>\<open>bread\<close>, \<^verbatim>\<open>bwrite\<close> and \<^verbatim>\<open>brelse\<close>, with any evictions on the way, every read
  returns what an array of blocks that starts with the contents of the disk would return, no
  call panics or waits, and at the end the disk holds that array.
\<close>

theorem cache_refines_array:
  assumes "bio p {} (\<lambda>_. 0) s" and "list_all (request_ok small (\<lambda>bs. length bs = BSIZE)) rs"
  shows "\<exists>t. run read_block write_block rs s = Ret (results rs (block (sectors s))) t \<and> bio p {} (\<lambda>_. 0) t \<and>
    (\<forall>n. small n \<longrightarrow> block (sectors t) n = final rs (block (sectors s)) n)"
proof -
  have v: "view t = block (sectors t)" if "bio p {} (\<lambda>_. 0) t" for t :: "'a kdisk_scheme"
    using contents_clean [OF bio_D(2) [OF that]] by (simp add: view_def fun_eq_iff)
  show ?thesis using cache.run_refines [OF assms] v [OF assms(1)] v by metis
qed

theorem cache_refines_array_witness:
  "\<exists>t. run read_block write_block [Rd 5, Wr 5 (replicate 1024 7), Rd 5] demo_kdisk =
     Ret [replicate 512 10 @ replicate 512 11, replicate 1024 7] t"
proof -
  have ok: "list_all (request_ok small (\<lambda>bs. length bs = BSIZE)) [Rd 5, Wr 5 (replicate 1024 7), Rd 5]"
    by (simp add: request_ok_def small_def BSIZE_def)
  have "block (sectors demo_kdisk) 5 = replicate 512 10 @ replicate 512 11"
    by (simp add: block_def secno_def demo_kdisk_def demo_sectors_def)
  then show ?thesis using cache_refines_array [OF demo_bio ok] by (simp del: run.simps) blast
qed

end
