(* ===== verification/Crash.thy ===== *)
theory Crash
  imports Journal Cache_Props
begin

text \<open>
  Crash safety of the redo log: the disk after any prefix of the sector writes of a commit, and
  what \<^verbatim>\<open>recover_from_log()\<close> makes of it.
\<close>

section \<open>Blocks under a sequence of sector writes\<close>

definition untouched :: "uint32 \<Rightarrow> (uint64 \<times> byte list) list \<Rightarrow> bool" where
  "untouched m ws \<longleftrightarrow> secno m \<notin> fst ` set ws \<and> secno m + 1 \<notin> fst ` set ws"

definition bws :: "(nat \<Rightarrow> uint32) \<Rightarrow> (nat \<Rightarrow> byte list) \<Rightarrow> nat \<Rightarrow> (uint64 \<times> byte list) list" where
  "bws f g k = concat (map (\<lambda>i. bw (f i) (g i)) [0..<k])"

lemma bws_simps [simp]: "bws f g 0 = []" "bws f g (Suc k) = bws f g k @ bw (f k) (g k)"
  by (simp_all add: bws_def)

lemma length_bws [simp]: "length (bws f g k) = 2 * k"
  by (induction k) (simp_all add: bw_def)

lemma apply_writes_other: "a \<notin> fst ` set ws \<Longrightarrow> apply_writes ws ss a = ss a"
  by (induction ws arbitrary: ss) (auto simp: apply_writes_def)

lemma untouched_append [simp]: "untouched m (v @ w) \<longleftrightarrow> untouched m v \<and> untouched m w" "untouched m []"
  by (auto simp: untouched_def)

lemma untouched_bw [simp]: "small m \<Longrightarrow> small n \<Longrightarrow> untouched m (bw n bs) \<longleftrightarrow> m \<noteq> n"
  using secno_apart [of m n] by (auto simp: untouched_def bw_def)

lemma untouched_bws: "small m \<Longrightarrow> (\<And>i. i < k \<Longrightarrow> small (f i) \<and> m \<noteq> f i) \<Longrightarrow> untouched m (bws f g k)"
  by (induction k) auto

lemma untouched_take: "untouched m ws \<Longrightarrow> untouched m (take k ws)"
  using set_take_subset [of k ws] by (auto simp: untouched_def)

lemma sector_untouched: "untouched m ws \<Longrightarrow> apply_writes ws ss (secno m) = ss (secno m)"
  by (simp add: untouched_def apply_writes_other)

lemma block_untouched: "untouched m ws \<Longrightarrow> block (apply_writes ws ss) m = block ss m"
  by (simp add: untouched_def block_def apply_writes_other)

lemma block_bws:
  assumes "\<And>i. i < k \<Longrightarrow> small (f i)" "inj_on f {..<k}" "i < k"
  shows "block (apply_writes (bws f g k) ss) (f i) = g i"
  using assms
proof (induction k)
  case (Suc k)
  then have "small (f k)" "small (f i)" "inj_on f {..<k}" by (auto simp: inj_on_def)
  moreover have "i < k \<Longrightarrow> f i \<noteq> f k" using Suc.prems(2,3) by (auto simp: inj_on_def)
  ultimately show ?case using Suc by (cases "i = k") (auto simp: block_put_block)
qed simp

section \<open>The header\<close>

text \<open>The whole header is in the first sector of its block.\<close>

lemma get32_first:
  assumes "length x = 512" "off + 4 \<le> 512"
  shows "get32 off (x @ y) = get32 off x"
  using assms by (simp add: get32_def sub_bytes_def)

lemma get32_block: "sectored ss \<Longrightarrow> off + 4 \<le> 512 \<Longrightarrow> get32 off (block ss m) = get32 off (ss (secno m))"
  by (simp add: block_def get32_first sectored_def)

lemma get32_take: "512 \<le> length bs \<Longrightarrow> off + 4 \<le> 512 \<Longrightarrow> get32 off (take 512 bs) = get32 off bs"
  using get32_first [of "take 512 bs" off "drop 512 bs"] by simp

lemma head_bytes_get:
  assumes "length bs = BSIZE" "n < LOGSIZE"
  shows "length (head_bytes n f bs) = BSIZE" "get32 0 (head_bytes n f bs) = of_nat n"
    "i < n \<Longrightarrow> get32 (4 + 4 * i) (head_bytes n f bs) = word_of_int (f i)"
proof -
  let ?g = "\<lambda>k. fold (\<lambda>i. put32 (4 + 4 * i) (word_of_int (f i))) [0..<k] (put32 0 (of_nat n) bs)"
  have B: "BSIZE = 1024" "LOGSIZE = 30" by (simp_all add: BSIZE_def LOGSIZE_def MAXOPBLOCKS_def)
  have "length (?g k) = 1024 \<and> get32 0 (?g k) = of_nat n \<and> (\<forall>i<k. get32 (4 + 4 * i) (?g k) = word_of_int (f i))"
    if "k \<le> n" for k using that
  proof (induction k)
    case 0
    then show ?case using assms B by simp
  next
    case (Suc k)
    then show ?case using assms B by (auto simp: get_put32_other less_Suc_eq)
  qed
  from this [OF order_refl] B show "length (head_bytes n f bs) = BSIZE" "get32 0 (head_bytes n f bs) = of_nat n"
    "i < n \<Longrightarrow> get32 (4 + 4 * i) (head_bytes n f bs) = word_of_int (f i)"
    by (simp_all add: head_bytes_def)
qed

definition loaded :: "byte list \<Rightarrow> 'a klog_scheme \<Rightarrow> 'a klog_scheme" where
  "loaded bs s = s\<lparr>lh_n := sint (get32 0 bs),
     lh_block := \<lambda>i. if i < nat (sint (get32 0 bs)) then sint (get32 (4 + 4 * i) bs) else lh_block s i\<rparr>"

lemma loaded_simps [simp]:
  "lh_n (loaded bs s) = sint (get32 0 bs)" "hblk (loaded bs s) = hblk s" "lblk (loaded bs s) = lblk s"
  "in_log (loaded bs s) = in_log s" "view (loaded bs s) = view s" "bio p H P (loaded bs s) = bio p H P s"
  "emits (loaded bs s) = emits s" "log_dev (loaded bs s) = log_dev s" "log_start (loaded bs s) = log_start s"
  "bufs (loaded bs s) = bufs s" "sectors (loaded bs s) = sectors s"
  by (simp_all add: loaded_def)

lemma dblk_loaded: "i < nat (sint (get32 0 bs)) \<Longrightarrow> dblk (loaded bs s) i = get32 (4 + 4 * i) bs"
  by (simp add: dblk_def loaded_def)

lemma view_clean: "bio p {} P s \<Longrightarrow> P m \<noteq> 1 \<Longrightarrow> view s m = block (sectors s) m"
  using contents_clean [OF bio_D(2)] by (fastforce simp: view_def)

lemma read_head_ok:
  fixes s :: "'a klog_scheme"
  assumes "bio p {} (\<lambda>_. 0) s" "log_dev s = 1" "small (hblk s)"
  shows "\<exists>t. read_head s = Ret () t \<and> bio p {} (\<lambda>_. 0) t \<and> emits s t [] \<and>
    bframe (loaded (block (sectors s) (hblk s)) s) t"
proof -
  let ?h = "hblk s" and ?bs = "block (sectors s) (hblk s)"
  obtain b t where t: "bread ROOTDEV ?h s = Ret b t" "bio p {b} (\<lambda>_. 0) t" "bframe s t" "emits s t []"
    "b_blockno (bufs t b) = ?h" "b_data (bufs t b) = view s ?h"
    by (rule bread_step [OF assms(1,3)]) (auto simp: NBUF_def MAXOPBLOCKS_def)
  have bs: "b_data (bufs t b) = ?bs" "sectors t = sectors s" using t(4,6) view_clean [OF assms(1)] by (auto simp: emits_def)
  obtain u where u: "brelse b (loaded ?bs t) = Ret () u" "bio p {} (\<lambda>_. 0) u" "bframe (loaded ?bs t) u" "emits (loaded ?bs t) u []"
    by (rule brelse_step [of p b "{}" "\<lambda>_. 0" "loaded ?bs t" ?h]) (use t(2,5) bs in auto)
  have "bframe (loaded ?bs s) (loaded ?bs t)" 
    unfolding loaded_def bframe_klog(7) [OF t(3)] by (rule bframe_head(2) [OF t(3)])
  then have "bframe (loaded ?bs s) u" using u(3) by (rule bframe_trans)
  moreover have "read_head s = Ret () u"
    using t(1) u(1) bs assms(2) ldev_root [OF assms(2)] by (simp add: read_head_def hblk_def [symmetric] loaded_def Let_def cong: if_cong)
  ultimately show ?thesis using u(2,4) t(4) by (auto simp: emits_def)
qed

section \<open>Recovery\<close>

lemma unpinned_none:
  assumes "log_wf s" "i \<le> nat (lh_n s)"
  shows "finpins (unpinned s i (\<lambda>_. 0))" "npins (unpinned s i (\<lambda>_. 0)) = i"
    "unpinned s i (\<lambda>_. 0) m = (if m \<in> dblk s ` {..<i} then - 1 else 0)"
proof -
  have eq: "{m. unpinned s i (\<lambda>_. 0) m \<noteq> 0} = dblk s ` {..<i}" by (auto simp: unpinned_def)
  then show "finpins (unpinned s i (\<lambda>_. 0))" by simp
  have "inj_on (dblk s) {..<i}" using log_wf_D(12) [OF assms(1)] assms(2) by (auto simp: inj_on_def)
  then show "npins (unpinned s i (\<lambda>_. 0)) = i" unfolding npins_def eq by (simp add: card_image)
  show "unpinned s i (\<lambda>_. 0) m = (if m \<in> dblk s ` {..<i} then - 1 else 0)" by (auto simp: unpinned_def)
qed

lemma recover_ok:
  fixes s :: "'a klog_scheme"
  assumes "bio p {} (\<lambda>_. 0) s" "L = loaded (block (sectors s) (hblk s)) s" "log_wf L" "n = nat (lh_n L)"
  shows "\<exists>u. recover_from_log s = Ret () u \<and> bio p {} (unpinned L n (\<lambda>_. 0)) u \<and> bframe (L\<lparr>lh_n := 0\<rparr>) u \<and>
    emits s u (bws (dblk L) (\<lambda>i. block (sectors s) (lblk s i)) n @ bw (hblk s) (put32 0 0 (block (sectors s) (hblk s))))"
proof -
  let ?h = "hblk s" and ?g = "\<lambda>i. block (sectors s) (lblk s i)"
  have S: "log_dev L = log_dev s" "hblk L = ?h" "lblk L = lblk s" "in_log L = in_log s" by (simp_all add: assms(2))
  note W = log_wf_D [OF assms(3), unfolded S]
  have N: "n < 30" "LOGSIZE = 30" "NBUF = 30" using W(4) assms(4) by (simp_all add: LOGSIZE_def NBUF_def MAXOPBLOCKS_def)
  obtain t where t: "read_head s = Ret () t" "bio p {} (\<lambda>_. 0) t" "emits s t []" "bframe L t"
    using read_head_ok [OF assms(1) W(1,2)] assms(2) by auto
  have eq: "dblk t = dblk L" "lblk t = lblk s" "lh_n t = lh_n L" "log_dev t = 1" "hblk t = ?h" "log_wf t" "sectors t = sectors s"
      "in_log t = in_log s" "unpinned t = unpinned L"
    using blk_bframe [OF t(4)] bframe_klog [OF t(4)] log_wf_bframe [OF t(4)] W(1) assms(3) S t(3)
    by (auto simp: emits_def unpinned_def fun_eq_iff)
  have P: "finpins (unpinned t i (\<lambda>_. 0)) \<and> npins (unpinned t i (\<lambda>_. 0)) < NBUF \<and>
      ((0 :: uint32) \<noteq> 0 \<or> Suc (npins (unpinned t i (\<lambda>_. 0))) < NBUF)" if "i < nat (lh_n t)" for i
    using unpinned_none(1,2) [OF eq(6), of i] that N eq(3) assms(4) by simp
  have tv: "view t m = block (sectors s) m" for m using view_clean [OF t(2)] eq(7) by simp
  obtain v where v: "foreach [0..<n] install_trans_at t = Ret None v" "bio p {} (unpinned L n (\<lambda>_. 0)) v" "bframe t v"
    "emits t v (bws (dblk L) ?g n)" "\<forall>m. small m \<and> (\<forall>i<n. m \<noteq> dblk L i) \<longrightarrow> view v m = view t m"
    using install_loop [OF t(2) eq(6) _ P, of n] assms(4) unfolding bws_def eq tv by auto
  let ?v = "v\<lparr>lh_n := 0\<rparr>"
  have dv: "log_dev ?v = 1" "hblk ?v = ?h" using bframe_klog(5) [OF v(3)] blk_bframe(1) [OF v(3)] eq by auto
  have "\<forall>i<n. ?h \<noteq> dblk L i" using W(3,11) assms(4) by metis
  then have vh: "view ?v ?h = block (sectors s) ?h" using v(5) W(2) tv by simp
  have up: "finpins (unpinned L n (\<lambda>_. 0))" "npins (unpinned L n (\<lambda>_. 0)) < NBUF"
    using unpinned_none(1,2) [OF assms(3), of n] assms(4) N by simp_all
  have bv: "bio p {} (unpinned L n (\<lambda>_. 0)) ?v" using v(2) by simp
  obtain w where w: "write_head ?v = Ret () w" "bio p {} (unpinned L n (\<lambda>_. 0)) w" "bframe ?v w"
    "emits ?v w (bw ?h (put32 0 0 (block (sectors s) ?h)))"
    using write_head_ok [OF bv dv(1) up] W(2) vh dv(2) N(2) by (auto simp: head_bytes_def)
  have "recover_from_log s = Ret () w"
    using t(1) v(1) w(1) eq(3) assms(4) by (simp add: recover_from_log_def install_trans_def)
  moreover have "bframe (L\<lparr>lh_n := 0\<rparr>) w"
    using bframe_head(1) [OF bframe_trans [OF t(4) v(3)]] w(3) by (rule bframe_trans)
  ultimately show ?thesis using w(2,4) t(3) v(4) by (auto simp: emits_def)
qed

text \<open>What recovery leaves on the disk: the logged copies, where the header names them.\<close>

lemma recover_blocks:
  fixes s :: "'a klog_scheme"
  assumes "bio p {} (\<lambda>_. 0) s" "L = loaded (block (sectors s) (hblk s)) s" "log_wf L" "n = nat (lh_n L)"
  obtains u where "recover_from_log s = Ret () u" "\<And>i. i < n \<Longrightarrow> block (sectors u) (dblk L i) = block (sectors s) (lblk s i)"
    "\<And>m. small m \<Longrightarrow> m \<noteq> hblk s \<Longrightarrow> \<forall>i<n. m \<noteq> dblk L i \<Longrightarrow> block (sectors u) m = block (sectors s) m"
proof -
  note W = log_wf_D [OF assms(3)]
  let ?g = "\<lambda>i. block (sectors s) (lblk s i)" and ?w = "bw (hblk s) (put32 0 0 (block (sectors s) (hblk s)))"
  have h: "hblk L = hblk s" by (simp add: assms(2))
  obtain u where u: "recover_from_log s = Ret () u" "emits s u (bws (dblk L) ?g n @ ?w)"
    using recover_ok [OF assms] by blast
  have sm: "\<And>i. i < n \<Longrightarrow> small (dblk L i)" "inj_on (dblk L) {..<n}" "\<And>i. i < n \<Longrightarrow> dblk L i \<noteq> hblk s"
    using W(10,12) assms(4) W(3,11) h by (auto simp: inj_on_def) metis
  show thesis
  proof (rule that [OF u(1)])
    show "block (sectors u) (dblk L i) = ?g i" if "i < n" for i
      using u(2) block_bws [OF sm(1,2) that, of ?g "sectors s"] sm(1,3) [OF that] W(2) h
      by (simp add: emits_def block_put_block)
    show "block (sectors u) m = block (sectors s) m" if "small m" "m \<noteq> hblk s" "\<forall>i<n. m \<noteq> dblk L i" for m
    proof -
      have "untouched m (bws (dblk L) ?g n)" using that sm(1) by (intro untouched_bws) auto
      then show ?thesis using u(2) that W(2) h by (simp add: emits_def block_put_block block_untouched)
    qed
  qed
qed

section \<open>The disk after a crash\<close>

lemma head_sector: "apply_writes (take (Suc i) (bw h bs)) ss (secno h) = take 512 bs"
  by (cases i) (simp_all add: bw_def apply_writes_def)

lemma commit_writes_bws:
  "commit_writes s = bws (lblk s) (\<lambda>i. view s (dblk s i)) (nat (lh_n s)) @ bw (hblk s) (new_head s) @
     bws (dblk s) (\<lambda>i. view s (dblk s i)) (nat (lh_n s)) @ bw (hblk s) (put32 0 0 (new_head s))"
  by (simp add: commit_writes_def log_writes_def install_writes_def bws_def)

lemma untouched_log:
  assumes "log_wf s"
  shows "small m \<Longrightarrow> \<not> in_log s m \<Longrightarrow> untouched m (bws (lblk s) g (nat (lh_n s)))" "untouched (hblk s) (bws (lblk s) g (nat (lh_n s)))"
    "small m \<Longrightarrow> in_log s m \<Longrightarrow> untouched m (bws (dblk s) g (nat (lh_n s)))"
    "small m \<Longrightarrow> \<forall>i<nat (lh_n s). m \<noteq> dblk s i \<Longrightarrow> untouched m (bws (dblk s) g (nat (lh_n s)))"
    "small m \<Longrightarrow> \<not> in_log s m \<Longrightarrow> untouched m (bw (hblk s) bs)"
    "i < nat (lh_n s) \<Longrightarrow> untouched (lblk s i) (bw (hblk s) bs)"
proof -
  note W = log_wf_D [OF assms]
  have l: "Suc i < LOGSIZE" if "i < nat (lh_n s)" for i using W(4) that by linarith
  show "untouched m (bws (lblk s) g (nat (lh_n s)))" if "small m" "\<not> in_log s m"
    using that W(6,7) l by (intro untouched_bws) blast+
  show "untouched (hblk s) (bws (lblk s) g (nat (lh_n s)))" using W(2,6) W(8) l by (intro untouched_bws) metis+
  show "untouched m (bws (dblk s) g (nat (lh_n s)))" if "small m" "in_log s m"
    using that W(10,11) by (intro untouched_bws) blast+
  show "untouched m (bws (dblk s) g (nat (lh_n s)))" if "small m" "\<forall>i<nat (lh_n s). m \<noteq> dblk s i"
    using that W(10) by (intro untouched_bws) blast+
  show "untouched m (bw (hblk s) bs)" if "small m" "\<not> in_log s m" using that W(2,3) by auto
  show "untouched (lblk s i) (bw (hblk s) bs)" if "i < nat (lh_n s)" using W(2) W(6,8) [OF l [OF that]] by simp
qed

lemma crash_before:
  assumes "log_wf s" "k \<le> 2 * nat (lh_n s)" "small m" "m = hblk s \<or> \<not> in_log s m"
  shows "block (apply_writes (take k (commit_writes s)) ss) m = block ss m"
proof -
  have "untouched m (bws (lblk s) (\<lambda>i. view s (dblk s i)) (nat (lh_n s)))"
    using untouched_log(1,2) [OF assms(1)] assms(3,4) by blast
  then show ?thesis using assms(2) untouched_take block_untouched unfolding commit_writes_bws by fastforce
qed

lemma crash_between:
  assumes "log_wf s" "2 * nat (lh_n s) < k" "k \<le> 4 * nat (lh_n s) + 2" "ss' = apply_writes (take k (commit_writes s)) ss"
  shows "ss' (secno (hblk s)) = take 512 (new_head s)"
    "\<And>i. i < nat (lh_n s) \<Longrightarrow> block ss' (lblk s i) = view s (dblk s i)"
    "\<And>m. small m \<Longrightarrow> \<not> in_log s m \<Longrightarrow> \<forall>i<nat (lh_n s). m \<noteq> dblk s i \<Longrightarrow> block ss' m = block ss m"
proof -
  note W = log_wf_D [OF assms(1)] and U = untouched_log [OF assms(1)]
  let ?n = "nat (lh_n s)" and ?g = "\<lambda>i. view s (dblk s i)"
  obtain i where i: "k - 2 * ?n = Suc i" using assms(2) by (cases "k - 2 * ?n") auto
  let ?L = "bws (lblk s) ?g ?n" and ?H = "take (Suc i) (bw (hblk s) (new_head s))" and ?I = "take (Suc i - 2) (bws (dblk s) ?g ?n)"
  have "take k (commit_writes s) = ?L @ ?H @ ?I"
    using assms(2,3) i by (simp add: commit_writes_bws) (simp add: bw_def)
  then have ss: "ss' = apply_writes ?I (apply_writes ?H (apply_writes ?L ss))" by (simp add: assms(4))
  show "ss' (secno (hblk s)) = take 512 (new_head s)"
    unfolding ss using sector_untouched [OF untouched_take [OF U(3) [OF W(2,3)]]] head_sector by metis
  show "block ss' (lblk s j) = ?g j" if "j < ?n" for j
  proof -
    have j: "Suc j < LOGSIZE" using that W(4) by linarith
    have "inj_on (lblk s) {..<?n}" using W(4,9) by (fastforce simp: inj_on_def)
    then have "block (apply_writes ?L ss) (lblk s j) = ?g j" using W(4,6) that by (intro block_bws) auto
    then show ?thesis
      unfolding ss using block_untouched untouched_take [OF U(3) [OF W(6,7) [OF j]]] untouched_take [OF U(6) [OF that]] by metis
  qed
  show "block ss' m = block ss m" if "small m" "\<not> in_log s m" "\<forall>i<?n. m \<noteq> dblk s i" for m
    unfolding ss using block_untouched untouched_take U(1,4,5) that by metis
qed

lemma crash_after:
  assumes "log_wf s" "4 * nat (lh_n s) + 2 < k" "ss' = apply_writes (take k (commit_writes s)) ss"
  shows "ss' (secno (hblk s)) = take 512 (put32 0 0 (new_head s))"
    "\<And>i. i < nat (lh_n s) \<Longrightarrow> block ss' (dblk s i) = view s (dblk s i)"
    "\<And>m. small m \<Longrightarrow> \<not> in_log s m \<Longrightarrow> \<forall>i<nat (lh_n s). m \<noteq> dblk s i \<Longrightarrow> block ss' m = block ss m"
proof -
  note W = log_wf_D [OF assms(1)] and U = untouched_log [OF assms(1)]
  let ?n = "nat (lh_n s)" and ?g = "\<lambda>i. view s (dblk s i)"
  obtain i where i: "k - 4 * ?n - 2 = Suc i" using assms(2) by (cases "k - 4 * ?n - 2") auto
  let ?L = "bws (lblk s) ?g ?n" and ?H = "bw (hblk s) (new_head s)" and ?I = "bws (dblk s) ?g ?n"
    and ?Z = "take (Suc i) (bw (hblk s) (put32 0 0 (new_head s)))"
  have "take k (commit_writes s) = ?L @ ?H @ ?I @ ?Z"
  proof -
    have "k = 2 * ?n + (2 + (2 * ?n + Suc i))" "length ?H = 2" using i assms(2) by (simp_all add: bw_def)
    then show ?thesis by (simp add: commit_writes_bws)
  qed
  then have ss: "ss' = apply_writes ?Z (apply_writes ?I (apply_writes ?H (apply_writes ?L ss)))"
    unfolding assms(3) by (simp only: apply_writes_simps)
  show "ss' (secno (hblk s)) = take 512 (put32 0 0 (new_head s))" unfolding ss by (rule head_sector)
  show "block ss' (dblk s j) = ?g j" if "j < ?n" for j
  proof -
    have "block (apply_writes ?I (apply_writes ?H (apply_writes ?L ss))) (dblk s j) = ?g j"
      using W(10,12) that by (intro block_bws) (auto simp: inj_on_def)
    then show ?thesis unfolding ss using block_untouched untouched_take [OF U(5) [OF W(10,11) [OF that]]] by metis
  qed
  show "block ss' m = block ss m" if "small m" "\<not> in_log s m" "\<forall>i<?n. m \<noteq> dblk s i" for m
    unfolding ss using block_untouched untouched_take U(1,4,5) that by metis
qed

section \<open>Atomicity\<close>

lemma log_wf_loaded:
  assumes "log_wf s" "log_start r = log_start s" "log_dev r = 1"
  shows "get32 0 bs = 0 \<Longrightarrow> log_wf (loaded bs r)"
    "sint (get32 0 bs) = lh_n s \<Longrightarrow> (\<And>i. i < nat (lh_n s) \<Longrightarrow> get32 (4 + 4 * i) bs = dblk s i) \<Longrightarrow> log_wf (loaded bs r)"
proof -
  have il: "in_log (loaded bs r) = in_log s" using assms(2) by (simp add: in_log_def fun_eq_iff)
  show "log_wf (loaded bs r)" if "get32 0 bs = 0"
    using assms that by (simp add: log_wf_def LOGSIZE_def MAXOPBLOCKS_def)
  show "log_wf (loaded bs r)" if "sint (get32 0 bs) = lh_n s" "\<And>i. i < nat (lh_n s) \<Longrightarrow> get32 (4 + 4 * i) bs = dblk s i"
  proof -
    have "dblk (loaded bs r) i = dblk s i" if "i < nat (lh_n s)" for i
      using \<open>sint (get32 0 bs) = lh_n s\<close> \<open>\<And>i. i < nat (lh_n s) \<Longrightarrow> get32 (4 + 4 * i) bs = dblk s i\<close> that
      by (simp add: dblk_loaded)
    then show ?thesis using assms that(1) il by (simp add: log_wf_def inj_on_def)
  qed
qed

lemma new_head_get:
  assumes "bio p {} (pins s) s" "log_wf s"
  shows "length (new_head s) = BSIZE" "sint (get32 0 (new_head s)) = lh_n s"
    "i < nat (lh_n s) \<Longrightarrow> get32 (4 + 4 * i) (new_head s) = dblk s i"
proof -
  note W = log_wf_D [OF assms(2)]
  have "pins s (hblk s) = 0" using W(3,11) by (auto simp: pins_def)
  then have "view s (hblk s) = block (sectors s) (hblk s)" using view_clean [OF assms(1)] by simp
  then have "length (view s (hblk s)) = BSIZE" using cache_inv_D(3) [OF bio_D(2) [OF assms(1)]] by simp
  note h = head_bytes_get [OF this W(4), where f = "lh_block s"]
  show "length (new_head s) = BSIZE" "i < nat (lh_n s) \<Longrightarrow> get32 (4 + 4 * i) (new_head s) = dblk s i"
    using h by (simp_all add: new_head_def dblk_def)
  have "sint (of_nat (nat (lh_n s)) :: uint32) = lh_n s"
    using W(4,5) by (simp add: sint_sbintrunc' LOGSIZE_def MAXOPBLOCKS_def signed_take_bit_int_eq_self)
  then show "sint (get32 0 (new_head s)) = lh_n s" using h(2) by (simp add: new_head_def)
qed

lemma crash_recovers:
  fixes s r :: "'a klog_scheme"
  assumes s: "bio p {} (pins s) s" "log_wf s" "get32 0 (block (sectors s) (hblk s)) = 0"
    and r: "bio q {} (\<lambda>_. 0) r" "log_start r = log_start s" "log_dev r = 1"
      "sectors r = apply_writes (take k (commit_writes s)) (sectors s)"
  shows "\<exists>u. recover_from_log r = Ret () u \<and> (\<forall>m. small m \<and> \<not> in_log s m \<longrightarrow>
     block (sectors u) m = (if k \<le> 2 * nat (lh_n s) then block (sectors s) m else view s m))"
proof -
  note W = log_wf_D [OF s(2)] and H = new_head_get [OF s(1,2)]
  let ?n = "nat (lh_n s)" and ?bs = "block (sectors r) (hblk s)"
  have b: "hblk r = hblk s" "lblk r = lblk s" using r(2) by (simp_all add: hblk_def lblk_def fun_eq_iff)
  have sec: "sectored (sectors r)" using cache_inv_D(3) [OF bio_D(2) [OF r(1)]] .
  note rec = recover_blocks [OF r(1) refl, unfolded b]
  have old: "view s m = block (sectors s) m" if "\<forall>i<?n. m \<noteq> dblk s i" for m
  proof -
    have "m \<notin> dblk s ` {..<?n}" using that by auto
    then show ?thesis using view_clean [OF s(1), of m] by (simp add: pins_def)
  qed
  have h: "m \<noteq> hblk s" if "\<not> in_log s m" for m using that W(3) by auto
  consider "k \<le> 2 * ?n" | "2 * ?n < k" "k \<le> 4 * ?n + 2" | "4 * ?n + 2 < k" by linarith
  then show ?thesis
  proof cases
    case 1
    note B = crash_before [OF s(2) 1, of _ "sectors s", folded r(4)]
    have z: "get32 0 ?bs = 0" using B W(2) s(3) by simp
    obtain u where "recover_from_log r = Ret () u" "\<And>m. small m \<Longrightarrow> m \<noteq> hblk s \<Longrightarrow> block (sectors u) m = block (sectors r) m"
      by (rule rec [OF log_wf_loaded(1) [OF s(2) r(2,3) z] refl]) (use z in auto)
    then show ?thesis using B h 1 by auto
  next
    case 2
    note B = crash_between [OF s(2) 2 r(4)]
    have g: "get32 off ?bs = get32 off (new_head s)" if "off + 4 \<le> 512" for off
      using get32_block [OF sec that] B(1) get32_take [of "new_head s"] H(1) that by (simp add: BSIZE_def)
    have g0: "sint (get32 0 ?bs) = lh_n s" "\<And>i. i < ?n \<Longrightarrow> get32 (4 + 4 * i) ?bs = dblk s i"
      using g H(2,3) W(4) by (simp_all add: LOGSIZE_def MAXOPBLOCKS_def)
    then have d: "dblk (loaded ?bs r) i = dblk s i" if "i < ?n" for i using that by (simp add: dblk_loaded)
    obtain u where u: "recover_from_log r = Ret () u" "\<And>i. i < ?n \<Longrightarrow> block (sectors u) (dblk s i) = block (sectors r) (lblk s i)"
      "\<And>m. small m \<Longrightarrow> m \<noteq> hblk s \<Longrightarrow> \<forall>i<?n. m \<noteq> dblk s i \<Longrightarrow> block (sectors u) m = block (sectors r) m"
      by (rule rec [OF log_wf_loaded(2) [OF s(2) r(2,3) g0] refl]) (use g0 d in auto)
    have "block (sectors u) m = view s m" if "small m" "\<not> in_log s m" for m
      by (cases "\<exists>i<?n. m = dblk s i") (use u(2,3) B(2,3) old h that in auto)
    then show ?thesis using u(1) 2 by auto
  next
    case 3
    note B = crash_after [OF s(2) 3 r(4)]
    have z: "get32 0 ?bs = 0"
      using get32_block [OF sec, of 0] B(1) get32_take [of "put32 0 0 (new_head s)" 0] H(1) by (simp add: BSIZE_def)
    obtain u where u: "recover_from_log r = Ret () u" "\<And>m. small m \<Longrightarrow> m \<noteq> hblk s \<Longrightarrow> block (sectors u) m = block (sectors r) m"
      by (rule rec [OF log_wf_loaded(1) [OF s(2) r(2,3) z] refl]) (use z in auto)
    have "block (sectors u) m = view s m" if "small m" "\<not> in_log s m" for m
      by (cases "\<exists>i<?n. m = dblk s i") (use u(2) B(2,3) old h that in auto)
    then show ?thesis using u(1) 3 by auto
  qed
qed

section \<open>Properties\<close>

text \<open>A disk of zeroes; block 50 was changed in the cache, pinned there and entered in the log.\<close>

definition demo_log_bufs :: "nat \<Rightarrow> buf" where
  "demo_log_bufs b = (if b = 0 then (demo_bufs b)\<lparr>b_valid := True, b_dev := 1, b_blockno := 50, b_refcnt := 1,
     b_data := replicate 1024 7\<rparr> else demo_bufs b)"

definition demo_klog :: klog where
  "demo_klog = kdisk.extend (demo_kdisk\<lparr>bufs := demo_log_bufs, sectors := \<lambda>_. replicate 512 0\<rparr>)
     (klog.fields 2 30 0 True 1 1 (\<lambda>_. 50))"

definition demo_rebooted :: klog where
  "demo_rebooted = kdisk.extend (demo_kdisk\<lparr>sectors := (\<lambda>_. replicate 512 0)
     (4 := put32 0 1 (put32 4 50 (replicate 512 0)), 6 := replicate 512 7, 7 := replicate 512 7)\<rparr>)
     (klog.fields 2 30 0 False 1 0 (\<lambda>_. 0))"

lemma demo_klog_simps [simp]:
  "bufs demo_klog = demo_log_bufs" "sectors demo_klog = (\<lambda>_. replicate 512 0)" "lh_n demo_klog = 1" "log_start demo_klog = 2"
  "log_dev demo_klog = 1" "lh_block demo_klog = (\<lambda>_. 50)" "slk demo_klog = slk demo_kdisk" "hart demo_klog = hart demo_kdisk"
  "csrs demo_klog = csrs demo_kdisk" "cpus demo_klog = cpus demo_kdisk" "lk demo_klog = lk demo_kdisk"
  "procs demo_klog = procs demo_kdisk" "disk demo_klog = disk demo_kdisk" "vdev demo_klog = vdev demo_kdisk" "wlog demo_klog = []"
  by (simp_all add: demo_klog_def kdisk.defs klog.defs demo_kdisk_def)

lemma demo_rebooted_simps [simp]:
  "bufs demo_rebooted = demo_bufs" "log_start demo_rebooted = 2" "log_dev demo_rebooted = 1" "slk demo_rebooted = slk demo_kdisk"
  "hart demo_rebooted = hart demo_kdisk" "csrs demo_rebooted = csrs demo_kdisk" "cpus demo_rebooted = cpus demo_kdisk"
  "lk demo_rebooted = lk demo_kdisk" "procs demo_rebooted = procs demo_kdisk" "disk demo_rebooted = disk demo_kdisk"
  "vdev demo_rebooted = vdev demo_kdisk"
  "sectors demo_rebooted = (\<lambda>_. replicate 512 0) (4 := put32 0 1 (put32 4 50 (replicate 512 0)), 6 := replicate 512 7, 7 := replicate 512 7)"
  by (simp_all add: demo_rebooted_def kdisk.defs klog.defs demo_kdisk_def)

lemma not_in_log_50: "log_start s = 2 \<Longrightarrow> \<not> in_log s 50"
proof -
  have "(2 + int i :: int) < 2 ^ 31" "(2 + int i) \<noteq> 50" if "i < LOGSIZE" for i using that by (simp_all add: LOGSIZE_def MAXOPBLOCKS_def)
  then have "(word_of_int (2 + int i) :: uint32) \<noteq> word_of_int 50" if "i < LOGSIZE" for i
    using that word_of_int_small_inj [of "2 + int i" 50] by fastforce
  then show "log_start s = 2 \<Longrightarrow> \<not> in_log s 50" by (auto simp: in_log_def)
qed

lemma demo_klog_ok: "bio 5 {} (pins demo_klog) demo_klog" "log_wf demo_klog" "view demo_klog 50 = replicate 1024 7"
proof -
  have pins: "pins demo_klog = (\<lambda>_. 0) (50 := 1)" by (auto simp: pins_def dblk_def fun_eq_iff)
  show "log_wf demo_klog"
    using not_in_log_50 [of demo_klog] by (simp add: log_wf_def dblk_def small_def LOGSIZE_def MAXOPBLOCKS_def inj_on_def)
  have N: "NBUF = 30" by (simp add: NBUF_def MAXOPBLOCKS_def)
  have c: "caches (demo_log_bufs b) n \<longleftrightarrow> b = 0 \<and> n = 50" for b n
    by (auto simp: caches_def demo_log_bufs_def demo_bufs_def ROOTDEV_def)
  have "ringed demo_log_bufs [0..<NBUF]" using demo_ringed by (rule ringed_cong) (simp_all add: demo_log_bufs_def)
  moreover have "buf_ok {} (pins demo_klog) (\<lambda>_. replicate 512 0) b (demo_log_bufs b)" for b
    by (simp add: buf_ok_def pins demo_log_bufs_def demo_bufs_def refs_def ROOTDEV_def small_def BSIZE_def)
  ultimately have "cache_inv {} (pins demo_klog) demo_log_bufs (\<lambda>_. replicate 512 0)"
    unfolding cache_inv_def c by (auto simp: pins sectored_def N)
  moreover have "fs_idle 5 demo_klog" by (rule fs_idle_demo) simp_all
  ultimately show "bio 5 {} (pins demo_klog) demo_klog" by (simp add: bio_def) (simp add: demo_kdisk_def)
  then show "view demo_klog 50 = replicate 1024 7"
    using contents_cached [OF bio_D(2), of 5 "{}" "pins demo_klog" demo_klog 0 50] c [of 0 50] N
    by (simp add: view_def) (simp add: demo_log_bufs_def)
qed

lemma demo_rebooted_ok: "bio 5 {} (\<lambda>_. 0) demo_rebooted"
proof (rule bio_demo)
  show "fs_idle 5 demo_rebooted" by (rule fs_idle_demo) simp_all
qed (simp_all add: sectored_def demo_kdisk_def)

text \<open>
  C1: a transaction is atomic across a crash.  \<^verbatim>\<open>commit()\<close> returns, and the disk then holds the
  cached contents of every block outside the log.  Stop the disk after any number \<open>k\<close> of
  the sectors \<^verbatim>\<open>commit()\<close> writes, and start with an empty cache: \<^verbatim>\<open>recover_from_log()\<close> returns, and all
  blocks outside the log are as they were before the commit if not all log copies and the
  first sector of the header were written, and as the transaction left them otherwise; never
  a mixture.
\<close>

theorem commit_atomic:
  fixes s :: "'a klog_scheme"
  assumes "bio p {} (pins s) s" "log_wf s" "0 < lh_n s" "get32 0 (block (sectors s) (hblk s)) = 0"
  shows "\<exists>t ws. commit s = Ret () t \<and> wlog t = wlog s @ ws \<and>
    (\<forall>m. small m \<and> \<not> in_log s m \<longrightarrow> block (sectors t) m = view s m) \<and>
    (\<forall>k q. \<forall>r :: 'a klog_scheme.
       bio q {} (\<lambda>_. 0) r \<and> log_start r = log_start s \<and> log_dev r = 1 \<and> sectors r = apply_writes (take k ws) (sectors s) \<longrightarrow>
       (\<exists>u. recover_from_log r = Ret () u \<and> (\<forall>m. small m \<and> \<not> in_log s m \<longrightarrow>
          block (sectors u) m = (if k \<le> 2 * nat (lh_n s) then block (sectors s) m else view s m))))"
proof -
  obtain t where t: "commit s = Ret () t" "bio p {} (\<lambda>_. 0) t" "emits s t (commit_writes s)"
    "\<forall>m. small m \<and> \<not> in_log s m \<longrightarrow> view t m = view s m"
    using commit_ok [OF assms(1-3)] by blast
  have "block (sectors t) m = view s m" if "small m" "\<not> in_log s m" for m
    using t(4) that view_clean [OF t(2)] by simp
  then show ?thesis using t(1,3) crash_recovers [OF assms(1,2,4)] unfolding emits_def
    by (intro exI [of _ t] exI [of _ "commit_writes s"]) blast
qed

theorem commit_atomic_witness:
  "\<exists>t ws. commit demo_klog = Ret () t \<and> wlog t = ws \<and> block (sectors t) 50 = replicate 1024 7 \<and>
     (\<forall>k q. \<forall>r :: klog. bio q {} (\<lambda>_. 0) r \<and> log_start r = 2 \<and> log_dev r = 1 \<and> sectors r = apply_writes (take k ws) (\<lambda>_. replicate 512 0) \<longrightarrow>
       (\<exists>u. recover_from_log r = Ret () u \<and> block (sectors u) 50 = (if k \<le> 2 then replicate 1024 0 else replicate 1024 7)))"
proof -
  have z: "get32 0 (block (sectors demo_klog) (hblk demo_klog)) = 0"
    by (simp add: block_def get32_def sub_bytes_def dec_def numeral_eq_Suc)
  have b: "block (sectors demo_klog) 50 = replicate 1024 0" by (simp add: block_def replicate_add [symmetric])
  have 50: "small 50" "\<not> in_log demo_klog 50" using not_in_log_50 [of demo_klog] by (simp_all add: small_def)
  have pos: "0 < lh_n demo_klog" by simp
  obtain t ws where "commit demo_klog = Ret () t" "wlog t = [] @ ws" "block (sectors t) 50 = view demo_klog 50"
    "\<forall>k q. \<forall>r :: klog. bio q {} (\<lambda>_. 0) r \<and> log_start r = 2 \<and> log_dev r = 1 \<and>
       sectors r = apply_writes (take k ws) (\<lambda>_. replicate 512 0) \<longrightarrow>
       (\<exists>u. recover_from_log r = Ret () u \<and> (\<forall>m. small m \<and> \<not> in_log demo_klog m \<longrightarrow>
          block (sectors u) m = (if k \<le> 2 * nat 1 then block (sectors demo_klog) m else view demo_klog m)))"
    using commit_atomic [OF demo_klog_ok(1,2) pos z] 50 unfolding demo_klog_simps by blast
  then show ?thesis using 50 b demo_klog_ok(3) by (intro exI [of _ t] exI [of _ ws]) fastforce
qed

text \<open>
  C24: recovery unpins buffers that nothing pinned.  After \<^verbatim>\<open>recover_from_log()\<close> has installed a
  committed transaction, reading one of its blocks returns a buffer whose sleep-lock
  is held but whose reference count has wrapped around to 0, the mark of a free buffer.
\<close>

theorem recovered_block_unreferenced:
  fixes s :: "'a klog_scheme"
  assumes "bio p {} (\<lambda>_. 0) s" "L = loaded (block (sectors s) (hblk s)) s" "log_wf L" "i < nat (lh_n L)"
  shows "\<exists>u b v. recover_from_log s = Ret () u \<and> bread ROOTDEV (dblk L i) u = Ret b v \<and>
    sl_locked (slk v (Buf_lk b)) \<and> b_refcnt (bufs v b) = 0"
proof -
  let ?n = "nat (lh_n L)" and ?P = "unpinned L (nat (lh_n L)) (\<lambda>_. 0)"
  obtain u where u: "recover_from_log s = Ret () u" "bio p {} ?P u"
    using recover_ok [OF assms(1-3) refl] by blast
  note P = unpinned_none [OF assms(3) order_refl]
  have P1: "?P (dblk L i) = - 1" using P(3) assms(4) by auto
  obtain b v where v: "bread ROOTDEV (dblk L i) u = Ret b v" "bio p {b} ?P v" "b_blockno (bufs v b) = dblk L i"
    by (rule bread_step [OF u(2) log_wf_D(10) [OF assms(3,4)] _ P(1)]) (use P1 in auto)
  have "b < NBUF" using bio_D(5) [OF v(2)] by simp
  then have "b_refcnt (bufs v b) = 0" "sl_locked (slk v (Buf_lk b))"
    using cache_inv_D(1) [OF bio_D(2) [OF v(2)], of b] bio_D(3) [OF v(2), of b] v(3) P1 by (simp_all add: buf_ok_def refs_def)
  then show ?thesis using u(1) v(1) by blast
qed

theorem recovered_block_unreferenced_witness:
  "\<exists>u b v. recover_from_log demo_rebooted = Ret () u \<and> bread ROOTDEV 50 u = Ret b v \<and>
     sl_locked (slk v (Buf_lk b)) \<and> b_refcnt (bufs v b) = 0"
proof -
  let ?bs = "block (sectors demo_rebooted) (hblk demo_rebooted)" and ?h = "put32 0 1 (put32 4 50 (replicate 512 0))"
  have "sectors demo_rebooted (secno (hblk demo_rebooted)) = ?h" by (simp add: hblk_def secno_def)
  then have "get32 off ?bs = get32 off ?h" if "off + 4 \<le> 512" for off
    using that get32_block [OF cache_inv_D(3) [OF bio_D(2) [OF demo_rebooted_ok]] that] by simp
  then have g: "get32 0 ?bs = 1" "get32 4 ?bs = 50" by (simp_all add: get_put32_other)
  have d: "dblk (loaded ?bs demo_rebooted) 0 = 50" using dblk_loaded [of 0 ?bs demo_rebooted] g by simp
  have "log_wf (loaded ?bs demo_rebooted)"
    using g d not_in_log_50 [of demo_rebooted] by (simp add: log_wf_def small_def LOGSIZE_def MAXOPBLOCKS_def inj_on_def)
  then show ?thesis using recovered_block_unreferenced [OF demo_rebooted_ok refl, of 0] g(1) d by simp
qed

end
