(* ===== verification/Txn.thy ===== *)
theory Txn
  imports Crash
begin

text \<open>
  Transactions: \<^verbatim>\<open>begin_op\<close>, changes of cached blocks recorded by \<^verbatim>\<open>log_write\<close>, \<^verbatim>\<open>end_op\<close>.
\<close>

section \<open>Recording a block\<close>

text \<open>The in-memory header and the cache may change; the rest of the log's state does not.\<close>

definition lframe :: "'a klog_scheme \<Rightarrow> 'a klog_scheme \<Rightarrow> bool" where
  "lframe s t \<longleftrightarrow> (\<exists>x y. bframe (s\<lparr>lh_n := x, lh_block := y\<rparr>) t)"

lemma lframe_refl [simp]: "lframe s s"
proof -
  have "s\<lparr>lh_n := lh_n s, lh_block := lh_block s\<rparr> = s" by simp
  then show ?thesis unfolding lframe_def by (metis bframe_refl)
qed

lemma lframe_bframe: "bframe s t \<Longrightarrow> lframe s t"
proof -
  assume "bframe s t"
  moreover have "s\<lparr>lh_n := lh_n s, lh_block := lh_block s\<rparr> = s" by simp
  ultimately show ?thesis unfolding lframe_def by metis
qed

lemma lframe_trans: "lframe s t \<Longrightarrow> lframe t u \<Longrightarrow> lframe s u"
  unfolding lframe_def using bframe_head(2) bframe_trans by fastforce

lemma lframe_D:
  assumes "lframe s t"
  shows "log_start t = log_start s" "log_size t = log_size s" "log_outstanding t = log_outstanding s"
    "log_committing t = log_committing s" "log_dev t = log_dev s" "procs t = procs s" "hblk t = hblk s" "lblk t = lblk s" "in_log t = in_log s"
proof -
  obtain x y where "bframe (s\<lparr>lh_n := x, lh_block := y\<rparr>) t" using assms by (auto simp: lframe_def)
  note f = bframe_klog [OF this]
  show "log_start t = log_start s" "log_size t = log_size s" "log_outstanding t = log_outstanding s"
    "log_committing t = log_committing s" "log_dev t = log_dev s" "procs t = procs s" using f by simp_all
  show "hblk t = hblk s" "lblk t = lblk s" "in_log t = in_log s" using f(1) by (simp_all add: hblk_def lblk_def in_log_def fun_eq_iff)
qed

lemma log_slot_new: "n \<notin> dblk s ` {..<nat (lh_n s)} \<Longrightarrow> log_slot s n = nat (lh_n s)"
proof -
  assume "n \<notin> dblk s ` {..<nat (lh_n s)}"
  then have "List.find (\<lambda>i. word_of_int (lh_block s i) = n) [0..<nat (lh_n s)] = None"
    by (auto simp: find_None_iff dblk_def)
  then show ?thesis by (simp add: log_slot_def)
qed

lemma log_slot_old:
  assumes "n \<in> dblk s ` {..<nat (lh_n s)}"
  shows "log_slot s n < nat (lh_n s)" "dblk s (log_slot s n) = n"
proof -
  obtain i where "List.find (\<lambda>i. word_of_int (lh_block s i) = n) [0..<nat (lh_n s)] = Some i"
    using assms by (cases "List.find (\<lambda>i. word_of_int (lh_block s i) = n) [0..<nat (lh_n s)]") (auto simp: find_None_iff dblk_def)
  moreover from this have "i < nat (lh_n s)" "dblk s i = n" by (auto simp: find_Some_iff dblk_def)
  ultimately show "log_slot s n < nat (lh_n s)" "dblk s (log_slot s n) = n"
    by (simp_all add: log_slot_def)
qed

lemma log_write_eq:
  fixes s :: "'a klog_scheme"
  assumes "quiet s" "\<And>l. lock_free l s" "lh_n s < int LOGSIZE" "lh_n s < log_size s - 1" "1 \<le> log_outstanding s"
    and "n = b_blockno (bufs s b)" "i = log_slot s n"
  shows "log_write b s = Ret () (if int i = lh_n s
      then (upd_buf b (\<lambda>q. q\<lparr>b_refcnt := b_refcnt q + 1\<rparr>) s)\<lparr>lh_n := lh_n s + 1, lh_block := (lh_block s)(i := sint n)\<rparr>
      else s\<lparr>lh_block := (lh_block s)(i := sint n)\<rparr>)"
proof -
  let ?a = "acquired Log_lock s" and ?g = "(lh_block s)(i := sint n)" and ?f = "\<lambda>q. q\<lparr>b_refcnt := b_refcnt q + 1\<rparr>"
  have q: "quiet ?a" using assms(1) by (simp add: quiet_acquired quiet_cpu_ok)
  have f1: "lh_block ?a = lh_block s" "lh_n ?a = lh_n s" by (rule acquired_field, simp)+
  have "log_slot ?a x = log_slot s x" for x unfolding log_slot_def f1 by (rule refl)
  then have f: "lh_block ?a = lh_block s" "lh_n ?a = lh_n s" "log_slot ?a = log_slot s" "bufs ?a = bufs s"
    using f1 by auto
  have c: "bpin b (?a\<lparr>lh_block := ?g\<rparr>) = Ret () (upd_buf b ?f (?a\<lparr>lh_block := ?g\<rparr>))"
  proof -
    have "quiet (?a\<lparr>lh_block := ?g\<rparr>)" "lock_free Bcache_lock (?a\<lparr>lh_block := ?g\<rparr>)"
      using q assms(2) quiet_cong [of "?a\<lparr>lh_block := ?g\<rparr>" ?a] by (simp_all add: lock_free_acquired)
    then show ?thesis by (simp add: bpin_def acquire_quiet upd_buf_critical)
  qed
  have r1: "release Log_lock (?a\<lparr>lh_block := ?g\<rparr>) = Ret () (s\<lparr>lh_block := ?g\<rparr>)"
    using assms(1,2) by (intro critical_quiet) simp_all
  have r2: "release Log_lock ((upd_buf b ?f ?a)\<lparr>lh_n := lh_n s + 1, lh_block := ?g\<rparr>) =
      Ret () ((upd_buf b ?f s)\<lparr>lh_n := lh_n s + 1, lh_block := ?g\<rparr>)"
    by (rule critical_quiet [where body = "\<lambda>t. (upd_buf b ?f t)\<lparr>lh_n := lh_n s + 1, lh_block := ?g\<rparr>", OF assms(1,2)])
      (simp_all add: upd_buf_def)
  have e: "(upd_buf b ?f (?a\<lparr>lh_block := ?g\<rparr>))\<lparr>lh_n := lh_n s + 1\<rparr> = (upd_buf b ?f ?a)\<lparr>lh_n := lh_n s + 1, lh_block := ?g\<rparr>"
    "lh_n (upd_buf b ?f (?a\<lparr>lh_block := ?g\<rparr>)) = lh_n s"
    by (simp_all add: upd_buf_def f)
  show ?thesis using assms(3-5) acquire_quiet [OF assms(1,2)] c r1 r2 e
    by (simp add: log_write_def Let_def f assms(6,7) del: fun_upd_apply)
qed

lemma log_write_ok:
  fixes s :: "'a klog_scheme"
  assumes "bio p H (pins s) s" "log_wf s" "b \<in> H" "n = b_blockno (bufs s b)" "\<not> in_log s n"
    and "lh_n s < int LOGSIZE - 1" "lh_n s < log_size s - 1" "1 \<le> log_outstanding s"
  shows "\<exists>t. log_write b s = Ret () t \<and> bio p H (pins t) t \<and> log_wf t \<and> lframe s t \<and> emits s t [] \<and> view t = view s \<and>
    pins t = (pins s)(n := 1) \<and> lh_n t \<le> lh_n s + 1 \<and> (\<forall>c. b_blockno (bufs t c) = b_blockno (bufs s c)) \<and>
    (\<forall>c. b_data (bufs t c) = b_data (bufs s c))"
proof -
  note I = fs_idle_D [OF bio_D(1) [OF assms(1)]] and W = log_wf_D [OF assms(2)] and h = held_D [OF assms(1,3)]
  let ?i = "log_slot s n"
  have L: "LOGSIZE = 30" by (simp add: LOGSIZE_def MAXOPBLOCKS_def)
  note eq = log_write_eq [OF I(6,2) _ assms(7,8,4) refl]
  show ?thesis
  proof (cases "n \<in> dblk s ` {..<nat (lh_n s)}")
    case True
    let ?t = "s\<lparr>lh_block := (lh_block s)(?i := sint n)\<rparr>"
    note o = log_slot_old [OF True]
    have "dblk ?t = dblk s" using o(2) by (auto simp: dblk_def fun_eq_iff)
    moreover from this have "pins ?t = pins s" by (simp add: pins_def fun_eq_iff)
    ultimately have "pins ?t = pins s" "log_wf ?t" using assms(2) by (simp_all add: log_wf_def in_log_def)
    moreover have "log_write b s = Ret () ?t" using eq assms(6) o(1) W(5) L by simp
    moreover have "bio p H (pins s) ?t" using bio_cong [of ?t s] assms(1) by simp
    moreover have "view ?t = view s" "emits s ?t []" by (simp_all add: view_def emits_def fun_eq_iff)
    moreover have "lframe s ?t"
    proof -
      have "?t = s\<lparr>lh_n := lh_n s, lh_block := (lh_block s)(?i := sint n)\<rparr>" by simp
      then show ?thesis unfolding lframe_def using bframe_refl by metis
    qed
    moreover have "pins s n = 1" using True by (simp add: pins_def)
    ultimately show ?thesis by (intro exI [of _ ?t]) auto
  next
    case False
    let ?u = "upd_buf b (\<lambda>q. q\<lparr>b_refcnt := b_refcnt q + 1\<rparr>) s" and ?N = "nat (lh_n s)"
    let ?t = "?u\<lparr>lh_n := lh_n s + 1, lh_block := (lh_block s)(?i := sint n)\<rparr>"
    have i: "?i = ?N" "int ?N = lh_n s" using log_slot_new [OF False] W(5) by simp_all
    have t: "log_write b s = Ret () ?t" using eq assms(6) i L by simp
    have d: "dblk ?t j = (if j = ?N then n else dblk s j)" for j using i by (simp add: dblk_def)
    have N: "nat (lh_n ?t) = Suc ?N" using W(5) by simp
    have il: "in_log ?t = in_log s" by (simp add: in_log_def upd_buf_def fun_eq_iff)
    have "dblk ?t ` {..<Suc ?N} = insert n (dblk s ` {..<?N})" by (auto simp: d image_iff less_Suc_eq)
    then have pins: "pins ?t = (pins s)(n := 1)" unfolding pins_def N by (auto simp: fun_eq_iff)
    moreover have "log_wf ?t"
    proof -
      have "inj_on (dblk ?t) {..<Suc ?N}"
        unfolding inj_on_def d using False W(12) by (auto simp: less_Suc_eq)
      moreover have "\<forall>j<Suc ?N. small (dblk ?t j) \<and> \<not> in_log s (dblk ?t j)"
        using d W(10,11) h(3) assms(4,5) by (auto simp: less_Suc_eq)
      ultimately show ?thesis
        using assms(2,6) unfolding log_wf_def N il by (auto simp: upd_buf_def)
    qed
    moreover have "pins s n = 0" using False by (simp add: pins_def)
    then have "bio p H (pins ?t) ?t" "view ?t = view s"
      using bio_repin [OF assms(1,3,4) refl, of 1] unfolding pins by (simp_all, simp add: fun_eq_iff)
    moreover have "lframe s ?t"
    proof -
      have "bframe s ?u" by simp
      then show ?thesis unfolding lframe_def using bframe_head(2) by blast
    qed
    moreover have "emits s ?t []" by (simp add: emits_def)
    ultimately show ?thesis using t by (intro exI [of _ ?t]) simp
  qed
qed

section \<open>Operations\<close>

lemma begin_op_eq:
  fixes s :: "'a klog_scheme"
  assumes "quiet s" "lock_free Log_lock s" "\<not> log_committing s" "lh_n s + (log_outstanding s + 1) * int MAXOPBLOCKS \<le> int LOGSIZE"
  shows "begin_op s = Ret () (s\<lparr>log_outstanding := log_outstanding s + 1\<rparr>)"
proof -
  let ?a = "acquired Log_lock s"
  have f: "log_committing ?a = log_committing s" "lh_n ?a = lh_n s" "log_outstanding ?a = log_outstanding s" by (rule acquired_field, simp)+
  have "release Log_lock (?a\<lparr>log_outstanding := log_outstanding s + 1\<rparr>) = Ret () (s\<lparr>log_outstanding := log_outstanding s + 1\<rparr>)"
    using assms(1,2) by (intro critical_quiet) simp_all
  then show ?thesis using assms acquire_quiet [OF assms(1,2)] by (simp add: begin_op_def begin_op_loop_def f)
qed

text \<open>The change of one block within an operation, as the comment of \<^verbatim>\<open>log_write()\<close> shows it.\<close>

definition log_block :: "uint32 \<times> byte list \<Rightarrow> 'a klog_scheme \<Rightarrow> (unit option, 'a klog_scheme) outcome" where
  "log_block w s =
     bnd (bread ROOTDEV (fst w) s) (\<lambda>bp s.
       bnd (log_write bp (upd_buf bp (\<lambda>q. q\<lparr>b_data := snd w\<rparr>) s)) (\<lambda>_ s.
         bnd (brelse bp s) (\<lambda>_ s. Ret None s)))"

definition transact :: "(uint32 \<times> byte list) list \<Rightarrow> 'a klog_scheme \<Rightarrow> (unit, 'a klog_scheme) outcome" where
  "transact ws s = bnd (begin_op s) (\<lambda>_ s. bnd (foreach ws log_block s) (\<lambda>_ s. end_op s))"

definition in_txn :: "nat \<Rightarrow> 'a klog_scheme \<Rightarrow> bool" where
  "in_txn p s \<longleftrightarrow> bio p {} (pins s) s \<and> log_wf s \<and> log_size s = int LOGSIZE \<and> 1 \<le> log_outstanding s"

lemma log_block_ok:
  fixes s :: "'a klog_scheme"
  assumes "in_txn p s" "small n" "\<not> in_log s n" "length bs = BSIZE" "lh_n s < int LOGSIZE - 1"
  shows "\<exists>t. log_block (n, bs) s = Ret None t \<and> in_txn p t \<and> lframe s t \<and> emits s t [] \<and> view t = (view s)(n := bs) \<and>
    lh_n t \<le> lh_n s + 1"
proof -
  have A: "bio p {} (pins s) s" "log_wf s" "log_size s = int LOGSIZE" "1 \<le> log_outstanding s" using assms(1) by (simp_all add: in_txn_def)
  have np: "npins (pins s) < NBUF" using pins_card(2) [OF A(2)] log_wf_D(4) [OF A(2)] LOGSIZE_NBUF by linarith
  obtain b t where t: "bread ROOTDEV n s = Ret b t" "bio p {b} (pins s) t" "bframe s t" "emits s t []" "b_blockno (bufs t b) = n" "view t = view s"
    by (rule bread_step [OF A(1) assms(2) _ pins_card(1) [OF A(2)]]) (use np in auto)
  let ?t = "upd_buf b (\<lambda>q. q\<lparr>b_data := bs\<rparr>) t"
  have ft: "bframe s ?t" using t(3) bframe_trans bframe_upd(1) by metis
  note F = bframe_klog [OF ft]
  have pt: "pins ?t = pins s" using F(6,7) by (simp add: pins_def dblk_def fun_eq_iff)
  have m: "bio p {b} (pins ?t) ?t" "view ?t = (view s)(n := bs)" "\<not> in_log ?t n"
    using bio_modify [OF t(2) _ assms(4), of b] t(5,6) pt assms(3) F(1) by (simp_all add: in_log_def)
  have "\<exists>u. log_write b ?t = Ret () u \<and> bio p {b} (pins u) u \<and> log_wf u \<and> lframe ?t u \<and> emits ?t u [] \<and> view u = view ?t \<and>
      pins u = (pins ?t)(n := 1) \<and> lh_n u \<le> lh_n ?t + 1 \<and> (\<forall>c. b_blockno (bufs u c) = b_blockno (bufs ?t c)) \<and>
      (\<forall>c. b_data (bufs u c) = b_data (bufs ?t c))"
    using t(5) F A(3,4) assms(5) log_wf_bframe [OF ft] A(2) m(3)
    by (intro log_write_ok [OF m(1)]) (simp_all add: LOGSIZE_def MAXOPBLOCKS_def)
  then obtain u where u: "log_write b ?t = Ret () u" "bio p {b} (pins u) u" "log_wf u" "lframe ?t u" "emits ?t u []"
    "view u = view ?t" "pins u = (pins ?t)(n := 1)" "lh_n u \<le> lh_n ?t + 1" "b_blockno (bufs u b) = n" using t(5) by auto
  obtain v where v: "brelse b u = Ret () v" "bio p {} (pins u) v" "bframe u v" "emits u v []" "view v = view u"
    by (rule brelse_step [of p b "{}" "pins u" u n]) (use u(2,7,9) in auto)
  have fr: "lframe s v" using lframe_bframe [OF ft] u(4) lframe_bframe [OF v(3)] lframe_trans by metis
  have "pins v = pins u" using bframe_klog(6,7) [OF v(3)] by (simp add: pins_def dblk_def fun_eq_iff)
  then have "in_txn p v" using v(2) log_wf_bframe [OF v(3)] u(3) lframe_D(2,3) [OF fr] A(3,4) by (simp add: in_txn_def)
  moreover have "log_block (n, bs) s = Ret None v" using t(1) u(1) v(1) by (simp add: log_block_def)
  moreover have "emits s v []" using t(4) u(5) v(4) by (simp add: emits_def)
  moreover have "lh_n v \<le> lh_n s + 1" using u(8) F(6) bframe_klog(6) [OF v(3)] by simp
  ultimately show ?thesis using fr v(5) u(6) m(2) by auto
qed

definition put_all :: "(uint32 \<times> byte list) list \<Rightarrow> (uint32 \<Rightarrow> byte list) \<Rightarrow> uint32 \<Rightarrow> byte list" where
  "put_all ws a = fold (\<lambda>(n, bs) a. a(n := bs)) ws a"

definition writes_ok :: "'a klog_scheme \<Rightarrow> (uint32 \<times> byte list) list \<Rightarrow> bool" where
  "writes_ok s ws \<longleftrightarrow> (\<forall>(n, bs)\<in>set ws. small n \<and> \<not> in_log s n \<and> length bs = BSIZE)"

lemma log_blocks_ok:
  fixes s :: "'a klog_scheme"
  assumes "in_txn p s" "writes_ok s ws" "lh_n s + int (length ws) \<le> int LOGSIZE - 1"
  shows "\<exists>t. foreach ws log_block s = Ret None t \<and> in_txn p t \<and> lframe s t \<and> emits s t [] \<and> view t = put_all ws (view s) \<and>
    lh_n t \<le> lh_n s + int (length ws)"
  using assms
proof (induction ws arbitrary: s)
  case Nil
  then show ?case by (simp add: put_all_def)
next
  case (Cons w ws)
  obtain n bs where w: "w = (n, bs)" by (cases w)
  obtain t where t: "log_block w s = Ret None t" "in_txn p t" "lframe s t" "emits s t []" "view t = (view s)(n := bs)" "lh_n t \<le> lh_n s + 1"
    using log_block_ok [OF Cons.prems(1), of n bs] Cons.prems(2,3) by (auto simp: writes_ok_def w)
  have "writes_ok t ws" using Cons.prems(2) lframe_D(9) [OF t(3)] by (auto simp: writes_ok_def)
  then obtain u where u: "foreach ws log_block t = Ret None u" "in_txn p u" "lframe t u" "emits t u []" "view u = put_all ws (view t)"
    "lh_n u \<le> lh_n t + int (length ws)"
    using Cons.IH [OF t(2)] Cons.prems(3) t(6) by auto
  have "foreach (w # ws) log_block s = Ret None u" using t(1) u(1) by simp
  moreover have "emits s u []" using t(4) u(4) by (simp add: emits_def)
  ultimately show ?case using u(2,5,6) lframe_trans [OF t(3) u(3)] t(5,6) by (intro exI [of _ u]) (simp add: put_all_def w)
qed

lemma log_wf_flags [simp]:
  "log_wf (s\<lparr>log_outstanding := x\<rparr>) = log_wf s" "log_wf (s\<lparr>log_committing := y\<rparr>) = log_wf s"
  "pins (s\<lparr>log_outstanding := x\<rparr>) = pins s" "pins (s\<lparr>log_committing := y\<rparr>) = pins s"
  "view (s\<lparr>log_outstanding := x\<rparr>) = view s" "view (s\<lparr>log_committing := y\<rparr>) = view s"
  "in_log (s\<lparr>log_outstanding := x\<rparr>) = in_log s" "in_log (s\<lparr>log_committing := y\<rparr>) = in_log s"
  "hblk (s\<lparr>log_outstanding := x\<rparr>) = hblk s" "hblk (s\<lparr>log_committing := y\<rparr>) = hblk s"
  "commit_writes (s\<lparr>log_outstanding := x\<rparr>) = commit_writes s" "commit_writes (s\<lparr>log_committing := y\<rparr>) = commit_writes s"
proof -
  have d: "dblk (s\<lparr>log_outstanding := x\<rparr>) = dblk s" "dblk (s\<lparr>log_committing := y\<rparr>) = dblk s"
    "lblk (s\<lparr>log_outstanding := x\<rparr>) = lblk s" "lblk (s\<lparr>log_committing := y\<rparr>) = lblk s" by (simp_all add: dblk_def lblk_def fun_eq_iff)
  show v: "view (s\<lparr>log_outstanding := x\<rparr>) = view s" "view (s\<lparr>log_committing := y\<rparr>) = view s" by (simp_all add: view_def fun_eq_iff)
  show h: "hblk (s\<lparr>log_outstanding := x\<rparr>) = hblk s" "hblk (s\<lparr>log_committing := y\<rparr>) = hblk s" by (simp_all add: hblk_def)
  show i: "in_log (s\<lparr>log_outstanding := x\<rparr>) = in_log s" "in_log (s\<lparr>log_committing := y\<rparr>) = in_log s"
    by (simp_all add: in_log_def fun_eq_iff)
  show "log_wf (s\<lparr>log_outstanding := x\<rparr>) = log_wf s" "log_wf (s\<lparr>log_committing := y\<rparr>) = log_wf s"
    by (simp_all add: log_wf_def d i)
  show "pins (s\<lparr>log_outstanding := x\<rparr>) = pins s" "pins (s\<lparr>log_committing := y\<rparr>) = pins s" by (simp_all add: pins_def d fun_eq_iff)
  show "commit_writes (s\<lparr>log_outstanding := x\<rparr>) = commit_writes s" "commit_writes (s\<lparr>log_committing := y\<rparr>) = commit_writes s"
    by (simp_all add: commit_writes_def log_writes_def install_writes_def new_head_def d v h)
qed

definition txn_writes :: "'a klog_scheme \<Rightarrow> (uint64 \<times> byte list) list" where
  "txn_writes s = (if 0 < lh_n s then commit_writes s else [])"

lemma commit_all:
  fixes s :: "'a klog_scheme"
  assumes "bio p {} (pins s) s" "log_wf s"
  shows "\<exists>t. commit s = Ret () t \<and> bio p {} (\<lambda>_. 0) t \<and> bframe (s\<lparr>lh_n := 0\<rparr>) t \<and> emits s t (txn_writes s) \<and>
    (\<forall>m. small m \<and> \<not> in_log s m \<longrightarrow> view t m = view s m)"
proof (cases "0 < lh_n s")
  case True
  then show ?thesis using commit_ok [OF assms] by (simp add: txn_writes_def)
next
  case False
  then have "lh_n s = 0" using log_wf_D(5) [OF assms(2)] by simp
  moreover from this have "pins s = (\<lambda>_. 0)" by (simp add: pins_def fun_eq_iff)
  moreover have "bframe (s\<lparr>lh_n := 0\<rparr>) s"
  proof -
    have "s\<lparr>lh_n := 0\<rparr> = s" using \<open>lh_n s = 0\<close> by simp
    then show ?thesis by (metis bframe_refl)
  qed
  ultimately show ?thesis using assms(1) by (intro exI [of _ s]) (simp add: commit_def txn_writes_def)
qed

lemma end_op_ok:
  fixes s :: "'a klog_scheme"
  assumes "bio p {} (pins s) s" "log_wf s" "log_outstanding s = 1" "\<not> log_committing s"
  shows "\<exists>t. end_op s = Ret () t \<and> bio p {} (\<lambda>_. 0) t \<and> bframe (s\<lparr>lh_n := 0, log_outstanding := 0\<rparr>) t \<and>
    emits s t (txn_writes s) \<and> (\<forall>m. small m \<and> \<not> in_log s m \<longrightarrow> view t m = view s m)"
proof -
  note I = fs_idle_D [OF bio_D(1) [OF assms(1)]]
  let ?a = "acquired Log_lock s" and ?s = "s\<lparr>log_outstanding := 0, log_committing := True\<rparr>"
  have f: "log_committing ?a = log_committing s" "log_outstanding ?a = log_outstanding s" by (rule acquired_field, simp)+
  have 1: "release Log_lock (?a\<lparr>log_outstanding := 0, log_committing := True\<rparr>) = Ret () ?s"
    using I by (intro critical_quiet) simp_all
  obtain t where t: "commit ?s = Ret () t" "bio p {} (\<lambda>_. 0) t" "bframe (?s\<lparr>lh_n := 0\<rparr>) t" "emits s t (txn_writes s)"
    "\<forall>m. small m \<and> \<not> in_log s m \<longrightarrow> view t m = view s m"
    using commit_all [of p ?s] assms(1,2) by (auto simp: txn_writes_def emits_def)
  note J = fs_idle_D [OF bio_D(1) [OF t(2)]]
  let ?b = "acquired Log_lock t" and ?u = "t\<lparr>log_committing := False\<rparr>"
  let ?c = "?b\<lparr>log_committing := False\<rparr>"
  have q: "quiet ?c" "procs_free ?c" "procs ?c = procs t"
    using quiet_cong(1) [of ?c ?b] quiet_acquired [OF quiet_cpu_ok [OF J(6)]] procs_free_acquired [OF J(7)]
    by (simp_all add: procs_free_def lock_free_def)
  have "calm (procs ?c)" using J(3) q(3) by simp
  then have 2: "wakeup Log_chan ?c = Ret () ?c" using wakeup_eq [OF q(1,2)] by (simp add: calm_woken)
  have 3: "release Log_lock ?c = Ret () ?u" using J by (intro critical_quiet) simp_all
  have "end_op s = Ret () ?u"
    using I J acquire_quiet [OF I(6,2)] acquire_quiet [OF J(6,2)] 1 2 3 t(1) f assms(3,4) by (simp add: end_op_def Let_def)
  moreover have "bframe (s\<lparr>lh_n := 0, log_outstanding := 0\<rparr>) ?u"
  proof -
    obtain K B d v ss w where T: "t = ?s\<lparr>lh_n := 0, slk := K, bufs := B, disk := d, vdev := v, sectors := ss, wlog := w\<rparr>"
      "\<forall>l. (\<forall>b. l \<noteq> Buf_lk b) \<longrightarrow> K l = slk s l"
      using t(3) unfolding bframe_def by auto
    have "log_committing s = False" using assms(4) by simp
    then have "?u = (s\<lparr>lh_n := 0, log_outstanding := 0\<rparr>)\<lparr>slk := K, bufs := B, disk := d, vdev := v, sectors := ss, wlog := w\<rparr>"
      unfolding T(1) by (cases s) simp
    then show ?thesis unfolding bframe_def using T(2) by (intro exI conjI) auto
  qed
  moreover have "emits s ?u (txn_writes s)" using t(4) by (simp add: emits_def)
  ultimately show ?thesis using t(2,5) by (intro exI [of _ ?u]) simp
qed

section \<open>Whole transactions\<close>

text \<open>Between transactions: nothing is logged, in memory or on the disk.\<close>

definition log_idle :: "nat \<Rightarrow> 'a klog_scheme \<Rightarrow> bool" where
  "log_idle p s \<longleftrightarrow> bio p {} (\<lambda>_. 0) s \<and> log_wf s \<and> lh_n s = 0 \<and> log_outstanding s = 0 \<and> \<not> log_committing s \<and>
     log_size s = int LOGSIZE \<and> get32 0 (block (sectors s) (hblk s)) = 0"

lemma txn_clears_head:
  assumes "bio p {} (pins s) s" "log_wf s" "get32 0 (block (sectors s) (hblk s)) = 0"
    "emits s t (txn_writes s)" "sectored (sectors t)"
  shows "get32 0 (block (sectors t) (hblk s)) = 0"
proof (cases "0 < lh_n s")
  case True
  have ss: "sectors t = apply_writes (take (length (commit_writes s) + 4 * nat (lh_n s) + 3) (commit_writes s)) (sectors s)"
    using assms(4) True by (simp add: emits_def txn_writes_def)
  note H = new_head_get(1) [OF assms(1,2)]
  have "sectors t (secno (hblk s)) = take 512 (put32 0 0 (new_head s))" by (rule crash_after(1) [OF assms(2) _ ss]) simp
  then show ?thesis
    using get32_block [OF assms(5), of 0] get32_take [of "put32 0 0 (new_head s)" 0] H by (simp add: BSIZE_def)
next
  case False
  then show ?thesis using assms(3,4) by (simp add: emits_def txn_writes_def)
qed

lemma put_all_cong: "(\<forall>m. Q m \<longrightarrow> a m = b m) \<Longrightarrow> \<forall>m. Q m \<longrightarrow> put_all ws a m = put_all ws b m"
  by (induction ws arbitrary: a b) (auto simp: put_all_def)

lemma transact_ok:
  fixes s :: "'a klog_scheme"
  assumes "log_idle p s" "writes_ok s ws" "length ws < LOGSIZE"
  obtains m t where "transact ws s = Ret () t" "log_idle p t" "bio p {} (pins m) m" "log_wf m" "emits s m []"
    "view m = put_all ws (block (sectors s))" "lframe (s\<lparr>log_outstanding := 1\<rparr>) m" "emits m t (txn_writes m)"
    "log_start t = log_start s" "\<forall>n. small n \<and> \<not> in_log s n \<longrightarrow> block (sectors t) n = put_all ws (block (sectors s)) n"
proof -
  have A: "bio p {} (\<lambda>_. 0) s" "log_wf s" "lh_n s = 0" "log_outstanding s = 0" "\<not> log_committing s" "log_size s = int LOGSIZE"
    "get32 0 (block (sectors s) (hblk s)) = 0" using assms(1) by (simp_all add: log_idle_def)
  note I = fs_idle_D [OF bio_D(1) [OF A(1)]]
  let ?s = "s\<lparr>log_outstanding := 1\<rparr>"
  have L: "LOGSIZE = 30" "MAXOPBLOCKS = 10" by (simp_all add: LOGSIZE_def MAXOPBLOCKS_def)
  have b: "begin_op s = Ret () ?s" using begin_op_eq [OF I(6,2)] A(3-5) L by simp
  have p0: "pins s = (\<lambda>_. 0)" using A(3) by (simp add: pins_def fun_eq_iff)
  have "in_txn p ?s" using A p0 by (simp add: in_txn_def)
  moreover have "writes_ok ?s ws" using assms(2) by (simp add: writes_ok_def)
  ultimately obtain m where m: "foreach ws log_block ?s = Ret None m" "in_txn p m" "lframe ?s m" "emits ?s m []" "view m = put_all ws (view ?s)"
    using log_blocks_ok [of p ?s ws] assms(3) A(3) L by auto
  note F = lframe_D [OF m(3)]
  have M: "bio p {} (pins m) m" "log_wf m" "log_outstanding m = 1" "\<not> log_committing m" "sectors m = sectors s" "hblk m = hblk s" "in_log m = in_log s"
    using m(2,4) F A(5) by (simp_all add: in_txn_def emits_def)
  obtain t where t: "end_op m = Ret () t" "bio p {} (\<lambda>_. 0) t" "bframe (m\<lparr>lh_n := 0, log_outstanding := 0\<rparr>) t" "emits m t (txn_writes m)"
    "\<forall>n. small n \<and> \<not> in_log m n \<longrightarrow> view t n = view m n"
    using end_op_ok [OF M(1-4)] by blast
  note T = bframe_klog [OF t(3)]
  have vs: "view m = put_all ws (block (sectors s))" 
  proof -
    have "view s = block (sectors s)" using view_clean [OF A(1)] by auto
    then show ?thesis using m(5) by simp
  qed
  have eq: "log_start t = log_start s" "log_dev t = log_dev s" "lh_n t = 0" "log_size t = log_size s" using T F by simp_all
  then have h: "hblk t = hblk s" by (simp add: hblk_def)
  have "log_wf t" using A(2) eq by (simp add: log_wf_def L)
  moreover have "get32 0 (block (sectors t) (hblk s)) = 0"
    using txn_clears_head [OF M(1,2) _ t(4) cache_inv_D(3) [OF bio_D(2) [OF t(2)]]] A(7) M(5,6) by simp
  ultimately have "log_idle p t" using t(2) eq T(3,4) A(6) M(4) h by (simp add: log_idle_def)
  moreover have "transact ws s = Ret () t" using b m(1) t(1) by (simp add: transact_def)
  moreover have "emits s m []" using m(4) by (simp add: emits_def)
  moreover have "\<forall>n. small n \<and> \<not> in_log s n \<longrightarrow> block (sectors t) n = put_all ws (block (sectors s)) n"
    using t(5) M(7) view_clean [OF t(2)] vs by simp
  ultimately show thesis using that M(1,2) vs m(3) t(4) eq(1) by blast
qed

section \<open>Properties\<close>

text \<open>
  C2: an operation on the file system is a transaction.  From an idle log, \<^verbatim>\<open>begin_op()\<close>, changes
  of blocks each recorded by \<^verbatim>\<open>log_write()\<close>, and \<^verbatim>\<open>end_op()\<close> return without panic or waiting, leave
  an idle log, and the disk holds all the changes, repeated changes of a block absorbed.
  After a crash that stops the disk after any number of the sector writes, recovery
  leaves the disk with none of the changes or with all of them.
\<close>

theorem transaction_atomic:
  fixes s :: "'a klog_scheme"
  assumes "log_idle p s" "writes_ok s ws" "length ws < LOGSIZE"
  shows "\<exists>t es. transact ws s = Ret () t \<and> log_idle p t \<and> wlog t = wlog s @ es \<and>
    (\<forall>n. small n \<and> \<not> in_log s n \<longrightarrow> block (sectors t) n = put_all ws (block (sectors s)) n) \<and>
    (\<forall>k q. \<forall>r :: 'a klog_scheme.
       bio q {} (\<lambda>_. 0) r \<and> log_start r = log_start s \<and> log_dev r = 1 \<and> sectors r = apply_writes (take k es) (sectors s) \<longrightarrow>
       (\<exists>u. recover_from_log r = Ret () u \<and>
          ((\<forall>n. small n \<and> \<not> in_log s n \<longrightarrow> block (sectors u) n = block (sectors s) n) \<or>
           (\<forall>n. small n \<and> \<not> in_log s n \<longrightarrow> block (sectors u) n = put_all ws (block (sectors s)) n))))"
proof -
  obtain m t where t: "transact ws s = Ret () t" "log_idle p t" "bio p {} (pins m) m" "log_wf m" "emits s m []"
    "view m = put_all ws (block (sectors s))" "lframe (s\<lparr>log_outstanding := 1\<rparr>) m" "emits m t (txn_writes m)"
    "\<forall>n. small n \<and> \<not> in_log s n \<longrightarrow> block (sectors t) n = put_all ws (block (sectors s)) n"
    by (rule transact_ok [OF assms])
  note F = lframe_D [OF t(7)]
  have M: "sectors m = sectors s" "in_log m = in_log s" "hblk m = hblk s" "log_start m = log_start s" "wlog t = wlog s @ txn_writes m"
    using F t(5,8) by (simp_all add: emits_def)
  have z: "get32 0 (block (sectors m) (hblk m)) = 0" using assms(1) M by (simp add: log_idle_def)
  have "\<exists>u. recover_from_log r = Ret () u \<and>
      ((\<forall>n. small n \<and> \<not> in_log s n \<longrightarrow> block (sectors u) n = block (sectors s) n) \<or>
       (\<forall>n. small n \<and> \<not> in_log s n \<longrightarrow> block (sectors u) n = put_all ws (block (sectors s)) n))"
    if r: "bio q {} (\<lambda>_. 0) r" "log_start r = log_start s" "log_dev r = 1" "sectors r = apply_writes (take k (txn_writes m)) (sectors s)"
    for k q and r :: "'a klog_scheme"
  proof -
    let ?k = "if 0 < lh_n m then k else 0"
    have "sectors r = apply_writes (take ?k (commit_writes m)) (sectors m)" using r(4) M(1) by (simp add: txn_writes_def)
    then obtain u where u: "recover_from_log r = Ret () u" "\<forall>n. small n \<and> \<not> in_log m n \<longrightarrow>
        block (sectors u) n = (if ?k \<le> 2 * nat (lh_n m) then block (sectors m) n else view m n)"
      using crash_recovers [OF t(3,4) z r(1) _ r(3)] r(2) M(4) by metis
    then show ?thesis unfolding M(1,2) t(6) by (cases "?k \<le> 2 * nat (lh_n m)") auto
  qed
  then show ?thesis using t(1,2,9) M(5) by (intro exI [of _ t] exI [of _ "txn_writes m"]) blast
qed

definition demo_idle :: klog where
  "demo_idle = kdisk.extend (demo_kdisk\<lparr>sectors := \<lambda>_. replicate 512 0\<rparr>) (klog.fields 2 30 0 False 1 0 (\<lambda>_. 0))"

lemma demo_idle_simps [simp]:
  "bufs demo_idle = demo_bufs" "sectors demo_idle = (\<lambda>_. replicate 512 0)" "lh_n demo_idle = 0" "log_start demo_idle = 2"
  "log_dev demo_idle = 1" "slk demo_idle = slk demo_kdisk" "hart demo_idle = hart demo_kdisk" "log_outstanding demo_idle = 0"
  "log_committing demo_idle = False" "log_size demo_idle = 30"
  "csrs demo_idle = csrs demo_kdisk" "cpus demo_idle = cpus demo_kdisk" "lk demo_idle = lk demo_kdisk"
  "procs demo_idle = procs demo_kdisk" "disk demo_idle = disk demo_kdisk" "vdev demo_idle = vdev demo_kdisk" "wlog demo_idle = []"
  by (simp_all add: demo_idle_def kdisk.defs klog.defs demo_kdisk_def)

lemma demo_log_idle: "log_idle 5 demo_idle"
proof -
  have "bio 5 {} (\<lambda>_. 0) demo_idle"
    by (rule bio_demo, rule fs_idle_demo) (simp_all add: sectored_def, simp add: demo_kdisk_def)
  moreover have "get32 0 (block (sectors demo_idle) (hblk demo_idle)) = 0"
    by (simp add: block_def get32_def sub_bytes_def dec_def numeral_eq_Suc)
  ultimately show ?thesis by (simp add: log_idle_def log_wf_def LOGSIZE_def MAXOPBLOCKS_def)
qed

theorem transaction_atomic_witness:
  "\<exists>t es. transact [(50, replicate 1024 1), (51, replicate 1024 2)] demo_idle = Ret () t \<and> log_idle 5 t \<and> wlog t = es \<and>
     block (sectors t) 50 = replicate 1024 1 \<and> block (sectors t) 51 = replicate 1024 2"
proof -
  have n: "\<not> in_log demo_idle n" if "n = 50 \<or> n = 51" for n
    using that word_of_int_small_inj [of "2 + int i" "uint n" for i]
    by (auto simp: in_log_def LOGSIZE_def MAXOPBLOCKS_def word_eq_iff_unsigned)
  have "writes_ok demo_idle [(50, replicate 1024 1), (51, replicate 1024 2)]" using n by (simp add: writes_ok_def small_def BSIZE_def)
  from transaction_atomic [OF demo_log_idle this] n show ?thesis
    by (auto simp: LOGSIZE_def MAXOPBLOCKS_def put_all_def small_def)
qed

end
