(* ===== verification/Fstep.thy ===== *)
theory Fstep
  imports Txn Fs
begin

text \<open>
  The steps of the file system: a thread that holds the buffers \<open>H\<close> reads a block and, inside a
  transaction, changes it, records the change and releases the buffer.
\<close>

section \<open>Inside a transaction\<close>

definition bufheld :: "nat \<Rightarrow> nat set \<Rightarrow> 'a klog_scheme \<Rightarrow> bool" where
  "bufheld p H s \<longleftrightarrow> bio p H (pins s) s \<and> log_wf s"

definition txn :: "nat \<Rightarrow> nat set \<Rightarrow> 'a klog_scheme \<Rightarrow> bool" where
  "txn p H s \<longleftrightarrow> bufheld p H s \<and> log_size s = int LOGSIZE \<and> 1 \<le> log_outstanding s"

definition apart :: "nat set \<Rightarrow> 'a kdisk_scheme \<Rightarrow> uint32 \<Rightarrow> bool" where
  "apart H s n \<longleftrightarrow> (\<forall>b\<in>H. b_blockno (bufs s b) \<noteq> n)"

definition data_block :: "'a klog_scheme \<Rightarrow> uint32 \<Rightarrow> bool" where
  "data_block s n \<longleftrightarrow> small n \<and> \<not> in_log s n"

text \<open>\<open>k\<close> blocks at most were added to the log, nothing was written, and the held buffers stay.\<close>

definition moved :: "nat set \<Rightarrow> nat \<Rightarrow> 'a klog_scheme \<Rightarrow> 'a klog_scheme \<Rightarrow> bool" where
  "moved H k s t \<longleftrightarrow> lframe s t \<and> emits s t [] \<and> lh_n t \<le> lh_n s + int k \<and>
     (\<forall>b\<in>H. b_blockno (bufs t b) = b_blockno (bufs s b))"

lemma moved_refl [simp]: "moved H k s s"
  by (simp add: moved_def)

lemma moved_trans: "moved H k s t \<Longrightarrow> moved H l t u \<Longrightarrow> moved H (k + l) s u"
  unfolding moved_def using lframe_trans by (fastforce simp: emits_def)

lemma moved_mono: "moved H k s t \<Longrightarrow> G \<subseteq> H \<Longrightarrow> k \<le> l \<Longrightarrow> moved G l s t"
  unfolding moved_def by auto

lemma moved_log:
  assumes "moved H k s t"
  shows "lh_n t \<le> lh_n s + int k" "data_block t = data_block s" "apart H t = apart H s" "G \<subseteq> H \<Longrightarrow> apart G t = apart G s"
    "log_start t = log_start s" "sectors t = sectors s" "in_log t = in_log s" "procs t = procs s"
  using assms lframe_D [of s t]
  by (auto simp: moved_def data_block_def apart_def fun_eq_iff emits_def) (metis subsetD)+

lemma moved_kfs:
  fixes s t :: "'a kfs_scheme"
  assumes "moved H k s t"
  shows "sb t = sb s" "inodes t = inodes s"
proof -
  obtain x y K B d v ss w where "t = s\<lparr>lh_n := x, lh_block := y, slk := K, bufs := B, disk := d, vdev := v, sectors := ss, wlog := w\<rparr>"
    using assms unfolding moved_def lframe_def bframe_def by blast
  then show "sb t = sb s" "inodes t = inodes s" by simp_all
qed

lemma bufheld_D:
  assumes "bufheld p H s"
  shows "bio p H (pins s) s" "log_wf s" "0 \<le> lh_n s" "finpins (pins s)" "npins (pins s) = nat (lh_n s)"
proof -
  show "bio p H (pins s) s" and w: "log_wf s" using assms by (simp_all add: bufheld_def)
  show "0 \<le> lh_n s" "finpins (pins s)" "npins (pins s) = nat (lh_n s)"
    using log_wf_D(5) [OF w] pins_card [OF w] by simp_all
qed

lemma txn_D:
  assumes "txn p H s"
  shows "bio p H (pins s) s" "log_wf s" "log_size s = int LOGSIZE" "1 \<le> log_outstanding s" "bufheld p H s"
  using assms by (simp_all add: txn_def bufheld_def)

lemma pins_bframe: "bframe s t \<Longrightarrow> pins t = pins s"
  using bframe_klog(6,7) [of s t] by (simp add: pins_def dblk_def fun_eq_iff)

lemma bufheld_bframe: "bufheld p H s \<Longrightarrow> bframe s t \<Longrightarrow> bio p G (pins s) t \<Longrightarrow> bufheld p G t"
  using pins_bframe [of s t] log_wf_bframe [of s t] by (simp add: bufheld_def)

lemma txn_moved: "txn p H s \<Longrightarrow> moved K k s t \<Longrightarrow> bufheld p G t \<Longrightarrow> txn p G t"
  using lframe_D(2,3) [of s t] by (simp add: txn_def moved_def)

lemma bufheld_bread:
  fixes s :: "'a klog_scheme"
  assumes "bufheld p H s" "small n" "apart H s n" "lh_n s + int (card H) < int LOGSIZE"
  obtains b t where "bread ROOTDEV n s = Ret b t" "b \<notin> H" "bufheld p (insert b H) t" "moved H 0 s t" "bframe s t"
    "b_blockno (bufs t b) = n" "b_data (bufs t b) = view s n" "view t = view s"
    "pins t n = 1 \<or> b_data (bufs t b) = block (sectors t) n" "pins t = pins s"
proof -
  note T = bufheld_D [OF assms(1)]
  have N: "NBUF = 30" "LOGSIZE = 30" by (simp_all add: NBUF_def LOGSIZE_def MAXOPBLOCKS_def)
  have ne: "\<forall>b\<in>H. b_blockno (bufs s b) \<noteq> n \<and> pins s (b_blockno (bufs s b)) \<noteq> - 1"
    using assms(3) by (auto simp: apart_def pins_def)
  obtain b t where t: "bread ROOTDEV n s = Ret b t" "b \<notin> H" "bio p (insert b H) (pins s) t" "bframe s t" "emits s t []"
    "b_blockno (bufs t b) = n" "b_data (bufs t b) = view s n" "view t = view s" "\<forall>c. c \<noteq> b \<longrightarrow> bufs t c = bufs s c"
    by (rule bread_step [OF T(1) assms(2) ne T(4)]) (use assms(4) T(3,5) N in auto)
  have P: "pins t = pins s" by (rule pins_bframe [OF t(4)])
  have "pins t n = 1 \<or> b_data (bufs t b) = block (sectors t) n"
    using contents_clean [OF bio_D(2) [OF T(1)], of n] assms(3) t(5,7) P by (auto simp: view_def apart_def emits_def)
  moreover have "moved H 0 s t"
    using lframe_bframe [OF t(4)] t(2,5,9) bframe_klog(6) [OF t(4)] by (auto simp: moved_def)
  ultimately show thesis using that t P bufheld_bframe [OF assms(1) t(4,3)] by blast
qed

lemma bufheld_brelse:
  fixes s :: "'a klog_scheme"
  assumes "bufheld p (insert b H) s" "b \<notin> H" "n = b_blockno (bufs s b)" "pins s n = 1 \<or> b_data (bufs s b) = block (sectors s) n"
  obtains t where "brelse b s = Ret () t" "bufheld p H t" "moved H 0 s t" "view t = view s" "pins t = pins s"
proof -
  note T = bufheld_D [OF assms(1)]
  obtain t where t: "brelse b s = Ret () t" "bio p H (pins s) t" "bframe s t" "emits s t []" "view t = view s"
    "\<forall>c. b_blockno (bufs t c) = b_blockno (bufs s c)"
    by (rule brelse_step [OF T(1) assms(2-4)])
  then show thesis
    using that [OF t(1) bufheld_bframe [OF assms(1) t(3,2)]] lframe_bframe [OF t(3)] bframe_klog(6) [OF t(3)] pins_bframe [OF t(3)]
    by (auto simp: moved_def)
qed

lemma txn_bread:
  fixes s :: "'a klog_scheme"
  assumes "txn p H s" "small n" "apart H s n" "lh_n s + int (card H) < int LOGSIZE"
  obtains b t where "bread ROOTDEV n s = Ret b t" "b \<notin> H" "txn p (insert b H) t" "moved H 0 s t" "bframe s t"
    "b_blockno (bufs t b) = n" "b_data (bufs t b) = view s n" "view t = view s"
    "pins t n = 1 \<or> b_data (bufs t b) = block (sectors t) n" "pins t = pins s"
  using bufheld_bread [OF txn_D(5) [OF assms(1)] assms(2-4)] txn_moved [OF assms(1)] by metis

lemma txn_brelse:
  fixes s :: "'a klog_scheme"
  assumes "txn p (insert b H) s" "b \<notin> H" "n = b_blockno (bufs s b)" "pins s n = 1 \<or> b_data (bufs s b) = block (sectors s) n"
  obtains t where "brelse b s = Ret () t" "txn p H t" "moved H 0 s t" "view t = view s" "pins t = pins s"
  using bufheld_brelse [OF txn_D(5) [OF assms(1)] assms(2-4)] txn_moved [OF assms(1)] by metis

lemma txn_modify:
  fixes s :: "'a klog_scheme"
  assumes "txn p H s" "b \<in> H" "length bs = BSIZE" "t = upd_buf b (\<lambda>q. q\<lparr>b_data := bs\<rparr>) s"
  shows "txn p H t" "moved H 0 s t" "view t = (view s)(b_blockno (bufs s b) := bs)" "pins t = pins s"
proof -
  note T = txn_D [OF assms(1)]
  have f: "bframe s t" by (simp add: assms(4))
  show m: "moved H 0 s t" using lframe_bframe [OF f] bframe_klog(6) [OF f] by (auto simp: moved_def assms(4) emits_def)
  show "view t = (view s)(b_blockno (bufs s b) := bs)" "txn p H t" "pins t = pins s"
    using bio_modify [OF T(1) assms(2,3)] txn_moved [OF assms(1) m] bufheld_bframe [OF T(5) f] pins_bframe [OF f]
    by (simp_all add: assms(4))
qed

lemma txn_log_write:
  fixes s :: "'a klog_scheme"
  assumes "txn p H s" "b \<in> H" "n = b_blockno (bufs s b)" "\<not> in_log s n" "lh_n s < int LOGSIZE - 1"
  obtains t where "log_write b s = Ret () t" "txn p H t" "moved H 1 s t" "view t = view s" "pins t = (pins s)(n := 1)"
    "b_data (bufs t b) = b_data (bufs s b)" "b_blockno (bufs t b) = n"
proof -
  note T = txn_D [OF assms(1)]
  have "lh_n s < log_size s - 1" using T(3) assms(5) by simp
  from log_write_ok [OF T(1,2) assms(2-5) this T(4)]
  obtain t where t: "log_write b s = Ret () t" "bio p H (pins t) t" "log_wf t" "lframe s t" "emits s t []" "view t = view s"
    "pins t = (pins s)(n := 1)" "lh_n t \<le> lh_n s + 1" "\<forall>c. b_blockno (bufs t c) = b_blockno (bufs s c)"
    "\<forall>c. b_data (bufs t c) = b_data (bufs s c)" by blast
  then show thesis using that lframe_D(2,3) [OF t(4)] T(3,4) assms(3) by (auto simp: txn_def bufheld_def moved_def)
qed

text \<open>Change, record and release a block that was read.\<close>

lemma txn_update:
  fixes s :: "'a klog_scheme"
  assumes "txn p (insert b H) s" "b \<notin> H" "n = b_blockno (bufs s b)" "\<not> in_log s n" "lh_n s < int LOGSIZE - 1" "length bs = BSIZE"
  obtains t where "bnd (log_write b (upd_buf b (\<lambda>q. q\<lparr>b_data := bs\<rparr>) s)) (\<lambda>_ s. brelse b s) = Ret () t" "txn p H t" "moved H 1 s t"
    "view t = (view s)(n := bs)" "pins t = (pins s)(n := 1)"
proof -
  let ?s = "upd_buf b (\<lambda>q. q\<lparr>b_data := bs\<rparr>) s"
  note m = txn_modify [OF assms(1) _ assms(6) refl, of b, simplified]
  have lg: "in_log ?s = in_log s" "lh_n ?s = lh_n s" "n = b_blockno (bufs ?s b)"
    using moved_log(7) [OF m(2)] assms(3) by simp_all (simp add: upd_buf_def)
  obtain t where t: "log_write b ?s = Ret () t" "txn p (insert b H) t" "moved (insert b H) 1 ?s t" "view t = view ?s" "pins t = (pins ?s)(n := 1)"
    "b_blockno (bufs t b) = n"
    by (rule txn_log_write [OF m(1) _ lg(3)]) (use assms(4,5) lg in auto)
  obtain u where u: "brelse b t = Ret () u" "txn p H u" "moved H 0 t u" "view u = view t" "pins u = pins t"
    by (rule txn_brelse [OF t(2) assms(2) t(6) [symmetric]]) (use t(5) in auto)
  have "moved H (0 + 1 + 0) s u"
    using moved_trans [OF moved_trans [OF moved_mono [OF m(2), of H 0] moved_mono [OF t(3), of H 1]] u(3)] by auto
  then show thesis using that [of u] t u m(3,4) assms(3) by simp
qed

end
