(* ===== verification/Alloc.thy ===== *)
theory Alloc
  imports Fstep
begin

text \<open>Allocation of disk blocks: the bitmap as the set of blocks in use.\<close>

unbundle bit_operations_syntax

section \<open>The bitmap\<close>

lemma foreach_inv:
  assumes "\<And>x s. x \<in> set xs \<Longrightarrow> Q s \<Longrightarrow> \<exists>t. f x s = Ret None t \<and> Q t" "Q s"
  shows "\<exists>t. foreach xs f s = Ret None t \<and> Q t"
  using assms
proof (induction xs arbitrary: s)
  case (Cons x xs)
  obtain t where "f x s = Ret None t" "Q t" using Cons.prems by (meson list.set_intros(1))
  then show ?case using Cons.IH [of t] Cons.prems(1) by auto
qed simp

lemma bit_set_bit: "bit_set bs i = bit (bs ! (i div 8)) (i mod 8)"
  by (simp add: bit_set_def bit_iff_and_push_bit_not_eq_0)

lemma bit_set_or:
  assumes "i div 8 < length bs" "j div 8 < length bs"
  shows "bit_set (bs[i div 8 := bs ! (i div 8) OR push_bit (i mod 8) 1]) j \<longleftrightarrow> bit_set bs j \<or> j = i"
proof -
  have "i = j" if "i div 8 = j div 8" "i mod 8 = j mod 8" using that by (metis div_mult_mod_eq)
  moreover have "i mod 8 < 8" "j mod 8 < 8" by simp_all
  ultimately show ?thesis
    using assms by (cases "i div 8 = j div 8") (auto simp: bit_set_bit nth_list_update bit_or_iff bit_push_bit_iff bit_1_iff bit_exp_iff)
qed

lemma bit_set_and:
  assumes "i div 8 < length bs" "j div 8 < length bs"
  shows "bit_set (bs[i div 8 := bs ! (i div 8) AND NOT (push_bit (i mod 8) 1)]) j \<longleftrightarrow> bit_set bs j \<and> j \<noteq> i"
proof -
  have "i = j" if "i div 8 = j div 8" "i mod 8 = j mod 8" using that by (metis div_mult_mod_eq)
  moreover have "i mod 8 < 8" "j mod 8 < 8" by simp_all
  ultimately show ?thesis
    using assms by (cases "i div 8 = j div 8")
      (auto simp: bit_set_bit nth_list_update bit_and_iff bit_not_iff bit_push_bit_iff bit_1_iff bit_exp_iff)
qed

lemma BPB_eq: "BPB = 8192"
  by (simp add: BPB_def BSIZE_def)

lemma BBLOCK_of_nat: "b < 2 ^ 32 \<Longrightarrow> BBLOCK (of_nat b) S = of_nat (b div BPB) + sb_bmapstart S"
proof -
  assume b: "b < 2 ^ 32"
  have "unat ((of_nat b :: uint32) div of_nat BPB) = unat (of_nat (b div BPB) :: uint32)"
    using b by (simp add: unat_div unat_of_nat BPB_eq)
  then have "(of_nat b :: uint32) div of_nat BPB = of_nat (b div BPB)" by (simp only: word_unat_eq_iff)
  then show ?thesis by (simp add: BBLOCK_def)
qed

definition bmap_block :: "'a kfs_scheme \<Rightarrow> nat \<Rightarrow> uint32" where
  "bmap_block s b = of_nat (b div BPB) + sb_bmapstart (sb s)"

definition blk_used :: "'a kfs_scheme \<Rightarrow> nat \<Rightarrow> bool" where
  "blk_used s b \<longleftrightarrow> bit_set (view s (bmap_block s b)) (b mod BPB)"

text \<open>
  The shape of the volume that allocation relies on: the bitmap is outside the log, and a block
  that is marked free is a data block outside the log, the bitmap and the buffers held.
\<close>

definition volume :: "nat set \<Rightarrow> 'a kfs_scheme \<Rightarrow> bool" where
  "volume H s \<longleftrightarrow> unat (sb_size (sb s)) < 2 ^ 31 \<and>
     (\<forall>b<unat (sb_size (sb s)). data_block s (bmap_block s b) \<and> apart H s (bmap_block s b) \<and>
       (\<not> blk_used s b \<longrightarrow> data_block s (of_nat b) \<and> apart H s (of_nat b) \<and>
          (\<forall>c<unat (sb_size (sb s)). bmap_block s c \<noteq> of_nat b)))"

lemma bzero_ok:
  fixes s :: "'a kfs_scheme"
  assumes "txn p H s" "data_block s n" "apart H s n" "lh_n s + int (card H) < int LOGSIZE - 1"
  obtains t where "bzero ROOTDEV n s = Ret () t" "txn p H t" "moved H 1 s t" "view t = (view s)(n := replicate BSIZE 0)"
proof -
  have n: "small n" "\<not> in_log s n" using assms(2) by (simp_all add: data_block_def)
  obtain b t where t: "bread ROOTDEV n s = Ret b t" "b \<notin> H" "txn p (insert b H) t" "moved H 0 s t" "b_blockno (bufs t b) = n" "view t = view s"
    by (rule txn_bread [OF assms(1) n(1) assms(3)]) (use assms(4) in auto)
  note M = moved_log [OF t(4)]
  obtain u where u: "bnd (log_write b (upd_buf b (\<lambda>q. q\<lparr>b_data := replicate BSIZE 0\<rparr>) t)) (\<lambda>_ s. brelse b s) = Ret () u" "txn p H u"
    "moved H 1 t u" "view u = (view t)(n := replicate BSIZE 0)"
    by (rule txn_update [OF t(3,2) t(5) [symmetric], where bs = "replicate BSIZE 0"]) (use M(1,7) n(2) assms(4) in auto)
  show thesis
    using that [of u] t(1,6) u moved_trans [OF t(4) u(3)] by (simp add: bzero_def)
qed

section \<open>The search\<close>

lemma balloc_block_full:
  fixes s :: "'a kfs_scheme"
  assumes "txn p H s" "volume H s" "lh_n s + int (card H) < int LOGSIZE" "k * BPB < unat (sb_size (sb s))"
    and "\<And>b. b div BPB = k \<Longrightarrow> b < unat (sb_size (sb s)) \<Longrightarrow> blk_used s b"
  shows "\<exists>t. balloc_block ROOTDEV (k * BPB) s = Ret None t \<and> txn p H t \<and> moved H 0 s t \<and> view t = view s"
proof -
  let ?n = "bmap_block s (k * BPB)" and ?S = "unat (sb_size (sb s))"
  have v: "data_block s ?n" "apart H s ?n" "?S < 2 ^ 31" using assms(2,4) by (auto simp: volume_def)
  have bb: "BBLOCK (of_nat (k * BPB)) (sb s) = ?n" using BBLOCK_of_nat [of "k * BPB" "sb s"] assms(4) v(3) by (simp add: bmap_block_def)
  obtain b t where t: "bread ROOTDEV ?n s = Ret b t" "b \<notin> H" "txn p (insert b H) t" "moved H 0 s t" "b_blockno (bufs t b) = ?n"
    "b_data (bufs t b) = view s ?n" "view t = view s" "pins t ?n = 1 \<or> b_data (bufs t b) = block (sectors t) ?n"
    by (rule txn_bread [OF assms(1) _ v(2) assms(3)]) (use v(1) in \<open>auto simp: data_block_def\<close>)
  obtain u where u: "brelse b t = Ret () u" "txn p H u" "moved H 0 t u" "view u = view t"
    by (rule txn_brelse [OF t(3,2) t(5) [symmetric] t(8)])
  have "bit_set (view s ?n) bi" if "bi < BPB" "k * BPB + bi < ?S" for bi
    using assms(5) [of "k * BPB + bi"] that by (simp add: blk_used_def bmap_block_def BPB_eq)
  then have "List.find (\<lambda>bi. k * BPB + bi < unat (sb_size (sb t)) \<and> \<not> bit_set (b_data (bufs t b)) bi) [0..<BPB] = None"
    using t(6) moved_kfs(1) [OF t(4)] by (auto simp: find_None_iff)
  then show ?thesis
    using t(1,7) u moved_trans [OF t(4) u(3)] bb by (intro exI [of _ u]) (simp add: balloc_block_def)
qed

lemma balloc_block_free:
  fixes s :: "'a kfs_scheme"
  assumes "txn p H s" "volume H s" "lh_n s + int (card H) < int LOGSIZE - 2" "c < unat (sb_size (sb s))" "\<not> blk_used s c"
    and "\<And>b. b div BPB = c div BPB \<Longrightarrow> b < c \<Longrightarrow> blk_used s b"
  shows "\<exists>t bs. balloc_block ROOTDEV (c div BPB * BPB) s = Ret (Some (of_nat c)) t \<and> txn p H t \<and> moved H 2 s t \<and>
    view t = (view s)(bmap_block s c := bs, of_nat c := replicate BSIZE 0) \<and> length bs = BSIZE \<and>
    (\<forall>i<BPB. bit_set bs i \<longleftrightarrow> bit_set (view s (bmap_block s c)) i \<or> i = c mod BPB)"
proof -
  let ?n = "bmap_block s c" and ?S = "unat (sb_size (sb s))" and ?k = "c div BPB" and ?i = "c mod BPB"
  have v: "data_block s ?n" "apart H s ?n" "?S < 2 ^ 31" "data_block s (of_nat c)" "apart H s (of_nat c)" "?n \<noteq> of_nat c"
    using assms(2,4,5) by (auto simp: volume_def)
  have c: "?k * BPB + ?i = c" "?i < BPB" by (simp_all add: BPB_eq)
  have "?k * BPB \<le> c" "c < 2 ^ 32" using assms(4) v(3) by simp_all
  then have "?k * BPB < 2 ^ 32" by (rule le_less_trans)
  then have bb: "BBLOCK (of_nat (?k * BPB)) (sb s) = ?n"
    using BBLOCK_of_nat [of "?k * BPB" "sb s"] by (simp add: bmap_block_def BPB_eq)
  obtain b t where t: "bread ROOTDEV ?n s = Ret b t" "b \<notin> H" "txn p (insert b H) t" "moved H 0 s t" "b_blockno (bufs t b) = ?n"
    "b_data (bufs t b) = view s ?n" "view t = view s"
    by (rule txn_bread [OF assms(1) _ v(2)]) (use v(1) assms(3) in \<open>auto simp: data_block_def\<close>)
  let ?bs = "(view s ?n)[?i div 8 := view s ?n ! (?i div 8) OR push_bit (?i mod 8) 1]"
  note M = moved_log [OF t(4)] and K = moved_kfs [OF t(4)]
  have len: "length (view s ?n) = BSIZE" using held_D(4) [OF txn_D(1) [OF t(3)], of b] t(6) by simp
  obtain u where u: "bnd (log_write b (upd_buf b (\<lambda>q. q\<lparr>b_data := ?bs\<rparr>) t)) (\<lambda>_ s. brelse b s) = Ret () u" "txn p H u"
    "moved H 1 t u" "view u = (view t)(?n := ?bs)"
    by (rule txn_update [OF t(3,2) t(5) [symmetric], where bs = ?bs]) (use M(1,7) v(1) assms(3) len in \<open>auto simp: data_block_def\<close>)
  note su = moved_trans [OF t(4) u(3)]
  obtain w where w: "bzero ROOTDEV (of_nat c) u = Ret () w" "txn p H w" "moved H 1 u w" "view w = (view u)(of_nat c := replicate BSIZE 0)"
    by (rule bzero_ok [OF u(2), of "of_nat c"]) (use moved_log [OF su] v(4,5) assms(3) in auto)
  have "bit_set (view s ?n) j" if "j < ?i" for j
  proof -
    have "(?k * BPB + j) div BPB = ?k" "(?k * BPB + j) mod BPB = j" using that c(2) by (simp_all add: BPB_eq)
    then show ?thesis using assms(6) [of "?k * BPB + j"] that c(1) by (simp add: blk_used_def bmap_block_def)
  qed
  moreover have "\<not> bit_set (view s ?n) ?i" using assms(5) by (simp add: blk_used_def)
  ultimately have f: "List.find (\<lambda>bi. ?k * BPB + bi < unat (sb_size (sb t)) \<and> \<not> bit_set (b_data (bufs t b)) bi) [0..<BPB] = Some ?i"
    using c assms(4) K(1) t(6) by (auto simp: find_Some_iff nth_upt intro!: exI [of _ ?i])
  have e: "upd_buf b (\<lambda>q. q\<lparr>b_data := (b_data q)[?i div 8 := (b_data q ! (?i div 8)) OR push_bit (?i mod 8) 1]\<rparr>) t =
      upd_buf b (\<lambda>q. q\<lparr>b_data := ?bs\<rparr>) t"
    using t(6) by (simp add: upd_buf_def)
  have "balloc_block ROOTDEV (?k * BPB) s = bnd (bnd (log_write b (upd_buf b (\<lambda>q. q\<lparr>b_data := ?bs\<rparr>) t)) (\<lambda>_ s. brelse b s))
      (\<lambda>_ s. bnd (bzero ROOTDEV (of_nat c) s) (\<lambda>_ s. Ret (Some (of_nat c)) s))"
    unfolding balloc_block_def bb t(1) bnd.simps f option.simps Let_def e c(1) bnd_assoc ..
  then have "balloc_block ROOTDEV (?k * BPB) s = Ret (Some (of_nat c)) w" using u(1) w(1) by simp
  moreover have "moved H 2 s w" using moved_trans [OF su w(3)] by (simp add: numeral_2_eq_2)
  moreover have "\<forall>i<BPB. bit_set ?bs i \<longleftrightarrow> bit_set (view s ?n) i \<or> i = ?i"
    using c(2) len by (intro allI impI bit_set_or) (simp_all add: BPB_eq BSIZE_def)
  ultimately show ?thesis using w(2,4) u(4) t(7) len by (intro exI [of _ w] exI [of _ ?bs]) simp
qed

lemma volume_moved:
  fixes s t :: "'a kfs_scheme"
  assumes "moved H 0 s t" "view t = view s"
  shows "volume H t = volume H s" "blk_used t = blk_used s" "bmap_block t = bmap_block s"
proof -
  note K = moved_kfs [OF assms(1)] and M = moved_log [OF assms(1)]
  show b: "bmap_block t = bmap_block s" by (simp add: bmap_block_def K fun_eq_iff)
  show i: "blk_used t = blk_used s" by (simp add: blk_used_def b assms(2) fun_eq_iff)
  show "volume H t = volume H s" by (simp add: volume_def b i K M(2,3))
qed

lemma balloc_scan:
  fixes s :: "'a kfs_scheme"
  assumes "txn p H s" "volume H s" "lh_n s + int (card H) < int LOGSIZE"
    and "\<And>k. k < n \<Longrightarrow> k * BPB < unat (sb_size (sb s))"
    and "\<And>b. b div BPB < n \<Longrightarrow> b < unat (sb_size (sb s)) \<Longrightarrow> blk_used s b"
  shows "\<exists>t. foreach (map (\<lambda>k. k * BPB) [0..<n]) (balloc_block ROOTDEV) s = Ret None t \<and>
    txn p H t \<and> moved H 0 s t \<and> view t = view s"
proof (rule foreach_inv)
  fix x and t :: "'a kfs_scheme"
  assume "x \<in> set (map (\<lambda>k. k * BPB) [0..<n])" and t: "txn p H t \<and> moved H 0 s t \<and> view t = view s"
  then obtain k where k: "x = k * BPB" "k < n" by (elim conjE) (metis atLeastLessThan_iff imageE list.set_map set_upt)
  have m: "moved H 0 s t" "view t = view s" using t by simp_all
  have V: "volume H t = volume H s" "blk_used t = blk_used s" "sb t = sb s" "lh_n t \<le> lh_n s"
    using volume_moved [OF m] moved_kfs(1) [OF m(1)] moved_log(1) [OF m(1)] by simp_all
  have "\<exists>u. balloc_block ROOTDEV (k * BPB) t = Ret None u \<and> txn p H u \<and> moved H 0 t u \<and> view u = view t"
    by (rule balloc_block_full) (use t V assms k in \<open>simp_all del: mult_less_cancel2\<close>)
  then show "\<exists>u. balloc_block ROOTDEV x t = Ret None u \<and> txn p H u \<and> moved H 0 s u \<and> view u = view s"
    using t moved_trans [of H 0 s t 0] k(1) by auto
qed (use assms(1) in auto)

lemma balloc_ok:
  fixes s :: "'a kfs_scheme"
  assumes "txn p H s" "volume H s" "lh_n s + int (card H) < int LOGSIZE - 2" "c < unat (sb_size (sb s))" "\<not> blk_used s c"
    and "\<And>b. b < c \<Longrightarrow> blk_used s b"
  shows "\<exists>t bs. balloc ROOTDEV s = Ret (of_nat c) t \<and> txn p H t \<and> moved H 2 s t \<and>
    view t = (view s)(bmap_block s c := bs, of_nat c := replicate BSIZE 0) \<and> length bs = BSIZE \<and>
    (\<forall>i<BPB. bit_set bs i \<longleftrightarrow> bit_set (view s (bmap_block s c)) i \<or> i = c mod BPB)"
proof -
  let ?S = "unat (sb_size (sb s))" and ?k = "c div BPB"
  let ?G = "(?S + BPB - 1) div BPB" and ?f = "\<lambda>k. k * BPB"
  have "?k < ?G" using assms(4) by (simp add: BPB_eq)
  then have "[0..<?G] = [0..<?k] @ ?k # [Suc ?k..<?G]"
    using upt_add_eq_append [of 0 ?k "?G - ?k"] upt_conv_Cons [of ?k ?G] by simp
  then have l: "map ?f [0..<?G] = map ?f [0..<?k] @ ?k * BPB # map ?f [Suc ?k..<?G]" by simp
  have lt: "b < c" if "b div BPB < ?k" for b using that by (metis div_le_mono leD le_less_linear)
  have "\<exists>t. foreach (map ?f [0..<?k]) (balloc_block ROOTDEV) s = Ret None t \<and> txn p H t \<and> moved H 0 s t \<and> view t = view s"
  proof (rule balloc_scan [OF assms(1,2)])
    show "k * BPB < ?S" if "k < ?k" for k
      using lt [of "k * BPB"] that assms(4) by (simp add: BPB_eq)
  qed (use assms(3,6) lt in auto)
  then obtain t where t: "foreach (map ?f [0..<?k]) (balloc_block ROOTDEV) s = Ret None t" "txn p H t" "moved H 0 s t" "view t = view s"
    by blast
  note V = volume_moved [OF t(3,4)] and K = moved_kfs(1) [OF t(3)] and M = moved_log(1) [OF t(3)]
  have "\<exists>u bs. balloc_block ROOTDEV (?k * BPB) t = Ret (Some (of_nat c)) u \<and> txn p H u \<and> moved H 2 t u \<and>
    view u = (view t)(bmap_block t c := bs, of_nat c := replicate BSIZE 0) \<and> length bs = BSIZE \<and>
    (\<forall>i<BPB. bit_set bs i \<longleftrightarrow> bit_set (view t (bmap_block t c)) i \<or> i = c mod BPB)"
    by (rule balloc_block_free) (use t(2) V K M assms in auto)
  then obtain u bs where u: "balloc_block ROOTDEV (?k * BPB) t = Ret (Some (of_nat c)) u" "txn p H u" "moved H 2 t u"
    "view u = (view s)(bmap_block s c := bs, of_nat c := replicate BSIZE 0)" "length bs = BSIZE"
    "\<forall>i<BPB. bit_set bs i \<longleftrightarrow> bit_set (view s (bmap_block s c)) i \<or> i = c mod BPB"
    unfolding V t(4) by blast
  have "balloc ROOTDEV s = Ret (of_nat c) u" unfolding balloc_def l foreach_append t(1) using u(1) by simp
  then show ?thesis using u moved_trans [OF t(3) u(3)] by (auto simp: numeral_2_eq_2)
qed

lemma balloc_out:
  fixes s :: "'a kfs_scheme"
  assumes "txn p H s" "volume H s" "lh_n s + int (card H) < int LOGSIZE" "\<And>b. b < unat (sb_size (sb s)) \<Longrightarrow> blk_used s b"
  shows "balloc ROOTDEV s = Panic ''balloc: out of blocks''"
proof -
  let ?S = "unat (sb_size (sb s))"
  have "\<exists>t. foreach (map (\<lambda>k. k * BPB) [0..<(?S + BPB - 1) div BPB]) (balloc_block ROOTDEV) s = Ret None t \<and>
    txn p H t \<and> moved H 0 s t \<and> view t = view s"
    by (rule balloc_scan [OF assms(1-3)]) (use assms(4) in \<open>auto simp: BPB_eq\<close>)
  then show ?thesis by (auto simp: balloc_def)
qed

section \<open>Freeing\<close>

lemma bfree_ok:
  fixes s :: "'a kfs_scheme"
  assumes "txn p H s" "volume H s" "lh_n s + int (card H) < int LOGSIZE - 1" "c < unat (sb_size (sb s))"
  shows "blk_used s c \<Longrightarrow> \<exists>t bs. bfree ROOTDEV (of_nat c) s = Ret () t \<and> txn p H t \<and> moved H 1 s t \<and>
      view t = (view s)(bmap_block s c := bs) \<and> length bs = BSIZE \<and>
      (\<forall>i<BPB. bit_set bs i \<longleftrightarrow> bit_set (view s (bmap_block s c)) i \<and> i \<noteq> c mod BPB)"
    "\<not> blk_used s c \<Longrightarrow> bfree ROOTDEV (of_nat c) s = Panic ''freeing free block''"
proof -
  let ?n = "bmap_block s c" and ?i = "c mod BPB"
  have v: "data_block s ?n" "apart H s ?n" "c < 2 ^ 32" using assms(2,4) by (auto simp: volume_def)
  have bb: "BBLOCK (of_nat c) (sb s) = ?n" using BBLOCK_of_nat [OF v(3)] by (simp add: bmap_block_def)
  have ci: "unat (of_nat c :: uint32) mod BPB = ?i" using v(3) by (simp add: unat_of_nat)
  obtain b t where t: "bread ROOTDEV ?n s = Ret b t" "b \<notin> H" "txn p (insert b H) t" "moved H 0 s t" "b_blockno (bufs t b) = ?n"
    "b_data (bufs t b) = view s ?n" "view t = view s"
    by (rule txn_bread [OF assms(1) _ v(2)]) (use v(1) assms(3) in \<open>auto simp: data_block_def\<close>)
  note M = moved_log [OF t(4)]
  have iu: "blk_used s c = bit_set (b_data (bufs t b)) ?i" using t(6) by (simp add: blk_used_def)
  show "bfree ROOTDEV (of_nat c) s = Panic ''freeing free block''" if "\<not> blk_used s c"
    using t(1) that iu ci bb by (simp add: bfree_def Let_def)
  show "\<exists>t bs. bfree ROOTDEV (of_nat c) s = Ret () t \<and> txn p H t \<and> moved H 1 s t \<and>
      view t = (view s)(?n := bs) \<and> length bs = BSIZE \<and> (\<forall>i<BPB. bit_set bs i \<longleftrightarrow> bit_set (view s ?n) i \<and> i \<noteq> ?i)" if "blk_used s c"
  proof -
    let ?bs = "(view s ?n)[?i div 8 := view s ?n ! (?i div 8) AND NOT (push_bit (?i mod 8) 1)]"
    have len: "length (view s ?n) = BSIZE" using held_D(4) [OF txn_D(1) [OF t(3)], of b] t(6) by simp
    obtain u where u: "bnd (log_write b (upd_buf b (\<lambda>q. q\<lparr>b_data := ?bs\<rparr>) t)) (\<lambda>_ s. brelse b s) = Ret () u" "txn p H u"
      "moved H 1 t u" "view u = (view t)(?n := ?bs)"
      by (rule txn_update [OF t(3,2) t(5) [symmetric], where bs = ?bs])
        (use M(1,7) v(1) assms(3) len in \<open>auto simp: data_block_def\<close>)
    have e: "upd_buf b (\<lambda>q. q\<lparr>b_data := (b_data q)[?i div 8 := (b_data q ! (?i div 8)) AND NOT (push_bit (?i mod 8) 1)]\<rparr>) t =
        upd_buf b (\<lambda>q. q\<lparr>b_data := ?bs\<rparr>) t"
      using t(6) by (simp add: upd_buf_def)
    have "bfree ROOTDEV (of_nat c) s = Ret () u"
      using t(1) u(1) iu that unfolding bfree_def bb Let_def ci by (simp only: bnd.simps e) simp
    moreover have "\<forall>i<BPB. bit_set ?bs i \<longleftrightarrow> bit_set (view s ?n) i \<and> i \<noteq> ?i"
      using len by (intro allI impI bit_set_and) (simp_all add: BPB_eq BSIZE_def)
    ultimately show ?thesis using u(2,4) t(7) len moved_trans [OF t(4) u(3)] by (intro exI [of _ u] exI [of _ ?bs]) simp
  qed
qed

lemma bmap_block_inj: "b < 2 ^ 31 \<Longrightarrow> c < 2 ^ 31 \<Longrightarrow> bmap_block s b = bmap_block s c \<longleftrightarrow> b div BPB = c div BPB"
proof -
  assume "b < 2 ^ 31" "c < 2 ^ 31"
  then have "b div BPB < 2 ^ 32" "c div BPB < 2 ^ 32" by (simp_all add: BPB_eq)
  then have "(of_nat (b div BPB) :: uint32) = of_nat (c div BPB) \<longleftrightarrow> b div BPB = c div BPB"
    by (simp add: word_unat_eq_iff unat_of_nat)
  then show ?thesis by (simp add: bmap_block_def)
qed

lemma blk_used_upd:
  fixes s t :: "'a kfs_scheme"
  assumes "volume H s" "sb t = sb s" "c < unat (sb_size (sb s))" "b < unat (sb_size (sb s))"
    and "view t (bmap_block s b) = ((view s)(bmap_block s c := bs)) (bmap_block s b)"
  shows "blk_used t b = (if b div BPB = c div BPB then bit_set bs (b mod BPB) else blk_used s b)"
proof -
  have "bmap_block t b = bmap_block s b" by (simp add: bmap_block_def assms(2))
  moreover have "b < 2 ^ 31" "c < 2 ^ 31" using assms(1,3,4) by (auto simp: volume_def)
  ultimately show ?thesis using assms(5) bmap_block_inj [of b c s] by (simp add: blk_used_def)
qed

lemma same_block: "b div BPB = c div BPB \<Longrightarrow> b mod BPB = c mod BPB \<longleftrightarrow> b = c"
  by (metis div_mult_mod_eq)

lemma balloc_fresh:
  fixes s :: "'a kfs_scheme"
  assumes "txn p H s" "volume H s" "lh_n s + int (card H) < int LOGSIZE - 2" "c < unat (sb_size (sb s))" "\<not> blk_used s c"
    and "\<And>b. b < c \<Longrightarrow> blk_used s b"
  shows "\<exists>t. balloc ROOTDEV s = Ret (of_nat c) t \<and> txn p H t \<and> moved H 2 s t \<and>
    (\<forall>b<unat (sb_size (sb s)). blk_used t b \<longleftrightarrow> blk_used s b \<or> b = c) \<and>
    (\<forall>n. n \<noteq> bmap_block s c \<longrightarrow> view t n = (if n = of_nat c then replicate BSIZE 0 else view s n))"
proof -
  from balloc_ok [OF assms]
  obtain t bs where t: "balloc ROOTDEV s = Ret (of_nat c) t" "txn p H t" "moved H 2 s t"
    "view t = (view s)(bmap_block s c := bs, of_nat c := replicate BSIZE 0)"
    "\<forall>i<BPB. bit_set bs i \<longleftrightarrow> bit_set (view s (bmap_block s c)) i \<or> i = c mod BPB" by auto
  have "blk_used t b \<longleftrightarrow> blk_used s b \<or> b = c" if b: "b < unat (sb_size (sb s))" for b
  proof -
    have "bmap_block s b \<noteq> of_nat c" using assms(2,4,5) b by (simp add: volume_def)
    then have "blk_used t b = (if b div BPB = c div BPB then bit_set bs (b mod BPB) else blk_used s b)"
      using blk_used_upd [OF assms(2) moved_kfs(1) [OF t(3)] assms(4) b] t(4) by simp
    moreover have "b div BPB = c div BPB \<Longrightarrow> bmap_block s c = bmap_block s b" by (simp add: bmap_block_def)
    moreover have "b mod BPB < BPB" by (simp add: BPB_eq)
    ultimately show ?thesis using t(5) same_block [of b c] by (auto simp: blk_used_def)
  qed
  then show ?thesis using t by (intro exI [of _ t]) auto
qed

section \<open>Properties\<close>

text \<open>
  C25: \<^verbatim>\<open>balloc()\<close> inside a transaction with room for two more blocks in the log returns the first
  block that the bitmap has free.  Afterwards the bitmap has exactly that block in use in
  addition, the block is zeroed, and no other block but the bitmap's has changed.  With no
  free block it panics.
\<close>

theorem balloc_correct:
  fixes s :: "'a kfs_scheme"
  assumes "txn p {} s" "volume {} s" "lh_n s < int LOGSIZE - 2"
  shows "(\<forall>c<unat (sb_size (sb s)). \<not> blk_used s c \<and> (\<forall>b<c. blk_used s b) \<longrightarrow>
      (\<exists>t. balloc ROOTDEV s = Ret (of_nat c) t \<and> txn p {} t \<and> moved {} 2 s t \<and>
         (\<forall>b<unat (sb_size (sb s)). blk_used t b \<longleftrightarrow> blk_used s b \<or> b = c) \<and>
         (\<forall>n. n \<noteq> bmap_block s c \<longrightarrow> view t n = (if n = of_nat c then replicate BSIZE 0 else view s n)))) \<and>
    ((\<forall>b<unat (sb_size (sb s)). blk_used s b) \<longrightarrow> balloc ROOTDEV s = Panic ''balloc: out of blocks'')"
proof (intro conjI allI impI)
  fix c assume "c < unat (sb_size (sb s))" "\<not> blk_used s c \<and> (\<forall>b<c. blk_used s b)"
  then show "\<exists>t. balloc ROOTDEV s = Ret (of_nat c) t \<and> txn p {} t \<and> moved {} 2 s t \<and>
      (\<forall>b<unat (sb_size (sb s)). blk_used t b \<longleftrightarrow> blk_used s b \<or> b = c) \<and>
      (\<forall>n. n \<noteq> bmap_block s c \<longrightarrow> view t n = (if n = of_nat c then replicate BSIZE 0 else view s n))"
    using balloc_fresh [OF assms(1,2), of c] assms(3) by simp
next
  assume "\<forall>b<unat (sb_size (sb s)). blk_used s b"
  then show "balloc ROOTDEV s = Panic ''balloc: out of blocks''"
    using balloc_out [OF assms(1,2)] assms(3) by simp
qed

text \<open>A volume of 1000 blocks with the log at 2, the bitmap at 45 and the first 48 blocks in use.\<close>

definition demo_sb :: superblock where
  "demo_sb = \<lparr>sb_magic = FSMAGIC, sb_size = 1000, sb_nblocks = 954, sb_ninodes = 200, sb_nlog = 30, sb_logstart = 2,
     sb_inodestart = 32, sb_bmapstart = 45\<rparr>"

definition demo_volume :: "uint64 \<Rightarrow> byte list" where
  "demo_volume = (\<lambda>_. replicate 512 0)(90 := replicate 6 255 @ replicate 506 0)"

definition demo_inode :: inode where
  "demo_inode = \<lparr>i_dev = 0, i_inum = 0, i_ref = 0, i_valid = False, i_type = 0, i_major = 0, i_minor = 0, i_nlink = 0, i_size = 0,
     i_addrs = (\<lambda>_. 0)\<rparr>"

definition demo_kfs :: kfs where
  "demo_kfs = klog.extend (demo_idle\<lparr>sectors := demo_volume, log_outstanding := 1\<rparr>) (kfs.fields demo_sb (\<lambda>_. demo_inode))"

lemma demo_kfs_simps [simp]:
  "bufs demo_kfs = demo_bufs" "sectors demo_kfs = demo_volume" "lh_n demo_kfs = 0" "log_start demo_kfs = 2"
  "log_dev demo_kfs = 1" "slk demo_kfs = slk demo_kdisk" "hart demo_kfs = hart demo_kdisk" "log_outstanding demo_kfs = 1"
  "log_size demo_kfs = 30" "sb demo_kfs = demo_sb" "inodes demo_kfs = (\<lambda>_. demo_inode)"
  "csrs demo_kfs = csrs demo_kdisk" "cpus demo_kfs = cpus demo_kdisk" "lk demo_kfs = lk demo_kdisk"
  "procs demo_kfs = procs demo_kdisk" "disk demo_kfs = disk demo_kdisk" "vdev demo_kfs = vdev demo_kdisk"
  by (simp_all add: demo_kfs_def klog.defs kfs.defs demo_idle_def kdisk.defs demo_kdisk_def)

lemma not_in_log: "log_start s = 2 \<Longrightarrow> 32 \<le> b \<Longrightarrow> b < 2 ^ 31 \<Longrightarrow> \<not> in_log s (of_nat b)"
proof
  assume a: "log_start s = 2" "32 \<le> b" "b < 2 ^ 31" "in_log s (of_nat b)"
  then obtain j where j: "j < LOGSIZE" "(of_nat b :: uint32) = word_of_int (2 + int j)" by (auto simp: in_log_def)
  then have "(word_of_int (int b) :: uint32) = word_of_int (2 + int j)" by simp
  then have "int b = 2 + int j" using a(3) j(1) by (subst (asm) word_of_int_small_inj) (auto simp: LOGSIZE_def MAXOPBLOCKS_def)
  then show False using a(2) j(1) by (simp add: LOGSIZE_def MAXOPBLOCKS_def)
qed

lemma small_of_nat: "b < 2 ^ 31 \<Longrightarrow> small (of_nat b)"
  by (simp add: small_def word_less_nat_alt unat_of_nat)

lemma demo_kfs_txn: "txn 5 {} demo_kfs" "pins demo_kfs = (\<lambda>_. 0)" "view demo_kfs n = block demo_volume n"
proof -
  show p: "pins demo_kfs = (\<lambda>_. 0)" by (simp add: pins_def fun_eq_iff)
  have "bio 5 {} (\<lambda>_. 0) demo_kfs"
    by (rule bio_demo, rule fs_idle_demo) (simp_all add: sectored_def demo_volume_def, simp add: demo_kdisk_def)
  then show "txn 5 {} demo_kfs" "view demo_kfs n = block demo_volume n"
    using view_clean [of 5 "\<lambda>_. 0" demo_kfs n] by (simp_all add: txn_def bufheld_def p log_wf_def LOGSIZE_def MAXOPBLOCKS_def)
qed

lemma demo_kfs_bitmap: "b < 1000 \<Longrightarrow> bmap_block demo_kfs b = 45" "b < 1000 \<Longrightarrow> blk_used demo_kfs b \<longleftrightarrow> b < 48"
proof -
  show bm: "bmap_block demo_kfs b = 45" if "b < 1000" using that by (simp add: bmap_block_def demo_sb_def BPB_eq)
  have "(replicate 6 255 @ replicate 1018 0 :: byte list) ! k = (if k < 6 then 255 else 0)" if "k < 1024" for k
    using that by (simp add: nth_append)
  moreover have "block demo_volume 45 = replicate 6 255 @ replicate 1018 0"
    by (simp add: block_def secno_def demo_volume_def replicate_add [symmetric])
  moreover have "bit (255 :: byte) i" if "i < 8" for i
  proof -
    have "(255 :: byte) = - 1" by simp
    then show ?thesis using that by (simp only: bit_minus_1_iff) simp
  qed
  ultimately show "blk_used demo_kfs b \<longleftrightarrow> b < 48" if "b < 1000"
    using that bm by (auto simp: blk_used_def demo_kfs_txn(3) bit_set_bit BPB_eq)
qed

lemma demo_kfs_volume: "volume {} demo_kfs"
proof -
  have S: "unat (sb_size (sb demo_kfs)) = 1000" by (simp add: demo_sb_def)
  have d: "data_block demo_kfs (of_nat b)" if "32 \<le> b" "b < 1000" for b
    using that not_in_log [of demo_kfs b] small_of_nat [of b] by (simp add: data_block_def)
  have d45: "data_block demo_kfs 45" using d [of 45] by simp
  note d
  moreover have "(45 :: uint32) \<noteq> of_nat b" if "48 \<le> b" "b < 1000" for b using that by (simp add: word_unat_eq_iff unat_of_nat)
  ultimately show ?thesis
    unfolding volume_def S using demo_kfs_bitmap d45 by (simp add: apart_def)
qed

theorem balloc_correct_witness:
  "\<exists>t. balloc ROOTDEV demo_kfs = Ret 48 t \<and> blk_used t 48 \<and> \<not> blk_used t 49 \<and> view t 48 = replicate BSIZE 0"
proof -
  have S: "unat (sb_size (sb demo_kfs)) = 1000" by (simp add: demo_sb_def)
  have c: "\<not> blk_used demo_kfs 48 \<and> (\<forall>b<48. blk_used demo_kfs b)" "\<not> blk_used demo_kfs 49" "bmap_block demo_kfs 48 = 45"
    using demo_kfs_bitmap by simp_all
  have "lh_n demo_kfs < int LOGSIZE - 2" by (simp add: LOGSIZE_def MAXOPBLOCKS_def)
  from balloc_correct [OF demo_kfs_txn(1) demo_kfs_volume this, unfolded S, THEN conjunct1, rule_format, of 48] c
  obtain t where "balloc ROOTDEV demo_kfs = Ret (of_nat 48) t" "\<forall>b<1000. blk_used t b \<longleftrightarrow> blk_used demo_kfs b \<or> b = 48"
    "\<forall>n. n \<noteq> 45 \<longrightarrow> view t n = (if n = of_nat 48 then replicate BSIZE 0 else view demo_kfs n)"
    by auto
  then show ?thesis using c(2) by (intro exI [of _ t]) simp
qed

text \<open>
  C26: \<^verbatim>\<open>bfree()\<close> on a block in use clears exactly its mark in the bitmap and changes nothing
  else; on a free block it panics.
\<close>

theorem bfree_correct:
  fixes s :: "'a kfs_scheme"
  assumes "txn p {} s" "volume {} s" "lh_n s < int LOGSIZE - 1" "c < unat (sb_size (sb s))"
  shows "if blk_used s c
    then \<exists>t. bfree ROOTDEV (of_nat c) s = Ret () t \<and> txn p {} t \<and> moved {} 1 s t \<and>
      (\<forall>b<unat (sb_size (sb s)). blk_used t b \<longleftrightarrow> blk_used s b \<and> b \<noteq> c) \<and> (\<forall>n. n \<noteq> bmap_block s c \<longrightarrow> view t n = view s n)
    else bfree ROOTDEV (of_nat c) s = Panic ''freeing free block''"
proof (cases "blk_used s c")
  case False
  then show ?thesis using bfree_ok(2) [OF assms(1,2) _ assms(4)] assms(3) by simp
next
  case True
  from bfree_ok(1) [OF assms(1,2) _ assms(4) True] assms(3)
  obtain t bs where t: "bfree ROOTDEV (of_nat c) s = Ret () t" "txn p {} t" "moved {} 1 s t" "view t = (view s)(bmap_block s c := bs)"
    "\<forall>i<BPB. bit_set bs i \<longleftrightarrow> bit_set (view s (bmap_block s c)) i \<and> i \<noteq> c mod BPB" by auto
  have "blk_used t b \<longleftrightarrow> blk_used s b \<and> b \<noteq> c" if b: "b < unat (sb_size (sb s))" for b
  proof -
    have "blk_used t b = (if b div BPB = c div BPB then bit_set bs (b mod BPB) else blk_used s b)"
      using blk_used_upd [OF assms(2) moved_kfs(1) [OF t(3)] assms(4) b] t(4) by simp
    moreover have "b div BPB = c div BPB \<Longrightarrow> bmap_block s c = bmap_block s b" by (simp add: bmap_block_def)
    moreover have "b mod BPB < BPB" by (simp add: BPB_eq)
    ultimately show ?thesis using t(5) same_block [of b c] by (auto simp: blk_used_def)
  qed
  then show ?thesis using t True by auto
qed

theorem bfree_correct_witness:
  "(\<exists>t. bfree ROOTDEV 40 demo_kfs = Ret () t \<and> \<not> blk_used t 40 \<and> blk_used t 41) \<and>
   bfree ROOTDEV 50 demo_kfs = Panic ''freeing free block''"
proof -
  have S: "unat (sb_size (sb demo_kfs)) = 1000" by (simp add: demo_sb_def)
  have l: "lh_n demo_kfs < int LOGSIZE - 1" by (simp add: LOGSIZE_def MAXOPBLOCKS_def)
  show ?thesis
    using bfree_correct [OF demo_kfs_txn(1) demo_kfs_volume l, unfolded S, of 40]
      bfree_correct [OF demo_kfs_txn(1) demo_kfs_volume l, unfolded S, of 50] demo_kfs_bitmap(2)
    by (auto simp del: demo_kfs_simps)
qed

end
