(* ===== verification/Inode.thy ===== *)
theory Inode
  imports Alloc
begin

text \<open>
  Inodes: their layout on disk, the inode cache, and the transfer between the two.
\<close>

section \<open>The on-disk layout\<close>

lemma sub_put_inside:
  assumes "off + length new \<le> length bs" "i + n \<le> length new"
  shows "sub_bytes (off + i) n (put_at off new bs) = sub_bytes i n new"
  using assms by (simp add: sub_bytes_def put_at_def)

lemma sub_append_left: "i + n \<le> length x \<Longrightarrow> sub_bytes i n (x @ y) = sub_bytes i n x"
  by (simp add: sub_bytes_def)

lemma sub_append_right: "length x \<le> i \<Longrightarrow> sub_bytes i n (x @ y) = sub_bytes (i - length x) n y"
  by (simp add: sub_bytes_def)

lemma sub_concat_enc: "k < length as \<Longrightarrow> sub_bytes (4 * k) 4 (concat (map (enc 4) as)) = enc 4 (as ! k)"
proof (induction as arbitrary: k)
  case (Cons a as)
  then show ?case by (cases k) (auto simp: sub_bytes_def)
qed simp

lemma length_concat_enc [simp]: "length (concat (map (enc 4) as)) = 4 * length as"
  by (induction as) auto

lemma length_enc_dinode: "length (d_addrs d) = NDIRECT + 1 \<Longrightarrow> length (enc_dinode d) = 64"
  by (simp add: enc_dinode_def NDIRECT_def)

lemma length_put_dinode [simp]:
  "length (d_addrs d) = NDIRECT + 1 \<Longrightarrow> off + 64 \<le> length bs \<Longrightarrow> length (put_dinode off d bs) = length bs"
  using length_enc_dinode [of d] by (simp add: put_dinode_def)

lemma get_put_dinode:
  assumes "length (d_addrs d) = NDIRECT + 1" "off + 64 \<le> length bs"
  shows "get_dinode off (put_dinode off d bs) = d"
proof -
  have S: "sub_bytes (off + i) n (put_dinode off d bs) = sub_bytes i n (enc_dinode d)" if "i + n \<le> 64" for i n
    unfolding put_dinode_def using length_enc_dinode [OF assms(1)] assms(2) that by (intro sub_put_inside) simp_all
  have E: "sub_bytes 0 2 (enc_dinode d) = enc 2 (d_type d)" "sub_bytes 2 2 (enc_dinode d) = enc 2 (d_major d)"
    "sub_bytes 4 2 (enc_dinode d) = enc 2 (d_minor d)" "sub_bytes 6 2 (enc_dinode d) = enc 2 (d_nlink d)"
    "sub_bytes 8 4 (enc_dinode d) = enc 4 (d_size d)"
    by (simp_all add: enc_dinode_def sub_bytes_def)
  have A: "sub_bytes (12 + 4 * k) 4 (enc_dinode d) = enc 4 (d_addrs d ! k)" if "k < NDIRECT + 1" for k
  proof -
    have "sub_bytes (12 + 4 * k) 4 (enc_dinode d) = sub_bytes (4 * k) 4 (concat (map (enc 4) (d_addrs d)))"
      by (simp add: enc_dinode_def sub_append_right)
    then show ?thesis using sub_concat_enc [of k "d_addrs d"] that assms(1) by simp
  qed
  have "get32 (off + 12 + 4 * k) (put_dinode off d bs) = d_addrs d ! k" if "k < NDIRECT + 1" for k
    using S [of "12 + 4 * k" 4] A [OF that] that by (simp add: get32_def dec_enc_full add.assoc NDIRECT_def)
  then have "map (\<lambda>i. get32 (off + 12 + 4 * i) (put_dinode off d bs)) [0..<NDIRECT + 1] = d_addrs d"
    using assms(1) by (intro nth_equalityI) (simp_all del: upt_Suc)
  then show ?thesis
    using S [of 0 2] S [of 2 2] S [of 4 2] S [of 6 2] S [of 8 4] E
    by (simp add: get_dinode_def get32_def dec_enc_full del: upt_Suc)
qed

lemma get_put_dinode_other:
  assumes "length (d_addrs d) = NDIRECT + 1" "off + 64 \<le> length bs" "i + 64 \<le> length bs" "i + 64 \<le> off \<or> off + 64 \<le> i"
  shows "get_dinode i (put_dinode off d bs) = get_dinode i bs"
proof -
  have "sub_bytes j n (put_dinode off d bs) = sub_bytes j n bs" if "i \<le> j" "j + n \<le> i + 64" for j n
    unfolding put_dinode_def using length_enc_dinode [OF assms(1)] assms(2-4) that by (intro sub_put_other) auto
  then show ?thesis by (simp add: get_dinode_def get32_def NDIRECT_def)
qed

section \<open>The inode cache\<close>

definition cached_inode :: "'a kfs_scheme \<Rightarrow> nat \<Rightarrow> uint32 \<Rightarrow> uint32 \<Rightarrow> bool" where
  "cached_inode s i dev inum \<longleftrightarrow> i < NINODE \<and> 0 < i_ref (inodes s i) \<and> i_dev (inodes s i) = dev \<and> i_inum (inodes s i) = inum"

text \<open>A live inode is in one slot only.\<close>

definition icache_ok :: "'a kfs_scheme \<Rightarrow> bool" where
  "icache_ok s \<longleftrightarrow> (\<forall>i<NINODE. 0 \<le> i_ref (inodes s i)) \<and>
     (\<forall>i j dev inum. cached_inode s i dev inum \<and> cached_inode s j dev inum \<longrightarrow> i = j)"

definition fresh :: "uint32 \<Rightarrow> uint32 \<Rightarrow> inode \<Rightarrow> inode" where
  "fresh dev inum q = q\<lparr>i_dev := dev, i_inum := inum, i_ref := 1, i_valid := False\<rparr>"

lemma upd_inode_critical:
  assumes "quiet s" "lock_free k s"
  shows "release k (upd_inode i f (acquired k s)) = Ret () (upd_inode i f s)"
  by (rule critical_quiet [OF assms]) (simp_all add: upd_inode_def)

lemma acquired_inodes [simp]: "inodes (acquired l s) = inodes s"
  by (rule acquired_field) simp

lemma find_upt: "List.find Q [0..<n] = Some i \<longleftrightarrow> i < n \<and> Q i \<and> (\<forall>j<i. \<not> Q j)"
  by (auto simp: find_Some_iff)

lemma iget_hit:
  assumes "quiet s" "lock_free Icache_lock s" "icache_ok s" "cached_inode s i dev inum"
  shows "iget dev inum s = Ret i (upd_inode i (\<lambda>q. q\<lparr>i_ref := i_ref q + 1\<rparr>) s)"
proof -
  have "\<not> cached_inode s j dev inum" if "j < i" for j using assms(3,4) that unfolding icache_ok_def by (metis less_irrefl)
  then have "List.find (\<lambda>j. 0 < i_ref (inodes s j) \<and> i_dev (inodes s j) = dev \<and> i_inum (inodes s j) = inum) [0..<NINODE] = Some i"
    unfolding find_upt using assms(4) by (auto simp: cached_inode_def)
  then show ?thesis
    using acquire_quiet [OF assms(1,2)] upd_inode_critical [OF assms(1,2)] by (simp add: iget_def)
qed

lemma iget_new:
  assumes "quiet s" "lock_free Icache_lock s" "\<And>i. \<not> cached_inode s i dev inum"
    and "i < NINODE" "i_ref (inodes s i) = 0" "\<And>j. j < i \<Longrightarrow> i_ref (inodes s j) \<noteq> 0"
  shows "iget dev inum s = Ret i (upd_inode i (fresh dev inum) s)"
proof -
  have "List.find (\<lambda>j. 0 < i_ref (inodes s j) \<and> i_dev (inodes s j) = dev \<and> i_inum (inodes s j) = inum) [0..<NINODE] = None"
    using assms(3) by (auto simp: find_None_iff cached_inode_def)
  moreover have "List.find (\<lambda>i. i_ref (inodes s i) = 0) [0..<NINODE] = Some i" using assms(4-6) by (simp add: find_upt)
  ultimately show ?thesis
    using acquire_quiet [OF assms(1,2)] upd_inode_critical [OF assms(1,2), of i "fresh dev inum"] by (simp add: iget_def fresh_def [abs_def])
qed

lemma iget_none:
  assumes "quiet s" "lock_free Icache_lock s" "\<And>i. \<not> cached_inode s i dev inum" "\<And>i. i < NINODE \<Longrightarrow> i_ref (inodes s i) \<noteq> 0"
  shows "iget dev inum s = Panic ''iget: no inodes''"
proof -
  have "List.find (\<lambda>j. 0 < i_ref (inodes s j) \<and> i_dev (inodes s j) = dev \<and> i_inum (inodes s j) = inum) [0..<NINODE] = None"
    "List.find (\<lambda>i. i_ref (inodes s i) = 0) [0..<NINODE] = None"
    using assms(3,4) by (auto simp: find_None_iff cached_inode_def)
  then show ?thesis using acquire_quiet [OF assms(1,2)] by (simp add: iget_def)
qed

lemma inodes_upd [simp]: "inodes (upd_inode i f s) = (inodes s)(i := f (inodes s i))"
  by (simp add: upd_inode_def)

lemma iget_ok:
  fixes s :: "'a kfs_scheme"
  assumes "quiet s" "lock_free Icache_lock s" "icache_ok s" "(\<exists>i. cached_inode s i dev inum) \<or> (\<exists>i<NINODE. i_ref (inodes s i) = 0)"
  obtains i f where "iget dev inum s = Ret i (upd_inode i f s)" "icache_ok (upd_inode i f s)" "i < NINODE"
    "f = (if \<exists>i. cached_inode s i dev inum then (\<lambda>q. q\<lparr>i_ref := i_ref q + 1\<rparr>) else fresh dev inum)"
    "cached_inode (upd_inode i f s) i dev inum"
    "if \<exists>i. cached_inode s i dev inum then cached_inode s i dev inum else i_ref (inodes s i) = 0"
proof (cases "\<exists>i. cached_inode s i dev inum")
  case True
  then obtain i where i: "cached_inode s i dev inum" by blast
  let ?t = "upd_inode i (\<lambda>q. q\<lparr>i_ref := i_ref q + 1\<rparr>) s"
  have c: "cached_inode ?t j d n \<longleftrightarrow> cached_inode s j d n" for j d n using i by (auto simp: cached_inode_def)
  have "icache_ok ?t" using assms(3) i unfolding icache_ok_def c by (auto simp: cached_inode_def)
  then show thesis using that [OF iget_hit [OF assms(1-3) i]] i c True by (auto simp: cached_inode_def)
next
  case False
  define i where "i = (LEAST i. i_ref (inodes s i) = 0)"
  obtain k where k: "k < NINODE" "i_ref (inodes s k) = 0" using assms(4) False by blast
  have i: "i_ref (inodes s i) = 0" "i < NINODE" "\<And>j. j < i \<Longrightarrow> i_ref (inodes s j) \<noteq> 0"
    using LeastI [of "\<lambda>i. i_ref (inodes s i) = 0" k] Least_le [of "\<lambda>i. i_ref (inodes s i) = 0" k] k not_less_Least
    unfolding i_def by auto
  let ?t = "upd_inode i (fresh dev inum) s"
  have c: "cached_inode ?t j d n \<longleftrightarrow> (if j = i then d = dev \<and> n = inum else cached_inode s j d n)" for j d n
    using i(2) by (auto simp: cached_inode_def fresh_def)
  have "icache_ok ?t" using assms(3) False unfolding icache_ok_def c by (auto simp: fresh_def split: if_splits) blast
  moreover have "iget dev inum s = Ret i ?t" by (rule iget_new [OF assms(1,2)]) (use False i in auto)
  ultimately show thesis using that [of i "fresh dev inum"] False c i by auto
qed

section \<open>Between cache and disk\<close>

lemma ioff_bound: "ioff inum + 64 \<le> BSIZE"
proof -
  have "unat inum mod 16 < 16" by simp
  then show ?thesis by (simp add: ioff_def IPB_def BSIZE_def)
qed

lemma length_dinode_of [simp]: "length (d_addrs (dinode_of q)) = NDIRECT + 1"
  by (simp add: dinode_of_def)

lemma dinode_of_iload: "length (d_addrs d) = NDIRECT + 1 \<Longrightarrow> dinode_of (iload d q) = d"
  by (auto simp: dinode_of_def iload_def intro!: dinode.equality nth_equalityI simp del: upt_Suc)

lemma fs_upd_simps [simp]:
  fixes s :: "'a kfs_scheme"
  shows "view (upd_inode i f s) = view s" "pins (upd_inode i f s) = pins s" "lh_n (upd_inode i f s) = lh_n s"
    "apart H (upd_inode i f s) = apart H s" "data_block (upd_inode i f s) = data_block s" "sb (upd_inode i f s) = sb s"
    "bufs (upd_inode i f s) = bufs s" "sectors (upd_inode i f s) = sectors s" "slk (upd_inode i f s) = slk s"
    "bufheld p H (upd_inode i f s) = bufheld p H s" "txn p H (upd_inode i f s) = txn p H s"
    "wlog (upd_inode i f s) = wlog s" "in_log (upd_inode i f s) = in_log s"
proof -
  have b: "bio p H P (upd_inode i f s) = bio p H P s" for P by (rule bio_cong) (simp_all add: upd_inode_def)
  show p: "pins (upd_inode i f s) = pins s" "in_log (upd_inode i f s) = in_log s"
    by (simp_all add: pins_def dblk_def in_log_def upd_inode_def fun_eq_iff)
  have "log_wf (upd_inode i f s) = log_wf s"
    unfolding log_wf_def p by (simp add: upd_inode_def dblk_def inj_on_def)
  then show "bufheld p H (upd_inode i f s) = bufheld p H s" "txn p H (upd_inode i f s) = txn p H s"
    unfolding txn_def bufheld_def b p by (simp_all add: upd_inode_def)
  show "data_block (upd_inode i f s) = data_block s" by (simp add: data_block_def p fun_eq_iff)
qed (simp_all add: view_def apart_def upd_inode_def fun_eq_iff)

lemma slk_upd_simps [simp]:
  fixes s :: "'a kfs_scheme"
  shows "view (upd_slk l f s) = view s" "pins (upd_slk l f s) = pins s" "lh_n (upd_slk l f s) = lh_n s"
    "apart H (upd_slk l f s) = apart H s" "data_block (upd_slk l f s) = data_block s" "sb (upd_slk l f s) = sb s"
    "inodes (upd_slk l f s) = inodes s" "bufheld p H (upd_slk (Inode_lk i) f s) = bufheld p H s"
    "txn p H (upd_slk (Inode_lk i) f s) = txn p H s" "in_log (upd_slk l f s) = in_log s"
proof -
  have "fs_idle p (upd_slk (Inode_lk i) f s) = fs_idle p s" by simp
  then have b: "bio p H P (upd_slk (Inode_lk i) f s) = bio p H P s" for P by (simp add: bio_def)
  show p: "pins (upd_slk l f s) = pins s" "in_log (upd_slk l f s) = in_log s" for l
    by (simp_all add: pins_def dblk_def in_log_def upd_slk_def fun_eq_iff)
  have "log_wf (upd_slk (Inode_lk i) f s) = log_wf s"
    unfolding log_wf_def p by (simp add: upd_slk_def dblk_def inj_on_def)
  then show "bufheld p H (upd_slk (Inode_lk i) f s) = bufheld p H s" "txn p H (upd_slk (Inode_lk i) f s) = txn p H s"
    unfolding txn_def bufheld_def b p by (simp_all add: upd_slk_def)
  show "data_block (upd_slk l f s) = data_block s" by (simp add: data_block_def p fun_eq_iff)
qed (simp_all add: view_def apart_def upd_slk_def fun_eq_iff)

lemma iupdate_ok:
  fixes s :: "'a kfs_scheme"
  assumes "txn p H s" "i_dev (inodes s ip) = ROOTDEV" "n = IBLOCK (i_inum (inodes s ip)) (sb s)" "data_block s n" "apart H s n"
    and "lh_n s + int (card H) < int LOGSIZE - 1"
  obtains t where "iupdate ip s = Ret () t" "txn p H t" "moved H 1 s t"
    "view t = (view s)(n := put_dinode (ioff (i_inum (inodes s ip))) (dinode_of (inodes s ip)) (view s n))"
proof -
  have n: "small n" "\<not> in_log s n" using assms(4) by (simp_all add: data_block_def)
  obtain b t where t: "bread ROOTDEV n s = Ret b t" "b \<notin> H" "txn p (insert b H) t" "moved H 0 s t" "b_blockno (bufs t b) = n"
    "b_data (bufs t b) = view s n" "view t = view s"
    by (rule txn_bread [OF assms(1) n(1) assms(5)]) (use assms(6) in auto)
  note M = moved_log [OF t(4)] and K = moved_kfs [OF t(4)]
  let ?bs = "put_dinode (ioff (i_inum (inodes s ip))) (dinode_of (inodes s ip)) (view s n)"
  have "length (view s n) = BSIZE" using bufheld_D(1) held_D(4) [OF txn_D(1) [OF t(3)], of b] t(6) by simp
  then have len: "length ?bs = BSIZE" using ioff_bound by simp
  obtain u where u: "bnd (log_write b (upd_buf b (\<lambda>q. q\<lparr>b_data := ?bs\<rparr>) t)) (\<lambda>_ s. brelse b s) = Ret () u" "txn p H u"
    "moved H 1 t u" "view u = (view t)(n := ?bs)"
    by (rule txn_update [OF t(3,2) t(5) [symmetric], where bs = ?bs]) (use M(1,7) n(2) assms(6) len in auto)
  have "upd_buf b (\<lambda>q. q\<lparr>b_data := put_dinode (ioff (i_inum (inodes s ip))) (dinode_of (inodes s ip)) (b_data q)\<rparr>) t =
      upd_buf b (\<lambda>q. q\<lparr>b_data := ?bs\<rparr>) t"
    using t(6) by (simp add: upd_buf_def)
  then have "iupdate ip s = Ret () u"
    unfolding iupdate_def assms(2) assms(3) [symmetric] t(1) bnd.simps Let_def K using u(1) by simp
  then show thesis using that u(2,4) t(7) moved_trans [OF t(4) u(3)] by simp
qed

text \<open>What the file system keeps when inodes and their sleep-locks change as well.\<close>

definition fsame :: "nat set \<Rightarrow> nat \<Rightarrow> 'a kfs_scheme \<Rightarrow> 'a kfs_scheme \<Rightarrow> bool" where
  "fsame H k s t \<longleftrightarrow> log_start t = log_start s \<and> log_size t = log_size s \<and> log_outstanding t = log_outstanding s \<and>
     log_committing t = log_committing s \<and> log_dev t = log_dev s \<and> procs t = procs s \<and> sb t = sb s \<and>
     sectors t = sectors s \<and> wlog t = wlog s \<and> lh_n t \<le> lh_n s + int k \<and>
     (\<forall>b\<in>H. b_blockno (bufs t b) = b_blockno (bufs s b))"

lemma fsame_refl [simp]: "fsame H k s s"
  by (simp add: fsame_def)

lemma fsame_trans: "fsame H k s t \<Longrightarrow> fsame H l t u \<Longrightarrow> fsame H (k + l) s u"
  unfolding fsame_def by auto

lemma fsame_mono: "fsame H k s t \<Longrightarrow> G \<subseteq> H \<Longrightarrow> k \<le> l \<Longrightarrow> fsame G l s t"
  unfolding fsame_def by auto

lemma fsame_moved:
  assumes "moved H k s t"
  shows "fsame H k s t"
proof -
  have "lframe s t" "wlog t = wlog s" "\<forall>b\<in>H. b_blockno (bufs t b) = b_blockno (bufs s b)" using assms by (simp_all add: moved_def emits_def)
  then show ?thesis using moved_log(1,6) [OF assms] moved_kfs [OF assms] lframe_D(1-6) [of s t] by (simp add: fsame_def)
qed

lemma fsame_upd [simp]: "fsame H k s (upd_inode i f s)" "fsame H k s (upd_slk l g s)"
  by (simp_all add: fsame_def upd_inode_def) (simp add: upd_slk_def)

lemma fsame_D:
  assumes "fsame H k s t"
  shows "sb t = sb s" "data_block t = data_block s" "apart H t = apart H s" "in_log t = in_log s" "lh_n t \<le> lh_n s + int k"
    "procs t = procs s" "sectors t = sectors s"
  using assms by (auto simp: fsame_def data_block_def apart_def in_log_def fun_eq_iff)

lemma txn_fsame: "txn p H s \<Longrightarrow> fsame K k s t \<Longrightarrow> bufheld p G t \<Longrightarrow> txn p G t"
  by (simp add: txn_def fsame_def)

lemma ilock_load:
  fixes s :: "'a kfs_scheme"
  assumes "bufheld p H s" "1 \<le> i_ref (inodes s ip)" "\<not> i_valid (inodes s ip)" "\<not> sl_locked (slk s (Inode_lk ip))"
    and "i_dev (inodes s ip) = ROOTDEV" "n = IBLOCK (i_inum (inodes s ip)) (sb s)" "small n" "apart H s n"
    and "lh_n s + int (card H) < int LOGSIZE" "d = get_dinode (ioff (i_inum (inodes s ip))) (view s n)"
  shows "if d_type d = 0 then ilock ip s = Panic ''ilock: no type''
    else \<exists>t. ilock ip s = Ret () t \<and> bufheld p H t \<and> view t = view s \<and> fsame H 0 s t \<and>
      inodes t = (inodes s)(ip := (iload d (inodes s ip))\<lparr>i_valid := True\<rparr>)"
proof -
  note I = fs_idle_D [OF bio_D(1) [OF bufheld_D(1) [OF assms(1)]]]
  let ?s = "upd_slk (Inode_lk ip) (\<lambda>k. k\<lparr>sl_locked := True, sl_pid := p_pid (procs s p)\<rparr>) s"
  have a: "acquiresleep (Inode_lk ip) s = Ret () ?s" by (rule acquiresleep_eq [OF I(1,2) assms(4)])
  have sh: "bufheld p H ?s" "apart H ?s n" "lh_n ?s + int (card H) < int LOGSIZE" using assms(1,8,9) by simp_all
  obtain b t where t: "bread ROOTDEV n ?s = Ret b t" "b \<notin> H" "bufheld p (insert b H) t" "moved H 0 ?s t" "b_blockno (bufs t b) = n"
    "b_data (bufs t b) = view ?s n" "view t = view ?s" "pins t n = 1 \<or> b_data (bufs t b) = block (sectors t) n"
    by (rule bufheld_bread [OF sh(1) assms(7) sh(2,3)])
  note K = moved_kfs [OF t(4), simplified]
  let ?t = "upd_inode ip (iload d) t"
  obtain u where u: "brelse b ?t = Ret () u" "bufheld p H u" "moved H 0 ?t u" "view u = view ?t"
    by (rule bufheld_brelse [of p b H ?t n]) (use t(2,3,5,8) in auto)
  have Ku: "inodes u = (inodes s)(ip := iload d (inodes s ip))" using moved_kfs(2) [OF u(3)] K by simp
  let ?u = "upd_inode ip (\<lambda>q. q\<lparr>i_valid := True\<rparr>) u"
  have d: "get_dinode (ioff (i_inum (inodes t ip))) (b_data (bufs t b)) = d" using K(2) t(6) assms(10) by simp
  have "ilock ip s = bnd (brelse b ?t) (\<lambda>_ s. let s = upd_inode ip (\<lambda>q. q\<lparr>i_valid := True\<rparr>) s
      in if i_type (inodes s ip) = 0 then Panic ''ilock: no type'' else Ret () s)"
    using assms(2,3,5) t(1) a unfolding ilock_def by (simp add: assms(6) [symmetric] Let_def d)
  then have eq: "ilock ip s = (if d_type d = 0 then Panic ''ilock: no type'' else Ret () ?u)"
    using u(1) Ku by (simp add: Let_def iload_def)
  have "fsame H 0 s t" using fsame_trans [OF _ fsame_moved [OF t(4)], of 0 s] by simp
  moreover have "fsame H 0 t u" using fsame_trans [OF _ fsame_moved [OF u(3)], of 0 t] by simp
  ultimately have "fsame H (0 + 0 + 0) s ?u" using fsame_trans fsame_upd(1) by metis
  then show ?thesis using eq u(2,4) t(7) Ku by auto
qed

lemma moved_slk:
  assumes "moved H k s t" "\<And>b. l \<noteq> Buf_lk b"
  shows "slk t l = slk s l"
proof -
  obtain x y where "bframe (s\<lparr>lh_n := x, lh_block := y\<rparr>) t" using assms(1) by (auto simp: moved_def lframe_def)
  then show ?thesis using assms(2) unfolding bframe_def by auto
qed

section \<open>Properties\<close>

text \<open>
  C27: \<^verbatim>\<open>iget()\<close> keeps a live inode in one slot of the cache.  If the inode is cached its slot is
  returned with one more reference; otherwise an unreferenced slot is named after it, with one
  reference and not valid.  No other slot changes.  Only when every slot is referenced and none
  is for this inode does it panic.
\<close>

theorem iget_correct:
  fixes s :: "'a kfs_scheme"
  assumes "quiet s" "lock_free Icache_lock s" "icache_ok s"
  shows "if (\<exists>i. cached_inode s i dev inum) \<or> (\<exists>i<NINODE. i_ref (inodes s i) = 0)
    then \<exists>i t. iget dev inum s = Ret i t \<and> icache_ok t \<and> cached_inode t i dev inum \<and>
      (if cached_inode s i dev inum then inodes t i = (inodes s i)\<lparr>i_ref := i_ref (inodes s i) + 1\<rparr>
       else i_ref (inodes s i) = 0 \<and> i_ref (inodes t i) = 1 \<and> \<not> i_valid (inodes t i)) \<and>
      (\<forall>j. j \<noteq> i \<longrightarrow> inodes t j = inodes s j)
    else iget dev inum s = Panic ''iget: no inodes''"
proof (cases "(\<exists>i. cached_inode s i dev inum) \<or> (\<exists>i<NINODE. i_ref (inodes s i) = 0)")
  case False
  then show ?thesis using iget_none [OF assms(1,2), of dev inum] by auto
next
  case True
  obtain i f where i: "iget dev inum s = Ret i (upd_inode i f s)" "icache_ok (upd_inode i f s)"
    "f = (if \<exists>i. cached_inode s i dev inum then (\<lambda>q. q\<lparr>i_ref := i_ref q + 1\<rparr>) else fresh dev inum)"
    "cached_inode (upd_inode i f s) i dev inum"
    "if \<exists>i. cached_inode s i dev inum then cached_inode s i dev inum else i_ref (inodes s i) = 0"
    by (rule iget_ok [OF assms True])
  have "if cached_inode s i dev inum then f (inodes s i) = (inodes s i)\<lparr>i_ref := i_ref (inodes s i) + 1\<rparr>
      else i_ref (inodes s i) = 0 \<and> i_ref (f (inodes s i)) = 1 \<and> \<not> i_valid (f (inodes s i))"
  proof (cases "\<exists>i. cached_inode s i dev inum")
    case c: True
    then have "cached_inode s i dev inum" using i(5) by simp
    then show ?thesis using i(3) c by simp
  next
    case False
    then show ?thesis using i(3,5) by (auto simp: fresh_def)
  qed
  then show ?thesis using True i(1,2,4) by (simp add: exI [of _ i])
qed

lemma demo_kfs_quiet: "quiet demo_kfs" "lock_free l demo_kfs" "icache_ok demo_kfs" "\<not> cached_inode demo_kfs i d n"
  using fs_idle_D(2,6) [OF bio_D(1) [OF txn_D(1) [OF demo_kfs_txn(1)]]]
  by (simp_all add: icache_ok_def cached_inode_def demo_inode_def)

theorem iget_correct_witness:
  "\<exists>i t. iget ROOTDEV 5 demo_kfs = Ret i t \<and> icache_ok t \<and> cached_inode t i ROOTDEV 5 \<and> i_ref (inodes t i) = 1"
proof -
  have "\<exists>i<NINODE. i_ref (inodes demo_kfs i) = 0" by (intro exI [of _ 0]) (simp add: NINODE_def demo_inode_def)
  then show ?thesis
    using iget_correct [OF demo_kfs_quiet(1-3), of ROOTDEV 5] demo_kfs_quiet(4) by auto
qed

text \<open>
  C28: an inode written by \<^verbatim>\<open>iupdate()\<close> is read back by \<^verbatim>\<open>ilock()\<close>.  In any later state in which
  its block still has the contents \<^verbatim>\<open>iupdate()\<close> gave it and no cache slot holds the inode, \<^verbatim>\<open>iget()\<close>
  and \<^verbatim>\<open>ilock()\<close> return a slot with the same type, device numbers, link count, size and block
  addresses.
\<close>

theorem iupdate_ilock:
  fixes s :: "'a kfs_scheme"
  assumes "txn p {} s" "i_dev (inodes s ip) = ROOTDEV" "n = IBLOCK (i_inum (inodes s ip)) (sb s)" "data_block s n"
    and "lh_n s < int LOGSIZE - 1" "i_type (inodes s ip) \<noteq> 0"
  shows "\<exists>t. iupdate ip s = Ret () t \<and> txn p {} t \<and> moved {} 1 s t \<and>
    (\<forall>q. \<forall>r :: 'a kfs_scheme. bufheld q {} r \<and> sb r = sb s \<and> view r n = view t n \<and> icache_ok r \<and>
       (\<forall>i. \<not> cached_inode r i ROOTDEV (i_inum (inodes s ip)) \<and> \<not> sl_locked (slk r (Inode_lk i))) \<and>
       (\<exists>i<NINODE. i_ref (inodes r i) = 0) \<longrightarrow>
       (\<exists>j u v. iget ROOTDEV (i_inum (inodes s ip)) r = Ret j u \<and> ilock j u = Ret () v \<and> i_valid (inodes v j) \<and>
          dinode_of (inodes v j) = dinode_of (inodes s ip)))"
proof -
  let ?m = "i_inum (inodes s ip)" and ?d = "dinode_of (inodes s ip)"
  have room: "lh_n s + int (card {}) < int LOGSIZE - 1" using assms(5) by simp
  obtain t where t: "iupdate ip s = Ret () t" "txn p {} t" "moved {} 1 s t" "view t = (view s)(n := put_dinode (ioff ?m) ?d (view s n))"
    by (rule iupdate_ok [OF assms(1-4) _ room]) (simp add: apart_def)
  have sm: "small n" using assms(4) by (simp add: data_block_def)
  obtain c t' where "bread ROOTDEV n s = Ret c t'" "txn p {c} t'" "b_data (bufs t' c) = view s n"
    by (rule txn_bread [OF assms(1) sm]) (use room in \<open>auto simp: apart_def\<close>)
  then have "length (view s n) = BSIZE" using held_D(4) [OF txn_D(1), of p "{c}" t' c] by simp
  then have d: "get_dinode (ioff ?m) (view t n) = ?d" using get_put_dinode [of ?d "ioff ?m"] ioff_bound t(4) by simp
  have "\<exists>j u v. iget ROOTDEV ?m r = Ret j u \<and> ilock j u = Ret () v \<and> i_valid (inodes v j) \<and> dinode_of (inodes v j) = ?d"
    if r: "bufheld q {} r" "sb r = sb s" "view r n = view t n" "icache_ok r" "\<forall>i. \<not> cached_inode r i ROOTDEV ?m \<and> \<not> sl_locked (slk r (Inode_lk i))"
      "\<exists>i<NINODE. i_ref (inodes r i) = 0" for q and r :: "'a kfs_scheme"
  proof -
    note I = fs_idle_D [OF bio_D(1) [OF bufheld_D(1) [OF r(1)]]]
    obtain j where j: "iget ROOTDEV ?m r = Ret j (upd_inode j (fresh ROOTDEV ?m) r)"
      by (rule iget_ok [OF I(6,2) r(4), of ROOTDEV ?m]) (use r(5,6) in auto)
    let ?u = "upd_inode j (fresh ROOTDEV ?m) r"
    have f: "i_dev (inodes ?u j) = ROOTDEV" "i_inum (inodes ?u j) = ?m" "i_ref (inodes ?u j) = 1" "\<not> i_valid (inodes ?u j)"
      by (simp_all add: fresh_def)
    have dd: "?d = get_dinode (ioff (i_inum (inodes ?u j))) (view ?u n)" using d r(3) f(2) by simp
    have nn: "n = IBLOCK (i_inum (inodes ?u j)) (sb ?u)" using assms(3) r(2) f(2) by simp
    have hh: "bufheld q {} ?u" "1 \<le> i_ref (inodes ?u j)" "\<not> sl_locked (slk ?u (Inode_lk j))" "apart {} ?u n"
        "lh_n ?u + int (card {}) < int LOGSIZE"
      using r(1,5) f(3) bufheld_D(2) [OF r(1)] by (simp_all add: apart_def log_wf_def)
    have "d_type ?d \<noteq> 0" using assms(6) by (simp add: dinode_of_def)
    then obtain v where "ilock j ?u = Ret () v" "inodes v = (inodes ?u)(j := (iload ?d (inodes ?u j))\<lparr>i_valid := True\<rparr>)"
      using ilock_load [OF hh(1,2) f(4) hh(3) f(1) nn sm hh(4,5) dd] by auto
    moreover have "dinode_of (q\<lparr>i_valid := True\<rparr>) = dinode_of q" for q by (simp add: dinode_of_def)
    ultimately show ?thesis using j dinode_of_iload [of ?d] by (intro exI [of _ j] exI [of _ ?u] exI [of _ v]) simp
  qed
  then show ?thesis using t(1-3) by blast
qed

definition demo_file :: inode where
  "demo_file = \<lparr>i_dev = 1, i_inum = 5, i_ref = 1, i_valid = True, i_type = 2, i_major = 0, i_minor = 0, i_nlink = 1, i_size = 2000,
     i_addrs = (\<lambda>i. if i < 2 then 46 + of_nat i else 0)\<rparr>"

theorem iupdate_ilock_witness:
  "\<exists>t j u v. iupdate 3 (upd_inode 3 (\<lambda>_. demo_file) demo_kfs) = Ret () t \<and>
     iget ROOTDEV 5 (upd_inode 3 (\<lambda>q. q\<lparr>i_ref := 0\<rparr>) t) = Ret j u \<and> ilock j u = Ret () v \<and>
     i_size (inodes v j) = 2000 \<and> i_addrs (inodes v j) 1 = 47"
proof -
  let ?s = "upd_inode 3 (\<lambda>_. demo_file) demo_kfs"
  have f: "inodes ?s 3 = demo_file" by simp
  have n: "32 = IBLOCK (i_inum (inodes ?s 3)) (sb ?s)" by (simp add: IBLOCK_def demo_file_def demo_sb_def IPB_def BSIZE_def)
  have d: "data_block ?s 32" using not_in_log [of demo_kfs 32] by (simp add: data_block_def small_def)
  have a: "txn 5 {} ?s" "i_dev (inodes ?s 3) = ROOTDEV" "lh_n ?s < int LOGSIZE - 1" "i_type (inodes ?s 3) \<noteq> 0"
    using demo_kfs_txn(1) by (simp_all add: demo_file_def ROOTDEV_def LOGSIZE_def MAXOPBLOCKS_def)
  obtain t where t: "iupdate 3 ?s = Ret () t" "txn 5 {} t" "moved {} 1 ?s t"
    and later: "\<forall>q. \<forall>r :: kfs. bufheld q {} r \<and> sb r = sb ?s \<and> view r 32 = view t 32 \<and> icache_ok r \<and>
       (\<forall>i. \<not> cached_inode r i ROOTDEV 5 \<and> \<not> sl_locked (slk r (Inode_lk i))) \<and> (\<exists>i<NINODE. i_ref (inodes r i) = 0) \<longrightarrow>
       (\<exists>j u v. iget ROOTDEV 5 r = Ret j u \<and> ilock j u = Ret () v \<and> i_valid (inodes v j) \<and> dinode_of (inodes v j) = dinode_of demo_file)"
    using iupdate_ilock [OF a(1,2) n d a(3,4)] unfolding f by (auto simp: demo_file_def)
  let ?r = "upd_inode 3 (\<lambda>q. q\<lparr>i_ref := 0\<rparr>) t"
  have ul: "\<not> sl_locked (slk demo_kdisk l)" for l by (simp add: demo_kdisk_def)
  have "inodes t = inodes ?s" "sb t = sb ?s" "slk t (Inode_lk i) = slk ?s (Inode_lk i)" for i
    using moved_kfs [OF t(3)] moved_slk [OF t(3)] by auto
  then have "bufheld 5 {} ?r" "sb ?r = sb ?s" "view ?r 32 = view t 32" "icache_ok ?r" "\<forall>i. \<not> cached_inode ?r i ROOTDEV 5 \<and> \<not> sl_locked (slk ?r (Inode_lk i))"
      "\<exists>i<NINODE. i_ref (inodes ?r i) = 0"
    using txn_D(5) [OF t(2)] ul
    by (auto simp: icache_ok_def cached_inode_def demo_inode_def NINODE_def intro: exI [of _ 0])
  then obtain j u v where "iget ROOTDEV 5 ?r = Ret j u" "ilock j u = Ret () v" "dinode_of (inodes v j) = dinode_of demo_file"
    using later by blast
  moreover from this(3) have "i_size (inodes v j) = 2000" "i_addrs (inodes v j) 1 = 47"
    by (simp_all add: dinode_of_def demo_file_def NDIRECT_def upt_rec)
  ultimately show ?thesis using t(1) by blast
qed

end
