(* ===== verification/Filedata.thy ===== *)
theory Filedata
  imports Inode
begin

text \<open>
  The contents of files: the map from the blocks of a file to blocks of the disk that an inode
  and its indirect block encode, its extension by \<^verbatim>\<open>bmap()\<close>, and what \<^verbatim>\<open>readi()\<close> and \<^verbatim>\<open>writei()\<close> do to
  the bytes of a file.
\<close>

section \<open>The block map of an inode\<close>

text \<open>
  \<open>V\<close> are the contents of the disk blocks.  Address 0 is no block; a block of the file without
  an address counts as zeros, which is what it is filled with when it gets one.
\<close>

definition faddr :: "(uint32 \<Rightarrow> byte list) \<Rightarrow> inode \<Rightarrow> nat \<Rightarrow> uint32" where
  "faddr V q bn =
     (if bn < NDIRECT then i_addrs q bn
      else if i_addrs q NDIRECT = 0 then 0
      else get32 (4 * (bn - NDIRECT)) (V (i_addrs q NDIRECT)))"

definition fblocks :: "(uint32 \<Rightarrow> byte list) \<Rightarrow> inode \<Rightarrow> uint32 set" where
  "fblocks V q = ({i_addrs q NDIRECT} \<union> faddr V q ` {..<MAXFILE}) - {0}"

definition fblock :: "(uint32 \<Rightarrow> byte list) \<Rightarrow> inode \<Rightarrow> nat \<Rightarrow> byte list" where
  "fblock V q bn = (if faddr V q bn = 0 then replicate BSIZE 0 else V (faddr V q bn))"

text \<open>No block serves twice.\<close>

definition layout :: "(uint32 \<Rightarrow> byte list) \<Rightarrow> inode \<Rightarrow> bool" where
  "layout V q \<longleftrightarrow>
     (\<forall>b<MAXFILE. \<forall>c<MAXFILE. faddr V q b = faddr V q c \<longrightarrow> faddr V q b = 0 \<or> b = c) \<and>
     (\<forall>b<MAXFILE. faddr V q b = i_addrs q NDIRECT \<longrightarrow> faddr V q b = 0)"

lemma fblocks_iff: "a \<in> fblocks V q \<longleftrightarrow> a \<noteq> 0 \<and> (a = i_addrs q NDIRECT \<or> (\<exists>b<MAXFILE. faddr V q b = a))"
  by (auto simp: fblocks_def)

lemma faddr_in: "b < MAXFILE \<Longrightarrow> faddr V q b \<noteq> 0 \<Longrightarrow> faddr V q b \<in> fblocks V q"
  by (auto simp: fblocks_iff)

lemma file_nums: "NDIRECT = 12" "NINDIRECT = 256" "MAXFILE = 268" "BSIZE = 1024"
  by (simp_all add: fs_defs)

lemma get32_zeros: "off + 4 \<le> n \<Longrightarrow> get32 off (replicate n 0) = 0"
  by (simp add: get32_def sub_bytes_def dec_zeros)

text \<open>One more address, \<open>a\<close> for block \<open>m\<close> of the file or (\<open>m = MAXFILE\<close>) for the indirect block.\<close>

definition extends :: "(uint32 \<Rightarrow> byte list) \<Rightarrow> inode \<Rightarrow> (uint32 \<Rightarrow> byte list) \<Rightarrow> inode \<Rightarrow> nat \<Rightarrow> uint32 \<Rightarrow> bool" where
  "extends V q V' q' m a \<longleftrightarrow>
     (\<forall>b<MAXFILE. faddr V' q' b = (if b = m then a else faddr V q b)) \<and>
     i_addrs q' NDIRECT = (if m = MAXFILE then a else i_addrs q NDIRECT) \<and>
     (\<forall>n\<in>fblocks V q. n \<noteq> i_addrs q NDIRECT \<longrightarrow> V' n = V n) \<and> V' a = replicate BSIZE 0"

lemma extends_layout:
  assumes "extends V q V' q' m a" "layout V q" "a \<noteq> 0" "a \<notin> fblocks V q" "m \<le> MAXFILE"
    and "if m = MAXFILE then i_addrs q NDIRECT = 0 else faddr V q m = 0"
  shows "layout V' q'" "fblocks V' q' = insert a (fblocks V q)" "\<forall>b<MAXFILE. fblock V' q' b = fblock V q b"
proof -
  note E = assms(1) [unfolded extends_def]
  have na: "faddr V q b \<noteq> a" if "b < MAXFILE" for b using assms(3,4) that by (auto simp: fblocks_iff)
  have ni: "i_addrs q NDIRECT \<noteq> a" using assms(3,4) by (auto simp: fblocks_iff)
  show "layout V' q'" using assms(2) E na ni unfolding layout_def by (auto split: if_splits)
  show "fblocks V' q' = insert a (fblocks V q)"
    using E assms(3,5,6) by (auto simp: fblocks_iff split: if_splits) (metis le_neq_implies_less)+
  show "\<forall>b<MAXFILE. fblock V' q' b = fblock V q b"
  proof (intro allI impI)
    fix b assume b: "b < MAXFILE"
    show "fblock V' q' b = fblock V q b"
    proof (cases "b = m")
      case True
      then show ?thesis using E b assms(3,6) by (auto simp: fblock_def)
    next
      case False
      have "faddr V q b \<noteq> i_addrs q NDIRECT" if "faddr V q b \<noteq> 0" using assms(2) b that by (auto simp: layout_def)
      then show ?thesis using E b False faddr_in [OF b, of V q] by (auto simp: fblock_def)
    qed
  qed
qed

lemma extends_slot:
  assumes "layout V q" "k \<le> NDIRECT" "i_addrs q k = 0" "a \<notin> fblocks V q" "V' a = replicate BSIZE 0" "\<forall>n\<in>fblocks V q. V' n = V n"
  shows "extends V q V' (q\<lparr>i_addrs := (i_addrs q)(k := a)\<rparr>) (if k = NDIRECT then MAXFILE else k) a"
proof -
  have "get32 (4 * (b - NDIRECT)) (replicate BSIZE 0) = 0" if "b < MAXFILE" for b
    using that by (intro get32_zeros) (simp add: file_nums)
  moreover have "V' (i_addrs q NDIRECT) = V (i_addrs q NDIRECT)" if "i_addrs q NDIRECT \<noteq> 0"
    using that assms(6) by (auto simp: fblocks_iff)
  moreover have "NDIRECT < MAXFILE" by (simp add: file_nums)
  ultimately show ?thesis using assms unfolding extends_def by (auto simp: faddr_def)
qed

lemma extends_entry:
  assumes "layout V q" "i_addrs q NDIRECT \<noteq> 0" "j < NINDIRECT" "a \<notin> fblocks V q" "V' a = replicate BSIZE 0"
    and "\<forall>n\<in>fblocks V q. n \<noteq> i_addrs q NDIRECT \<longrightarrow> V' n = V n"
    and "V' (i_addrs q NDIRECT) = put32 (4 * j) a (V (i_addrs q NDIRECT))" "length (V (i_addrs q NDIRECT)) = BSIZE"
  shows "extends V q V' q (NDIRECT + j) a"
proof -
  have "faddr V' q b = (if b = NDIRECT + j then a else faddr V q b)" if b: "b < MAXFILE" for b
  proof (cases "b < NDIRECT")
    case True
    then show ?thesis by (simp add: faddr_def)
  next
    case False
    then obtain i where i: "b = NDIRECT + i" by (metis le_Suc_ex not_less)
    have l: "4 * j + 4 \<le> BSIZE" "4 * i + 4 \<le> BSIZE" using assms(3) b i by (simp_all add: file_nums)
    have "i \<noteq> j \<Longrightarrow> get32 (4 * i) (put32 (4 * j) a (V (i_addrs q NDIRECT))) = get32 (4 * i) (V (i_addrs q NDIRECT))"
      using l assms(8) by (intro get_put32_other) auto
    then show ?thesis using i l assms(2,7,8) by (cases "i = j") (simp_all add: faddr_def)
  qed
  moreover have "NDIRECT + j \<noteq> MAXFILE" using assms(3) by (simp add: file_nums)
  ultimately show ?thesis using assms(5,6) by (simp add: extends_def)
qed


section \<open>Files on the volume\<close>

definition bmaps :: "'a kfs_scheme \<Rightarrow> uint32 set" where
  "bmaps s = bmap_block s ` {..<unat (sb_size (sb s))}"

definition free_blocks :: "'a kfs_scheme \<Rightarrow> nat set" where
  "free_blocks s = {b. b < unat (sb_size (sb s)) \<and> \<not> blk_used s b}"

definition iblk :: "'a kfs_scheme \<Rightarrow> nat \<Rightarrow> uint32" where
  "iblk s ip = IBLOCK (i_inum (inodes s ip)) (sb s)"

definition fowned :: "'a kfs_scheme \<Rightarrow> nat \<Rightarrow> uint32 \<Rightarrow> bool" where
  "fowned s ip a \<longleftrightarrow> data_block s a \<and> unat a < unat (sb_size (sb s)) \<and> unat a \<notin> free_blocks s \<and> a \<notin> bmaps s \<and> a \<noteq> iblk s ip"

text \<open>
  A file in good order: its blocks are in use, are neither the bitmap's nor the inode's own, and
  none serves twice.
\<close>

definition file_ok :: "'a kfs_scheme \<Rightarrow> nat \<Rightarrow> bool" where
  "file_ok s ip \<longleftrightarrow> i_dev (inodes s ip) = ROOTDEV \<and> data_block s (iblk s ip) \<and> iblk s ip \<notin> bmaps s \<and>
     iblk s ip \<notin> of_nat ` free_blocks s \<and> 0 \<notin> free_blocks s \<and> layout (view s) (inodes s ip) \<and>
     (\<forall>a\<in>fblocks (view s) (inodes s ip). fowned s ip a)"

lemma finite_free [simp]: "finite (free_blocks s)"
  by (simp add: free_blocks_def)

text \<open>A block \<open>a\<close> was taken from the free ones and zeroed.\<close>

definition took :: "'a kfs_scheme \<Rightarrow> 'a kfs_scheme \<Rightarrow> uint32 \<Rightarrow> bool" where
  "took s t a \<longleftrightarrow> unat a \<in> free_blocks s \<and> free_blocks t = free_blocks s - {unat a} \<and> sb t = sb s \<and>
     (\<forall>n. n \<notin> bmaps s \<longrightarrow> view t n = (if n = a then replicate BSIZE 0 else view s n))"

lemma bmaps_I: "x < unat (sb_size (sb s)) \<Longrightarrow> bmap_block s x \<in> bmaps s"
  by (simp add: bmaps_def)

lemma bmaps_sb: "sb t = sb s \<Longrightarrow> bmaps t = bmaps s"
  by (simp add: bmaps_def bmap_block_def)

lemma volume_iff:
  "volume H s \<longleftrightarrow> unat (sb_size (sb s)) < 2 ^ 31 \<and> (\<forall>n\<in>bmaps s. data_block s n \<and> apart H s n) \<and>
     (\<forall>b\<in>free_blocks s. data_block s (of_nat b) \<and> apart H s (of_nat b) \<and> of_nat b \<notin> bmaps s)"
proof -
  have "(\<forall>c<n. bmap_block s c \<noteq> x) \<longleftrightarrow> x \<notin> bmap_block s ` {..<n}" for n x by (auto simp: image_iff)
  then show ?thesis unfolding volume_def bmaps_def free_blocks_def by auto
qed

lemma took_D:
  assumes "volume H s" "took s t a"
  shows "data_block s a" "apart H s a" "a \<notin> bmaps s" "unat a < unat (sb_size (sb s))" "bmaps t = bmaps s" "sb t = sb s"
    "card (free_blocks s) = Suc (card (free_blocks t))"
proof -
  have unat_inverse: "of_nat (unat a) = a" by simp
  have f: "unat a \<in> free_blocks s" "free_blocks t = free_blocks s - {unat a}" "sb t = sb s" using assms(2) by (simp_all add: took_def)
  show "data_block s a" "apart H s a" "a \<notin> bmaps s" "unat a < unat (sb_size (sb s))"
    using assms(1) f(1) unfolding volume_iff by (metis unat_inverse)+ (use f(1) in \<open>simp add: free_blocks_def\<close>)
  show "bmaps t = bmaps s" "sb t = sb s" using bmaps_sb f(3) by blast+
  show "card (free_blocks s) = Suc (card (free_blocks t))" using f(1,2) card_Suc_Diff1 [of "free_blocks s"] by simp
qed

lemma volume_frame:
  assumes "volume H s" "sb t = sb s" "data_block t = data_block s" "apart G t = apart G s" "free_blocks t \<subseteq> free_blocks s" "G \<subseteq> H"
  shows "volume G t"
  using assms bmaps_sb [OF assms(2)] unfolding volume_iff by (auto simp: apart_def subset_iff)

lemma balloc_took:
  fixes s :: "'a kfs_scheme"
  assumes "txn p H s" "volume H s" "lh_n s + int (card H) < int LOGSIZE - 2" "free_blocks s \<noteq> {}"
  obtains a t where "balloc ROOTDEV s = Ret a t" "txn p H t" "moved H 2 s t" "took s t a" "volume H t"
proof -
  define c where "c = Min (free_blocks s)"
  have c: "c \<in> free_blocks s" using assms(4) by (simp add: c_def)
  then have l: "c < unat (sb_size (sb s))" "\<not> blk_used s c" by (simp_all add: free_blocks_def)
  have "blk_used s b" if "b < c" for b
  proof (rule ccontr)
    assume "\<not> blk_used s b"
    then have "b \<in> free_blocks s" using that l(1) by (simp add: free_blocks_def)
    then show False using that Min_le [OF finite_free, of b s] unfolding c_def by linarith
  qed
  from balloc_fresh [OF assms(1-3) l this]
  obtain t where t: "balloc ROOTDEV s = Ret (of_nat c) t" "txn p H t" "moved H 2 s t"
    "\<forall>b<unat (sb_size (sb s)). blk_used t b \<longleftrightarrow> blk_used s b \<or> b = c"
    "\<forall>n. n \<noteq> bmap_block s c \<longrightarrow> view t n = (if n = of_nat c then replicate BSIZE 0 else view s n)" by blast
  have "c < 2 ^ 32" using l(1) assms(2) by (simp add: volume_def)
  then have u: "unat (of_nat c :: uint32) = c" by (simp add: unat_of_nat)
  note K = moved_kfs(1) [OF t(3)]
  have "bmap_block s c \<in> bmaps s" using l(1) by (simp add: bmaps_def)
  then have "view t n = (if n = of_nat c then replicate BSIZE 0 else view s n)" if "n \<notin> bmaps s" for n using t(5) that by metis
  then have k: "took s t (of_nat c)" using c t(4) K u by (auto simp: took_def free_blocks_def)
  have "volume H t" by (rule volume_frame [OF assms(2)]) (use moved_log [OF t(3)] K k in \<open>auto simp: took_def\<close>)
  then show thesis using that t(1-3) k by blast
qed

lemma took_file:
  assumes "volume {} s" "took s t a" "file_ok s ip"
  shows "a \<noteq> 0" "a \<notin> fblocks (view s) (inodes s ip)" "view t a = replicate BSIZE 0"
    "\<forall>n\<in>fblocks (view s) (inodes s ip). view t n = view s n" "a \<noteq> iblk s ip"
proof -
  have f: "unat a \<in> free_blocks s" "a \<notin> bmaps s" using assms(2) took_D(3) [OF assms(1,2)] by (simp_all add: took_def)
  show "a \<noteq> 0" using f(1) assms(3) by (auto simp: file_ok_def)
  show na: "a \<notin> fblocks (view s) (inodes s ip)" using f(1) assms(3) by (auto simp: file_ok_def fowned_def)
  show "view t a = replicate BSIZE 0" using assms(2) f(2) by (simp add: took_def)
  show "\<forall>n\<in>fblocks (view s) (inodes s ip). view t n = view s n"
    using assms(2,3) na by (auto simp: file_ok_def fowned_def took_def)
  have "a = of_nat (unat a)" by simp
  then show "a \<noteq> iblk s ip" using f(1) assms(3) unfolding file_ok_def by (metis imageI)
qed

lemma file_ok_extends:
  fixes s u :: "'a kfs_scheme"
  assumes "file_ok s ip" "volume {} s" "extends (view s) (inodes s ip) (view u) (inodes u ip) m a" "m \<le> MAXFILE"
    and "if m = MAXFILE then i_addrs (inodes s ip) NDIRECT = 0 else faddr (view s) (inodes s ip) m = 0"
    and "took s t a" "free_blocks u = free_blocks t" "sb u = sb s" "data_block u = data_block s"
    and "i_dev (inodes u ip) = i_dev (inodes s ip)" "i_inum (inodes u ip) = i_inum (inodes s ip)"
  shows "file_ok u ip" "\<forall>b<MAXFILE. fblock (view u) (inodes u ip) b = fblock (view s) (inodes s ip) b"
    "fblocks (view u) (inodes u ip) = insert a (fblocks (view s) (inodes s ip))"
proof -
  note T = took_file [OF assms(2,6,1)] and D = took_D [OF assms(2,6)]
  have lay: "layout (view s) (inodes s ip)" using assms(1) by (simp add: file_ok_def)
  note E = extends_layout [OF assms(3) lay T(1,2) assms(4,5)]
  show "\<forall>b<MAXFILE. fblock (view u) (inodes u ip) b = fblock (view s) (inodes s ip) b"
    "fblocks (view u) (inodes u ip) = insert a (fblocks (view s) (inodes s ip))" by (rule E)+
  have i: "iblk u ip = iblk s ip" "bmaps u = bmaps s" using assms(8,11) bmaps_sb by (auto simp: iblk_def)
  have f: "free_blocks u = free_blocks s - {unat a}" using assms(6,7) by (simp add: took_def)
  then have "fowned u ip a" using D(1,3,4) T(5) i assms(8,9) by (simp add: fowned_def)
  moreover have "fowned u ip n" if "fowned s ip n" for n using that i f assms(8,9) by (simp add: fowned_def)
  ultimately show "file_ok u ip" using E assms(1,9,10) i f by (auto simp: file_ok_def)
qed


section \<open>\<open>bmap\<close>\<close>

text \<open>
  What operations on the file \<open>ip\<close> may change: the addresses in its inode, its own
  blocks, free blocks that become its own, the bitmap, and the block of its inode.
\<close>

definition fframe :: "nat \<Rightarrow> nat \<Rightarrow> 'a kfs_scheme \<Rightarrow> 'a kfs_scheme \<Rightarrow> bool" where
  "fframe ip k s t \<longleftrightarrow> fsame {} k s t \<and> (\<exists>a. inodes t = (inodes s)(ip := (inodes s ip)\<lparr>i_addrs := a\<rparr>)) \<and>
     free_blocks t \<subseteq> free_blocks s \<and>
     fblocks (view s) (inodes s ip) \<subseteq> fblocks (view t) (inodes t ip) \<and>
     fblocks (view t) (inodes t ip) \<subseteq> fblocks (view s) (inodes s ip) \<union> {a. unat a \<in> free_blocks s} \<and>
     (\<forall>n. n \<notin> bmaps s \<and> n \<notin> fblocks (view t) (inodes t ip) \<and> n \<noteq> iblk s ip \<longrightarrow> view t n = view s n)"

lemma fframe_D:
  assumes "fframe ip k s t"
  shows "fsame {} k s t" "\<And>j. j \<noteq> ip \<Longrightarrow> inodes t j = inodes s j" "i_dev (inodes t ip) = i_dev (inodes s ip)"
    "i_inum (inodes t ip) = i_inum (inodes s ip)" "i_type (inodes t ip) = i_type (inodes s ip)" "bmaps t = bmaps s" "iblk t ip = iblk s ip"
    "free_blocks t \<subseteq> free_blocks s" "i_size (inodes t ip) = i_size (inodes s ip)"
proof -
  obtain a where i: "inodes t = (inodes s)(ip := (inodes s ip)\<lparr>i_addrs := a\<rparr>)" using assms by (auto simp: fframe_def)
  show f: "fsame {} k s t" "free_blocks t \<subseteq> free_blocks s"
    using assms by (simp_all add: fframe_def)
  show "\<And>j. j \<noteq> ip \<Longrightarrow> inodes t j = inodes s j" "i_dev (inodes t ip) = i_dev (inodes s ip)"
    "i_inum (inodes t ip) = i_inum (inodes s ip)" "i_type (inodes t ip) = i_type (inodes s ip)" "bmaps t = bmaps s" "iblk t ip = iblk s ip"
    "i_size (inodes t ip) = i_size (inodes s ip)"
    using i fsame_D(1) [OF f(1)] bmaps_sb [OF fsame_D(1) [OF f(1)]] by (simp_all add: iblk_def)
qed

lemma fframe_refl [simp]: "fframe ip k s s"
  unfolding fframe_def by (auto intro!: exI [of _ "i_addrs (inodes s ip)"])

lemma fframe_trans:
  assumes "fframe ip k s t" "fframe ip l t u"
  shows "fframe ip (k + l) s u"
proof -
  note S = fframe_D [OF assms(1)] and T = fframe_D [OF assms(2)]
  obtain a b where "inodes t = (inodes s)(ip := (inodes s ip)\<lparr>i_addrs := a\<rparr>)" "inodes u = (inodes t)(ip := (inodes t ip)\<lparr>i_addrs := b\<rparr>)"
    using assms unfolding fframe_def by metis
  then have "inodes u = (inodes s)(ip := (inodes s ip)\<lparr>i_addrs := b\<rparr>)" by simp
  then have "\<exists>a. inodes u = (inodes s)(ip := (inodes s ip)\<lparr>i_addrs := a\<rparr>)" by blast
  moreover have "view u n = view s n" if "n \<notin> bmaps s" "n \<notin> fblocks (view u) (inodes u ip)" "n \<noteq> iblk s ip" for n
  proof -
    have "view u n = view t n" using assms(2) that S(6,7) unfolding fframe_def by blast
    moreover have "n \<notin> fblocks (view t) (inodes t ip)" using assms(2) that(2) unfolding fframe_def by blast
    ultimately show ?thesis using assms(1) that(1,3) unfolding fframe_def by auto
  qed
  moreover have "fblocks (view s) (inodes s ip) \<subseteq> fblocks (view u) (inodes u ip)"
    "fblocks (view u) (inodes u ip) \<subseteq> fblocks (view s) (inodes s ip) \<union> {a. unat a \<in> free_blocks s}"
    using assms S(8) unfolding fframe_def by blast+
  ultimately show ?thesis using fsame_trans [OF S(1) T(1)] S(8) T(8) unfolding fframe_def by auto
qed

lemma fframe_mono: "fframe ip k s t \<Longrightarrow> k \<le> l \<Longrightarrow> fframe ip l s t"
  using fsame_mono [of "{}" k s t "{}" l] unfolding fframe_def by auto

lemma fframe_extends:
  assumes "file_ok s ip" "volume {} s" "extends (view s) (inodes s ip) (view u) (inodes u ip) m a" "m \<le> MAXFILE"
    and "if m = MAXFILE then i_addrs (inodes s ip) NDIRECT = 0 else faddr (view s) (inodes s ip) m = 0"
    and "took s t a" "free_blocks u = free_blocks t" "fsame {} k s u"
    and "inodes u = (inodes s)(ip := (inodes s ip)\<lparr>i_addrs := f\<rparr>)"
    and "\<And>n. n \<notin> bmaps s \<Longrightarrow> n \<noteq> a \<Longrightarrow> n \<notin> fblocks (view s) (inodes s ip) \<Longrightarrow> view u n = view s n"
  shows "file_ok u ip" "\<forall>b<MAXFILE. fblock (view u) (inodes u ip) b = fblock (view s) (inodes s ip) b" "fframe ip k s u" "volume {} u"
proof -
  have i: "i_dev (inodes u ip) = i_dev (inodes s ip)" "i_inum (inodes u ip) = i_inum (inodes s ip)" using assms(9) by simp_all
  note S = fsame_D [OF assms(8)]
  note E = file_ok_extends [OF assms(1-7) S(1,2) i]
  show "file_ok u ip" "\<forall>b<MAXFILE. fblock (view u) (inodes u ip) b = fblock (view s) (inodes s ip) b" by (rule E)+
  have a: "unat a \<in> free_blocks s" "free_blocks u = free_blocks s - {unat a}" using assms(6,7) by (simp_all add: took_def)
  show "fframe ip k s u" using assms(8-10) a E(3) unfolding fframe_def by auto
  show "volume {} u" by (rule volume_frame [OF assms(2) S(1,2)]) (use S(3) a in auto)
qed


lemma file_upd_simps [simp]: "free_blocks (upd_inode i f s) = free_blocks s" "bmaps (upd_inode i f s) = bmaps s"
  "volume H (upd_inode i f s) = volume H s"
proof -
  show "free_blocks (upd_inode i f s) = free_blocks s" "bmaps (upd_inode i f s) = bmaps s"
    by (simp_all add: free_blocks_def bmaps_def blk_used_def bmap_block_def)
  then show "volume H (upd_inode i f s) = volume H s" by (simp add: volume_iff)
qed

lemma bmap_slot:
  fixes s :: "'a kfs_scheme"
  assumes "txn p {} s" "volume {} s" "file_ok s ip" "lh_n s < int LOGSIZE - 2" "free_blocks s \<noteq> {}" "k \<le> NDIRECT" "i_addrs (inodes s ip) k = 0"
  obtains a u where "bnd (balloc (i_dev (inodes s ip)) s) (\<lambda>addr s. Ret addr (upd_inode ip (\<lambda>q. q\<lparr>i_addrs := (i_addrs q)(k := addr)\<rparr>) s)) = Ret a u"
    "txn p {} u" "volume {} u" "file_ok u ip" "fframe ip 2 s u" "a \<noteq> 0"
    "extends (view s) (inodes s ip) (view u) (inodes u ip) (if k = NDIRECT then MAXFILE else k) a"
    "\<forall>b<MAXFILE. fblock (view u) (inodes u ip) b = fblock (view s) (inodes s ip) b" "card (free_blocks s) = Suc (card (free_blocks u))"
proof -
  have dev: "i_dev (inodes s ip) = ROOTDEV" and lay: "layout (view s) (inodes s ip)" using assms(3) by (simp_all add: file_ok_def)
  obtain a t where t: "balloc ROOTDEV s = Ret a t" "txn p {} t" "moved {} 2 s t" "took s t a" "volume {} t"
    by (rule balloc_took [OF assms(1,2)]) (use assms(4,5) in auto)
  note T = took_file [OF assms(2) t(4) assms(3)] and D = took_D [OF assms(2) t(4)]
  let ?u = "upd_inode ip (\<lambda>q. q\<lparr>i_addrs := (i_addrs q)(k := a)\<rparr>) t" and ?m = "if k = NDIRECT then MAXFILE else k"
  have I: "inodes ?u = (inodes s)(ip := (inodes s ip)\<lparr>i_addrs := (i_addrs (inodes s ip))(k := a)\<rparr>)"
    using moved_kfs(2) [OF t(3)] by simp
  have E: "extends (view s) (inodes s ip) (view ?u) (inodes ?u ip) ?m a"
    using extends_slot [OF lay assms(6,7) T(2-4)] I by simp
  have m: "?m \<le> MAXFILE" "if ?m = MAXFILE then i_addrs (inodes s ip) NDIRECT = 0 else faddr (view s) (inodes s ip) ?m = 0"
    using assms(6,7) by (auto simp: file_nums faddr_def)
  have F: "fsame {} 2 s ?u" using fsame_trans [OF fsame_moved [OF t(3)] fsame_upd(1), of 0] by simp
  have V: "view ?u n = view s n" if "n \<notin> bmaps s" "n \<noteq> a" for n using t(4) that by (simp add: took_def)
  note X = fframe_extends [OF assms(3,2) E m t(4) _ F I V]
  show thesis using that [of a ?u] t(1,2) dev E T(1) X D(7) by simp
qed

lemma view_length:
  fixes s :: "'a klog_scheme"
  assumes "bufheld p H s" "small n" "apart H s n" "lh_n s + int (card H) < int LOGSIZE"
  shows "length (view s n) = BSIZE"
proof -
  obtain b and t :: "'a klog_scheme" where "bufheld p (insert b H) t" "b_data (bufs t b) = view s n"
    by (rule bufheld_bread [OF assms])
  then show ?thesis using held_D(4) [OF bufheld_D(1), of p "insert b H" t b] by simp
qed

lemma apart_empty [simp]: "apart {} s n"
  by (simp add: apart_def)

lemma view_length_txn: "bufheld p {} s \<Longrightarrow> small n \<Longrightarrow> length (view s n) = BSIZE"
  by (rule view_length) (use bufheld_D(2) [of p "{}" s] in \<open>auto simp: log_wf_def\<close>)

text \<open>The part of \<^verbatim>\<open>bmap()\<close> that looks up, or allocates, an entry of the indirect block.\<close>

definition bmap_entry :: "nat \<Rightarrow> nat \<Rightarrow> uint32 \<Rightarrow> 'a kfs_scheme \<Rightarrow> (uint32, 'a kfs_scheme) outcome" where
  "bmap_entry ip bn addr s =
     bnd (bread (i_dev (inodes s ip)) addr s) (\<lambda>bp s.
       let addr = get32 (4 * bn) (b_data (bufs s bp))
       in bnd (if addr = 0 then
                 bnd (balloc (i_dev (inodes s ip)) s) (\<lambda>addr s.
                   let s = upd_buf bp (\<lambda>q. q\<lparr>b_data := put32 (4 * bn) addr (b_data q)\<rparr>) s
                   in bnd (log_write bp s) (\<lambda>_ s. Ret addr s))
               else Ret addr s) (\<lambda>addr s.
          bnd (brelse bp s) (\<lambda>_ s. Ret addr s)))"

lemma bmap_entry_found:
  fixes s :: "'a kfs_scheme"
  assumes "bufheld p {} s" "file_ok s ip" "j < NINDIRECT" "i_addrs (inodes s ip) NDIRECT \<noteq> 0" "faddr (view s) (inodes s ip) (NDIRECT + j) \<noteq> 0"
  obtains t where "bmap_entry ip j (i_addrs (inodes s ip) NDIRECT) s = Ret (faddr (view s) (inodes s ip) (NDIRECT + j)) t"
    "bufheld p {} t" "moved {} 0 s t" "view t = view s"
proof -
  let ?n = "i_addrs (inodes s ip) NDIRECT"
  have dev: "i_dev (inodes s ip) = ROOTDEV" and "fowned s ip ?n" using assms(2,4) by (auto simp: file_ok_def fblocks_iff)
  then have sm: "small ?n" by (simp add: fowned_def data_block_def)
  have lg: "lh_n s + int (card {}) < int LOGSIZE" using bufheld_D(2) [OF assms(1)] by (simp add: log_wf_def)
  obtain b t where t: "bread ROOTDEV ?n s = Ret b t" "b \<notin> {}" "bufheld p {b} t" "moved {} 0 s t" "b_blockno (bufs t b) = ?n"
    "b_data (bufs t b) = view s ?n" "view t = view s" "pins t ?n = 1 \<or> b_data (bufs t b) = block (sectors t) ?n"
    by (rule bufheld_bread [OF assms(1) sm _ lg]) simp_all
  obtain u where u: "brelse b t = Ret () u" "bufheld p {} u" "moved {} 0 t u" "view u = view t"
    by (rule bufheld_brelse [OF t(3,2) t(5) [symmetric] t(8)])
  have "faddr (view s) (inodes s ip) (NDIRECT + j) = get32 (4 * j) (b_data (bufs t b))" using assms(4) t(6) by (simp add: faddr_def)
  then have "bmap_entry ip j ?n s = Ret (faddr (view s) (inodes s ip) (NDIRECT + j)) u"
    using assms(5) t(1) u(1) dev by (simp add: bmap_entry_def)
  then show thesis using that u(2,4) t(7) moved_trans [OF t(4) u(3)] by simp
qed


lemma bmap_entry_new:
  fixes s :: "'a kfs_scheme"
  assumes "txn p {} s" "volume {} s" "file_ok s ip" "j < NINDIRECT" "i_addrs (inodes s ip) NDIRECT \<noteq> 0"
    and "faddr (view s) (inodes s ip) (NDIRECT + j) = 0" "lh_n s < int LOGSIZE - 3" "free_blocks s \<noteq> {}"
  obtains a u where "bmap_entry ip j (i_addrs (inodes s ip) NDIRECT) s = Ret a u"
    "txn p {} u" "volume {} u" "file_ok u ip" "fframe ip 3 s u" "a \<noteq> 0"
    "extends (view s) (inodes s ip) (view u) (inodes u ip) (NDIRECT + j) a"
    "\<forall>b<MAXFILE. fblock (view u) (inodes u ip) b = fblock (view s) (inodes s ip) b" "card (free_blocks s) = Suc (card (free_blocks u))"
proof -
  let ?q = "inodes s ip" and ?n = "i_addrs (inodes s ip) NDIRECT"
  have dev: "i_dev ?q = ROOTDEV" and lay: "layout (view s) ?q" and fo: "fowned s ip ?n" and nf: "?n \<in> fblocks (view s) ?q"
    using assms(3,5) by (auto simp: file_ok_def fblocks_iff)
  then have n: "small ?n" "\<not> in_log s ?n" "unat ?n \<notin> free_blocks s" "?n \<notin> bmaps s" by (simp_all add: fowned_def data_block_def)
  obtain b t where t: "bread ROOTDEV ?n s = Ret b t" "b \<notin> {}" "txn p {b} t" "moved {} 0 s t" "b_blockno (bufs t b) = ?n"
    "b_data (bufs t b) = view s ?n" "view t = view s"
    by (rule txn_bread [OF assms(1) n(1)]) (use assms(7) in auto)
  note M = moved_log [OF t(4)] and K = moved_kfs [OF t(4)] and W = volume_moved [OF t(4,7)]
  have fb: "free_blocks t = free_blocks s" "bmaps t = bmaps s" using W K by (simp_all add: free_blocks_def bmaps_def)
  have "of_nat x \<noteq> ?n" if "x \<in> free_blocks s" for x
  proof -
    have "x < 2 ^ 32" using that assms(2) by (simp add: free_blocks_def volume_def)
    then have "unat (of_nat x :: uint32) = x" by (simp add: unat_of_nat)
    then show ?thesis using that n(3) by metis
  qed
  then have "\<forall>x\<in>free_blocks s. b_blockno (bufs t b) \<noteq> of_nat x" using t(5) by metis
  then have vb: "volume {b} t" using assms(2) n(4) t(5) M(2) K fb by (auto simp: volume_iff apart_def)
  obtain a v where v: "balloc ROOTDEV t = Ret a v" "txn p {b} v" "moved {b} 2 t v" "took t v a" "volume {b} v"
    by (rule balloc_took [OF t(3) vb]) (use M(1) assms(7,8) fb in auto)
  have tk: "took s v a" using v(4) t(7) fb K by (simp add: took_def)
  note T = took_file [OF assms(2) tk assms(3)] and D = took_D [OF assms(2) tk] and Mv = moved_log [OF v(3)]
  have bv: "b_blockno (bufs v b) = ?n" using v(3) t(5) by (simp add: moved_def)
  have dv: "b_data (bufs v b) = view s ?n" using held_D(5) [OF txn_D(1) [OF v(2)], of b] bv T(4) nf by simp
  have len: "length (view s ?n) = BSIZE" using view_length_txn [OF txn_D(5) [OF assms(1)] n(1)] .
  let ?bs = "put32 (4 * j) a (view s ?n)"
  have lb: "length ?bs = BSIZE" "upd_buf b (\<lambda>q. q\<lparr>b_data := put32 (4 * j) a (b_data q)\<rparr>) v = upd_buf b (\<lambda>q. q\<lparr>b_data := ?bs\<rparr>) v"
    using len assms(4) dv by (simp_all add: file_nums upd_buf_def)
  obtain u where u: "bnd (log_write b (upd_buf b (\<lambda>q. q\<lparr>b_data := ?bs\<rparr>) v)) (\<lambda>_ s. brelse b s) = Ret () u" "txn p {} u"
    "moved {} 1 v u" "view u = (view v)(?n := ?bs)"
    by (rule txn_update [OF v(2) t(2) bv [symmetric], where bs = ?bs]) (use M(1,7) Mv(1,7) n(2) assms(7) lb in auto)
  have "bmap_entry ip j ?n s = bnd (bnd (log_write b (upd_buf b (\<lambda>q. q\<lparr>b_data := ?bs\<rparr>) v)) (\<lambda>_ s. brelse b s)) (\<lambda>_ s. Ret a s)"
    using assms(5,6) t(1,6) v(1) dev K(2) unfolding bmap_entry_def by (simp add: faddr_def bnd_assoc lb(2))
  then have eq: "bmap_entry ip j ?n s = Ret a u" using u(1) by simp
  have sv: "moved {} 2 s v" using moved_trans [OF t(4) moved_mono [OF v(3), of "{}" 2]] by (simp add: numeral_2_eq_2)
  have su: "moved {} 3 s u" using moved_trans [OF sv u(3)] by (simp add: numeral_3_eq_3)
  have I: "inodes u = (inodes s)(ip := ?q\<lparr>i_addrs := i_addrs ?q\<rparr>)" using moved_kfs(2) [OF su] by simp
  have fu: "free_blocks u = free_blocks v"
  proof -
    have "bmap_block v x \<in> bmaps s" if "x < unat (sb_size (sb s))" for x
      using that moved_kfs(1) [OF sv] by (auto simp: bmaps_def bmap_block_def)
    then have "bmap_block v x \<noteq> ?n" if "x < unat (sb_size (sb s))" for x using n(4) that by metis
    then show ?thesis using u(4) moved_kfs(1) [OF u(3)] moved_kfs(1) [OF sv] by (auto simp: free_blocks_def blk_used_def bmap_block_def)
  qed
  have V: "view u x = view v x" if "x \<noteq> ?n" for x using u(4) that by simp
  have an: "a \<noteq> ?n" using T(2) nf by blast
  have E: "extends (view s) ?q (view u) (inodes u ip) (NDIRECT + j) a"
    using extends_entry [OF lay assms(5,4) T(2), of "view u"] V T(3,4) an u(4) len I by simp
  have m: "NDIRECT + j \<le> MAXFILE" "if NDIRECT + j = MAXFILE then i_addrs ?q NDIRECT = 0 else faddr (view s) ?q (NDIRECT + j) = 0"
    using assms(4,6) by (auto simp: file_nums)
  have O: "view u x = view s x" if "x \<notin> bmaps s" "x \<noteq> a" "x \<notin> fblocks (view s) ?q" for x
    using that V [of x] nf tk by (auto simp: took_def)
  note X = fframe_extends [OF assms(3,2) E m tk fu fsame_moved [OF su] I O]
  show thesis using that [of a u] eq u(2) T(1) E X D(7) fu by simp
qed


lemma bmap_indirect:
  "j < NINDIRECT \<Longrightarrow> bmap ip (NDIRECT + j) s =
     bnd (if i_addrs (inodes s ip) NDIRECT = 0 then
            bnd (balloc (i_dev (inodes s ip)) s) (\<lambda>addr s.
              Ret addr (upd_inode ip (\<lambda>q. q\<lparr>i_addrs := (i_addrs q)(NDIRECT := addr)\<rparr>) s))
          else Ret (i_addrs (inodes s ip) NDIRECT) s) (\<lambda>addr s. bmap_entry ip j addr s)"
  by (simp add: bmap_def bmap_entry_def Let_def)

lemma file_block_cases:
  assumes "bn < MAXFILE"
  obtains "bn < NDIRECT" | j where "bn = NDIRECT + j" "j < NINDIRECT"
  using assms that(2) [of "bn - NDIRECT"] that(1) by (fastforce simp: file_nums)

lemma bmap_found:
  fixes s :: "'a kfs_scheme"
  assumes "bufheld p {} s" "file_ok s ip" "bn < MAXFILE" "faddr (view s) (inodes s ip) bn \<noteq> 0"
  obtains t where "bmap ip bn s = Ret (faddr (view s) (inodes s ip) bn) t" "bufheld p {} t" "moved {} 0 s t" "view t = view s"
  using assms(3)
proof (cases rule: file_block_cases)
  case 1
  then show thesis using that [of s] assms by (simp add: bmap_def faddr_def)
next
  case (2 j)
  then have i: "i_addrs (inodes s ip) NDIRECT \<noteq> 0" using assms(4) by (auto simp: faddr_def)
  obtain t where "bmap_entry ip j (i_addrs (inodes s ip) NDIRECT) s = Ret (faddr (view s) (inodes s ip) (NDIRECT + j)) t"
    "bufheld p {} t" "moved {} 0 s t" "view t = view s"
    by (rule bmap_entry_found [OF assms(1,2) 2(2) i]) (use assms(4) 2(1) in auto)
  then show thesis using that [of t] bmap_indirect [OF 2(2), of ip s] 2(1) i by simp
qed

lemma bmap_ind:
  fixes s :: "'a kfs_scheme"
  assumes "txn p {} s" "volume {} s" "file_ok s ip" "lh_n s < int LOGSIZE - 2" "2 \<le> card (free_blocks s)"
  shows "\<exists>u. (if i_addrs (inodes s ip) NDIRECT = 0 then
          bnd (balloc (i_dev (inodes s ip)) s) (\<lambda>addr s.
            Ret addr (upd_inode ip (\<lambda>q. q\<lparr>i_addrs := (i_addrs q)(NDIRECT := addr)\<rparr>) s))
        else Ret (i_addrs (inodes s ip) NDIRECT) s) = Ret (i_addrs (inodes u ip) NDIRECT) u \<and>
      txn p {} u \<and> volume {} u \<and> file_ok u ip \<and> fframe ip 2 s u \<and> i_addrs (inodes u ip) NDIRECT \<noteq> 0 \<and>
      card (free_blocks s) \<le> Suc (card (free_blocks u)) \<and>
      (\<forall>b<MAXFILE. fblock (view u) (inodes u ip) b = fblock (view s) (inodes s ip) b \<and> faddr (view u) (inodes u ip) b = faddr (view s) (inodes s ip) b)"
proof (cases "i_addrs (inodes s ip) NDIRECT = 0")
  case z: True
  have ne: "free_blocks s \<noteq> {}" using assms(5) by auto
  obtain a u where u: "bnd (balloc (i_dev (inodes s ip)) s) (\<lambda>addr s. Ret addr (upd_inode ip (\<lambda>q. q\<lparr>i_addrs := (i_addrs q)(NDIRECT := addr)\<rparr>) s)) = Ret a u"
    "txn p {} u" "volume {} u" "file_ok u ip" "fframe ip 2 s u" "a \<noteq> 0"
    "extends (view s) (inodes s ip) (view u) (inodes u ip) (if NDIRECT = NDIRECT then MAXFILE else NDIRECT) a"
    "\<forall>b<MAXFILE. fblock (view u) (inodes u ip) b = fblock (view s) (inodes s ip) b" "card (free_blocks s) = Suc (card (free_blocks u))"
    by (rule bmap_slot [OF assms(1-4) ne _ z]) simp
  then show ?thesis using z assms(5) by (intro exI [of _ u]) (auto simp: extends_def)
next
  case False
  then show ?thesis using assms by (intro exI [of _ s]) simp
qed

lemma file_moved:
  fixes s t :: "'a kfs_scheme"
  assumes "moved {} 0 s t" "view t = view s"
  shows "file_ok t ip = file_ok s ip" "free_blocks t = free_blocks s" "bmaps t = bmaps s" "fframe ip k s t"
proof -
  note K = moved_kfs [OF assms(1)] and W = volume_moved [OF assms]
  show f: "free_blocks t = free_blocks s" "bmaps t = bmaps s" using W K by (simp_all add: free_blocks_def bmaps_def)
  show "file_ok t ip = file_ok s ip" using K assms(2) f moved_log(2) [OF assms(1)] by (simp add: file_ok_def fowned_def iblk_def)
  show "fframe ip k s t" using fframe_refl [of ip k s] fsame_mono [OF fsame_moved [OF assms(1)], of "{}" k] K assms(2) f
    unfolding fframe_def by simp
qed

lemma bmap_ok:
  fixes s :: "'a kfs_scheme"
  assumes "txn p {} s" "volume {} s" "file_ok s ip" "bn < MAXFILE" "lh_n s < int LOGSIZE - 5" "2 \<le> card (free_blocks s)"
  obtains t where "bmap ip bn s = Ret (faddr (view t) (inodes t ip) bn) t" "txn p {} t" "volume {} t" "file_ok t ip" "fframe ip 5 s t"
    "faddr (view t) (inodes t ip) bn \<noteq> 0"
    "\<forall>b<MAXFILE. fblock (view t) (inodes t ip) b = fblock (view s) (inodes s ip) b"
    "\<forall>b<MAXFILE. faddr (view s) (inodes s ip) b \<noteq> 0 \<longrightarrow> faddr (view t) (inodes t ip) b = faddr (view s) (inodes s ip) b"
    "card (free_blocks s) \<le> card (free_blocks t) + 2"
proof (cases "faddr (view s) (inodes s ip) bn = 0")
  case False
  obtain t where t: "bmap ip bn s = Ret (faddr (view s) (inodes s ip) bn) t" "bufheld p {} t" "moved {} 0 s t" "view t = view s"
    by (rule bmap_found [OF txn_D(5) [OF assms(1)] assms(3,4) False])
  note K = moved_kfs [OF t(3)] and W = volume_moved [OF t(3,4)]
  show thesis using that [of t] t K W assms(2,3) False txn_moved [OF assms(1) t(3,2)] file_moved [OF t(3,4)] by simp
next
  case True
  have ne: "free_blocks s \<noteq> {}" using assms(6) by auto
  show thesis
    using assms(4)
  proof (cases rule: file_block_cases)
    case 1
    then have z: "i_addrs (inodes s ip) bn = 0" using True by (simp add: faddr_def)
    obtain a u where u: "bnd (balloc (i_dev (inodes s ip)) s) (\<lambda>addr s. Ret addr (upd_inode ip (\<lambda>q. q\<lparr>i_addrs := (i_addrs q)(bn := addr)\<rparr>) s)) = Ret a u"
      "txn p {} u" "volume {} u" "file_ok u ip" "fframe ip 2 s u" "a \<noteq> 0"
      "extends (view s) (inodes s ip) (view u) (inodes u ip) (if bn = NDIRECT then MAXFILE else bn) a"
      "\<forall>b<MAXFILE. fblock (view u) (inodes u ip) b = fblock (view s) (inodes s ip) b" "card (free_blocks s) = Suc (card (free_blocks u))"
      by (rule bmap_slot [OF assms(1-3) _ ne _ z]) (use 1 assms(5) in auto)
    have "\<forall>b<MAXFILE. faddr (view u) (inodes u ip) b = (if b = bn then a else faddr (view s) (inodes s ip) b)"
      using u(7) 1 by (simp add: extends_def)
    then show thesis using that [of u] u 1 z assms(4) True fframe_mono [OF u(5), of 5] by (simp add: bmap_def)
  next
    case (2 j)
    note bmap_ind [OF assms(1-3) _ assms(6)]
    then obtain u where u: "bmap ip bn s = bmap_entry ip j (i_addrs (inodes u ip) NDIRECT) u"
        "txn p {} u" "volume {} u" "file_ok u ip" "fframe ip 2 s u" "i_addrs (inodes u ip) NDIRECT \<noteq> 0" "card (free_blocks s) \<le> Suc (card (free_blocks u))"
        "\<forall>b<MAXFILE. fblock (view u) (inodes u ip) b = fblock (view s) (inodes s ip) b"
        "\<forall>b<MAXFILE. faddr (view u) (inodes u ip) b = faddr (view s) (inodes s ip) b"
      using bmap_indirect [OF 2(2), of ip s] 2(1) assms(5) by auto
    have z: "faddr (view u) (inodes u ip) (NDIRECT + j) = 0" using u(9) True assms(4) 2(1) by simp
    obtain a v where v: "bmap_entry ip j (i_addrs (inodes u ip) NDIRECT) u = Ret a v"
      "txn p {} v" "volume {} v" "file_ok v ip" "fframe ip 3 u v" "a \<noteq> 0"
      "extends (view u) (inodes u ip) (view v) (inodes v ip) (NDIRECT + j) a"
      "\<forall>b<MAXFILE. fblock (view v) (inodes v ip) b = fblock (view u) (inodes u ip) b" "card (free_blocks u) = Suc (card (free_blocks v))"
      by (rule bmap_entry_new [OF u(2-4) 2(2) u(6) z])
        (use assms(5,6) u(7) fsame_D(5) [OF fframe_D(1) [OF u(5)]] in auto)
    have "\<forall>b<MAXFILE. faddr (view v) (inodes v ip) b = (if b = bn then a else faddr (view s) (inodes s ip) b)"
      using v(7) u(9) 2 by (simp add: extends_def)
    then show thesis using that [of v] u(1,7,8) v True assms(4) fframe_trans [OF u(5) v(5)] by simp
  qed
qed


section \<open>Bytes of a file\<close>

definition fbyte :: "(uint32 \<Rightarrow> byte list) \<Rightarrow> inode \<Rightarrow> nat \<Rightarrow> byte" where
  "fbyte V q off = fblock V q (off div BSIZE) ! (off mod BSIZE)"

text \<open>The blocks that a range of bytes meets.\<close>

definition nblk :: "nat \<Rightarrow> nat \<Rightarrow> nat" where
  "nblk off n = (if n = 0 then 0 else Suc ((off + n - 1) div BSIZE - off div BSIZE))"

lemma chunk_index:
  assumes "m \<le> BSIZE - off mod BSIZE" "i < m"
  shows "(off + i) div BSIZE = off div BSIZE" "(off + i) mod BSIZE = off mod BSIZE + i"
proof -
  have lt: "off mod BSIZE + i < BSIZE" using assms by linarith
  have e: "off + i = (off mod BSIZE + i) + off div BSIZE * BSIZE" using div_mult_mod_eq [of off BSIZE] by linarith
  have nz: "BSIZE \<noteq> 0" by (simp add: file_nums)
  show "(off + i) div BSIZE = off div BSIZE" unfolding e using lt div_mult_self1 [OF nz, of "off mod BSIZE + i" "off div BSIZE"] by simp
  show "(off + i) mod BSIZE = off mod BSIZE + i" unfolding e using lt by (simp only: mod_mult_self1 mod_less)
qed

lemma nblk_step:
  assumes "0 < n" "m = chunk n off"
  shows "nblk off n = Suc (nblk (off + m) (n - m))"
proof (cases "m = n")
  case True
  then have "n - 1 < BSIZE - off mod BSIZE" using assms by (simp add: chunk_def)
  then have "(off + (n - 1)) div BSIZE = off div BSIZE" by (intro chunk_index(1) [of "BSIZE - off mod BSIZE"]) simp_all
  then show ?thesis using True assms(1) by (simp add: nblk_def)
next
  case False
  then have m: "m = BSIZE - off mod BSIZE" "m < n" using assms(2) by (auto simp: chunk_def)
  have "off mod BSIZE < BSIZE" by (simp add: file_nums)
  then have "off + m = Suc (off div BSIZE) * BSIZE" using m(1) div_mult_mod_eq [of off BSIZE] unfolding mult_Suc by linarith
  then have d: "(off + m) div BSIZE = Suc (off div BSIZE)" by (simp add: file_nums)
  then have "Suc (off div BSIZE) \<le> (off + n - 1) div BSIZE"
    using div_le_mono [of "off + m" "off + n - 1" BSIZE] m(2) by linarith
  then show ?thesis using m(2) d by (simp add: nblk_def)
qed

lemma data_addr:
  assumes "file_ok s ip" "bn < MAXFILE" "faddr (view s) (inodes s ip) bn \<noteq> 0"
  shows "fowned s ip (faddr (view s) (inodes s ip) bn)" "faddr (view s) (inodes s ip) bn \<noteq> i_addrs (inodes s ip) NDIRECT"
  using assms faddr_in [OF assms(2,3)] by (auto simp: file_ok_def layout_def)

lemma sub_block:
  assumes "m \<le> BSIZE - off mod BSIZE" "length (fblock V q (off div BSIZE)) = BSIZE"
  shows "sub_bytes (off mod BSIZE) m (fblock V q (off div BSIZE)) = map (fbyte V q) [off..<off + m]"
proof (rule nth_equalityI)
  show l: "length (sub_bytes (off mod BSIZE) m (fblock V q (off div BSIZE))) = length (map (fbyte V q) [off..<off + m])"
    using assms by (simp add: sub_bytes_def)
  fix i assume "i < length (sub_bytes (off mod BSIZE) m (fblock V q (off div BSIZE)))"
  then have "i < m" using l by simp
  then show "sub_bytes (off mod BSIZE) m (fblock V q (off div BSIZE)) ! i = map (fbyte V q) [off..<off + m] ! i"
    using chunk_index [OF assms(1)] assms by (simp add: sub_bytes_def fbyte_def)
qed

lemma readi_loop_ok:
  fixes s :: "'a kfs_scheme"
  assumes "bufheld p {} s" "file_ok s ip" "tot \<le> n" "off + (n - tot) \<le> MAXFILE * BSIZE"
    and "\<And>o'. off \<le> o' \<Longrightarrow> o' < off + (n - tot) \<Longrightarrow> faddr (view s) (inodes s ip) (o' div BSIZE) \<noteq> 0"
  shows "\<exists>t. readi_loop ip To_local off n tot acc s = Ret (n, acc @ map (fbyte (view s) (inodes s ip)) [off..<off + (n - tot)]) t \<and>
    bufheld p {} t \<and> moved {} 0 s t \<and> view t = view s"
  using assms
proof (induction "n - tot" arbitrary: off tot acc s rule: less_induct)
  case less
  show ?case
  proof (cases "tot < n")
    case False
    then show ?thesis using less.prems by (intro exI [of _ s]) (simp add: readi_loop.simps)
  next
    case True
    let ?bn = "off div BSIZE" and ?m = "chunk (n - tot) off" and ?a = "faddr (view s) (inodes s ip) (off div BSIZE)"
    have m: "0 < ?m" "?m \<le> n - tot" "?m \<le> BSIZE - off mod BSIZE" using True by (simp_all add: chunk_def file_nums)
    have bn: "?bn < MAXFILE" "?a \<noteq> 0" using less.prems(4) less.prems(5) [of off] True by (simp_all add: file_nums)
    have fo: "fowned s ip ?a" by (rule data_addr [OF less.prems(2) bn])
    have sm: "small ?a" using fo by (simp add: fowned_def data_block_def)
    obtain t where t: "bmap ip ?bn s = Ret ?a t" "bufheld p {} t" "moved {} 0 s t" "view t = view s"
      by (rule bmap_found [OF less.prems(1,2) bn])
    note K = moved_kfs [OF t(3)]
    have dev: "i_dev (inodes t ip) = ROOTDEV" using less.prems(2) K by (simp add: file_ok_def)
    have lg: "lh_n t + int (card {}) < int LOGSIZE" using bufheld_D(2) [OF t(2)] by (simp add: log_wf_def)
    obtain b u where u: "bread ROOTDEV ?a t = Ret b u" "b \<notin> {}" "bufheld p {b} u" "moved {} 0 t u" "b_blockno (bufs u b) = ?a"
      "b_data (bufs u b) = view t ?a" "view u = view t" "pins u ?a = 1 \<or> b_data (bufs u b) = block (sectors u) ?a"
      by (rule bufheld_bread [OF t(2) sm _ lg]) simp_all
    obtain v where v: "brelse b u = Ret () v" "bufheld p {} v" "moved {} 0 u v" "view v = view u"
      by (rule bufheld_brelse [OF u(3,2) u(5) [symmetric] u(8)])
    have sv: "moved {} 0 s v" using moved_trans [OF moved_trans [OF t(3) u(4)] v(3)] by simp
    have V: "view v = view s" "inodes v = inodes s" using t(4) u(7) v(4) moved_kfs(2) [OF sv] by simp_all
    have fb: "fblock (view s) (inodes s ip) ?bn = b_data (bufs u b)" using bn(2) u(6) t(4) by (simp add: fblock_def)
    have len: "length (b_data (bufs u b)) = BSIZE" using held_D(4) [OF bufheld_D(1) [OF u(3)], of b] by simp
    let ?bs = "map (fbyte (view s) (inodes s ip)) [off..<off + ?m]"
    have bs: "sub_bytes (off mod BSIZE) ?m (b_data (bufs u b)) = ?bs"
      using sub_block [OF m(3), of "view s" "inodes s ip"] fb len by simp
    have "readi_loop ip To_local off n tot acc s = readi_loop ip To_local (off + ?m) n (tot + ?m) (acc @ ?bs) v"
      using True t(1) u(1) v(1) dev bs by (subst readi_loop.simps) (simp add: put_target_def Let_def)
    moreover have "\<exists>w. readi_loop ip To_local (off + ?m) n (tot + ?m) (acc @ ?bs) v =
        Ret (n, (acc @ ?bs) @ map (fbyte (view v) (inodes v ip)) [off + ?m..<off + ?m + (n - (tot + ?m))]) w \<and>
        bufheld p {} w \<and> moved {} 0 v w \<and> view w = view v"
      by (rule less.hyps) (use True m v(2) less.prems V file_moved(1) [OF sv V(1)] in auto)
    moreover have "[off..<off + (n - tot)] = [off..<off + ?m] @ [off + ?m..<off + ?m + (n - (tot + ?m))]"
      using m(2) upt_add_eq_append [of off "off + ?m" "n - tot - ?m"] True by simp
    ultimately show ?thesis using V moved_trans [OF sv, of 0] by fastforce
  qed
qed


text \<open>One block of the file gets new contents.\<close>

lemma file_write:
  fixes t u :: "'a kfs_scheme"
  assumes "file_ok t ip" "volume {} t" "bn < MAXFILE" "a = faddr (view t) (inodes t ip) bn" "a \<noteq> 0" "moved {} 1 t u" "view u = (view t)(a := d)"
  shows "file_ok u ip" "volume {} u" "fframe ip 1 t u" "free_blocks u = free_blocks t"
    "faddr (view u) (inodes u ip) = faddr (view t) (inodes t ip)"
    "b < MAXFILE \<Longrightarrow> fblock (view u) (inodes u ip) b = (if b = bn then d else fblock (view t) (inodes t ip) b)"
proof -
  note K = moved_kfs [OF assms(6)] and M = moved_log [OF assms(6)]
  note A = data_addr [OF assms(1,3) assms(5) [unfolded assms(4)], folded assms(4)]
  have fa: "faddr (view u) (inodes u ip) = faddr (view t) (inodes t ip)"
    using A(2) K(2) assms(7) by (simp add: faddr_def fun_eq_iff)
  then show "faddr (view u) (inodes u ip) = faddr (view t) (inodes t ip)" .
  have fa': "faddr (view u) (inodes t ip) = faddr (view t) (inodes t ip)" using fa K(2) by simp
  have fs: "fblocks (view u) (inodes u ip) = fblocks (view t) (inodes t ip)" by (simp add: fblocks_def fa' K)
  have bm: "bmaps u = bmaps t" by (rule bmaps_sb [OF K(1)])
  have na: "bmap_block t x \<noteq> a" if "x < unat (sb_size (sb t))" for x using A(1) that by (auto simp: fowned_def bmaps_def)
  then show f: "free_blocks u = free_blocks t" using K assms(7) by (auto simp: free_blocks_def blk_used_def bmap_block_def)
  show "volume {} u" by (rule volume_frame [OF assms(2)]) (use K M f in auto)
  have "layout (view u) (inodes u ip) = layout (view t) (inodes t ip)" by (simp add: layout_def fa' K)
  then show "file_ok u ip" using assms(1) K M(2) f bm fs by (simp add: file_ok_def fowned_def iblk_def)
  have "a \<in> fblocks (view t) (inodes t ip)" using faddr_in assms(3-5) by auto
  then have "view u n = view t n" if "n \<notin> fblocks (view t) (inodes t ip)" for n using that assms(7) by auto
  then show "fframe ip 1 t u" using fsame_moved [OF assms(6)] K f fs unfolding fframe_def
    by (auto intro!: exI [of _ "i_addrs (inodes t ip)"])
  show "fblock (view u) (inodes u ip) b = (if b = bn then d else fblock (view t) (inodes t ip) b)" if "b < MAXFILE"
  proof (cases "b = bn")
    case True
    then show ?thesis using fa assms(4,5,7) by (simp add: fblock_def)
  next
    case False
    then have "faddr (view t) (inodes t ip) b \<noteq> a" using assms(1,3-5) that by (auto simp: file_ok_def layout_def)
    then show ?thesis using False fa assms(7) by (simp add: fblock_def)
  qed
qed

lemma put_block:
  assumes "m = length xs" "off mod BSIZE + m \<le> BSIZE" "\<And>b. b < MAXFILE \<Longrightarrow> length (fblock V q b) = BSIZE" "off div BSIZE < MAXFILE"
    and "\<And>b. b < MAXFILE \<Longrightarrow> fblock V' q' b = (if b = off div BSIZE then put_at (off mod BSIZE) xs (fblock V q b) else fblock V q b)"
    and "x < MAXFILE * BSIZE"
  shows "fbyte V' q' x = (if off \<le> x \<and> x < off + m then xs ! (x - off) else fbyte V q x)"
proof -
  have b: "x div BSIZE < MAXFILE" using assms(6) by (simp add: less_mult_imp_div_less)
  have off: "off = off div BSIZE * BSIZE + off mod BSIZE" and x: "x = x div BSIZE * BSIZE + x mod BSIZE" by simp_all
  have xm: "x mod BSIZE < BSIZE" by (simp add: file_nums)
  show ?thesis
  proof (cases "x div BSIZE = off div BSIZE")
    case True
    then have x': "x = off div BSIZE * BSIZE + x mod BSIZE" using x by simp
    have c: "off \<le> x \<longleftrightarrow> off mod BSIZE \<le> x mod BSIZE" "x < off + m \<longleftrightarrow> x mod BSIZE < off mod BSIZE + m" "x - off = x mod BSIZE - off mod BSIZE"
      using off x' by ((rule iffI; linarith) | linarith)+
    have "put_at (off mod BSIZE) xs (fblock V q (off div BSIZE)) ! (x mod BSIZE) =
        (if off mod BSIZE \<le> x mod BSIZE \<and> x mod BSIZE < off mod BSIZE + m then xs ! (x mod BSIZE - off mod BSIZE)
         else fblock V q (off div BSIZE) ! (x mod BSIZE))"
      using assms(1-4) xm by (auto simp: put_at_def nth_append)
    then show ?thesis using True c b assms(5) by (simp add: fbyte_def)
  next
    case False
    have "\<not> (off \<le> x \<and> x < off + m)"
    proof
      assume r: "off \<le> x \<and> x < off + m"
      have "m \<le> BSIZE - off mod BSIZE" "x - off < m" using r assms(2) by linarith+
      from chunk_index(1) [OF this] show False using False r by simp
    qed
    then show ?thesis using False assms(5) [OF b] by (auto simp: fbyte_def)
  qed
qed

lemma fblock_length:
  assumes "bufheld p {} s" "file_ok s ip" "b < MAXFILE"
  shows "length (fblock (view s) (inodes s ip) b) = BSIZE"
proof (cases "faddr (view s) (inodes s ip) b = 0")
  case False
  have "small (faddr (view s) (inodes s ip) b)" using data_addr(1) [OF assms(2,3) False] by (simp add: fowned_def data_block_def)
  then show ?thesis using view_length_txn [OF assms(1)] False by (simp add: fblock_def)
qed (simp add: fblock_def)


lemma writei_chunk:
  fixes s :: "'a kfs_scheme"
  assumes "txn p {} s" "volume {} s" "file_ok s ip" "off div BSIZE < MAXFILE" "lh_n s < int LOGSIZE - 6" "2 \<le> card (free_blocks s)"
    and "m = length xs" "off mod BSIZE + m \<le> BSIZE"
  obtains t u b v where "bmap ip (off div BSIZE) s = Ret (faddr (view t) (inodes t ip) (off div BSIZE)) t"
    "bread (i_dev (inodes t ip)) (faddr (view t) (inodes t ip) (off div BSIZE)) t = Ret b u"
    "bnd (log_write b (upd_buf b (\<lambda>q. q\<lparr>b_data := put_at (off mod BSIZE) xs (b_data q)\<rparr>) u)) (\<lambda>_ s. brelse b s) = Ret () v"
    "txn p {} v" "volume {} v" "file_ok v ip" "fframe ip 6 s v" "card (free_blocks s) \<le> card (free_blocks v) + 2"
    "\<forall>x<MAXFILE * BSIZE. fbyte (view v) (inodes v ip) x =
       (if off \<le> x \<and> x < off + m then xs ! (x - off) else fbyte (view s) (inodes s ip) x)"
    "\<forall>b<MAXFILE. faddr (view s) (inodes s ip) b \<noteq> 0 \<longrightarrow> faddr (view v) (inodes v ip) b = faddr (view s) (inodes s ip) b"
    "faddr (view v) (inodes v ip) (off div BSIZE) \<noteq> 0"
proof -
  let ?bn = "off div BSIZE"
  obtain t where t: "bmap ip ?bn s = Ret (faddr (view t) (inodes t ip) ?bn) t" "txn p {} t" "volume {} t" "file_ok t ip" "fframe ip 5 s t"
    "faddr (view t) (inodes t ip) ?bn \<noteq> 0"
    "\<forall>b<MAXFILE. fblock (view t) (inodes t ip) b = fblock (view s) (inodes s ip) b"
    "\<forall>b<MAXFILE. faddr (view s) (inodes s ip) b \<noteq> 0 \<longrightarrow> faddr (view t) (inodes t ip) b = faddr (view s) (inodes s ip) b"
    "card (free_blocks s) \<le> card (free_blocks t) + 2"
    by (rule bmap_ok [OF assms(1-4)]) (use assms(5,6) in auto)
  let ?a = "faddr (view t) (inodes t ip) ?bn"
  have lt: "lh_n t < int LOGSIZE - 1" using fsame_D(5) [OF fframe_D(1) [OF t(5)]] assms(5) by simp
  have dev: "i_dev (inodes t ip) = ROOTDEV" using t(4) by (simp add: file_ok_def)
  have a: "small ?a" "\<not> in_log t ?a" using data_addr(1) [OF t(4) assms(4) t(6)] by (simp_all add: fowned_def data_block_def)
  obtain b u where u: "bread ROOTDEV ?a t = Ret b u" "b \<notin> {}" "txn p {b} u" "moved {} 0 t u" "b_blockno (bufs u b) = ?a"
    "b_data (bufs u b) = view t ?a" "view u = view t"
    by (rule txn_bread [OF t(2) a(1)]) (use lt in auto)
  let ?d = "put_at (off mod BSIZE) xs (view t ?a)"
  have len: "length (view t ?a) = BSIZE" using held_D(4) [OF txn_D(1) [OF u(3)], of b] u(6) by simp
  have e: "upd_buf b (\<lambda>q. q\<lparr>b_data := put_at (off mod BSIZE) xs (b_data q)\<rparr>) u = upd_buf b (\<lambda>q. q\<lparr>b_data := ?d\<rparr>) u"
    using u(6) by (simp add: upd_buf_def)
  note M = moved_log [OF u(4)]
  obtain v where v: "bnd (log_write b (upd_buf b (\<lambda>q. q\<lparr>b_data := ?d\<rparr>) u)) (\<lambda>_ s. brelse b s) = Ret () v" "txn p {} v"
    "moved {} 1 u v" "view v = (view u)(?a := ?d)"
    by (rule txn_update [OF u(3,2) u(5) [symmetric], where bs = ?d]) (use M(1,7) a(2) lt len assms(7,8) in auto)
  have tv: "moved {} 1 t v" using moved_trans [OF u(4) v(3)] by simp
  note W = file_write [OF t(4,3) assms(4) refl t(6) tv, of ?d]
  have vv: "view v = (view t)(?a := ?d)" using v(4) u(7) by simp
  have fb: "fblock (view v) (inodes v ip) c = (if c = ?bn then put_at (off mod BSIZE) xs (fblock (view s) (inodes s ip) c) else fblock (view s) (inodes s ip) c)"
    if "c < MAXFILE" for c
  proof -
    have "view t ?a = fblock (view s) (inodes s ip) ?bn" using t(6,7) assms(4) by (auto simp: fblock_def)
    then show ?thesis using W(6) [OF vv that] t(7) that by simp
  qed
  have "\<forall>x<MAXFILE * BSIZE. fbyte (view v) (inodes v ip) x = (if off \<le> x \<and> x < off + m then xs ! (x - off) else fbyte (view s) (inodes s ip) x)"
    using put_block [OF assms(7,8) fblock_length [OF txn_D(5) [OF assms(1)] assms(3)] assms(4) fb] by blast
  moreover have "fframe ip (5 + 1) s v" by (rule fframe_trans [OF t(5) W(3) [OF vv]])
  ultimately show thesis using that [of t b u v] t u(1) v(1,2) e dev W [OF vv] by simp
qed


lemma writei_loop_ok:
  fixes s :: "'a kfs_scheme"
  assumes "txn p {} s" "volume {} s" "file_ok s ip" "tot \<le> n" "n \<le> length bs" "off + (n - tot) \<le> MAXFILE * BSIZE"
    and "lh_n s + 6 * int (nblk off (n - tot)) < int LOGSIZE" "2 * nblk off (n - tot) \<le> card (free_blocks s)"
  shows "\<exists>t. writei_loop ip (From_local bs) off n tot s = Ret (off + (n - tot)) t \<and> txn p {} t \<and> volume {} t \<and> file_ok t ip \<and>
    fframe ip (6 * nblk off (n - tot)) s t \<and>
    (\<forall>x<MAXFILE * BSIZE. fbyte (view t) (inodes t ip) x =
       (if off \<le> x \<and> x < off + (n - tot) then bs ! (tot + (x - off)) else fbyte (view s) (inodes s ip) x)) \<and>
    (\<forall>b<MAXFILE. faddr (view s) (inodes s ip) b \<noteq> 0 \<longrightarrow> faddr (view t) (inodes t ip) b = faddr (view s) (inodes s ip) b) \<and>
    (\<forall>x. off \<le> x \<and> x < off + (n - tot) \<longrightarrow> faddr (view t) (inodes t ip) (x div BSIZE) \<noteq> 0)"
  using assms
proof (induction "n - tot" arbitrary: off tot s rule: less_induct)
  case less
  show ?case
  proof (cases "tot < n")
    case False
    then show ?thesis using less.prems by (intro exI [of _ s]) (auto simp: writei_loop.simps)
  next
    case True
    let ?m = "chunk (n - tot) off"
    let ?k = "nblk (off + ?m) (n - (tot + ?m))"
    have m: "0 < ?m" "?m \<le> n - tot" "off mod BSIZE + ?m \<le> BSIZE" using True by (auto simp: chunk_def file_nums)
    have nb: "nblk off (n - tot) = Suc ?k" using nblk_step [of "n - tot" ?m off] True by simp
    have bn: "off div BSIZE < MAXFILE" using less.prems(6) True by (simp add: file_nums)
    let ?xs = "sub_bytes tot ?m bs"
    have xs: "?m = length ?xs" "i < ?m \<Longrightarrow> ?xs ! i = bs ! (tot + i)" for i
      using m(2) less.prems(5) True by (simp_all add: sub_bytes_def)
    have room: "lh_n s < int LOGSIZE - 6" "2 \<le> card (free_blocks s)" using less.prems(7,8) nb by simp_all
    obtain t u b v where v: "bmap ip (off div BSIZE) s = Ret (faddr (view t) (inodes t ip) (off div BSIZE)) t"
      "bread (i_dev (inodes t ip)) (faddr (view t) (inodes t ip) (off div BSIZE)) t = Ret b u"
      "bnd (log_write b (upd_buf b (\<lambda>q. q\<lparr>b_data := put_at (off mod BSIZE) ?xs (b_data q)\<rparr>) u)) (\<lambda>_ s. brelse b s) = Ret () v"
      "txn p {} v" "volume {} v" "file_ok v ip" "fframe ip 6 s v" "card (free_blocks s) \<le> card (free_blocks v) + 2"
      "\<forall>x<MAXFILE * BSIZE. fbyte (view v) (inodes v ip) x = (if off \<le> x \<and> x < off + ?m then ?xs ! (x - off) else fbyte (view s) (inodes s ip) x)"
      "\<forall>b<MAXFILE. faddr (view s) (inodes s ip) b \<noteq> 0 \<longrightarrow> faddr (view v) (inodes v ip) b = faddr (view s) (inodes s ip) b"
      "faddr (view v) (inodes v ip) (off div BSIZE) \<noteq> 0"
      by (rule writei_chunk [OF less.prems(1-3) bn room xs(1) m(3)])
    have eq: "writei_loop ip (From_local bs) off n tot s = writei_loop ip (From_local bs) (off + ?m) n (tot + ?m) v"
    proof -
      have "writei_loop ip (From_local bs) off n tot s =
          bnd (bnd (log_write b (upd_buf b (\<lambda>q. q\<lparr>b_data := put_at (off mod BSIZE) ?xs (b_data q)\<rparr>) u)) (\<lambda>_ s. brelse b s))
            (\<lambda>_ s. writei_loop ip (From_local bs) (off + ?m) n (tot + ?m) s)"
        using True v(1,2) by (subst writei_loop.simps) (simp add: get_origin_def Let_def bnd_assoc)
      then show ?thesis using v(3) by simp
    qed
    have r: "lh_n v + 6 * int ?k < int LOGSIZE" "2 * ?k \<le> card (free_blocks v)"
      using fsame_D(5) [OF fframe_D(1) [OF v(7)]] less.prems(7,8) nb v(8) by simp_all
    have ar: "n - (tot + ?m) < n - tot" "tot + ?m \<le> n" "off + ?m + (n - (tot + ?m)) \<le> MAXFILE * BSIZE"
      using True m(1,2) less.prems(6) by linarith+
    have "\<exists>w. writei_loop ip (From_local bs) (off + ?m) n (tot + ?m) v = Ret (off + ?m + (n - (tot + ?m))) w \<and> txn p {} w \<and> volume {} w \<and>
      file_ok w ip \<and> fframe ip (6 * ?k) v w \<and>
      (\<forall>x<MAXFILE * BSIZE. fbyte (view w) (inodes w ip) x =
         (if off + ?m \<le> x \<and> x < off + ?m + (n - (tot + ?m)) then bs ! (tot + ?m + (x - (off + ?m))) else fbyte (view v) (inodes v ip) x)) \<and>
      (\<forall>b<MAXFILE. faddr (view v) (inodes v ip) b \<noteq> 0 \<longrightarrow> faddr (view w) (inodes w ip) b = faddr (view v) (inodes v ip) b) \<and>
      (\<forall>x. off + ?m \<le> x \<and> x < off + ?m + (n - (tot + ?m)) \<longrightarrow> faddr (view w) (inodes w ip) (x div BSIZE) \<noteq> 0)"
      by (rule less.hyps [OF ar(1) v(4-6) ar(2) less.prems(5) ar(3) r])
    then obtain w where w: "writei_loop ip (From_local bs) (off + ?m) n (tot + ?m) v = Ret (off + (n - tot)) w" "txn p {} w" "volume {} w"
      "file_ok w ip" "fframe ip (6 * ?k) v w"
      "\<And>x. x < MAXFILE * BSIZE \<Longrightarrow> fbyte (view w) (inodes w ip) x =
         (if off + ?m \<le> x \<and> x < off + (n - tot) then bs ! (tot + (x - off)) else fbyte (view v) (inodes v ip) x)"
      "\<And>b. b < MAXFILE \<Longrightarrow> faddr (view v) (inodes v ip) b \<noteq> 0 \<Longrightarrow> faddr (view w) (inodes w ip) b = faddr (view v) (inodes v ip) b"
      "\<And>x. off + ?m \<le> x \<Longrightarrow> x < off + (n - tot) \<Longrightarrow> faddr (view w) (inodes w ip) (x div BSIZE) \<noteq> 0"
      using m(2) True by auto
    have 1: "fbyte (view w) (inodes w ip) x = (if off \<le> x \<and> x < off + (n - tot) then bs ! (tot + (x - off)) else fbyte (view s) (inodes s ip) x)"
      if "x < MAXFILE * BSIZE" for x
      using w(6) [OF that] v(9) that xs(2) [of "x - off"] m(1,2) by auto
    have 2: "faddr (view w) (inodes w ip) b = faddr (view s) (inodes s ip) b" if "b < MAXFILE" "faddr (view s) (inodes s ip) b \<noteq> 0" for b
      using w(7) [OF that(1)] v(10) that by simp
    have 3: "faddr (view w) (inodes w ip) (x div BSIZE) \<noteq> 0" if "off \<le> x" "x < off + (n - tot)" for x
    proof (cases "off + ?m \<le> x")
      case False
      then have "(off + (x - off)) div BSIZE = off div BSIZE" using that m(3) by (intro chunk_index(1) [of ?m]) linarith+
      then show ?thesis using w(7) [OF bn v(11)] v(11) that(1) by simp
    qed (use w(8) that in simp)
    have "fframe ip (6 * nblk off (n - tot)) s w" using fframe_trans [OF v(7) w(5)] nb by simp
    then show ?thesis using eq w(1-4) 1 2 3 by (intro exI [of _ w]) simp
  qed
qed


lemma faddr_size [simp]: "faddr V (q\<lparr>i_size := z\<rparr>) = faddr V q"
  by (simp add: faddr_def fun_eq_iff)

lemma file_size_simps [simp]: "fblock V (q\<lparr>i_size := z\<rparr>) = fblock V q" "fbyte V (q\<lparr>i_size := z\<rparr>) = fbyte V q"
  "fblocks V (q\<lparr>i_size := z\<rparr>) = fblocks V q" "layout V (q\<lparr>i_size := z\<rparr>) = layout V q"
  by (simp_all add: fblock_def fbyte_def fblocks_def layout_def fun_eq_iff)

lemma faddr_cong: "(\<And>n. n \<in> fblocks V q \<Longrightarrow> V' n = V n) \<Longrightarrow> faddr V' q = faddr V q"
  by (auto simp: faddr_def fblocks_iff fun_eq_iff)

lemma file_cong:
  assumes "\<And>n. n \<in> fblocks V q \<Longrightarrow> V' n = V n"
  shows "faddr V' q = faddr V q" "fblocks V' q = fblocks V q" "layout V' q = layout V q" "b < MAXFILE \<Longrightarrow> fblock V' q b = fblock V q b"
    "x < MAXFILE * BSIZE \<Longrightarrow> fbyte V' q x = fbyte V q x"
proof -
  show f: "faddr V' q = faddr V q" by (rule faddr_cong [OF assms])
  then show "fblocks V' q = fblocks V q" "layout V' q = layout V q" by (simp_all add: fblocks_def layout_def)
  show b: "fblock V' q b = fblock V q b" if "b < MAXFILE" for b using assms faddr_in [OF that, of V q] by (simp add: fblock_def f)
  show "fbyte V' q x = fbyte V q x" if "x < MAXFILE * BSIZE" using b that by (simp add: fbyte_def less_mult_imp_div_less)
qed

lemma set_size:
  fixes t :: "'a kfs_scheme"
  assumes "txn p {} t" "volume {} t" "file_ok t ip" "lh_n t < int LOGSIZE - 1"
  obtains u where "iupdate ip (upd_inode ip (\<lambda>q. q\<lparr>i_size := z\<rparr>) t) = Ret () u" "txn p {} u" "volume {} u" "file_ok u ip"
    "inodes u = (inodes t)(ip := (inodes t ip)\<lparr>i_size := z\<rparr>)" "sb u = sb t" "free_blocks u = free_blocks t"
    "\<And>n. n \<noteq> iblk t ip \<Longrightarrow> view u n = view t n" "fsame {} 1 t u"
proof -
  let ?t = "upd_inode ip (\<lambda>q. q\<lparr>i_size := z\<rparr>) t"
  have d: "i_dev (inodes ?t ip) = ROOTDEV" "iblk t ip = IBLOCK (i_inum (inodes ?t ip)) (sb ?t)" "data_block ?t (iblk t ip)" "txn p {} ?t"
      "lh_n ?t + int (card {}) < int LOGSIZE - 1"
    using assms by (simp_all add: file_ok_def iblk_def)
  obtain u where u: "iupdate ip ?t = Ret () u" "txn p {} u" "moved {} 1 ?t u"
    "view u = (view ?t)(iblk t ip := put_dinode (ioff (i_inum (inodes ?t ip))) (dinode_of (inodes ?t ip)) (view ?t (iblk t ip)))"
    by (rule iupdate_ok [OF d(4,1-3) _ d(5)]) simp
  note K = moved_kfs [OF u(3)] and M = moved_log [OF u(3)]
  have v: "view u n = view t n" if "n \<noteq> iblk t ip" for n using u(4) that by simp
  have "bmap_block t x \<noteq> iblk t ip" if "x < unat (sb_size (sb t))" for x
    using assms(3) bmaps_I [OF that] unfolding file_ok_def by metis
  then have f: "free_blocks u = free_blocks t" using K v by (auto simp: free_blocks_def blk_used_def bmap_block_def)
  have bm: "bmaps u = bmaps t" by (rule bmaps_sb) (use K in simp)
  have ni: "iblk t ip \<notin> fblocks (view t) (inodes t ip)" using assms(3) by (auto simp: file_ok_def fowned_def)
  have fc: "n \<in> fblocks (view t) (inodes t ip) \<Longrightarrow> view u n = view t n" for n using ni by (intro v) auto
  note C = file_cong [OF fc]
  have I: "inodes u = (inodes t)(ip := (inodes t ip)\<lparr>i_size := z\<rparr>)" using K by simp
  have "volume {} u" by (rule volume_frame [OF assms(2)]) (use K M f in auto)
  moreover have "file_ok u ip" using assms(3) K M(2) f bm C(2,3) I by (simp add: file_ok_def fowned_def iblk_def)
  moreover have "fsame {} (0 + 1) t u" using fsame_trans [OF fsame_upd(1) fsame_moved [OF u(3)]] .
  ultimately show thesis using that u(1,2) I K f v by simp
qed

end
