(* ===== verification/File_Props.thy ===== *)
theory File_Props
  imports Filedata
begin

text \<open>
  The properties of \<^verbatim>\<open>readi()\<close> and \<^verbatim>\<open>writei()\<close>: a file is an array of bytes with a size, and the two
  read and write ranges of it.
\<close>

section \<open>Reading\<close>

text \<open>Every byte below the file's size has a block.\<close>

definition filled :: "'a kfs_scheme \<Rightarrow> nat \<Rightarrow> bool" where
  "filled s ip \<longleftrightarrow> unat (i_size (inodes s ip)) \<le> MAXFILE * BSIZE \<and>
     (\<forall>x<unat (i_size (inodes s ip)). faddr (view s) (inodes s ip) (x div BSIZE) \<noteq> 0)"

lemma no_wrap:
  fixes off n :: uint32
  shows "\<not> off + n < off \<longleftrightarrow> unat (off + n) = unat off + unat n" "unat off + unat n < 2 ^ 32 \<Longrightarrow> unat (off + n) = unat off + unat n"
proof -
  have "unat off < 2 ^ 32" "unat n < 2 ^ 32" using unsigned_less [of off] unsigned_less [of n] by simp_all
  moreover from this have "(unat off + unat n) mod 2 ^ 32 = unat off + unat n - 2 ^ 32" if "2 ^ 32 \<le> unat off + unat n"
    using that le_mod_geq [of "2 ^ 32" "unat off + unat n"] by simp
  ultimately show "\<not> off + n < off \<longleftrightarrow> unat (off + n) = unat off + unat n"
    by (cases "unat off + unat n < 2 ^ 32") (auto simp: word_less_nat_alt unat_word_ariths)
  show "unat off + unat n < 2 ^ 32 \<Longrightarrow> unat (off + n) = unat off + unat n" by (simp add: unat_word_ariths)
qed

lemma readi_ok:
  fixes s :: "'a kfs_scheme"
  assumes "bufheld p {} s" "file_ok s ip" "filled s ip" "off \<le> i_size (inodes s ip)" "\<not> off + n < off"
    and "k = min (unat n) (unat (i_size (inodes s ip)) - unat off)"
  shows "\<exists>t. readi ip To_local off n s = Ret (int k, map (fbyte (view s) (inodes s ip)) [unat off..<unat off + k]) t \<and>
    bufheld p {} t \<and> moved {} 0 s t \<and> view t = view s"
proof -
  let ?z = "i_size (inodes s ip)"
  have oz: "unat off \<le> unat ?z" using assms(4) by (simp add: word_le_nat_alt)
  have k: "unat (if ?z < off + n then ?z - off else n) = k"
  proof (cases "?z < off + n")
    case True
    then show ?thesis using assms(4,6) no_wrap(1) [of off n] assms(5) oz
      by (simp add: word_less_nat_alt unat_sub min_def)
  next
    case False
    then show ?thesis using assms(5,6) no_wrap(1) [of off n] oz by (simp add: word_less_nat_alt min_def)
  qed
  have f: "unat ?z \<le> MAXFILE * BSIZE" "\<And>x. x < unat ?z \<Longrightarrow> faddr (view s) (inodes s ip) (x div BSIZE) \<noteq> 0"
    using assms(3) by (simp_all add: filled_def)
  have b: "unat off + k \<le> unat ?z" using oz assms(6) by simp
  have "\<exists>t. readi_loop ip To_local (unat off) k 0 [] s = Ret (k, [] @ map (fbyte (view s) (inodes s ip)) [unat off..<unat off + (k - 0)]) t \<and>
    bufheld p {} t \<and> moved {} 0 s t \<and> view t = view s"
    by (rule readi_loop_ok [OF assms(1,2)]) (use f b in auto)
  then show ?thesis using assms(4,5) k by (auto simp: readi_def Let_def not_less [symmetric])
qed

section \<open>Writing\<close>

lemma writei_ok:
  fixes s :: "'a kfs_scheme"
  assumes "txn p {} s" "volume {} s" "file_ok s ip" "off \<le> i_size (inodes s ip)" "unat off + unat n \<le> MAXFILE * BSIZE" "unat n \<le> length bs"
    and "lh_n s + 6 * int (nblk (unat off) (unat n)) < int LOGSIZE - 1" "2 * nblk (unat off) (unat n) \<le> card (free_blocks s)"
  obtains t where "writei ip (From_local bs) off n s = Ret (int (unat n)) t" "txn p {} t" "volume {} t" "file_ok t ip"
    "unat (i_size (inodes t ip)) = max (unat (i_size (inodes s ip))) (unat off + unat n)"
    "\<forall>x<MAXFILE * BSIZE. fbyte (view t) (inodes t ip) x =
       (if unat off \<le> x \<and> x < unat off + unat n then bs ! (x - unat off) else fbyte (view s) (inodes s ip) x)"
    "\<forall>b<MAXFILE. faddr (view s) (inodes s ip) b \<noteq> 0 \<longrightarrow> faddr (view t) (inodes t ip) b = faddr (view s) (inodes s ip) b"
    "\<forall>x. unat off \<le> x \<and> x < unat off + unat n \<longrightarrow> faddr (view t) (inodes t ip) (x div BSIZE) \<noteq> 0"
    "\<forall>j. j \<noteq> ip \<longrightarrow> inodes t j = inodes s j" "sb t = sb s" "free_blocks t \<subseteq> free_blocks s"
    "fblocks (view t) (inodes t ip) \<subseteq> fblocks (view s) (inodes s ip) \<union> {a. unat a \<in> free_blocks s}"
    "\<forall>m. m \<notin> bmaps s \<and> m \<notin> fblocks (view t) (inodes t ip) \<and> m \<noteq> iblk s ip \<longrightarrow> view t m = view s m"
proof -
  let ?z = "i_size (inodes s ip)" and ?o = "unat off" and ?n = "unat n"
  have small: "?o + ?n < 2 ^ 31" using assms(5) by (simp add: file_nums)
  have on: "unat (off + n) = ?o + ?n" using no_wrap(2) [of off n] small by simp
  have nw: "\<not> off + n < off" using no_wrap(1) [of off n] on by simp
  have sn: "sint n = int ?n" using sint_small [of n] small by simp
  have "\<exists>t. writei_loop ip (From_local bs) ?o ?n 0 s = Ret (?o + (?n - 0)) t \<and> txn p {} t \<and> volume {} t \<and> file_ok t ip \<and>
    fframe ip (6 * nblk ?o (?n - 0)) s t \<and>
    (\<forall>x<MAXFILE * BSIZE. fbyte (view t) (inodes t ip) x =
       (if ?o \<le> x \<and> x < ?o + (?n - 0) then bs ! (0 + (x - ?o)) else fbyte (view s) (inodes s ip) x)) \<and>
    (\<forall>b<MAXFILE. faddr (view s) (inodes s ip) b \<noteq> 0 \<longrightarrow> faddr (view t) (inodes t ip) b = faddr (view s) (inodes s ip) b) \<and>
    (\<forall>x. ?o \<le> x \<and> x < ?o + (?n - 0) \<longrightarrow> faddr (view t) (inodes t ip) (x div BSIZE) \<noteq> 0)"
    by (rule writei_loop_ok [OF assms(1-3)]) (use assms(5-8) in auto)
  then obtain t where t: "writei_loop ip (From_local bs) ?o ?n 0 s = Ret (?o + ?n) t" "txn p {} t" "volume {} t" "file_ok t ip"
    "fframe ip (6 * nblk ?o ?n) s t"
    "\<forall>x<MAXFILE * BSIZE. fbyte (view t) (inodes t ip) x = (if ?o \<le> x \<and> x < ?o + ?n then bs ! (x - ?o) else fbyte (view s) (inodes s ip) x)"
    "\<forall>b<MAXFILE. faddr (view s) (inodes s ip) b \<noteq> 0 \<longrightarrow> faddr (view t) (inodes t ip) b = faddr (view s) (inodes s ip) b"
    "\<forall>x. ?o \<le> x \<and> x < ?o + ?n \<longrightarrow> faddr (view t) (inodes t ip) (x div BSIZE) \<noteq> 0" by auto
  note F = fframe_D [OF t(5)]
  have W: "writei ip (From_local bs) off n s = (if 0 < n then bnd (iupdate ip (if unat ?z < ?o + ?n
        then upd_inode ip (\<lambda>q. q\<lparr>i_size := of_nat (?o + ?n)\<rparr>) t else t)) (\<lambda>_ s. Ret (sint n) s) else Ret (sint n) t)"
    using assms(4,5) nw on t(1) F(9) by (simp add: writei_def Let_def not_less [symmetric])
  show thesis
  proof (cases "n = 0")
    case True
    have "max (unat ?z) ?o = unat ?z" using assms(4) by (simp add: word_le_nat_alt max_def)
    then show thesis using that [of t] W True t F fsame_D(1) [OF F(1)] by (simp add: fframe_def)
  next
    case False
    let ?y = "if unat ?z < ?o + ?n then of_nat (?o + ?n) else ?z"
    have e: "(if unat ?z < ?o + ?n then upd_inode ip (\<lambda>q. q\<lparr>i_size := of_nat (?o + ?n)\<rparr>) t else t) =
        upd_inode ip (\<lambda>q. q\<lparr>i_size := ?y\<rparr>) t"
    proof -
      have "(inodes t ip)\<lparr>i_size := ?z\<rparr> = inodes t ip" using F(9) by (intro inode.equality) simp_all
      then show ?thesis by (simp add: upd_inode_def)
    qed
    obtain u where u: "iupdate ip (upd_inode ip (\<lambda>q. q\<lparr>i_size := ?y\<rparr>) t) = Ret () u" "txn p {} u" "volume {} u" "file_ok u ip"
      "inodes u = (inodes t)(ip := (inodes t ip)\<lparr>i_size := ?y\<rparr>)" "sb u = sb t" "free_blocks u = free_blocks t"
      "\<And>m. m \<noteq> iblk t ip \<Longrightarrow> view u m = view t m" "fsame {} 1 t u"
      by (rule set_size [OF t(2-4)]) (use fsame_D(5) [OF F(1)] assms(7) in auto)
    have ni: "iblk t ip \<notin> fblocks (view t) (inodes t ip)" using t(4) by (auto simp: file_ok_def fowned_def)
    have "m \<in> fblocks (view t) (inodes t ip) \<Longrightarrow> view u m = view t m" for m using ni by (intro u(8)) auto
    note C = file_cong [OF this]
    have y: "unat ?y = max (unat ?z) (?o + ?n)" using small on by (auto simp: max_def)
    have eq: "writei ip (From_local bs) off n s = Ret (int ?n) u" using W False e u(1) sn by (simp add: word_gt_0)
    show thesis
      by (rule that [OF eq u(2-4)])
        (use t u(5-8) F C y fsame_D(1) [OF F(1)] in \<open>auto simp: fframe_def\<close>)
  qed
qed


section \<open>Properties\<close>

text \<open>
  C33: \<^verbatim>\<open>readi()\<close> into a kernel buffer returns the bytes of the file from \<open>off\<close> on, at most \<open>n\<close> of
  them and none beyond the size; an offset beyond the size, or one whose end wraps around, reads
  nothing.  The file system is as before.
\<close>

theorem readi_correct:
  fixes s :: "'a kfs_scheme"
  assumes "bufheld p {} s" "file_ok s ip" "filled s ip"
  shows "if i_size (inodes s ip) < off \<or> off + n < off then readi ip To_local off n s = Ret (0, []) s
    else \<exists>t k. k = min (unat n) (unat (i_size (inodes s ip)) - unat off) \<and>
      readi ip To_local off n s = Ret (int k, map (fbyte (view s) (inodes s ip)) [unat off..<unat off + k]) t \<and>
      bufheld p {} t \<and> moved {} 0 s t \<and> view t = view s"
proof (cases "i_size (inodes s ip) < off \<or> off + n < off")
  case True
  then show ?thesis by (simp add: readi_def)
next
  case False
  then show ?thesis using readi_ok [OF assms, of off n] by (auto simp: not_less)
qed

text \<open>
  C32: inside a transaction with room for it, \<^verbatim>\<open>writei()\<close> of \<open>n\<close> bytes at an offset within the file
  returns \<open>n\<close> and extends the file as far as needed, allocating blocks from the bitmap.  A later
  \<^verbatim>\<open>readi()\<close> returns the bytes written where they were written and the old bytes elsewhere.  No
  other inode changes, and every other file whose blocks are its own keeps its contents.
\<close>

theorem writei_readi:
  fixes s :: "'a kfs_scheme"
  assumes "txn p {} s" "volume {} s" "file_ok s ip" "filled s ip" "off \<le> i_size (inodes s ip)"
    and "unat off + unat n \<le> MAXFILE * BSIZE" "unat n = length bs"
    and "lh_n s + 6 * int (nblk (unat off) (unat n)) < int LOGSIZE - 1" "2 * nblk (unat off) (unat n) \<le> card (free_blocks s)"
  shows "\<exists>t. writei ip (From_local bs) off n s = Ret (int (unat n)) t \<and> txn p {} t \<and> volume {} t \<and> file_ok t ip \<and> filled t ip \<and>
    unat (i_size (inodes t ip)) = max (unat (i_size (inodes s ip))) (unat off + unat n) \<and>
    (\<forall>o' m. unat o' + unat m \<le> unat (i_size (inodes t ip)) \<longrightarrow>
       (\<exists>u. readi ip To_local o' m t = Ret (int (unat m), map (\<lambda>x. if unat off \<le> x \<and> x < unat off + unat n then bs ! (x - unat off)
          else fbyte (view s) (inodes s ip) x) [unat o'..<unat o' + unat m]) u)) \<and>
    (\<forall>j. j \<noteq> ip \<longrightarrow> inodes t j = inodes s j \<and>
       (file_ok s j \<and> fblocks (view s) (inodes s j) \<inter> fblocks (view s) (inodes s ip) = {} \<and> iblk s ip \<notin> fblocks (view s) (inodes s j) \<longrightarrow>
         (\<forall>x<MAXFILE * BSIZE. fbyte (view t) (inodes t j) x = fbyte (view s) (inodes s j) x)))"
proof -
  have le: "unat n \<le> length bs" using assms(7) by simp
  obtain t where t: "writei ip (From_local bs) off n s = Ret (int (unat n)) t" "txn p {} t" "volume {} t" "file_ok t ip"
    "unat (i_size (inodes t ip)) = max (unat (i_size (inodes s ip))) (unat off + unat n)"
    "\<forall>x<MAXFILE * BSIZE. fbyte (view t) (inodes t ip) x =
       (if unat off \<le> x \<and> x < unat off + unat n then bs ! (x - unat off) else fbyte (view s) (inodes s ip) x)"
    "\<forall>b<MAXFILE. faddr (view s) (inodes s ip) b \<noteq> 0 \<longrightarrow> faddr (view t) (inodes t ip) b = faddr (view s) (inodes s ip) b"
    "\<forall>x. unat off \<le> x \<and> x < unat off + unat n \<longrightarrow> faddr (view t) (inodes t ip) (x div BSIZE) \<noteq> 0"
    "\<forall>j. j \<noteq> ip \<longrightarrow> inodes t j = inodes s j"
    "fblocks (view t) (inodes t ip) \<subseteq> fblocks (view s) (inodes s ip) \<union> {a. unat a \<in> free_blocks s}"
    "\<forall>m. m \<notin> bmaps s \<and> m \<notin> fblocks (view t) (inodes t ip) \<and> m \<noteq> iblk s ip \<longrightarrow> view t m = view s m"
    by (rule writei_ok [OF assms(1-3,5,6) le assms(8,9)])
  have sz: "unat (i_size (inodes t ip)) \<le> MAXFILE * BSIZE" using t(5) assms(4,6) by (simp add: filled_def)
  have "faddr (view t) (inodes t ip) (x div BSIZE) \<noteq> 0" if x: "x < unat (i_size (inodes t ip))" for x
  proof (cases "unat off \<le> x \<and> x < unat off + unat n")
    case False
    then have "x < unat (i_size (inodes s ip))" using x t(5) assms(5) by (auto simp: word_le_nat_alt max_def split: if_splits)
    moreover have "x div BSIZE < MAXFILE" using x sz by (simp add: less_mult_imp_div_less)
    ultimately show ?thesis using t(7) assms(4) by (simp add: filled_def)
  qed (use t(8) in blast)
  then have fl: "filled t ip" using sz by (simp add: filled_def)
  have rd: "\<exists>u. readi ip To_local o' m t = Ret (int (unat m), map (\<lambda>x. if unat off \<le> x \<and> x < unat off + unat n then bs ! (x - unat off)
          else fbyte (view s) (inodes s ip) x) [unat o'..<unat o' + unat m]) u"
    if r: "unat o' + unat m \<le> unat (i_size (inodes t ip))" for o' m
  proof -
    have "unat o' + unat m < 2 ^ 32" using r sz by (simp add: file_nums)
    then have w: "o' \<le> i_size (inodes t ip)" "\<not> o' + m < o'" "unat m = min (unat m) (unat (i_size (inodes t ip)) - unat o')"
      using r no_wrap [of o' m] by (simp_all add: word_le_nat_alt)
    have "map (fbyte (view t) (inodes t ip)) [unat o'..<unat o' + unat m] =
        map (\<lambda>x. if unat off \<le> x \<and> x < unat off + unat n then bs ! (x - unat off) else fbyte (view s) (inodes s ip) x) [unat o'..<unat o' + unat m]"
      using t(6) r sz by (intro map_cong) auto
    then show ?thesis using readi_ok [OF txn_D(5) [OF t(2)] t(4) fl w] by auto
  qed
  have other: "fbyte (view t) (inodes t j) x = fbyte (view s) (inodes s j) x" if j: "j \<noteq> ip" "file_ok s j" "x < MAXFILE * BSIZE"
    "fblocks (view s) (inodes s j) \<inter> fblocks (view s) (inodes s ip) = {}" "iblk s ip \<notin> fblocks (view s) (inodes s j)" for j x
  proof -
    have "view t m = view s m" if "m \<in> fblocks (view s) (inodes s j)" for m
    proof -
      have "fowned s j m" using j(2) that by (simp add: file_ok_def)
      then show ?thesis using t(10,11) j(4,5) that by (auto simp: fowned_def)
    qed
    then show ?thesis using file_cong(5) [of "view s" "inodes s j" "view t" x] t(9) j(1,3) by simp
  qed
  show ?thesis using t(1-5,9) fl rd other by (intro exI [of _ t]) blast
qed


text \<open>A file of 2000 bytes in blocks 46 and 47 of the demonstration volume.\<close>

definition demo_open :: kfs where
  "demo_open = upd_inode 3 (\<lambda>_. demo_file) demo_kfs"

lemma demo_open_inode [simp]: "inodes demo_open 3 = demo_file"
  by (simp add: demo_open_def)

lemma demo_faddr: "faddr V demo_file b = (if b = 0 then 46 else if b = 1 then 47 else 0)"
  by (auto simp: faddr_def demo_file_def file_nums less_2_cases_iff)

lemma demo_file_simps: "i_addrs demo_file 12 = 0" "i_dev demo_file = 1" "i_inum demo_file = 5" "i_size demo_file = 2000"
  by (simp_all add: demo_file_def)

lemma demo_fblocks: "fblocks V demo_file = {46, 47}"
proof -
  have "a \<in> fblocks V demo_file \<longleftrightarrow> a = 46 \<or> a = 47" for a
    unfolding fblocks_iff demo_faddr file_nums demo_file_simps by (auto intro: exI [of _ "0::nat"] exI [of _ "1::nat"])
  then show ?thesis by auto
qed

lemma demo_open_volume: "bmaps demo_open = {45}" "free_blocks demo_open = {48..<1000}" "volume {} demo_open" "txn 5 {} demo_open"
proof -
  have S: "unat (sb_size (sb demo_kfs)) = 1000" by (simp add: demo_sb_def)
  have "bmaps demo_kfs = (\<lambda>_. 45) ` {..<1000::nat}" unfolding bmaps_def S using demo_kfs_bitmap(1) by (intro image_cong) simp_all
  then show "bmaps demo_open = {45}" by (auto simp: demo_open_def image_constant_conv lessThan_empty_iff)
  have "free_blocks demo_kfs = {48..<1000}" unfolding free_blocks_def S using demo_kfs_bitmap(2) by auto
  then show "free_blocks demo_open = {48..<1000}" by (simp add: demo_open_def)
  show "volume {} demo_open" "txn 5 {} demo_open" using demo_kfs_volume demo_kfs_txn(1) by (simp_all add: demo_open_def)
qed

lemma demo_open_file: "file_ok demo_open 3" "filled demo_open 3"
proof -
  note V = demo_open_volume
  have S: "sb demo_open = demo_sb" "unat (sb_size demo_sb) = 1000" by (simp_all add: demo_open_def demo_sb_def)
  have ib: "iblk demo_open 3 = 32" using S by (simp add: iblk_def IBLOCK_def demo_file_simps demo_sb_def IPB_def BSIZE_def)
  have d: "data_block demo_open (of_nat b)" if "32 \<le> b" "b < 1000" for b
    using that not_in_log [of demo_kfs b] small_of_nat [of b] by (simp add: data_block_def demo_open_def)
  have d3: "data_block demo_open 32" "data_block demo_open 46" "data_block demo_open 47" using d [of 32] d [of 46] d [of 47] by simp_all
  have "(of_nat b :: uint32) \<noteq> 32" if "48 \<le> b" "b < 1000" for b using that by (simp add: word_unat_eq_iff unat_of_nat)
  moreover have "layout (view demo_open) demo_file" by (auto simp: layout_def demo_faddr demo_file_simps file_nums)
  moreover have "fowned demo_open 3 46" "fowned demo_open 3 47" using V S ib d3 by (simp_all add: fowned_def)
  ultimately show "file_ok demo_open 3"
    using V ib d3 by (auto simp: file_ok_def demo_fblocks demo_file_simps ROOTDEV_def)
  show "filled demo_open 3" by (auto simp: filled_def demo_faddr demo_file_simps file_nums)
qed

theorem readi_correct_witness:
  "\<exists>t. readi 3 To_local 1990 100 demo_open = Ret (10, map (fbyte (view demo_open) demo_file) [1990..<2000]) t"
proof -
  have z: "i_size demo_file = 2000" by (simp add: demo_file_def)
  show ?thesis using readi_correct [OF txn_D(5) [OF demo_open_volume(4)] demo_open_file, of 1990 100] by (auto simp: z)
qed

theorem writei_readi_witness:
  "\<exists>t u. writei 3 (From_local (replicate 100 7)) 1990 100 demo_open = Ret 100 t \<and> i_size (inodes t 3) = 2090 \<and>
     readi 3 To_local 2040 50 t = Ret (50, replicate 50 7) u"
proof -
  have z: "i_size demo_file = 2000" by (simp add: demo_file_def)
  have l: "lh_n demo_open = 0" by (simp add: demo_open_def)
  have nb: "nblk (unat (1990 :: uint32)) (unat (100 :: uint32)) = 2" by (simp add: nblk_def file_nums)
  obtain t where t: "writei 3 (From_local (replicate 100 7)) 1990 100 demo_open = Ret (int (unat (100 :: uint32))) t"
    "unat (i_size (inodes t 3)) = 2090"
    "\<forall>o' m. unat o' + unat m \<le> unat (i_size (inodes t 3)) \<longrightarrow>
       (\<exists>u. readi 3 To_local o' m t = Ret (int (unat m), map (\<lambda>x. if unat (1990 :: uint32) \<le> x \<and> x < unat (1990 :: uint32) + unat (100 :: uint32)
          then replicate 100 7 ! (x - unat (1990 :: uint32)) else fbyte (view demo_open) (inodes demo_open 3) x) [unat o'..<unat o' + unat m]) u)"
    using writei_readi [OF demo_open_volume(4,3) demo_open_file, of 1990 100 "replicate 100 7"] nb l demo_open_volume(2)
    by (auto simp: z file_nums LOGSIZE_def MAXOPBLOCKS_def)
  have U: "unat (1990 :: uint32) = 1990" "unat (100 :: uint32) = 100" "unat (2040 :: uint32) = 2040" "unat (50 :: uint32) = 50" by simp_all
  let ?f = "\<lambda>x. if 1990 \<le> x \<and> x < 1990 + 100 then replicate 100 7 ! (x - 1990) else fbyte (view demo_open) (inodes demo_open 3) x"
  have "map ?f [2040..<2040 + 50] = map (\<lambda>_. 7) [2040..<2040 + 50]" by (intro map_cong) auto
  also have "\<dots> = replicate 50 7" unfolding map_replicate_const length_upt by (rule arg_cong [of _ _ "\<lambda>n. replicate n 7"]) simp
  finally have m: "map ?f [2040..<2040 + 50] = replicate 50 7" .
  have "unat (2040 :: uint32) + unat (50 :: uint32) \<le> unat (i_size (inodes t 3))" using t(2) by simp
  from t(3) [rule_format, OF this] obtain u where "readi 3 To_local 2040 50 t = Ret (int 50, replicate 50 7) u" unfolding U m ..
  moreover have "i_size (inodes t 3) = 2090" using t(2) by (simp add: word_unat_eq_iff)
  ultimately show ?thesis using t(1) by auto
qed

end
