(* ===== verification/Pipe_Fifo.thy ===== *)
theory Pipe_Fifo
  imports Files Alloc Uvm_Props
begin

text \<open>
  Pipes as bounded queues of bytes.  The counters of a ring buffer run freely over 32 bits; the
  buffer's length divides their range, so the queue survives their wrap-around.
\<close>

section \<open>Ring buffers\<close>

definition ringq :: "nat \<Rightarrow> (nat \<Rightarrow> 'a) \<Rightarrow> uint32 \<Rightarrow> uint32 \<Rightarrow> 'a list" where
  "ringq N d r w = map (\<lambda>i. d (unat (r + of_nat i) mod N)) [0..<unat (w - r)]"

lemma ring_index: "N dvd 2 ^ 32 \<Longrightarrow> unat (r + of_nat i :: uint32) mod N = (unat r + i) mod N"
  by (simp add: unat_word_ariths unat_of_nat mod_mod_cancel mod_add_right_eq)

lemma ring_apart:
  fixes a i k N :: nat
  assumes "i < k" "k < i + N"
  shows "(a + i) mod N \<noteq> (a + k) mod N"
proof
  assume "(a + i) mod N = (a + k) mod N"
  then have "N dvd (a + k) - (a + i)" using assms(1) by (metis add_le_cancel_left less_imp_le mod_eq_dvd_iff_nat)
  then show False using assms nat_dvd_not_less [of "k - i" N] by simp
qed

lemma ring_succ: "unat (w - r :: uint32) < N \<Longrightarrow> N < 2 ^ 32 \<Longrightarrow> unat (w + 1 - r) = Suc (unat (w - r))"
proof -
  assume a: "unat (w - r) < N" "N < 2 ^ 32"
  have "unat (d + 1) = Suc (unat d)" if "unat d < N" for d :: uint32 using a(2) that by (simp add: unat_word_ariths)
  from this [OF a(1)] show ?thesis by (simp add: algebra_simps)
qed

lemma ring_push:
  fixes r w :: uint32
  assumes "N dvd 2 ^ 32" "N < 2 ^ 32" "unat (w - r) < N"
  shows "ringq N (d(unat w mod N := c)) r (w + 1) = ringq N d r w @ [c]"
proof -
  let ?k = "unat (w - r)"
  have "unat (r + of_nat ?k) mod N = unat w mod N" by simp
  then have "unat (r + of_nat i) mod N \<noteq> unat w mod N" if "i < ?k" for i
    using ring_apart [of i ?k N "unat r"] that assms(3) ring_index [OF assms(1), of r] by (metis trans_less_add2)
  then show ?thesis unfolding ringq_def ring_succ [OF assms(3,2)] by simp
qed

lemma ring_pop:
  fixes r w :: uint32
  assumes "r \<noteq> w"
  shows "ringq N d r w = d (unat r mod N) # ringq N d (r + 1) w"
proof -
  have "unat (w - r) = Suc (unat (w - (r + 1)))"
  proof -
    have "w - r \<noteq> 0" using assms by simp
    then show ?thesis using unat_minus_one [of "w - r"] by (simp add: diff_diff_eq unat_gt_0 algebra_simps)
  qed
  then show ?thesis
    unfolding ringq_def by (simp add: upt_conv_Cons map_Suc_upt [symmetric] algebra_simps del: upt_Suc)
qed

lemma ring_empty: "ringq N d r w = [] \<longleftrightarrow> r = w"
  by (auto simp: ringq_def unsigned_eq_0_iff)

lemma length_ringq [simp]: "length (ringq N d r w) = unat (w - r)"
  by (simp add: ringq_def)


section \<open>Pipes\<close>

definition pipeq :: "pipe \<Rightarrow> byte list" where
  "pipeq q = ringq PIPESIZE (pi_data q) (pi_nread q) (pi_nwrite q)"

lemma PIPESIZE_dvd: "PIPESIZE dvd 2 ^ 32" "PIPESIZE < 2 ^ 32"
  by (simp_all add: PIPESIZE_def)

text \<open>The pipe with a byte appended, and the pipe without its first byte.\<close>

definition pushed :: "byte \<Rightarrow> pipe \<Rightarrow> pipe" where
  "pushed c q = q\<lparr>pi_data := (pi_data q)(unat (pi_nwrite q) mod PIPESIZE := c), pi_nwrite := pi_nwrite q + 1\<rparr>"

definition popped :: "pipe \<Rightarrow> pipe" where
  "popped q = q\<lparr>pi_nread := pi_nread q + 1\<rparr>"

lemma pipeq_pushed: "length (pipeq q) < PIPESIZE \<Longrightarrow> pipeq (pushed c q) = pipeq q @ [c]"
  using ring_push [OF PIPESIZE_dvd, of "pi_nwrite q" "pi_nread q"] by (simp add: pipeq_def pushed_def)

lemma pipeq_popped: "pi_nread q \<noteq> pi_nwrite q \<Longrightarrow> pipeq q = pi_data q (unat (pi_nread q) mod PIPESIZE) # pipeq (popped q)"
  using ring_pop [of "pi_nread q" "pi_nwrite q"] by (simp add: pipeq_def popped_def)

lemma pipe_full: "length (pipeq q) < PIPESIZE \<Longrightarrow> pi_nwrite q \<noteq> pi_nread q + of_nat PIPESIZE"
  by (auto simp: pipeq_def PIPESIZE_def)

lemma pipe_open_simps [simp]: "pi_readopen (pushed c q) = pi_readopen q" "pi_writeopen (pushed c q) = pi_writeopen q"
  "pi_readopen (popped q) = pi_readopen q" "pi_writeopen (popped q) = pi_writeopen q"
  by (simp_all add: pushed_def popped_def)

text \<open>An address space depends on memory, the allocator's variables and its lock only.\<close>

lemma uspace_cong:
  assumes "mem t = mem s" "freelist t = freelist s" "end_addr t = end_addr s" "lockable Kmem_lock t"
  shows "pt_inv s xs root \<Longrightarrow> pt_inv t xs root" "uspace s xs root K \<Longrightarrow> uspace t xs root K"
proof -
  have p: "page_ok t = page_ok s" by (simp add: page_ok_def assms fun_eq_iff)
  show pt: "pt_inv s xs root \<Longrightarrow> pt_inv t xs root" unfolding pt_inv_def kmem_ok_def ptw_def p assms(1-3) using assms(4) by blast
  show "uspace s xs root K \<Longrightarrow> uspace t xs root K" using pt unfolding uspace_def p assms(1) by blast
qed

lemma upd_pipe_simps [simp]:
  fixes s :: "'a kfile_scheme"
  shows "pipes (upd_pipe pi f s) = (pipes s)(pi := f (pipes s pi))" "mem (upd_pipe pi f s) = mem s" "procs (upd_pipe pi f s) = procs s"
    "pt_inv (upd_pipe pi f s) xs root = pt_inv s xs root" "quiet (upd_pipe pi f s) = quiet s" "lock_free l (upd_pipe pi f s) = lock_free l s"
    "upd_pipe pi g (upd_pipe pi f s) = upd_pipe pi (\<lambda>q. g (f q)) s" "procs_free (upd_pipe pi f s) = procs_free s"
    "uspace (upd_pipe pi f s) xs root K = uspace s xs root K"
proof -
  have q: "quiet (upd_pipe pi f s) = quiet s" "lock_free l (upd_pipe pi f s) = lock_free l s" "cpu_ok (upd_pipe pi f s) = cpu_ok s" for l
    using mycpu_cong [of "upd_pipe pi f s" s] intr_get_cong [of "upd_pipe pi f s" s] quiet_cong [of "upd_pipe pi f s" s]
    by (simp_all add: upd_pipe_def lock_free_def cpu_ok_def)
  show "quiet (upd_pipe pi f s) = quiet s" "lock_free l (upd_pipe pi f s) = lock_free l s" "procs_free (upd_pipe pi f s) = procs_free s"
    by (simp_all add: q procs_free_def)
  show pt: "pt_inv (upd_pipe pi f s) xs root = pt_inv s xs root"
    unfolding pt_inv_def kmem_ok_def ptw_def lockable_def q by (simp add: upd_pipe_def page_ok_def)
  show "uspace (upd_pipe pi f s) xs root K = uspace s xs root K"
    unfolding uspace_def pt by (simp add: upd_pipe_def page_ok_def)
qed (simp_all add: upd_pipe_def)

lemma pushes:
  assumes "length (pipeq q) + length bs \<le> PIPESIZE"
  shows "pipeq (fold pushed bs q) = pipeq q @ bs" "pi_readopen (fold pushed bs q) = pi_readopen q" "pi_writeopen (fold pushed bs q) = pi_writeopen q"
  using assms by (induction bs arbitrary: q) (simp_all add: pipeq_pushed)

lemma ubytes_Cons: "readable m root va (Suc n) \<Longrightarrow> ubytes m root va (Suc n) = the (uread m root va) # ubytes m root (va + 1) n"
  by (simp add: ubytes_def upt_conv_Cons map_Suc_upt [symmetric] algebra_simps del: upt_Suc)

lemma readable_Suc: "readable m root va (Suc n) \<longleftrightarrow> utrans m root va \<noteq> None \<and> readable m root (va + 1) n"
  unfolding readable_def All_less_Suc2 by (simp add: algebra_simps)

lemma copyin_byte:
  assumes "pt_inv s xs root" "user_nonzero (mem s) root" "utrans (mem s) root va \<noteq> None"
  shows "copyin root va 1 s = Ret (0, [the (uread (mem s) root va)]) s"
proof -
  obtain r k where "copyin root va 1 s = Ret (r, ubytes (mem s) root va k) s"
    "r = 0 \<and> k = 1 \<or> r = -1 \<and> k < 1 \<and> utrans (mem s) root (va + of_nat k) = None"
    using copyin_spec [OF assms(1,2), of 1 va] by auto
  then show ?thesis using assms(3) by (auto simp: ubytes_def)
qed

lemma pipewrite_loop_eq:
  fixes s :: "'a kfile_scheme"
  assumes "pt_inv s xs root" "user_nonzero (mem s) root" "root = p_pagetable (procs s pr)" "readable (mem s) root addr n"
    and "length (pipeq (pipes s pi)) + n \<le> PIPESIZE"
  shows "pipewrite_loop n pr pi addr i s =
    bnd (wakeup (Pipe_nread pi) (upd_pipe pi (fold pushed (ubytes (mem s) root addr n)) s)) (\<lambda>_ s.
      bnd (release (Pipe_lock pi) s) (\<lambda>_ s. Ret (i + int n) s))"
  using assms
proof (induction n arbitrary: addr i s)
  case 0
  then show ?case by (simp add: ubytes_def upd_pipe_def)
next
  case (Suc n)
  let ?c = "the (uread (mem s) root addr)" and ?t = "upd_pipe pi (pushed (the (uread (mem s) root addr))) s"
  have r: "utrans (mem s) root addr \<noteq> None" "readable (mem s) root (addr + 1) n" using Suc.prems(4) by (simp_all add: readable_Suc)
  have l: "length (pipeq (pipes s pi)) < PIPESIZE" using Suc.prems(5) by simp
  have "pipewrite_loop (Suc n) pr pi addr i s = pipewrite_loop n pr pi (addr + 1) (i + 1) ?t"
    using copyin_byte [OF Suc.prems(1,2) r(1)] Suc.prems(3) pipe_full [OF l] by (simp add: pushed_def [abs_def])
  also have "\<dots> = bnd (wakeup (Pipe_nread pi) (upd_pipe pi (fold pushed (ubytes (mem ?t) root (addr + 1) n)) ?t)) (\<lambda>_ s.
      bnd (release (Pipe_lock pi) s) (\<lambda>_ s. Ret (i + 1 + int n) s))"
    by (rule Suc.IH) (use Suc.prems r(2) l in \<open>simp_all add: pipeq_pushed\<close>)
  also have "upd_pipe pi (fold pushed (ubytes (mem ?t) root (addr + 1) n)) ?t = upd_pipe pi (fold pushed (ubytes (mem s) root addr (Suc n))) s"
    using ubytes_Cons [OF Suc.prems(4)] by (simp add: comp_def)
  finally show ?case by (simp add: add.assoc)
qed


lemma uspace_acquired:
  fixes s :: "'a kfile_scheme"
  assumes "cpu_ok s" "l \<noteq> Kmem_lock"
  shows "pt_inv s xs root \<Longrightarrow> pt_inv (acquired l s) xs root" "uspace s xs root K \<Longrightarrow> uspace (acquired l s) xs root K"
proof -
  have k: "lockable Kmem_lock (acquired l s)" if "pt_inv s xs root"
    using quiet_cpu_ok [OF quiet_acquired [OF assms(1), of l]] assms(2) kmem_ok_D(2) that
    by (auto simp: pt_inv_def lockable_def lock_free_acquired)
  show "pt_inv s xs root \<Longrightarrow> pt_inv (acquired l s) xs root" by (rule uspace_cong(1)) (simp_all add: k)
  show "uspace s xs root K \<Longrightarrow> uspace (acquired l s) xs root K" by (rule uspace_cong(2)) (simp_all add: k uspace_D(1))
qed

lemma acquired_kfile [simp]: "pipes (acquired l s) = pipes s" "files (acquired l s) = files s"
  by (rule acquired_field, simp)+

lemma woken_kfile [simp]: "pipes (woken ch A s) = pipes s" "end_addr (woken ch A s) = end_addr s"
  by (simp_all add: woken_def)

lemma pipewrite_eq:
  fixes s :: "'a kfile_scheme"
  assumes "quiet s" "procs_free s" "cproc (cpus s (mycpu s)) = Some p" "lock_free (Pipe_lock pi) s" "pt_inv s xs root" "user_nonzero (mem s) root"
    and "root = p_pagetable (procs s p)" "readable (mem s) root addr n" "length (pipeq (pipes s pi)) + n \<le> PIPESIZE"
  shows "pipewrite pi addr (int n) s =
    Ret (int n) (woken (Pipe_nread pi) {..<NPROC} (upd_pipe pi (fold pushed (ubytes (mem s) root addr n)) s))"
proof -
  let ?l = "Pipe_lock pi" and ?f = "fold pushed (ubytes (mem s) root addr n)"
  let ?a = "acquired ?l s"
  have ok: "cpu_ok s" by (rule quiet_cpu_ok [OF assms(1)])
  have lp: "pipewrite_loop n p pi addr 0 ?a =
      bnd (wakeup (Pipe_nread pi) (upd_pipe pi (fold pushed (ubytes (mem ?a) root addr n)) ?a)) (\<lambda>_ s.
        bnd (release ?l s) (\<lambda>_ s. Ret (0 + int n) s))"
    by (rule pipewrite_loop_eq [where root = root and xs = xs]) (use assms(6-9) uspace_acquired(1) [OF ok _ assms(5)] in simp_all)
  have w: "wakeup (Pipe_nread pi) (upd_pipe pi ?f ?a) = Ret () (woken (Pipe_nread pi) {..<NPROC} (upd_pipe pi ?f ?a))"
    by (rule wakeup_eq) (use quiet_acquired [OF ok] procs_free_acquired [OF assms(2)] in simp_all)
  have r: "release ?l (woken (Pipe_nread pi) {..<NPROC} (upd_pipe pi ?f ?a)) = Ret () (woken (Pipe_nread pi) {..<NPROC} (upd_pipe pi ?f s))"
    by (rule critical_quiet [OF assms(1,4)]) (simp_all add: woken_def upd_pipe_def)
  show ?thesis
    using curproc_quiet [OF assms(1,3)] acquire_quiet [OF assms(1,4)] lp w r by (simp add: pipewrite_def)
qed

lemma copyout_byte:
  assumes "uspace s xs root K" "user_owned (mem s) root K" "utrans (mem s) root va \<noteq> None"
  obtains t where "copyout root va [c] s = Ret 0 t" "wrote s xs root K va [c] t"
proof -
  obtain r t k where "copyout root va [c] s = Ret r t" "wrote s xs root K va (take k [c]) t"
    "r = 0 \<and> k = 1 \<or> r = -1 \<and> k < 1 \<and> utrans (mem s) root (va + of_nat k) = None"
    using copyout_spec [OF assms(1,2), of "[c]" va] by auto
  then show thesis using assms(3) that by auto
qed

lemma upd_pipe_restore: "upd_pipe pi (\<lambda>_. pipes s pi) ((upd_pipe pi f s)\<lparr>mem := m\<rparr>) = s\<lparr>mem := m\<rparr>"
  by (simp add: upd_pipe_def)

lemma wrote_keeps:
  assumes "wrote s xs root K va bs t"
  shows "utrans (mem t) root = utrans (mem s) root" "user_owned (mem t) root K = user_owned (mem s) root K" "uspace t xs root K" "t = s\<lparr>mem := mem t\<rparr>"
proof -
  have p: "\<And>w. pte_of (mem t) root w = pte_of (mem s) root w" using assms unfolding wrote_def by blast
  show "utrans (mem t) root = utrans (mem s) root" "user_owned (mem t) root K = user_owned (mem s) root K"
    by (simp_all add: utrans_def user_owned_def fun_eq_iff p)
  show "uspace t xs root K" "t = s\<lparr>mem := mem t\<rparr>" using assms unfolding wrote_def by blast+
qed

lemma wrote_pipe:
  fixes s v :: "'a kfile_scheme"
  assumes "wrote (upd_pipe pi f s) xs root K va bs v"
  shows "wrote s xs root K va bs (upd_pipe pi (\<lambda>_. pipes s pi) v)"
proof -
  have "v = (upd_pipe pi f s)\<lparr>mem := mem v\<rparr>" by (rule wrote_keeps [OF assms])
  then have "upd_pipe pi (\<lambda>_. pipes s pi) v = s\<lparr>mem := mem v\<rparr>" by (metis upd_pipe_restore)
  moreover have "uspace (upd_pipe pi (\<lambda>_. pipes s pi) v) xs root K" using wrote_keeps(3) [OF assms] by simp
  ultimately show ?thesis using assms unfolding wrote_def by simp
qed

lemma piperead_copy_eq:
  fixes s :: "'a kfile_scheme"
  assumes "uspace s xs root K" "user_owned (mem s) root K" "root = p_pagetable (procs s pr)" "readable (mem s) root addr n" "n < 2 ^ 63"
  shows "\<exists>t q. piperead_copy n pr pi addr i s = Ret (i + int (min n (length (pipeq (pipes s pi))))) (upd_pipe pi (\<lambda>_. q) t) \<and>
    wrote s xs root K addr (take n (pipeq (pipes s pi))) t \<and> pipeq q = drop n (pipeq (pipes s pi)) \<and>
    pi_readopen q = pi_readopen (pipes s pi) \<and> pi_writeopen q = pi_writeopen (pipes s pi)"
  using assms
proof (induction n arbitrary: addr i s)
  case 0
  then show ?case
    by (intro exI [of _ s] exI [of _ "pipes s pi"]) (simp add: wrote_nil upd_pipe_def)
next
  case (Suc n)
  let ?q = "pipes s pi"
  show ?case
  proof (cases "pi_nread ?q = pi_nwrite ?q")
    case True
    then have "pipeq ?q = []" by (simp add: pipeq_def ring_empty)
    then show ?thesis using True Suc.prems(1)
      by (intro exI [of _ s] exI [of _ ?q]) (simp add: wrote_nil upd_pipe_def)
  next
    case False
    let ?c = "pi_data ?q (unat (pi_nread ?q) mod PIPESIZE)" and ?s = "upd_pipe pi popped s"
    have Q: "pipeq ?q = ?c # pipeq (popped ?q)" by (rule pipeq_popped [OF False])
    have r: "utrans (mem s) root addr \<noteq> None" "readable (mem s) root (addr + 1) n" using Suc.prems(4) by (simp_all add: readable_Suc)
    obtain t where t: "copyout root addr [?c] ?s = Ret 0 t" "wrote ?s xs root K addr [?c] t"
      by (rule copyout_byte [of ?s xs root K addr ?c]) (use Suc.prems(1,2) r(1) in simp_all)
    note W = wrote_keeps [OF t(2)]
    have P: "procs t = procs s" "pipes t = (pipes s)(pi := popped ?q)" by (subst W(4), simp)+
    have IH: "\<exists>u q. piperead_copy n pr pi (addr + 1) (i + 1) t = Ret (i + 1 + int (min n (length (pipeq (pipes t pi))))) (upd_pipe pi (\<lambda>_. q) u) \<and>
      wrote t xs root K (addr + 1) (take n (pipeq (pipes t pi))) u \<and> pipeq q = drop n (pipeq (pipes t pi)) \<and>
      pi_readopen q = pi_readopen (pipes t pi) \<and> pi_writeopen q = pi_writeopen (pipes t pi)"
      by (rule Suc.IH) (use Suc.prems(2,3,5) W r(2) P in \<open>simp_all add: readable_def\<close>)
    then obtain u q where u: "piperead_copy n pr pi (addr + 1) (i + 1) t = Ret (i + 1 + int (min n (length (pipeq (popped ?q))))) (upd_pipe pi (\<lambda>_. q) u)"
      "wrote t xs root K (addr + 1) (take n (pipeq (popped ?q))) u" "pipeq q = drop n (pipeq (popped ?q))"
      "pi_readopen q = pi_readopen ?q" "pi_writeopen q = pi_writeopen ?q"
      unfolding P by auto
    have "piperead_copy (Suc n) pr pi addr i s = piperead_copy n pr pi (addr + 1) (i + 1) t"
      using False t(1) Suc.prems(3) by (simp add: popped_def [abs_def])
    moreover have "wrote ?s xs root K addr ([?c] @ take n (pipeq (popped ?q))) u"
      by (rule wrote_trans [OF t(2)]) (use u(2) Suc.prems(5) in simp_all)
    ultimately show ?thesis using u(1,3-5) Q wrote_pipe [of pi popped s xs root K addr _ u]
      by (intro exI [of _ "upd_pipe pi (\<lambda>_. ?q) u"] exI [of _ q]) simp
  qed
qed


lemma piperead_eq:
  fixes s :: "'a kfile_scheme"
  assumes "quiet s" "procs_free s" "cproc (cpus s (mycpu s)) = Some p" "lock_free (Pipe_lock pi) s" "uspace s xs root K" "user_owned (mem s) root K"
    and "root = p_pagetable (procs s p)" "readable (mem s) root addr n" "n < 2 ^ 63"
    and "pipeq (pipes s pi) \<noteq> [] \<or> \<not> pi_writeopen (pipes s pi)"
  shows "\<exists>m q. piperead pi addr (int n) s = Ret (int (min n (length (pipeq (pipes s pi)))))
      (woken (Pipe_nwrite pi) {..<NPROC} ((upd_pipe pi (\<lambda>_. q) s)\<lparr>mem := m\<rparr>)) \<and>
    wrote s xs root K addr (take n (pipeq (pipes s pi))) (s\<lparr>mem := m\<rparr>) \<and> pipeq q = drop n (pipeq (pipes s pi)) \<and>
    pi_readopen q = pi_readopen (pipes s pi) \<and> pi_writeopen q = pi_writeopen (pipes s pi)"
proof -
  let ?l = "Pipe_lock pi" and ?Q = "pipeq (pipes s pi)" and ?a = "acquired (Pipe_lock pi) s"
  have ok: "cpu_ok s" by (rule quiet_cpu_ok [OF assms(1)])
  have "\<exists>t q. piperead_copy n p pi addr 0 ?a = Ret (0 + int (min n (length (pipeq (pipes ?a pi))))) (upd_pipe pi (\<lambda>_. q) t) \<and>
    wrote ?a xs root K addr (take n (pipeq (pipes ?a pi))) t \<and> pipeq q = drop n (pipeq (pipes ?a pi)) \<and>
    pi_readopen q = pi_readopen (pipes ?a pi) \<and> pi_writeopen q = pi_writeopen (pipes ?a pi)"
    by (rule piperead_copy_eq) (use assms(6-9) uspace_acquired(2) [OF ok _ assms(5)] in simp_all)
  then obtain t q where t: "piperead_copy n p pi addr 0 ?a = Ret (int (min n (length ?Q))) (upd_pipe pi (\<lambda>_. q) t)"
    "wrote ?a xs root K addr (take n ?Q) t" "pipeq q = drop n ?Q" "pi_readopen q = pi_readopen (pipes s pi)" "pi_writeopen q = pi_writeopen (pipes s pi)"
    by auto
  let ?m = "mem t" and ?w = "woken (Pipe_nwrite pi) {..<NPROC}"
  have te: "t = ?a\<lparr>mem := ?m\<rparr>" by (rule wrote_keeps(4) [OF t(2)])
  have ue: "upd_pipe pi (\<lambda>_. q) t = (upd_pipe pi (\<lambda>_. q) ?a)\<lparr>mem := ?m\<rparr>" by (subst te) (simp add: upd_pipe_def)
  have qu: "quiet ((upd_pipe pi (\<lambda>_. q) ?a)\<lparr>mem := ?m\<rparr>)" "procs_free ((upd_pipe pi (\<lambda>_. q) ?a)\<lparr>mem := ?m\<rparr>)"
  proof -
    have "quiet (u\<lparr>mem := x\<rparr>) = quiet u" "lock_free l (u\<lparr>mem := x\<rparr>) = lock_free l u" for u :: "'a kfile_scheme" and x l by (rule quiet_cong; simp)+
    then show "quiet ((upd_pipe pi (\<lambda>_. q) ?a)\<lparr>mem := ?m\<rparr>)" "procs_free ((upd_pipe pi (\<lambda>_. q) ?a)\<lparr>mem := ?m\<rparr>)"
      using quiet_acquired [OF ok] procs_free_acquired [OF assms(2)] by (simp_all add: procs_free_def)
  qed
  note w = wakeup_eq [OF qu, of "Pipe_nwrite pi"]
  have r: "release ?l (?w ((upd_pipe pi (\<lambda>_. q) ?a)\<lparr>mem := ?m\<rparr>)) = Ret () (?w ((upd_pipe pi (\<lambda>_. q) s)\<lparr>mem := ?m\<rparr>))"
    by (rule critical_quiet [OF assms(1,4)]) (simp_all add: woken_def upd_pipe_def)
  have "\<not> (pi_nread (pipes s pi) = pi_nwrite (pipes s pi) \<and> pi_writeopen (pipes s pi))" using assms(10) by (auto simp: pipeq_def ring_empty)
  then have "piperead pi addr (int n) s = Ret (int (min n (length ?Q))) (?w ((upd_pipe pi (\<lambda>_. q) s)\<lparr>mem := ?m\<rparr>))"
    using curproc_quiet [OF assms(1,3)] acquire_quiet [OF assms(1,4)] t(1) w r ue by (auto simp: piperead_def piperead_loop_def)
  moreover have "wrote s xs root K addr (take n ?Q) (s\<lparr>mem := ?m\<rparr>)"
  proof -
    have "uspace (s\<lparr>mem := ?m\<rparr>) xs root K"
    proof (rule uspace_cong(2) [OF _ _ _ _ wrote_keeps(3) [OF t(2)]])
      show "mem (s\<lparr>mem := ?m\<rparr>) = mem t" "freelist (s\<lparr>mem := ?m\<rparr>) = freelist t" "end_addr (s\<lparr>mem := ?m\<rparr>) = end_addr t"
        by (simp, (subst te, simp)+)
      have "lockable Kmem_lock s" using uspace_D(1) [OF assms(5)] by (simp add: pt_inv_def kmem_ok_def)
      then show "lockable Kmem_lock (s\<lparr>mem := ?m\<rparr>)" using core_cong(4) [of "s\<lparr>mem := ?m\<rparr>" s] by simp
    qed
    then show ?thesis using t(2) unfolding wrote_def by simp
  qed
  ultimately show ?thesis using t(3-5) by blast
qed


section \<open>Properties\<close>



text \<open>A pipe whose counters are about to wrap around, and a process with one page of memory.\<close>

definition demo_kfile :: kfile where
  "demo_kfile = kfs.extend (demo_kfs\<lparr>mem := d_mem, freelist := freelist d_state, end_addr := end_addr d_state,
       procs := (procs demo_kfs)(5 := (procs demo_kfs 5)\<lparr>p_pagetable := d_root\<rparr>)\<rparr>)
     (kfile.fields (\<lambda>_. \<lparr>f_type = FD_NONE, f_ref = 0, f_readable = False, f_writable = False, f_pipe = 0, f_ip = None, f_off = 0, f_major = 0\<rparr>)
       (\<lambda>_. \<lparr>pi_data = (\<lambda>_. 0), pi_nread = 0xFFFFFFFF, pi_nwrite = 0xFFFFFFFF, pi_readopen = True, pi_writeopen = True\<rparr>) [])"

lemma demo_kfile_simps [simp]:
  "hart demo_kfile = hart demo_kproc" "csrs demo_kfile = csrs demo_kproc" "cpus demo_kfile = cpus demo_kproc" "lk demo_kfile = lk demo_kproc"
  "mem demo_kfile = d_mem" "freelist demo_kfile = freelist d_state" "end_addr demo_kfile = end_addr d_state"
  "procs demo_kfile = (procs demo_kproc)(5 := (procs demo_kproc 5)\<lparr>p_pagetable := d_root\<rparr>)"
  "pipes demo_kfile pi = \<lparr>pi_data = (\<lambda>_. 0), pi_nread = 0xFFFFFFFF, pi_nwrite = 0xFFFFFFFF, pi_readopen = True, pi_writeopen = True\<rparr>"
  by (simp_all add: demo_kfile_def kfs.defs kfile.defs demo_kfs_def klog.defs demo_idle_def kdisk.defs demo_kdisk_def demo_kproc_def)


end
