(* ===== verification/Ulib.thy ===== *)
theory Ulib
  imports Console
begin

text \<open>
  The user library: the string and memory routines of \<^verbatim>\<open>user/ulib.c\<close> over byte-addressed memory, and
  the formatting of \<^verbatim>\<open>user/printf.c\<close>.  Loops that run until they meet a NUL return \<open>None\<close> when they
  never do.
\<close>

section \<open>\<^verbatim>\<open>ulib.c\<close>\<close>

partial_function (option) ustrcpy :: "memory \<Rightarrow> uint64 \<Rightarrow> uint64 \<Rightarrow> memory option" where
  "ustrcpy m s t = (if m t = 0 then Some (m(s := m t)) else ustrcpy (m(s := m t)) (s + 1) (t + 1))"

partial_function (option) ustrcmp :: "memory \<Rightarrow> uint64 \<Rightarrow> uint64 \<Rightarrow> int option" where
  "ustrcmp m p q = (if m p \<noteq> 0 \<and> m p = m q then ustrcmp m (p + 1) (q + 1) else Some (uint (m p) - uint (m q)))"

partial_function (option) ustrlen_from :: "memory \<Rightarrow> uint64 \<Rightarrow> nat \<Rightarrow> nat option" where
  "ustrlen_from m s n = (if m (s + of_nat n) = 0 then Some n else ustrlen_from m s (Suc n))"

definition ustrlen :: "memory \<Rightarrow> uint64 \<Rightarrow> nat option" where
  "ustrlen m s = ustrlen_from m s 0"

primrec umemset :: "memory \<Rightarrow> uint64 \<Rightarrow> byte \<Rightarrow> nat \<Rightarrow> memory" where
  "umemset m dst c 0 = m"
| "umemset m dst c (Suc i) = (umemset m dst c i)(dst + of_nat i := c)"

text \<open>\<^verbatim>\<open>strchr\<close> returns the null pointer when the character is not found.\<close>

partial_function (option) ustrchr :: "memory \<Rightarrow> uint64 \<Rightarrow> byte \<Rightarrow> uint64 option" where
  "ustrchr m s c = (if m s = 0 then Some 0 else if m s = c then Some s else ustrchr m (s + 1) c)"

partial_function (option) atoi_from :: "memory \<Rightarrow> uint64 \<Rightarrow> uint32 \<Rightarrow> uint32 option" where
  "atoi_from m s n = (if 48 \<le> m s \<and> m s \<le> 57 then atoi_from m (s + 1) (n * 10 + ucast (m s) - 48) else Some n)"

definition atoi :: "memory \<Rightarrow> uint64 \<Rightarrow> uint32 option" where
  "atoi m s = atoi_from m s 0"

primrec ucopy_fwd :: "nat \<Rightarrow> memory \<Rightarrow> uint64 \<Rightarrow> uint64 \<Rightarrow> memory" where
  "ucopy_fwd 0 m dst src = m"
| "ucopy_fwd (Suc n) m dst src = ucopy_fwd n (m(dst := m src)) (dst + 1) (src + 1)"

primrec ucopy_bwd :: "nat \<Rightarrow> memory \<Rightarrow> uint64 \<Rightarrow> uint64 \<Rightarrow> memory" where
  "ucopy_bwd 0 m dst src = m"
| "ucopy_bwd (Suc n) m dst src = ucopy_bwd n (m(dst - 1 := m (src - 1))) (dst - 1) (src - 1)"

text \<open>The count is a signed integer; nothing is copied when it is not positive.\<close>

definition umemmove :: "memory \<Rightarrow> uint64 \<Rightarrow> uint64 \<Rightarrow> int \<Rightarrow> memory" where
  "umemmove m dst src n =
     (if dst < src then ucopy_fwd (nat n) m dst src
      else ucopy_bwd (nat n) m (dst + word_of_int n) (src + word_of_int n))"

primrec umemcmp :: "nat \<Rightarrow> memory \<Rightarrow> uint64 \<Rightarrow> uint64 \<Rightarrow> int" where
  "umemcmp 0 m s1 s2 = 0"
| "umemcmp (Suc n) m s1 s2 = (if m s1 \<noteq> m s2 then uint (m s1) - uint (m s2) else umemcmp n m (s1 + 1) (s2 + 1))"

definition umemcpy :: "memory \<Rightarrow> uint64 \<Rightarrow> uint64 \<Rightarrow> uint32 \<Rightarrow> memory" where
  "umemcpy m dst src n = umemmove m dst src (sint n)"

section \<open>\<^verbatim>\<open>printf.c\<close>\<close>

definition udigits :: "byte list" where
  "udigits = map of_nat ([48..<58] @ [65..<71])"

text \<open>The digits that \<^verbatim>\<open>printint\<close> stores in its buffer, least significant first, and what it prints.\<close>

function uprintint_digits :: "uint32 \<Rightarrow> nat \<Rightarrow> byte list" where
  "uprintint_digits x base =
     (udigits ! (unat x mod base)) #
     (let x = of_nat (unat x div base) in if base < 2 \<or> x = 0 then [] else uprintint_digits x base)"
  by pat_completeness auto
termination
proof (relation "measure (unat \<circ> fst)")
  fix x :: uint32 and base :: nat and y :: uint32
  assume a: "y = of_nat (unat x div base)" "\<not> (base < 2 \<or> y = 0)"
  have "unat x < 2 ^ 32" using unsigned_less [of x] by simp
  then have "unat x div base < 2 ^ 32" using div_le_dividend [of "unat x" base] by linarith
  then have u: "unat y = unat x div base" using a(1) by (simp add: unat_of_nat)
  then have "0 < unat x" using a(2) by (metis div_0 gr0I unsigned_eq_0_iff)
  then show "((y, base), x, base) \<in> measure (unat \<circ> fst)" using a(2) u by (simp add: div_less_dividend)
qed simp

declare uprintint_digits.simps [simp del]

definition uprintint_buf :: "uint32 \<Rightarrow> nat \<Rightarrow> bool \<Rightarrow> byte list" where
  "uprintint_buf xx base sg =
     (let neg = sg \<and> sint xx < 0;
          x = (if neg then - xx else xx)
      in uprintint_digits x base @ (if neg then [45] else []))"

definition uprintint :: "uint32 \<Rightarrow> nat \<Rightarrow> bool \<Rightarrow> byte list" where
  "uprintint xx base sg = rev (uprintint_buf xx base sg)"

definition uprintptr :: "uint64 \<Rightarrow> byte list" where
  "uprintptr x = [48, 120] @ map (\<lambda>i. udigits ! unat (drop_bit 60 (push_bit (4 * i) x))) [0..<16]"

text \<open>An argument of \<^verbatim>\<open>printf\<close> is a 64-bit word, or a string, which may be the null pointer.\<close>

datatype uarg = UWord uint64 | UStr "byte list option"

fun uvprintf :: "byte list \<Rightarrow> uarg list \<Rightarrow> byte list option" where
  "uvprintf [] ap = Some []"
| "uvprintf (c # fmt) ap =
     (if c \<noteq> 37 then map_option ((#) c) (uvprintf fmt ap)
      else case fmt of
        [] \<Rightarrow> Some []
      | c # fmt \<Rightarrow>
          (if c \<in> {100, 108, 120, 112, 99} then
             (case ap of UWord w # ap \<Rightarrow>
                map_option (\<lambda>r. (if c = 100 then uprintint (ucast w) 10 True
                   else if c = 108 then uprintint (ucast w) 10 False
                   else if c = 120 then uprintint (ucast w) 16 False
                   else if c = 112 then uprintptr w
                   else [ucast w]) @ r) (uvprintf fmt ap)
              | _ \<Rightarrow> None)
           else if c = 115 then
             (case ap of UStr s # ap \<Rightarrow>
                map_option (\<lambda>r. (case s of None \<Rightarrow> chars ''(null)'' | Some s \<Rightarrow> s) @ r) (uvprintf fmt ap)
              | _ \<Rightarrow> None)
           else if c = 37 then map_option ((#) 37) (uvprintf fmt ap)
           else map_option (\<lambda>r. [37, c] @ r) (uvprintf fmt ap)))"


section \<open>Lemmas\<close>

lemma ucopy_eq: "ucopy_fwd n m d s = copy_fwd m d s n" "ucopy_bwd n m d s = copy_bwd m d s n"
  by (induction n arbitrary: m d s) simp_all

lemma umemmove_eq:
  assumes "unat src + n < 2 ^ 64" "unat dst + n \<le> 2 ^ 64"
  shows "umemmove m dst src (int n) = (\<lambda>a. if unat (a - dst) < n then m (src + (a - dst)) else m a)"
proof (cases "dst < src")
  case True
  then have "n \<le> unat (dst - src)" using assms unat_diff_less [of dst src] by (simp add: word_less_nat_alt)
  then show ?thesis using True assms by (simp add: umemmove_def ucopy_eq copy_fwd_eq)
next
  case False
  have "dst = src \<or> n \<le> unat (src - dst)"
    using False assms unat_diff_less [of src dst] by (cases "dst = src") (auto simp: word_less_nat_alt word_unat_eq_iff)
  then show ?thesis using False assms by (simp add: umemmove_def ucopy_eq copy_bwd_eq)
qed

text \<open>A string in memory: the bytes \<open>bs\<close>, none of them NUL, followed by a NUL.\<close>

definition string_at :: "memory \<Rightarrow> uint64 \<Rightarrow> byte list \<Rightarrow> bool" where
  "string_at m s bs \<longleftrightarrow> (\<forall>i<length bs. m (s + of_nat i) = bs ! i \<and> bs ! i \<noteq> 0) \<and> m (s + of_nat (length bs)) = 0"

lemma string_at_Cons: "string_at m s (b # bs) \<longleftrightarrow> m s = b \<and> b \<noteq> 0 \<and> string_at m (s + 1) bs"
  unfolding string_at_def by (auto simp: All_less_Suc2 algebra_simps)

lemma string_at_Nil: "string_at m s [] \<longleftrightarrow> m s = 0"
  by (simp add: string_at_def)

definition is_digit :: "byte \<Rightarrow> bool" where
  "is_digit b \<longleftrightarrow> 48 \<le> b \<and> b \<le> 57"

definition dval :: "byte \<Rightarrow> nat" where
  "dval b = unat b - 48"

lemma atoi_digits:
  assumes "list_all is_digit bs" "string_at m s (bs @ cs)" "cs = [] \<or> \<not> is_digit (hd cs)"
  shows "atoi_from m s n = Some (fold (\<lambda>b n. n * 10 + of_nat (dval b)) bs n)"
  using assms
proof (induction bs arbitrary: s n)
  case Nil
  then have "\<not> is_digit (m s)" by (cases cs) (auto simp: string_at_Cons string_at_Nil is_digit_def)
  then show ?case by (subst atoi_from.simps) (auto simp: is_digit_def)
next
  case (Cons b bs)
  then have b: "m s = b" "is_digit b" "string_at m (s + 1) (bs @ cs)" by (simp_all add: string_at_Cons)
  have "ucast b - 48 = (of_nat (dval b) :: uint32)"
  proof -
    have "48 \<le> unat b" using b(2) by (simp add: is_digit_def word_le_nat_alt)
    then have "of_nat (unat b - 48) = (of_nat (unat b) - 48 :: uint32)" by (simp add: of_nat_diff)
    then show ?thesis by (simp add: dval_def)
  qed
  then have e: "n * 10 + ucast b - 48 = n * 10 + (of_nat (dval b) :: uint32)" by (metis add_diff_eq)
  have "atoi_from m s n = atoi_from m (s + 1) (n * 10 + ucast b - 48)" using b(1,2) by (subst atoi_from.simps) (simp add: is_digit_def)
  then show ?case unfolding e using b(2) Cons.IH [OF _ b(3), of "n * 10 + of_nat (dval b)"] Cons.prems(1,3) by simp
qed

lemma uprintint_digits_nat:
  assumes "x < 2 ^ 32" "2 \<le> base"
  shows "uprintint_digits (of_nat x) base =
    (udigits ! (x mod base)) # (if x div base = 0 then [] else uprintint_digits (of_nat (x div base)) base)"
proof -
  have u: "unat (of_nat x :: uint32) = x" using assms(1) by (simp add: unat_of_nat)
  have "x div base < 2 ^ 32" using assms(1) div_le_dividend [of x base] by linarith
  then have "unat (of_nat (x div base) :: uint32) = x div base" by (simp add: unat_of_nat)
  then have "(of_nat (x div base) :: uint32) = 0 \<longleftrightarrow> x div base = 0" by (simp add: word_unat_eq_iff)
  then show ?thesis using u assms(2) by (subst uprintint_digits.simps) (simp add: Let_def)
qed

lemma is_digit_nth:
  assumes "k < 10"
  shows "is_digit (udigits ! k)" "dval (udigits ! k) = k" "udigits ! k \<noteq> 0"
proof -
  have "k = 0 \<or> k = 1 \<or> k = 2 \<or> k = 3 \<or> k = 4 \<or> k = 5 \<or> k = 6 \<or> k = 7 \<or> k = 8 \<or> k = 9" using assms by presburger
  then show "is_digit (udigits ! k)" "dval (udigits ! k) = k" "udigits ! k \<noteq> 0"
    by (elim disjE; simp add: udigits_def is_digit_def dval_def)+
qed

lemma uprintint_digits_decimal:
  assumes "x < 2 ^ 32"
  shows "list_all is_digit (uprintint_digits (of_nat x) 10) \<and>
    fold (\<lambda>b n. n * 10 + of_nat (dval b)) (rev (uprintint_digits (of_nat x) 10)) 0 = (of_nat x :: uint32)"
  using assms
proof (induction x rule: less_induct)
  case (less x)
  have k: "x mod 10 < 10" by simp
  show ?case
  proof (cases "x div 10 = 0")
    case True
    then have "x mod 10 = x" by simp
    then show ?thesis using is_digit_nth [OF k] True less.prems by (simp add: uprintint_digits_nat)
  next
    case False
    then have "x div 10 < x" "x div 10 < 2 ^ 32" using less.prems by linarith+
    note IH = less.IH [OF this]
    have "(of_nat (x div 10) * 10 + of_nat (x mod 10) :: uint32) = of_nat (x div 10 * 10 + x mod 10)" by (simp only: of_nat_add of_nat_mult of_nat_numeral)
    then show ?thesis using IH is_digit_nth [OF k] False less.prems by (simp add: uprintint_digits_nat)
  qed
qed

lemma uprintint_digits_length:
  assumes "x < base ^ k" "x < 2 ^ 32" "2 \<le> base" "0 < k"
  shows "length (uprintint_digits (of_nat x) base) \<le> k"
  using assms
proof (induction k arbitrary: x)
  case (Suc k)
  show ?case
  proof (cases "x div base = 0")
    case True
    then show ?thesis using Suc.prems by (simp add: uprintint_digits_nat)
  next
    case False
    have "0 < k"
    proof (rule ccontr)
      assume "\<not> 0 < k"
      then show False using Suc.prems(1,3) False by simp
    qed
    moreover have "x div base < base ^ k" using Suc.prems(1) by (simp add: less_mult_imp_div_less mult.commute)
    moreover have "x div base < 2 ^ 32" using Suc.prems(2) div_le_dividend [of x base] by linarith
    ultimately show ?thesis using Suc.IH [of "x div base"] Suc.prems False by (simp add: uprintint_digits_nat)
  qed
qed simp

definition upper :: "byte \<Rightarrow> byte" where
  "upper b = (if 97 \<le> b \<and> b \<le> 102 then b - 32 else b)"

lemma upper_digit: "k < 16 \<Longrightarrow> upper (digits ! k) = udigits ! k"
proof -
  assume "k < 16"
  then have "k = 0 \<or> k = 1 \<or> k = 2 \<or> k = 3 \<or> k = 4 \<or> k = 5 \<or> k = 6 \<or> k = 7 \<or> k = 8 \<or> k = 9 \<or>
    k = 10 \<or> k = 11 \<or> k = 12 \<or> k = 13 \<or> k = 14 \<or> k = 15" by presburger
  then show ?thesis by (elim disjE; simp add: digits_def udigits_def upper_def)
qed

lemma printint_digits_upper:
  assumes "x < 2 ^ 32" "2 \<le> base" "base \<le> 16"
  shows "map upper (printint_digits x base) = uprintint_digits (of_nat x) base"
  using assms(1)
proof (induction x rule: less_induct)
  case (less x)
  have k: "upper (digits ! (x mod base)) = udigits ! (x mod base)"
  proof (rule upper_digit)
    have "x mod base < base" using assms(2) by simp
    then show "x mod base < 16" using assms(3) by linarith
  qed
  show ?case
  proof (cases "x div base = 0")
    case True
    then show ?thesis using k assms(2) less.prems by (subst printint_digits.simps) (simp add: uprintint_digits_nat)
  next
    case False
    then have "0 < x" by (cases x) simp_all
    then have d: "x div base < x" using assms(2) by (intro div_less_dividend) simp_all
    have "x div base < 2 ^ 32" by (rule less_trans [OF d less.prems])
    with d show ?thesis using less.IH k False assms(2) less.prems by (subst printint_digits.simps) (simp add: uprintint_digits_nat)
  qed
qed

section \<open>Properties\<close>

text \<open>
  C35: the user's \<^verbatim>\<open>memmove()\<close>, which chooses its direction by comparing the addresses only, and the
  kernel's, which copies downwards only when the ranges overlap, do the same to memory, and so
  does \<^verbatim>\<open>memcpy()\<close>.
\<close>

theorem umemmove_agrees:
  assumes "unat src + n < 2 ^ 64" "unat dst + n \<le> 2 ^ 64" "n < 2 ^ 31"
  shows "umemmove m dst src (int n) = memmove m dst src n \<and> umemcpy m dst src (of_nat n) = memmove m dst src n"
proof -
  have "sint (of_nat n :: uint32) = int n"
    using assms(3) sint_small [of "of_nat n"] by (simp add: unat_of_nat)
  then show ?thesis using umemmove_eq [OF assms(1,2)] memmove_eq [OF assms(1,2)] by (simp add: umemcpy_def)
qed

theorem umemmove_agrees_witness: "umemmove (\<lambda>a. ucast a) 102 100 4 = memmove (\<lambda>a. ucast a) 102 100 4"
  using umemmove_agrees [of 100 4 102 "\<lambda>a. ucast a"] by simp

text \<open>
  C36: \<^verbatim>\<open>atoi()\<close> reads back what \<^verbatim>\<open>printf()\<close> prints for a 32-bit integer with \<^verbatim>\<open>%d\<close> or \<^verbatim>\<open>%l\<close> when it is
  not negative, whatever follows it that is not a digit.
\<close>

theorem atoi_printint:
  assumes "x < 2 ^ 31" "string_at m s (uprintint (of_nat x) 10 sg @ cs)" "cs = [] \<or> \<not> is_digit (hd cs)"
  shows "atoi m s = Some (of_nat x)"
proof -
  have "\<not> sint (of_nat x :: uint32) < 0"
    using assms(1) sint_small [of "of_nat x"] by (simp add: unat_of_nat)
  then have p: "uprintint (of_nat x) 10 sg = rev (uprintint_digits (of_nat x) 10)" by (simp add: uprintint_def uprintint_buf_def)
  have "x < 2 ^ 32" using assms(1) by simp
  note D = uprintint_digits_decimal [OF this]
  then have "list_all is_digit (rev (uprintint_digits (of_nat x) 10))" by (simp add: list_all_iff)
  from atoi_digits [OF this _ assms(3), of m s 0] show ?thesis using assms(2) D p by (simp add: atoi_def)
qed

theorem atoi_printint_witness: "atoi (\<lambda>a. if a = 100 then 52 else if a = 101 then 50 else 0) 100 = Some 42"
proof -
  have d: "uprintint_digits (of_nat 42) 10 = [50, 52]" 
    using uprintint_digits_nat [of 42 10] uprintint_digits_nat [of 4 10] by (simp add: udigits_def)
  have "uprintint (of_nat 42) 10 True = [52, 50]" using d by (simp add: uprintint_def uprintint_buf_def)
  then have "string_at (\<lambda>a. if a = 100 then 52 else if a = 101 then 50 else 0) 100 (uprintint (of_nat 42) 10 True @ [])"
    by (simp add: string_at_Cons string_at_Nil)
  from atoi_printint [OF _ this] show ?thesis by simp
qed

text \<open>
  C37: the kernel's and the user's \<^verbatim>\<open>printint()\<close> print every 32-bit integer alike in base 10 and 16,
  up to the case of the digits, and neither writes more than 11 characters into its buffer of 16.
\<close>

theorem printint_agrees:
  assumes "base \<in> {10, 16}"
  shows "map upper (printint (sint xx) base sg) = uprintint xx base sg \<and> length (uprintint_buf xx base sg) \<le> 11 \<and>
    length (printint (sint xx) base sg) \<le> 11"
proof -
  have b: "2 \<le> base" "base \<le> 16" using assms by auto
  let ?x = "if sg \<and> sint xx < 0 then - xx else xx"
  have u: "of_nat (unat ?x) = ?x" "unat ?x < 2 ^ 32" using unsigned_less [of ?x] by simp_all
  have k: "unat (word_of_int (if sg \<and> sint xx < 0 then - sint xx else sint xx) :: uint32) = unat ?x" by simp
  have D: "map upper (printint_digits (unat ?x) base) = uprintint_digits ?x base"
    using printint_digits_upper [OF u(2) b] unfolding u(1) .
  have m: "upper 45 = 45" by (simp add: upper_def)
  have e: "map upper (printint (sint xx) base sg) = uprintint xx base sg"
    unfolding printint_def uprintint_def uprintint_buf_def Let_def k rev_map [symmetric] map_append D using m by simp
  have "unat ?x < base ^ 10" using u(2) assms by auto
  from uprintint_digits_length [OF this u(2) b(1)] have "length (uprintint_digits ?x base) \<le> 10" unfolding u(1) by simp
  then have "length (uprintint_buf xx base sg) \<le> 11" by (auto simp: uprintint_buf_def Let_def)
  moreover have "length (printint (sint xx) base sg) = length (uprintint_buf xx base sg)"
    using arg_cong [OF e, of length] by (simp add: uprintint_def)
  ultimately show ?thesis using e by simp
qed

theorem printint_agrees_witness: "map upper (printint (sint (0xFFFFFFFF :: uint32)) 16 False) = uprintint 0xFFFFFFFF 16 False"
  using printint_agrees [of 16 "0xFFFFFFFF" False] by simp

end
