(* ===== verification/Shell.thy ===== *)
theory Shell
  imports Fcntl "HOL-Library.Sublist"
begin

text \<open>
  The shell, \<^verbatim>\<open>user/sh.c\<close>: the parser of command lines.  A pointer into the line is the rest of the
  line from there to the terminating NUL, so \<^verbatim>\<open>es\<close> is the empty rest and \<^verbatim>\<open>*s\<close> at the end is
  the NUL.  A call of \<^verbatim>\<open>panic\<close>, which prints its message and exits, is an \<open>Inl\<close> result
  with the text printed.
\<close>

section \<open>Characters and pointers\<close>

definition NUL :: char where "NUL = CHR 0x00"

definition at :: "string \<Rightarrow> char" where
  "at s = (case s of [] \<Rightarrow> NUL | c # _ \<Rightarrow> c)"

lemma at_simps [simp]: "at [] = NUL" "at (c # s) = c"
  by (simp_all add: at_def)

text \<open>\<^verbatim>\<open>strchr\<close> on a string without NUL, as the test it is used for.\<close>

primrec strchr :: "string \<Rightarrow> char \<Rightarrow> string option" where
  "strchr [] c = None"
| "strchr (d # s) c = (if d = c then Some (d # s) else strchr s c)"

lemma strchr_iff: "strchr s c \<noteq> None \<longleftrightarrow> c \<in> set s"
  by (induction s) auto

definition whitespace :: string where
  "whitespace = [CHR '' '', CHR 0x09, CHR 0x0D, CHR 0x0A, CHR 0x0B]"

definition symbols :: string where
  "symbols = ''<|>&;()''"

definition is_space :: "char \<Rightarrow> bool" where
  "is_space c = (strchr whitespace c \<noteq> None)"

definition is_symbol :: "char \<Rightarrow> bool" where
  "is_symbol c = (strchr symbols c \<noteq> None)"

definition skip_space :: "string \<Rightarrow> string" where
  "skip_space s = dropWhile is_space s"

text \<open>The result of \<open>gettoken\<close>: the token's kind, its start, its end, and where the input continues.\<close>

definition gettoken :: "string \<Rightarrow> char \<times> string \<times> string \<times> string" where
  "gettoken s =
     (let s = skip_space s; q = s;
          (ret, s) =
            (if at s = NUL then (NUL, s)
             else if at s \<in> set ''|();&<'' then (at s, tl s)
             else if at s = CHR ''>'' then
               (let s = tl s in if at s = CHR ''>'' then (CHR ''+'', tl s) else (CHR ''>'', s))
             else (CHR ''a'', dropWhile (\<lambda>c. \<not> is_space c \<and> \<not> is_symbol c) s))
      in (ret, q, s, skip_space s))"

definition peek :: "string \<Rightarrow> string \<Rightarrow> bool \<times> string" where
  "peek s toks = (let s = skip_space s in (at s \<noteq> NUL \<and> strchr toks (at s) \<noteq> None, s))"

section \<open>Commands\<close>

definition MAXARGS :: nat where "MAXARGS = 10"

text \<open>
  \<^verbatim>\<open>argv\<close> and \<^verbatim>\<open>eargv\<close> are the list of starts and ends of the arguments, up to the null
  pointer; a redirection has the start and the end of the file name, the mode and the descriptor.
\<close>

datatype cmd =
    EXEC "(string \<times> string) list"
  | REDIR cmd string string uint32 int
  | PIPE cmd cmd
  | LIST cmd cmd
  | BACK cmd

type_synonym 'a parsed = "string + 'a"

fun rbind :: "'a parsed \<Rightarrow> ('a \<Rightarrow> 'b parsed) \<Rightarrow> 'b parsed" where
  "rbind (Inl e) f = Inl e"
| "rbind (Inr x) f = f x"

lemma rbind_cong [fundef_cong]:
  assumes "m = m'" "\<And>x. m' = Inr x \<Longrightarrow> f x = g x"
  shows "rbind m f = rbind m' g"
  using assms by (cases m') auto

lemma rbind_Inr: "rbind m f = Inr y \<longleftrightarrow> (\<exists>x. m = Inr x \<and> f x = Inr y)"
  by (cases m) auto

section \<open>Lengths\<close>

abbreviation tkind :: "string \<Rightarrow> char" where "tkind s \<equiv> fst (gettoken s)"
abbreviation tstart :: "string \<Rightarrow> string" where "tstart s \<equiv> fst (snd (gettoken s))"
abbreviation tend :: "string \<Rightarrow> string" where "tend s \<equiv> fst (snd (snd (gettoken s)))"
abbreviation trest :: "string \<Rightarrow> string" where "trest s \<equiv> snd (snd (snd (gettoken s)))"

lemma skip_space_le: "length (skip_space s) \<le> length s"
  by (simp add: skip_space_def length_dropWhile_le)

lemma skip_space_idem [simp]: "skip_space (skip_space s) = skip_space s"
  by (simp add: skip_space_def)

lemma skip_space_hd: "skip_space s \<noteq> [] \<Longrightarrow> \<not> is_space (at (skip_space s))"
  unfolding skip_space_def using hd_dropWhile [of is_space s] by (cases "dropWhile is_space s") auto

lemma snd_peek [simp]: "snd (peek s toks) = skip_space s"
  by (simp add: peek_def Let_def)

lemma fst_peek: "fst (peek s toks) \<longleftrightarrow> at (skip_space s) \<noteq> NUL \<and> at (skip_space s) \<in> set toks"
  by (simp add: peek_def Let_def strchr_iff del: not_None_eq)

definition is_word :: "char \<Rightarrow> bool" where
  "is_word c \<longleftrightarrow> \<not> is_space c \<and> \<not> is_symbol c"

lemma gettoken_simps:
  "tstart s = skip_space s" "trest s = skip_space (tend s)"
  "tend s = (let s = skip_space s in if at s = NUL then s else if at s \<in> set ''|();&<'' then tl s
     else if at s = CHR ''>'' then (if at (tl s) = CHR ''>'' then tl (tl s) else tl s) else dropWhile is_word s)"
  by (auto simp: gettoken_def Let_def is_word_def [abs_def] split: prod.splits)

lemma tend_le: "length (tend s) \<le> length (skip_space s)"
  by (auto simp: gettoken_simps(3) Let_def length_dropWhile_le)

lemma trest_le: "length (trest s) \<le> length s"
  using tend_le [of s] skip_space_le [of s] skip_space_le [of "tend s"] by (simp add: gettoken_simps(2))

lemma tend_less: "at (skip_space s) \<noteq> NUL \<Longrightarrow> length (tend s) < length (skip_space s)"
proof -
  let ?s = "skip_space s"
  assume a: "at ?s \<noteq> NUL"
  then obtain c cs where c: "?s = c # cs" by (cases ?s) auto
  have sp: "\<not> is_space c" using skip_space_hd [of s] c by simp
  have "dropWhile is_word ?s = dropWhile is_word cs" if "c \<notin> set ''|();&<''" "c \<noteq> CHR ''>''"
    using c sp that by (auto simp: is_word_def is_symbol_def strchr_iff symbols_def)
  then show ?thesis
    using a c length_dropWhile_le [of is_word cs] by (auto simp: gettoken_simps(3) Let_def)
qed

lemma trest_less: "at (skip_space s) \<noteq> NUL \<Longrightarrow> length (trest s) < length s"
  using tend_less [of s] skip_space_le [of s] skip_space_le [of "tend s"] by (simp add: gettoken_simps(2))

lemma peek_less: "fst (peek s toks) \<Longrightarrow> length (trest (skip_space s)) < length s"
  using trest_less [of "skip_space s"] skip_space_le [of s] by (simp add: fst_peek)

section \<open>The parser\<close>

definition redir_tok :: "char \<Rightarrow> cmd \<Rightarrow> string \<Rightarrow> string \<Rightarrow> cmd" where
  "redir_tok tok c q eq =
     (if tok = CHR ''<'' then REDIR c q eq O_RDONLY 0
      else if tok = CHR ''>'' then REDIR c q eq (O_WRONLY OR O_CREATE OR O_TRUNC) 1
      else if tok = CHR ''+'' then REDIR c q eq (O_WRONLY OR O_CREATE) 1
      else c)"

function parseredirs :: "cmd \<Rightarrow> string \<Rightarrow> (cmd \<times> string) parsed" where
  "parseredirs c s =
     (if fst (peek s ''<>'') then
        let s = snd (peek s ''<>''); tok = tkind s; s = trest s
        in if tkind s \<noteq> CHR ''a'' then Inl ''missing file for redirection''
           else parseredirs (redir_tok tok c (tstart s) (tend s)) (trest s)
      else Inr (c, snd (peek s ''<>'')))"
  by pat_completeness auto
termination
  by (relation "measure (\<lambda>(_, s). length s)") (use peek_less trest_le in \<open>auto intro: le_less_trans\<close>)

declare parseredirs.simps [simp del]

text \<open>
  An argument goes into the \<open>EXEC\<close> node, also after redirections were wrapped around it:
  \<^verbatim>\<open>parseexec\<close> keeps a pointer to that node.
\<close>

primrec add_arg :: "string \<times> string \<Rightarrow> cmd \<Rightarrow> cmd" where
  "add_arg a (EXEC as) = EXEC (as @ [a])"
| "add_arg a (REDIR c q eq m f) = REDIR (add_arg a c) q eq m f"
| "add_arg a (PIPE c d) = PIPE c d"
| "add_arg a (LIST c d) = LIST c d"
| "add_arg a (BACK c) = BACK c"

function parseargs :: "nat \<Rightarrow> cmd \<Rightarrow> string \<Rightarrow> (cmd \<times> string) parsed" where
  "parseargs argc c s =
     (if fst (peek s ''|)&;'') then Inr (c, snd (peek s ''|)&;''))
      else let s = snd (peek s ''|)&;''); tok = tkind s
           in if tok = NUL then Inr (c, trest s)
              else if tok \<noteq> CHR ''a'' then Inl ''syntax''
              else if MAXARGS \<le> argc + 1 then Inl ''too many args''
              else rbind (parseredirs (add_arg (tstart s, tend s) c) (trest s)) (\<lambda>(c, s). parseargs (argc + 1) c s))"
  by pat_completeness auto
termination
  by (relation "measure (\<lambda>(argc, _, _). MAXARGS - argc)") auto

declare parseargs.simps [simp del]

text \<open>The loop of \<^verbatim>\<open>parseline\<close> over ampersands.\<close>

function parsebacks :: "cmd \<Rightarrow> string \<Rightarrow> cmd \<times> string" where
  "parsebacks c s =
     (if fst (peek s ''&'') then parsebacks (BACK c) (trest (snd (peek s ''&''))) else (c, snd (peek s ''&'')))"
  by pat_completeness auto
termination
  by (relation "measure (\<lambda>(_, s). length s)") (use peek_less in auto)

declare parsebacks.simps [simp del]

lemma parseredirs_le: "parseredirs c s = Inr (d, r) \<Longrightarrow> length r \<le> length s"
proof (induction c s rule: parseredirs.induct)
  case (1 c s)
  show ?case
  proof (cases "fst (peek s ''<>'')")
    case True
    have "length (trest (trest (skip_space s))) \<le> length s"
      using trest_le [of "trest (skip_space s)"] trest_le [of "skip_space s"] skip_space_le [of s] by linarith
    then show ?thesis using 1(1) [OF True refl refl refl] 1(2) True
      by (subst (asm) (2) parseredirs.simps) (auto simp: Let_def split: if_splits)
  next
    case False
    then show ?thesis using 1(2) skip_space_le [of s] by (simp add: parseredirs.simps)
  qed
qed

lemma parsebacks_le: "length (snd (parsebacks c s)) \<le> length s"
proof (induction c s rule: parsebacks.induct)
  case (1 c s)
  then show ?case
    using peek_less [of s "''&''"] skip_space_le [of s] by (subst parsebacks.simps) auto
qed

lemma parseargs_le: "parseargs n c s = Inr (d, r) \<Longrightarrow> length r \<le> length s"
proof (induction n c s rule: parseargs.induct)
  case (1 n c s)
  let ?s = "skip_space s"
  have le: "length (trest ?s) \<le> length s" "length ?s \<le> length s" using trest_le [of ?s] skip_space_le [of s] by linarith+
  show ?case
  proof (cases "fst (peek s ''|)&;'') \<or> tkind ?s = NUL")
    case True
    then show ?thesis using 1(2) le by (subst (asm) parseargs.simps) (auto simp: Let_def split: if_splits)
  next
    case False
    then have c: "tkind ?s = CHR ''a''" "\<not> MAXARGS \<le> n + 1"
      "rbind (parseredirs (add_arg (tstart ?s, tend ?s) c) (trest ?s)) (\<lambda>(c, s). parseargs (n + 1) c s) = Inr (d, r)"
      using 1(2) by (subst (asm) parseargs.simps, simp add: Let_def split: if_splits)+
    then obtain d' r' where e: "parseredirs (add_arg (tstart ?s, tend ?s) c) (trest ?s) = Inr (d', r')" "parseargs (n + 1) d' r' = Inr (d, r)"
      by (auto simp: rbind_Inr)
    have "length r \<le> length r'" by (rule 1(1) [OF _ refl refl _ _ c(2) _ refl e(2)]) (use False c e(1) in simp_all)
    then show ?thesis using parseredirs_le [OF e(1)] le(1) by linarith
  qed
qed

text \<open>A parser that returns leaves at most \<open>n\<close> characters.\<close>

definition leaves :: "nat \<Rightarrow> (cmd \<times> string) parsed \<Rightarrow> bool" where
  "leaves n m \<longleftrightarrow> (\<forall>c r. m = Inr (c, r) \<longrightarrow> length r \<le> n)"

lemma leaves_rbind:
  assumes "leaves n m" "\<And>c r. m = Inr (c, r) \<Longrightarrow> length r \<le> n \<Longrightarrow> leaves n (f (c, r))"
  shows "leaves n (rbind m f)"
  using assms by (auto simp: leaves_def rbind_Inr)

lemma leaves_mono: "leaves n m \<Longrightarrow> n \<le> k \<Longrightarrow> leaves k m"
  by (auto simp: leaves_def)

lemma leaves_simps [simp]: "leaves n (Inl e)" "leaves n (Inr (c, r)) \<longleftrightarrow> length r \<le> n"
  by (simp_all add: leaves_def)

lemma leaves_redirs: "length s \<le> n \<Longrightarrow> leaves n (parseredirs c s)"
  unfolding leaves_def using parseredirs_le le_trans by blast

lemma leaves_args: "length s \<le> n \<Longrightarrow> leaves n (parseargs k c s)"
  unfolding leaves_def using parseargs_le le_trans by blast

lemma skip_le: "length s \<le> n \<Longrightarrow> length (skip_space s) \<le> n" "length s \<le> n \<Longrightarrow> length (trest (skip_space s)) \<le> n"
  using skip_space_le [of s] trest_le [of "skip_space s"] by linarith+

lemma parsebacks_less: "(d, r) = parsebacks c s \<Longrightarrow> fst (peek r toks) \<Longrightarrow> length (trest (skip_space r)) < length s"
  using parsebacks_le [of c s] peek_less [of r toks] by (metis le_less_trans less_le_trans snd_conv)

function parseline :: "string \<Rightarrow> (cmd \<times> string) parsed"
  and parsepipe :: "string \<Rightarrow> (cmd \<times> string) parsed"
  and parseexec :: "string \<Rightarrow> (cmd \<times> string) parsed"
  and parseblock :: "string \<Rightarrow> (cmd \<times> string) parsed" where
  "parseline s =
     rbind (parsepipe s) (\<lambda>(c, s).
       let (c, s) = parsebacks c s
       in if fst (peek s '';'') then
            rbind (parseline (trest (snd (peek s '';'')))) (\<lambda>(d, s). Inr (LIST c d, s))
          else Inr (c, snd (peek s '';'')))"
| "parsepipe s =
     rbind (parseexec s) (\<lambda>(c, s).
       if fst (peek s ''|'') then
         rbind (parsepipe (trest (snd (peek s ''|'')))) (\<lambda>(d, s). Inr (PIPE c d, s))
       else Inr (c, snd (peek s ''|'')))"
| "parseexec s =
     (if fst (peek s ''('') then parseblock (snd (peek s ''(''))
      else rbind (parseredirs (EXEC []) (snd (peek s ''(''))) (\<lambda>(c, s). parseargs 0 c s))"
| "parseblock s =
     (if \<not> fst (peek s ''('') then Inl ''parseblock''
      else rbind (parseline (trest (snd (peek s ''('')))) (\<lambda>(c, s).
        if \<not> fst (peek s '')'') then Inl ''syntax - missing )''
        else parseredirs c (trest (snd (peek s '')'')))))"
  by pat_completeness auto

termination
proof -
  have le: "parseline_parsepipe_parseexec_parseblock_dom (Inl (Inl s)) \<Longrightarrow> leaves (length s) (parseline s)"
    "parseline_parsepipe_parseexec_parseblock_dom (Inl (Inr s)) \<Longrightarrow> leaves (length s) (parsepipe s)"
    "parseline_parsepipe_parseexec_parseblock_dom (Inr (Inl s)) \<Longrightarrow> leaves (length s) (parseexec s)"
    "parseline_parsepipe_parseexec_parseblock_dom (Inr (Inr s)) \<Longrightarrow> leaves (length s) (parseblock s)" for s
  proof (induction s and s and s and s rule: parseline_parsepipe_parseexec_parseblock.pinduct)
    case (1 s)
    have "leaves (length s) (case (c, r) of (c, s) \<Rightarrow> let (c, s) = parsebacks c s in
        if fst (peek s '';'') then rbind (parseline (trest (snd (peek s '';'')))) (\<lambda>(d, s). Inr (LIST c d, s)) else Inr (c, snd (peek s '';'')))"
      if p: "parsepipe s = Inr (c, r)" "length r \<le> length s" for c r
    proof -
      obtain d q where b: "parsebacks c r = (d, q)" by (cases "parsebacks c r")
      have q: "length q \<le> length s" using parsebacks_le [of c r] b p(2) by simp
      have "leaves (length s) (parseline (trest (skip_space q)))" if "fst (peek q '';'')"
        using 1(3) [OF p(1) refl refl b [symmetric] that] skip_le [OF q] leaves_mono by simp
      then show ?thesis using b skip_le [OF q] by (auto intro!: leaves_rbind)
    qed
    then show ?case unfolding parseline.psimps [OF 1(1)] by (intro leaves_rbind [OF 1(2)])
  next
    case (2 s)
    have "leaves (length s) (parsepipe (trest (skip_space r)))" if "parseexec s = Inr (c, r)" "length r \<le> length s" "fst (peek r ''|'')" for c r
      using 2(3) [OF that(1) refl that(3)] skip_le [OF that(2)] leaves_mono by simp
    then show ?case unfolding parsepipe.psimps [OF 2(1)] using skip_le by (intro leaves_rbind [OF 2(2)]) (auto intro!: leaves_rbind)
  next
    case (3 s)
    then show ?case unfolding parseexec.psimps [OF 3(1)]
      using leaves_mono skip_space_le [of s] by (auto intro!: leaves_rbind leaves_redirs leaves_args)
  next
    case (4 s)
    then have "leaves (length s) (parseline (trest (skip_space s)))" if "fst (peek s ''('')"
      using that skip_le [of s "length s"] leaves_mono by simp
    then show ?case unfolding parseblock.psimps [OF 4(1)] using skip_le by (auto intro!: leaves_rbind leaves_redirs)
  qed
  show ?thesis
  proof (relation "measures [case_sum (case_sum length length) (case_sum length length),
      case_sum (case_sum (\<lambda>_. 3) (\<lambda>_. 2)) (case_sum (\<lambda>_. 1) (\<lambda>_. 0))]")
    show "(Inl (Inl (trest (snd (peek r '';'')))), Inl (Inl s)) \<in>
        measures [case_sum (case_sum length length) (case_sum length length), case_sum (case_sum (\<lambda>_. 3) (\<lambda>_. 2)) (case_sum (\<lambda>_. 1) (\<lambda>_. 0))]"
      if "parsepipe s = Inr x" "(c, b) = x" "p = parsebacks c b" "(d, r) = p" "fst (peek r '';'')"
        "parseline_parsepipe_parseexec_parseblock_dom (Inl (Inr s))" for s x c b p d r
      using that le(2) [OF that(6)] parsebacks_less [of d r c b] by (fastforce simp: leaves_def)
    show "(Inl (Inr (trest (snd (peek b ''|'')))), Inl (Inr s)) \<in>
        measures [case_sum (case_sum length length) (case_sum length length), case_sum (case_sum (\<lambda>_. 3) (\<lambda>_. 2)) (case_sum (\<lambda>_. 1) (\<lambda>_. 0))]"
      if "parseexec s = Inr x" "(c, b) = x" "fst (peek b ''|'')"
        "parseline_parsepipe_parseexec_parseblock_dom (Inr (Inl s))" for s x c b
      using that le(3) [OF that(4)] peek_less [OF that(3)] by (fastforce simp: leaves_def)
  qed (use peek_less in \<open>auto simp: skip_space_le le_neq_implies_less\<close>)
qed

declare parseline.simps [simp del] parsepipe.simps [simp del] parseexec.simps [simp del] parseblock.simps [simp del]

text \<open>
  \<^verbatim>\<open>nulterminate\<close> overwrites the character after each argument and file name in the line.  The
  write behind the line hits its terminating NUL.
\<close>

definition put_nul :: "string \<Rightarrow> string \<Rightarrow> string" where
  "put_nul eq buf = buf[length buf - length eq := NUL]"

primrec nulterminate :: "cmd \<Rightarrow> string \<Rightarrow> string" where
  "nulterminate (EXEC as) buf = fold (\<lambda>(q, eq). put_nul eq) as buf"
| "nulterminate (REDIR c q eq m f) buf = put_nul eq (nulterminate c buf)"
| "nulterminate (PIPE c d) buf = nulterminate d (nulterminate c buf)"
| "nulterminate (LIST c d) buf = nulterminate d (nulterminate c buf)"
| "nulterminate (BACK c) buf = nulterminate c buf"

text \<open>The command and the line as \<^verbatim>\<open>nulterminate\<close> leaves it.\<close>

definition parsecmd :: "string \<Rightarrow> (cmd \<times> string) parsed" where
  "parsecmd s =
     rbind (parseline s) (\<lambda>(c, r).
       if snd (peek r []) \<noteq> [] then Inl (''leftovers: '' @ snd (peek r []) @ CHR 0x0A # ''syntax'') else Inr (c, nulterminate c s))"

section \<open>Commands as trees of strings\<close>

text \<open>The string a pointer \<open>q\<close> into the line denotes when the line holds \<open>buf\<close>.\<close>

definition cstr :: "string \<Rightarrow> string \<Rightarrow> string" where
  "cstr buf q = takeWhile (\<lambda>c. c \<noteq> NUL) (drop (length buf - length q) buf)"

datatype scmd =
    SExec "string list"
  | SRedir scmd string uint32 int
  | SPipe scmd scmd
  | SList scmd scmd
  | SBack scmd

primrec tree :: "(string \<times> string \<Rightarrow> string) \<Rightarrow> cmd \<Rightarrow> scmd" where
  "tree f (EXEC as) = SExec (map f as)"
| "tree f (REDIR c q eq m fd) = SRedir (tree f c) (f (q, eq)) m fd"
| "tree f (PIPE c d) = SPipe (tree f c) (tree f d)"
| "tree f (LIST c d) = SList (tree f c) (tree f d)"
| "tree f (BACK c) = SBack (tree f c)"

definition meaning :: "string \<Rightarrow> cmd \<Rightarrow> scmd" where
  "meaning buf = tree (\<lambda>(q, eq). cstr buf q)"

definition span :: "string \<times> string \<Rightarrow> string" where
  "span t = take (length (fst t) - length (snd t)) (fst t)"

primrec tokens :: "cmd \<Rightarrow> (string \<times> string) set" where
  "tokens (EXEC as) = set as"
| "tokens (REDIR c q eq m fd) = insert (q, eq) (tokens c)"
| "tokens (PIPE c d) = tokens c \<union> tokens d"
| "tokens (LIST c d) = tokens c \<union> tokens d"
| "tokens (BACK c) = tokens c"

lemma tree_cong: "(\<And>t. t \<in> tokens c \<Longrightarrow> f t = g t) \<Longrightarrow> tree f c = tree g c"
  by (induction c) auto

primrec argcs :: "cmd \<Rightarrow> nat set" where
  "argcs (EXEC as) = {length as}"
| "argcs (REDIR c q eq m fd) = argcs c"
| "argcs (PIPE c d) = argcs c \<union> argcs d"
| "argcs (LIST c d) = argcs c \<union> argcs d"
| "argcs (BACK c) = argcs c"

section \<open>What the tokens are\<close>

definition good :: "string \<Rightarrow> string \<times> string \<Rightarrow> bool" where
  "good s t \<longleftrightarrow> suffix (fst t) s \<and> (\<exists>w. fst t = w @ snd t \<and> w \<noteq> [] \<and> list_all is_word w) \<and>
     (snd t \<noteq> [] \<longrightarrow> \<not> is_word (hd (snd t)))"

lemma good_suffix: "suffix r s \<Longrightarrow> good r t \<Longrightarrow> good s t"
  using suffix_order.trans by (auto simp: good_def)

lemma good_mono: "suffix r s \<Longrightarrow> Collect (good r) \<subseteq> Collect (good s)"
  using good_suffix by blast

lemma suffix_skip: "suffix (skip_space s) s"
  by (simp add: skip_space_def suffix_dropWhile)

lemma suffix_tend: "suffix (tend s) s"
proof -
  have "suffix (tend s) (skip_space s)"
    by (auto simp: gettoken_simps(3) Let_def suffix_dropWhile suffix_tl intro: suffix_order.trans [OF suffix_tl suffix_tl])
  then show ?thesis using suffix_skip suffix_order.trans by blast
qed

lemma suffix_trest: "suffix (trest s) s"
  using suffix_tend [of s] suffix_skip [of "tend s"] suffix_order.trans by (simp add: gettoken_simps(2))

lemma tkind_a:
  assumes "tkind s = CHR ''a''"
  shows "good s (tstart s, tend s)" "at (skip_space s) \<noteq> NUL"
proof -
  let ?s = "skip_space s"
  have k: "at ?s \<noteq> NUL" "at ?s \<notin> set ''|();&<''" "at ?s \<noteq> CHR ''>''"
    using assms by (auto simp: gettoken_def Let_def NUL_def split: if_splits prod.splits)
  then show "at ?s \<noteq> NUL" by simp
  obtain c cs where c: "?s = c # cs" using k(1) by (cases ?s) auto
  have "is_word c" using k c skip_space_hd [of s] by (auto simp: is_word_def is_symbol_def strchr_iff symbols_def)
  moreover have e: "tend s = dropWhile is_word ?s" using k by (simp add: gettoken_simps(3) Let_def)
  moreover have "list_all is_word (takeWhile is_word ?s)" by (auto simp: list_all_iff dest: set_takeWhileD)
  moreover have "takeWhile is_word ?s \<noteq> []" using calculation(1) c by simp
  moreover have "dropWhile is_word ?s \<noteq> [] \<Longrightarrow> \<not> is_word (hd (dropWhile is_word ?s))" by (rule hd_dropWhile)
  ultimately show "good s (tstart s, tend s)"
    using suffix_skip [of s] takeWhile_dropWhile_id [of is_word ?s] unfolding good_def gettoken_simps(1) by (metis fst_conv snd_conv)
qed

lemma tokens_add_arg: "tokens (add_arg a c) \<subseteq> insert a (tokens c)"
  by (induction c) auto

text \<open>An \<open>EXEC\<close> node under redirections.\<close>

primrec plain :: "cmd \<Rightarrow> bool" where
  "plain (EXEC as) = True"
| "plain (REDIR c q eq m fd) = plain c"
| "plain (PIPE c d) = False"
| "plain (LIST c d) = False"
| "plain (BACK c) = False"

lemma add_arg_plain: "plain c \<Longrightarrow> plain (add_arg a c) \<and> argcs (add_arg a c) = Suc ` argcs c"
  by (induction c) auto

lemma parseredirs_good:
  "parseredirs c s = Inr (d, r) \<Longrightarrow> suffix r s \<and> tokens d \<subseteq> tokens c \<union> Collect (good s) \<and> argcs d = argcs c \<and>
   (plain c \<longrightarrow> plain d)"
proof (induction c s rule: parseredirs.induct)
  case (1 c s)
  let ?s = "skip_space s"
  let ?r = "trest ?s"
  show ?case
  proof (cases "fst (peek s ''<>'')")
    case True
    let ?c = "redir_tok (tkind ?s) c (tstart ?r) (tend ?r)"
    have a: "tkind ?r = CHR ''a''" "parseredirs ?c (trest ?r) = Inr (d, r)"
      using 1(2) True by (subst (asm) parseredirs.simps, simp add: Let_def split: if_splits)+
    have IH: "suffix r (trest ?r)" "tokens d \<subseteq> tokens ?c \<union> Collect (good (trest ?r))" "argcs d = argcs ?c" "plain ?c \<longrightarrow> plain d"
      using 1(1) [OF True refl refl refl] a by (simp_all add: Let_def)
    have s: "suffix ?r s" "suffix (trest ?r) s"
      using suffix_trest [of ?s] suffix_skip [of s] suffix_trest [of ?r] by (meson suffix_order.trans)+
    have "good s (tstart ?r, tend ?r)" using tkind_a(1) [OF a(1)] good_suffix [OF s(1)] by blast
    then have "tokens ?c \<subseteq> tokens c \<union> Collect (good s)" by (auto simp: redir_tok_def)
    moreover have "argcs ?c = argcs c" "plain c \<longrightarrow> plain ?c" by (simp_all add: redir_tok_def)
    ultimately show ?thesis using IH s good_suffix [OF s(2)] suffix_order.trans by blast
  next
    case False
    then show ?thesis using 1(2) suffix_skip [of s] by (simp add: parseredirs.simps)
  qed
qed

lemma parseargs_good:
  "parseargs n c s = Inr (d, r) \<Longrightarrow> plain c \<Longrightarrow> argcs c = {n} \<Longrightarrow> n < MAXARGS \<Longrightarrow>
   suffix r s \<and> tokens d \<subseteq> tokens c \<union> Collect (good s) \<and> argcs d \<subseteq> {..<MAXARGS}"
proof (induction n c s rule: parseargs.induct)
  case (1 n c s)
  let ?s = "skip_space s"
  have s: "suffix ?s s" "suffix (trest ?s) s" using suffix_skip [of s] suffix_trest [of ?s] by (meson suffix_order.trans)+
  show ?case
  proof (cases "fst (peek s ''|)&;'') \<or> tkind ?s = NUL")
    case True
    then show ?thesis using 1(2-5) s by (subst (asm) parseargs.simps) (auto simp: Let_def split: if_splits)
  next
    case False
    let ?c = "add_arg (tstart ?s, tend ?s) c"
    have c: "tkind ?s = CHR ''a''" "\<not> MAXARGS \<le> n + 1" "rbind (parseredirs ?c (trest ?s)) (\<lambda>(c, s). parseargs (n + 1) c s) = Inr (d, r)"
      using False 1(2) by (subst (asm) parseargs.simps, simp add: Let_def split: if_splits)+
    then obtain d' r' where e: "parseredirs ?c (trest ?s) = Inr (d', r')" "parseargs (n + 1) d' r' = Inr (d, r)"
      by (auto simp: rbind_Inr)
    note R = parseredirs_good [OF e(1)] and A = add_arg_plain [OF 1(3), of "(tstart ?s, tend ?s)"]
    have IH: "suffix r r' \<and> tokens d \<subseteq> tokens d' \<union> Collect (good r') \<and> argcs d \<subseteq> {..<MAXARGS}"
      by (rule 1(1) [OF _ refl refl _ _ c(2) _ refl e(2)]) (use False c e(1) R A 1(4) in simp_all)
    have r': "suffix r' s" using R s(2) suffix_order.trans by blast
    have "tokens ?c \<subseteq> tokens c \<union> Collect (good s)"
      using tokens_add_arg [of "(tstart ?s, tend ?s)" c] good_suffix [OF s(1) tkind_a(1) [OF c(1)]] by auto
    then show ?thesis using IH R r' good_suffix [OF r'] good_suffix [OF s(2)] suffix_order.trans by blast
  qed
qed

lemma parsebacks_good:
  "suffix (snd (parsebacks c s)) s \<and> tokens (fst (parsebacks c s)) = tokens c \<and> argcs (fst (parsebacks c s)) = argcs c"
proof (induction c s rule: parsebacks.induct)
  case (1 c s)
  have "suffix (skip_space s) s" "suffix (trest (skip_space s)) s"
    using suffix_skip [of s] suffix_trest [of "skip_space s"] by (meson suffix_order.trans)+
  with 1 show ?case by (subst (1 2 3) parsebacks.simps) (auto intro: suffix_order.trans)
qed

definition sound :: "cmd \<Rightarrow> string \<Rightarrow> string \<Rightarrow> bool" where
  "sound c r s \<longleftrightarrow> suffix r s \<and> tokens c \<subseteq> Collect (good s) \<and> argcs c \<subseteq> {..<MAXARGS}"

lemma sound_more:
  assumes "sound c r s" "suffix u r"
  shows "sound c u s" "sound d v u \<Longrightarrow> tokens d \<subseteq> Collect (good s) \<and> suffix v s"
proof -
  have u: "suffix u s" using assms suffix_order.trans unfolding sound_def by blast
  show "sound c u s" using assms(1) u by (simp add: sound_def)
  show "sound d v u \<Longrightarrow> tokens d \<subseteq> Collect (good s) \<and> suffix v s"
    using good_mono [OF u] suffix_order.trans [OF _ u] unfolding sound_def by blast
qed

lemma parse_sound:
  "parseline s = Inr (c, r) \<Longrightarrow> sound c r s"
  "parsepipe s = Inr (c, r) \<Longrightarrow> sound c r s"
  "parseexec s = Inr (c, r) \<Longrightarrow> sound c r s"
  "parseblock s = Inr (c, r) \<Longrightarrow> sound c r s"
proof (induction s and s and s and s arbitrary: c r and c r and c r and c r rule: parseline_parsepipe_parseexec_parseblock.induct)
  case (1 s)
  obtain c1 r1 where p: "parsepipe s = Inr (c1, r1)" using "1.prems" by (auto simp: parseline.simps [of s] rbind_Inr)
  obtain c2 r2 where b: "parsebacks c1 r1 = (c2, r2)" by (cases "parsebacks c1 r1")
  have 2: "sound c2 r2 s" using "1.IH"(1) [OF p] parsebacks_good [of c1 r1] b suffix_order.trans by (auto simp: sound_def)
  have u: "suffix (skip_space r2) r2" "suffix (trest (skip_space r2)) r2"
    using suffix_skip [of r2] suffix_trest [of "skip_space r2"] by (meson suffix_order.trans)+
  show ?case
  proof (cases "fst (peek r2 '';'')")
    case True
    then obtain d where d: "parseline (trest (skip_space r2)) = Inr (d, r)" "c = LIST c2 d"
      using "1.prems" p b by (auto simp: parseline.simps [of s] rbind_Inr)
    have "sound d r (trest (skip_space r2))" using "1.IH"(2) [OF p refl refl b [symmetric] True] d(1) by simp
    then show ?thesis using sound_more(2) [OF 2 u(2)] 2 d(2) by (auto simp: sound_def)
  next
    case False
    then show ?thesis using "1.prems" p b sound_more(1) [OF 2 u(1)] by (auto simp: parseline.simps [of s])
  qed
next
  case (2 s)
  obtain c1 r1 where p: "parseexec s = Inr (c1, r1)" using "2.prems" by (auto simp: parsepipe.simps [of s] rbind_Inr)
  have 1: "sound c1 r1 s" by (rule "2.IH"(1) [OF p])
  have u: "suffix (skip_space r1) r1" "suffix (trest (skip_space r1)) r1"
    using suffix_skip [of r1] suffix_trest [of "skip_space r1"] by (meson suffix_order.trans)+
  show ?case
  proof (cases "fst (peek r1 ''|'')")
    case True
    then obtain d where d: "parsepipe (trest (skip_space r1)) = Inr (d, r)" "c = PIPE c1 d"
      using "2.prems" p by (auto simp: parsepipe.simps [of s] rbind_Inr)
    have "sound d r (trest (skip_space r1))" using "2.IH"(2) [OF p refl True] d(1) by simp
    then show ?thesis using sound_more(2) [OF 1 u(2)] 1 d(2) by (auto simp: sound_def)
  next
    case False
    then show ?thesis using "2.prems" p sound_more(1) [OF 1 u(1)] by (auto simp: parsepipe.simps [of s])
  qed
next
  case (3 s)
  note sp = suffix_skip [of s]
  show ?case
  proof (cases "fst (peek s ''('')")
    case True
    then have "sound c r (skip_space s)" using "3.IH" "3.prems" by (simp add: parseexec.simps)
    then show ?thesis using sp good_suffix [OF sp] suffix_order.trans unfolding sound_def by blast
  next
    case False
    then obtain d u where d: "parseredirs (EXEC []) (skip_space s) = Inr (d, u)" "parseargs 0 d u = Inr (c, r)"
      using "3.prems" by (auto simp: parseexec.simps rbind_Inr)
    note R = parseredirs_good [OF d(1)]
    have A: "suffix r u \<and> tokens c \<subseteq> tokens d \<union> Collect (good u) \<and> argcs c \<subseteq> {..<MAXARGS}"
      by (rule parseargs_good [OF d(2)]) (use R in \<open>simp_all add: MAXARGS_def\<close>)
    have us: "suffix u s" using R sp suffix_order.trans by blast
    have "tokens d \<subseteq> Collect (good (skip_space s))" using R by simp
    then have "tokens d \<subseteq> Collect (good s)" using good_mono [OF sp] by (rule subset_trans)
    then have "tokens c \<subseteq> Collect (good s)" using A good_mono [OF us] by (meson Un_least subset_trans)
    then show ?thesis using A suffix_order.trans [OF _ us] unfolding sound_def by blast
  qed
next
  case (4 s)
  have k: "fst (peek s ''('')" using "4.prems" by (auto simp: parseblock.simps split: if_splits)
  then obtain d r1 where p: "parseline (trest (skip_space s)) = Inr (d, r1)" "parseredirs d (trest (skip_space r1)) = Inr (c, r)"
    using "4.prems" by (auto simp: parseblock.simps rbind_Inr split: if_splits)
  have D: "sound d r1 (trest (skip_space s))" using "4.IH" k p(1) by simp
  have u: "suffix (trest (skip_space s)) s" "suffix (trest (skip_space r1)) r1"
    using suffix_skip suffix_trest by (meson suffix_order.trans)+
  have v: "suffix r1 s" "suffix (trest (skip_space r1)) s" using D u suffix_order.trans unfolding sound_def by blast+
  show ?case
    using parseredirs_good [OF p(2)] D v good_suffix [OF u(1)] good_suffix [OF v(2)] suffix_order.trans unfolding sound_def by blast
qed

section \<open>The strings after \<open>nulterminate\<close>\<close>

lemma length_put_nul [simp]: "length (put_nul eq buf) = length buf"
  by (simp add: put_nul_def)

lemma length_nulterminate [simp]: "length (nulterminate c buf) = length buf"
proof (induction c arbitrary: buf)
  case (EXEC as)
  then show ?case by (induction as arbitrary: buf) auto
qed auto

definition ends :: "cmd \<Rightarrow> nat \<Rightarrow> nat set" where
  "ends c n = (\<lambda>t. n - length (snd t)) ` tokens c"

lemma nth_nulterminate:
  "i < length buf \<Longrightarrow> nulterminate c buf ! i = (if i \<in> ends c (length buf) then NUL else buf ! i)"
proof (induction c arbitrary: buf)
  case (EXEC as)
  then show ?case
  proof (induction as arbitrary: buf)
    case (Cons a as)
    then show ?case
      by (cases a) (auto simp: ends_def put_nul_def nth_list_update)
  qed (simp add: ends_def)
next
  case (REDIR c q eq m f)
  show ?case using REDIR.IH [OF REDIR.prems] REDIR.prems
    by (cases "i = length buf - length eq") (auto simp: ends_def put_nul_def)
qed (auto simp: ends_def)

lemma good_end:
  assumes "good s (q, eq)" "i = length s - length eq" "i < length s"
  shows "\<not> is_word (s ! i)"
proof -
  obtain pre w where s: "s = pre @ w @ eq" using assms(1) by (auto simp: good_def suffix_def)
  then have "eq \<noteq> []" using assms(2,3) by auto
  then show ?thesis using assms(1,2) s by (simp add: good_def nth_append hd_conv_nth)
qed

lemma takeWhile_upto:
  assumes "take n x = w" "drop n x = [] \<or> hd (drop n x) = NUL" "NUL \<notin> set w"
  shows "takeWhile (\<lambda>c. c \<noteq> NUL) x = w"
proof -
  have "x = w @ drop n x" using assms(1) append_take_drop_id [of n x] by simp
  moreover have "takeWhile (\<lambda>c. c \<noteq> NUL) (drop n x) = []" using assms(2) by (cases "drop n x") auto
  moreover have "takeWhile (\<lambda>c. c \<noteq> NUL) (w @ drop n x) = w @ takeWhile (\<lambda>c. c \<noteq> NUL) (drop n x)"
    using assms(3) by (intro takeWhile_append2) auto
  ultimately show ?thesis by simp
qed

lemma cstr_span:
  assumes "NUL \<notin> set s" "tokens c \<subseteq> Collect (good s)" "t \<in> tokens c"
  shows "cstr (nulterminate c s) (fst t) = span t"
proof -
  have g: "good s t" using assms(2,3) by blast
  then obtain pre w where s: "s = pre @ fst t" "fst t = w @ snd t" "list_all is_word w"
    by (auto simp: good_def suffix_def)
  let ?b = "nulterminate c s"
  have no: "i \<notin> ends c (length s)" if "i < length s" "is_word (s ! i)" for i
  proof
    assume "i \<in> ends c (length s)"
    then obtain u where "u \<in> tokens c" "i = length s - length (snd u)" by (auto simp: ends_def)
    then show False using good_end [of s "fst u" "snd u" i] assms(2) that by auto
  qed
  have w: "?b ! (length pre + k) = w ! k" "w ! k \<noteq> NUL" if "k < length w" for k
  proof -
    have k: "s ! (length pre + k) = w ! k" "length pre + k < length s" using that s by (simp_all add: nth_append)
    then have "is_word (s ! (length pre + k))" using s(3) that by (simp add: list_all_length)
    then show "?b ! (length pre + k) = w ! k" using nth_nulterminate [OF k(2)] no [OF k(2)] k(1) by simp
    show "w ! k \<noteq> NUL" using assms(1) k by (metis nth_mem)
  qed
  have len: "length s = length pre + length w + length (snd t)" using s by (metis add.assoc length_append)
  have "take (length w) (drop (length pre) ?b) = w"
    using w(1) len by (intro nth_equalityI) (simp_all add: add.commute)
  moreover have "drop (length w) (drop (length pre) ?b) = [] \<or> hd (drop (length w) (drop (length pre) ?b)) = NUL"
  proof (cases "snd t = []")
    case True
    then show ?thesis using len by simp
  next
    case False
    then have i: "length pre + length w < length s" using len by simp
    have "length pre + length w \<in> ends c (length s)" using assms(3) len by (auto simp: ends_def intro!: rev_image_eqI)
    then show ?thesis using nth_nulterminate [OF i, of c] i by (simp add: hd_drop_conv_nth add.commute)
  qed
  moreover have "NUL \<notin> set w" using w(2) by (auto simp: in_set_conv_nth)
  ultimately have "takeWhile (\<lambda>c. c \<noteq> NUL) (drop (length pre) ?b) = w" by (rule takeWhile_upto)
  moreover have "length ?b - length (fst t) = length pre" using len s by simp
  moreover have "span t = w" using s(2) by (simp add: span_def)
  ultimately show ?thesis by (simp add: cstr_def)
qed

section \<open>Printing\<close>

text \<open>
  A text for every command: all parts of a command but its words are in parentheses.
\<close>

primrec source :: "scmd \<Rightarrow> string" where
  "source (SExec ws) = concat (map (\<lambda>w. w @ '' '') ws)"
| "source (SRedir c f m fd) =
     ''('' @ source c @ '')'' @ (if fd = 0 then ''<'' else if m = O_WRONLY OR O_CREATE then ''>>'' else ''>'') @ f"
| "source (SPipe c d) = ''('' @ source c @ '')|('' @ source d @ '')''"
| "source (SList c d) = ''('' @ source c @ '');('' @ source d @ '')''"
| "source (SBack c) = ''('' @ source c @ '')&''"

definition word_ok :: "string \<Rightarrow> bool" where
  "word_ok w \<longleftrightarrow> w \<noteq> [] \<and> list_all is_word w \<and> NUL \<notin> set w"

definition redir_ok :: "uint32 \<Rightarrow> int \<Rightarrow> bool" where
  "redir_ok m fd \<longleftrightarrow> (m, fd) \<in> {(O_RDONLY, 0), (O_WRONLY OR O_CREATE OR O_TRUNC, 1), (O_WRONLY OR O_CREATE, 1)}"

primrec scmd_ok :: "scmd \<Rightarrow> bool" where
  "scmd_ok (SExec ws) \<longleftrightarrow> length ws < MAXARGS \<and> list_all word_ok ws"
| "scmd_ok (SRedir c f m fd) \<longleftrightarrow> scmd_ok c \<and> word_ok f \<and> redir_ok m fd"
| "scmd_ok (SPipe c d) \<longleftrightarrow> scmd_ok c \<and> scmd_ok d"
| "scmd_ok (SList c d) \<longleftrightarrow> scmd_ok c \<and> scmd_ok d"
| "scmd_ok (SBack c) \<longleftrightarrow> scmd_ok c"

text \<open>The input after a command: nothing, or a closing parenthesis.\<close>

definition closed :: "string \<Rightarrow> bool" where
  "closed r \<longleftrightarrow> r = [] \<or> hd r = CHR '')''"

lemma space_symbol [simp]:
  "\<not> is_space CHR ''(''" "\<not> is_space CHR '')''" "\<not> is_space CHR ''|''" "\<not> is_space CHR '';''" "\<not> is_space CHR ''&''"
  "\<not> is_space CHR ''<''" "\<not> is_space CHR ''>''" "is_space CHR '' ''"
  "is_symbol CHR ''(''" "is_symbol CHR '')''" "is_symbol CHR ''|''" "is_symbol CHR '';''" "is_symbol CHR ''&''"
  "is_symbol CHR ''<''" "is_symbol CHR ''>''"
  by (simp_all add: is_space_def is_symbol_def strchr_iff whitespace_def symbols_def del: not_None_eq)

lemma skip_space_Cons [simp]: "skip_space (c # s) = (if is_space c then skip_space s else c # s)" "skip_space [] = []"
  by (simp_all add: skip_space_def)

lemma skip_closed: "closed r \<Longrightarrow> skip_space r = r"
  by (cases r) (auto simp: closed_def)

lemma NUL_simps [simp]: "CHR ''('' \<noteq> NUL" "CHR '')'' \<noteq> NUL" "CHR ''|'' \<noteq> NUL" "CHR '';'' \<noteq> NUL" "CHR ''&'' \<noteq> NUL" "CHR ''<'' \<noteq> NUL"
  "CHR ''>'' \<noteq> NUL" "CHR ''a'' \<noteq> NUL" "CHR '' '' \<noteq> NUL"
  by (simp_all add: NUL_def)

lemma peek_Cons: "fst (peek (c # s) toks) \<longleftrightarrow> (if is_space c then fst (peek s toks) else c \<noteq> NUL \<and> c \<in> set toks)"
  by (simp add: fst_peek)

lemma peek_Nil [simp]: "\<not> fst (peek [] toks)"
  by (simp add: fst_peek)

lemma gettoken_sym:
  "c \<in> set ''|();&<'' \<Longrightarrow> gettoken (c # s) = (c, c # s, s, skip_space s)"
proof -
  assume c: "c \<in> set ''|();&<''"
  then have "\<not> is_space c" "c \<noteq> NUL" by (auto simp: NUL_def)
  then show ?thesis using c unfolding gettoken_def Let_def by (simp del: list.set)
qed

lemma gettoken_gt:
  "s = [] \<or> hd s \<noteq> CHR ''>'' \<Longrightarrow> gettoken (CHR ''>'' # s) = (CHR ''>'', CHR ''>'' # s, s, skip_space s)"
  "gettoken (CHR ''>'' # CHR ''>'' # s) = (CHR ''+'', CHR ''>'' # CHR ''>'' # s, s, skip_space s)"
  by (cases s; auto simp: gettoken_def Let_def NUL_def)+

lemma gettoken_word:
  assumes "word_ok w" "r = [] \<or> \<not> is_word (hd r)"
  shows "gettoken (w @ r) = (CHR ''a'', w @ r, r, skip_space r)"
proof -
  obtain c cs where w: "w = c # cs" "is_word c" "c \<noteq> NUL" using assms(1) by (cases w) (auto simp: word_ok_def)
  have "dropWhile is_word (w @ r) = r"
    using assms by (cases r) (auto simp: word_ok_def list_all_iff dropWhile_append2)
  moreover have "\<not> is_space c" "\<not> is_symbol c" using w(2) by (simp_all add: is_word_def)
  moreover from this have "c \<notin> set ''|();&<''" "c \<noteq> CHR ''>''" by auto
  ultimately show ?thesis using w by (simp add: gettoken_def Let_def is_word_def [abs_def])
qed

text \<open>Nothing of the grammar continues a command before a closed input.\<close>

lemma parseredirs_none: "\<not> fst (peek s ''<>'') \<Longrightarrow> parseredirs c s = Inr (c, skip_space s)"
  by (simp add: parseredirs.simps)

lemma closed_peek:
  assumes "closed r"
  shows "\<not> fst (peek r ''<>'')" "\<not> fst (peek r ''|'')" "\<not> fst (peek r '';'')" "\<not> fst (peek r ''&'')" "\<not> fst (peek r ''('')"
  using assms by (cases r; simp add: closed_def peek_Cons)+

lemma closed_steps:
  assumes "closed r"
  shows "parseredirs c r = Inr (c, r)" "parsebacks c r = (c, r)"
    "parseexec s = Inr (c, r) \<Longrightarrow> parsepipe s = Inr (c, r)" "parsepipe s = Inr (c, r) \<Longrightarrow> parseline s = Inr (c, r)"
proof -
  note P = closed_peek [OF assms] skip_closed [OF assms]
  show "parseredirs c r = Inr (c, r)" using parseredirs_none [of r c] P by simp
  show b: "parsebacks c r = (c, r)" using P by (simp add: parsebacks.simps)
  show "parseexec s = Inr (c, r) \<Longrightarrow> parsepipe s = Inr (c, r)" using P by (simp add: parsepipe.simps)
  show "parsepipe s = Inr (c, r) \<Longrightarrow> parseline s = Inr (c, r)" using P b by (simp add: parseline.simps)
qed

lemma word_head: "word_ok w \<Longrightarrow> \<exists>c cs. w = c # cs \<and> \<not> is_space c \<and> \<not> is_symbol c \<and> c \<noteq> NUL"
  by (cases w) (auto simp: word_ok_def is_word_def)

lemma source_words:
  assumes "list_all word_ok ws" "closed r"
  shows "skip_space (source (SExec ws) @ r) = source (SExec ws) @ r" "\<not> fst (peek (source (SExec ws) @ r) ''<>'')"
    "\<not> fst (peek (source (SExec ws) @ r) ''('')"
proof (atomize (full), cases ws)
  case Nil
  then show "skip_space (source (SExec ws) @ r) = source (SExec ws) @ r \<and> \<not> fst (peek (source (SExec ws) @ r) ''<>'') \<and>
    \<not> fst (peek (source (SExec ws) @ r) ''('')"
    using skip_closed [OF assms(2)] closed_peek [OF assms(2)] by simp
next
  case (Cons w us)
  then obtain c cs where "w = c # cs" "\<not> is_space c" "\<not> is_symbol c" using word_head assms(1) by fastforce
  then show "skip_space (source (SExec ws) @ r) = source (SExec ws) @ r \<and> \<not> fst (peek (source (SExec ws) @ r) ''<>'') \<and>
    \<not> fst (peek (source (SExec ws) @ r) ''('')"
    using Cons by (auto simp: peek_Cons)
qed

lemma parseargs_source:
  assumes "list_all word_ok ws" "closed r" "n + length ws < MAXARGS"
  shows "\<exists>ts. parseargs n (EXEC as) (source (SExec ws) @ r) = Inr (EXEC (as @ ts), r) \<and> map span ts = ws"
  using assms(1,3)
proof (induction ws arbitrary: n as)
  case Nil
  show ?case
  proof (cases r)
    case Nil
    then show ?thesis by (simp add: parseargs.simps gettoken_def Let_def)
  next
    case (Cons c cs)
    then have "c = CHR '')''" using assms(2) by (simp add: closed_def)
    then show ?thesis using Cons by (simp add: parseargs.simps peek_Cons)
  qed
next
  case (Cons w ws)
  let ?r = "source (SExec ws) @ r" and ?s = "source (SExec (w # ws)) @ r"
  have s: "?s = w @ CHR '' '' # ?r" by simp
  obtain c cs where c: "w = c # cs" "\<not> is_space c" "\<not> is_symbol c" "c \<noteq> NUL" using word_head Cons.prems(1) by fastforce
  have pk: "\<not> fst (peek ?s ''|)&;'')" "skip_space ?s = ?s" unfolding s using c by (auto simp: peek_Cons)
  have W: "list_all word_ok ws" "word_ok w" "Suc n + length ws < MAXARGS" using Cons.prems by simp_all
  have g: "gettoken ?s = (CHR ''a'', ?s, CHR '' '' # ?r, ?r)"
    unfolding s using gettoken_word [OF W(2), of "CHR '' '' # ?r"] source_words(1) [OF W(1) assms(2)] by (simp add: is_word_def)
  let ?t = "(?s, CHR '' '' # ?r)"
  have "parseargs n (EXEC as) ?s = parseargs (Suc n) (EXEC (as @ [?t])) ?r"
    using pk g W(3) parseredirs_none [OF source_words(2) [OF W(1) assms(2)]] source_words(1) [OF W(1) assms(2)]
    by (subst parseargs.simps) (simp add: Let_def)
  moreover have "span ?t = w" by (simp add: span_def s)
  ultimately show ?case using Cons.IH [OF W(1,3), of "as @ [?t]"] by (metis append_Cons append_assoc list.simps(9) append_Nil)
qed


lemma source_head: "scmd_ok a \<Longrightarrow> closed r \<Longrightarrow> skip_space (source a @ r) = source a @ r"
  by (cases a) (simp_all add: source_words(1) del: source.simps(1))

text \<open>A parenthesised command, once the command itself is parsed.\<close>

lemma parse_block:
  assumes "parseline (source a @ CHR '')'' # r) = Inr (c, CHR '')'' # r)" "scmd_ok a"
  shows "parseexec (CHR ''('' # source a @ CHR '')'' # r) = parseredirs c (skip_space r)"
proof -
  have c: "closed (CHR '')'' # r)" by (simp add: closed_def)
  have p: "fst (peek (CHR ''('' # s) ''('')" "fst (peek (CHR '')'' # s) '')'')" for s by (simp_all add: peek_Cons)
  have "trest (CHR ''('' # source a @ CHR '')'' # r) = source a @ CHR '')'' # r" "trest (CHR '')'' # r) = skip_space r"
    using gettoken_sym [of "CHR ''(''"] gettoken_sym [of "CHR '')''"] source_head [OF assms(2) c] by simp_all
  then show ?thesis using assms(1) p by (simp add: parseexec.simps parseblock.simps)
qed

lemma parse_paren:
  assumes "parseline (source a @ CHR '')'' # r) = Inr (c, CHR '')'' # r)" "scmd_ok a" "closed r"
  shows "parsepipe (CHR ''('' # source a @ CHR '')'' # r) = Inr (c, r)" "parseline (CHR ''('' # source a @ CHR '')'' # r) = Inr (c, r)"
  using parse_block [OF assms(1,2)] closed_steps [OF assms(3)] skip_closed [OF assms(3)] by simp_all

text \<open>One redirection before a closed input.\<close>

lemma parse_redir:
  assumes "word_ok f" "redir_ok m fd" "closed r"
  shows "parseredirs c (skip_space ((if fd = 0 then ''<'' else if m = O_WRONLY OR O_CREATE then ''>>'' else ''>'') @ f @ r))
    = Inr (REDIR c (f @ r) r m fd, r)"
proof -
  obtain d ds where f: "f = d # ds" "\<not> is_space d" "\<not> is_symbol d" "d \<noteq> NUL" using word_head [OF assms(1)] by blast
  have sp: "skip_space (f @ r) = f @ r" "d \<noteq> CHR ''>''" using f by auto
  have g: "gettoken (f @ r) = (CHR ''a'', f @ r, r, r)"
    using gettoken_word [OF assms(1), of r] skip_closed [OF assms(3)] assms(3) by (cases r) (auto simp: closed_def is_word_def)
  have "tkind (op @ f @ r) = k \<Longrightarrow> trest (op @ f @ r) = f @ r \<Longrightarrow> hd op \<in> set ''<>'' \<Longrightarrow> op \<noteq> [] \<Longrightarrow>
      parseredirs c (op @ f @ r) = parseredirs (redir_tok k c (f @ r) r) r" for op k
    using g by (cases op; subst parseredirs.simps) (auto simp: peek_Cons Let_def)
  note step = this
  have "parseredirs c (''<'' @ f @ r) = parseredirs (redir_tok CHR ''<'' c (f @ r) r) r"
    "parseredirs c (''>'' @ f @ r) = parseredirs (redir_tok CHR ''>'' c (f @ r) r) r"
    "parseredirs c (''>>'' @ f @ r) = parseredirs (redir_tok CHR ''+'' c (f @ r) r) r"
    using sp f gettoken_sym [of "CHR ''<''" "f @ r"] gettoken_gt by (intro step; simp)+
  then show ?thesis using assms(2) closed_steps(1) [OF assms(3)]
    by (auto simp: redir_ok_def redir_tok_def open_modes)
qed

lemma parsed_as: "parseline s = Inr (c, r) \<Longrightarrow> tree span c = a \<Longrightarrow> \<exists>c. parseline s = Inr (c, r) \<and> tree span c = a"
  by blast

lemma parse_source:
  "scmd_ok a \<Longrightarrow> closed r \<Longrightarrow> \<exists>c. parseline (source a @ r) = Inr (c, r) \<and> tree span c = a"
proof (induction a arbitrary: r)
  case (SExec ws)
  then have W: "list_all word_ok ws" "0 + length ws < MAXARGS" by simp_all
  obtain ts where t: "parseargs 0 (EXEC []) (source (SExec ws) @ r) = Inr (EXEC ts, r)" "map span ts = ws"
    using parseargs_source [OF W(1) SExec.prems(2) W(2), of "[]"] by auto
  have "parseexec (source (SExec ws) @ r) = Inr (EXEC ts, r)"
    using t(1) source_words [OF W(1) SExec.prems(2)] parseredirs_none [of "source (SExec ws) @ r" "EXEC []"]
    by (simp add: parseexec.simps del: source.simps)
  then have "parseline (source (SExec ws) @ r) = Inr (EXEC ts, r)" by (intro closed_steps(3,4) [OF SExec.prems(2)])
  then show ?case by (rule parsed_as) (simp add: t(2))
next
  case (SRedir a f m fd)
  let ?op = "if fd = 0 then ''<'' else if m = O_WRONLY OR O_CREATE then ''>>'' else ''>''"
  have W: "scmd_ok a" "word_ok f" "redir_ok m fd" using SRedir.prems by simp_all
  obtain c where c: "parseline (source a @ CHR '')'' # ?op @ f @ r) = Inr (c, CHR '')'' # ?op @ f @ r)" "tree span c = a"
    using SRedir.IH [OF W(1), of "CHR '')'' # ?op @ f @ r"] by (auto simp: closed_def)
  have "parseredirs c (skip_space (?op @ f @ r)) = Inr (REDIR c (f @ r) r m fd, r)"
    using parse_redir [OF W(2,3) SRedir.prems(2)] .
  then have "parseexec (source (SRedir a f m fd) @ r) = Inr (REDIR c (f @ r) r m fd, r)"
    using parse_block [OF c(1) W(1)] by simp
  then have "parseline (source (SRedir a f m fd) @ r) = Inr (REDIR c (f @ r) r m fd, r)" by (intro closed_steps(3,4) [OF SRedir.prems(2)])
  then show ?case by (rule parsed_as) (simp add: c(2) span_def)
next
  case (SPipe a b)
  have W: "scmd_ok a" "scmd_ok b" using SPipe.prems by simp_all
  let ?t = "CHR ''('' # source b @ CHR '')'' # r" and ?r = "CHR '')'' # CHR ''|'' # CHR ''('' # source b @ CHR '')'' # r"
  obtain c where c: "parseline (source a @ ?r) = Inr (c, ?r)" "tree span c = a"
    using SPipe.IH(1) [OF W(1), of ?r] by (auto simp: closed_def)
  obtain d where d: "parseline (source b @ CHR '')'' # r) = Inr (d, CHR '')'' # r)" "tree span d = b"
    using SPipe.IH(2) [OF W(2), of "CHR '')'' # r"] by (auto simp: closed_def)
  have "parseexec (source (SPipe a b) @ r) = Inr (c, CHR ''|'' # ?t)"
    using parse_block [OF c(1) W(1)] parseredirs_none [of "CHR ''|'' # ?t" c] by (simp add: peek_Cons)
  then have "parsepipe (source (SPipe a b) @ r) = Inr (PIPE c d, r)"
    using parse_paren(1) [OF d(1) W(2) SPipe.prems(2)] gettoken_sym [of "CHR ''|''" ?t]
    by (subst parsepipe.simps) (simp add: peek_Cons del: source.simps)
  then have "parseline (source (SPipe a b) @ r) = Inr (PIPE c d, r)" by (rule closed_steps(4) [OF SPipe.prems(2)])
  then show ?case by (rule parsed_as) (simp add: c(2) d(2))
next
  case (SList a b)
  have W: "scmd_ok a" "scmd_ok b" using SList.prems by simp_all
  let ?t = "CHR ''('' # source b @ CHR '')'' # r" and ?r = "CHR '')'' # CHR '';'' # CHR ''('' # source b @ CHR '')'' # r"
  obtain c where c: "parseline (source a @ ?r) = Inr (c, ?r)" "tree span c = a"
    using SList.IH(1) [OF W(1), of ?r] by (auto simp: closed_def)
  obtain d where d: "parseline (source b @ CHR '')'' # r) = Inr (d, CHR '')'' # r)" "tree span d = b"
    using SList.IH(2) [OF W(2), of "CHR '')'' # r"] by (auto simp: closed_def)
  have "parseexec (source (SList a b) @ r) = Inr (c, CHR '';'' # ?t)"
    using parse_block [OF c(1) W(1)] parseredirs_none [of "CHR '';'' # ?t" c] by (simp add: peek_Cons)
  then have "parsepipe (source (SList a b) @ r) = Inr (c, CHR '';'' # ?t)"
    by (subst parsepipe.simps) (simp add: peek_Cons del: source.simps)
  then have "parseline (source (SList a b) @ r) = Inr (LIST c d, r)"
    using parse_paren(2) [OF d(1) W(2) SList.prems(2)] gettoken_sym [of "CHR '';''" ?t]
    by (subst parseline.simps) (simp add: peek_Cons parsebacks.simps [of c "CHR '';'' # ?t"] del: source.simps)
  then show ?case by (rule parsed_as) (simp add: c(2) d(2))
next
  case (SBack a)
  let ?r = "CHR '')'' # CHR ''&'' # r"
  have W: "scmd_ok a" using SBack.prems by simp
  obtain c where c: "parseline (source a @ ?r) = Inr (c, ?r)" "tree span c = a"
    using SBack.IH [OF W, of ?r] by (auto simp: closed_def)
  have "parseexec (source (SBack a) @ r) = Inr (c, CHR ''&'' # r)"
    using parse_block [OF c(1) W] parseredirs_none [of "CHR ''&'' # r" c] by (simp add: peek_Cons)
  then have "parsepipe (source (SBack a) @ r) = Inr (c, CHR ''&'' # r)"
    by (subst parsepipe.simps) (simp add: peek_Cons del: source.simps)
  moreover have "parsebacks c (CHR ''&'' # r) = (BACK c, r)"
    using closed_steps(2) [OF SBack.prems(2)] gettoken_sym [of "CHR ''&''" r] skip_closed [OF SBack.prems(2)]
    by (subst parsebacks.simps) (simp add: peek_Cons)
  ultimately have "parseline (source (SBack a) @ r) = Inr (BACK c, r)"
    using closed_peek(3) [OF SBack.prems(2)] skip_closed [OF SBack.prems(2)]
    by (subst parseline.simps) (simp del: source.simps)
  then show ?case by (rule parsed_as) (simp add: c(2))
qed


section \<open>Properties\<close>

lemma meaning_span:
  assumes "NUL \<notin> set s" "sound c r s"
  shows "meaning (nulterminate c s) c = tree span c"
  unfolding meaning_def using cstr_span [OF assms(1)] assms(2)
  by (intro tree_cong) (auto simp: sound_def split: prod.splits)

lemma source_NUL: "scmd_ok a \<Longrightarrow> NUL \<notin> set (source a)"
  by (induction a) (auto simp: word_ok_def list_all_iff NUL_def)

primrec strings :: "scmd \<Rightarrow> string set" where
  "strings (SExec ws) = set ws"
| "strings (SRedir c f m fd) = insert f (strings c)"
| "strings (SPipe c d) = strings c \<union> strings d"
| "strings (SList c d) = strings c \<union> strings d"
| "strings (SBack c) = strings c"

lemma strings_tree: "strings (tree f c) = f ` tokens c"
  by (induction c) auto

lemma good_word: "NUL \<notin> set s \<Longrightarrow> good s t \<Longrightarrow> word_ok (span t)"
  by (auto simp: good_def span_def word_ok_def suffix_def)

text \<open>
  C29.  What the shell parses is what was written: for every command tree whose words and file names
  are non-empty, hold no blank and no symbol, and number fewer than \<^verbatim>\<open>MAXARGS\<close> per program,
  \<^verbatim>\<open>parsecmd\<close> on its text succeeds, and the command it returns, its strings read up to the NULs
  that \<^verbatim>\<open>nulterminate\<close> wrote into the line, is that tree.
\<close>

theorem parse_print:
  assumes "scmd_ok a"
  shows "\<exists>c buf. parsecmd (source a) = Inr (c, buf) \<and> meaning buf c = a"
proof -
  obtain c where c: "parseline (source a) = Inr (c, [])" "tree span c = a"
    using parse_source [OF assms, of "[]"] by (auto simp: closed_def)
  then show ?thesis
    using meaning_span [OF source_NUL [OF assms] parse_sound(1) [OF c(1)]] by (simp add: parsecmd_def)
qed

theorem parse_print_witness:
  "let a = SPipe (SExec [''ls'']) (SRedir (SExec [''grep'', ''x'']) ''out'' (O_WRONLY OR O_CREATE OR O_TRUNC) 1)
   in source a = ''(ls )|((grep x )>out)'' \<and> (\<exists>c buf. parsecmd (source a) = Inr (c, buf) \<and> meaning buf c = a)"
  unfolding Let_def
  by (intro conjI parse_print)
    (simp_all add: open_modes MAXARGS_def redir_ok_def word_ok_def is_word_def is_space_def
      is_symbol_def whitespace_def symbols_def NUL_def)

text \<open>
  C30.  Whatever line \<^verbatim>\<open>parsecmd\<close> accepts, it keeps its length, every program of the command has
  fewer than \<^verbatim>\<open>MAXARGS\<close> arguments (so \<^verbatim>\<open>argv\<close> and \<^verbatim>\<open>eargv\<close> are never overrun and
  \<^verbatim>\<open>argv\<close> ends in a null pointer), and every string of it is a non-empty word of the line without
  blanks and symbols, the one between its start and its end.
\<close>

theorem parsecmd_bounds:
  assumes "NUL \<notin> set s" "parsecmd s = Inr (c, buf)"
  shows "length buf = length s \<and> (\<forall>n\<in>argcs c. n < MAXARGS) \<and> meaning buf c = tree span c \<and>
    (\<forall>t\<in>tokens c. suffix (fst t) s) \<and> (\<forall>w\<in>strings (meaning buf c). word_ok w)"
proof -
  obtain r where r: "parseline s = Inr (c, r)" "buf = nulterminate c s"
    using assms(2) by (auto simp: parsecmd_def rbind_Inr split: if_splits)
  note S = parse_sound(1) [OF r(1)]
  have m: "meaning buf c = tree span c" using meaning_span [OF assms(1) S] r(2) by simp
  then have "\<forall>w\<in>strings (meaning buf c). word_ok w"
    using S good_word [OF assms(1)] by (auto simp: strings_tree sound_def)
  then show ?thesis using m S r(2) by (auto simp: sound_def good_def)
qed

theorem parsecmd_bounds_witness:
  "\<exists>c buf. parsecmd ''cat <a'' = Inr (c, buf) \<and> (\<forall>n\<in>argcs c. n < MAXARGS)"
proof -
  have "parsecmd ''cat <a'' = Inr (REDIR (EXEC [(''cat <a'', '' <a'')]) ''a'' [] O_RDONLY 0, ''cat'' @ NUL # ''<a'')" by code_simp
  moreover have "NUL \<notin> set ''cat <a''" by (simp add: NUL_def)
  ultimately show ?thesis using parsecmd_bounds by blast
qed

end
