(* ===== verification/Sh_Run.thy ===== *)
theory Sh_Run
  imports Shell
begin

text \<open>
  The shell, \<^verbatim>\<open>user/sh.c\<close>, from the parsed command on: \<^verbatim>\<open>runcmd\<close>, the main loop, and the routine
  \<^verbatim>\<open>gets\<close> of \<^verbatim>\<open>user/ulib.c\<close> it reads lines with.  A program is the tree of the system calls it makes:
  a node is a call with its arguments, and what follows is a function of the value the call
  returns.
\<close>

section \<open>Programs as trees of system calls\<close>

datatype prog =
    Exit int
  | Exec string "string list" "int \<Rightarrow> prog"
  | Fork "int \<Rightarrow> prog"
  | Wait "int \<Rightarrow> prog"
  | Pipe "int \<times> int \<times> int \<Rightarrow> prog"
  | Open string uint32 "int \<Rightarrow> prog"
  | Close int "int \<Rightarrow> prog"
  | Dup int "int \<Rightarrow> prog"
  | Chdir string "int \<Rightarrow> prog"
  | Read int "char option \<Rightarrow> prog"
  | Write int string "int \<Rightarrow> prog"
  | Out_of_fuel

text \<open>
  \<^verbatim>\<open>fork\<close> returns 0 in the child and the identifier of the child, or -1, in the parent.  \<^verbatim>\<open>pipe\<close>
  returns its result and the two descriptors.  \<open>Read\<close> asks for one byte; no byte is the end of
  the file or an error.  \<^verbatim>\<open>fprintf\<close> writes byte by byte.
\<close>

primrec fprintf :: "int \<Rightarrow> string \<Rightarrow> prog \<Rightarrow> prog" where
  "fprintf fd [] k = k"
| "fprintf fd (c # s) k = Write fd [c] (\<lambda>_. fprintf fd s k)"

definition NL :: char where "NL = CHR 0x0A"

definition sh_panic :: "string \<Rightarrow> prog" where
  "sh_panic s = fprintf 2 (s @ [NL]) (Exit 1)"

definition fork1 :: "(int \<Rightarrow> prog) \<Rightarrow> prog" where
  "fork1 k = Fork (\<lambda>pid. if pid = - 1 then sh_panic ''fork'' else k pid)"

primrec runcmd :: "scmd \<Rightarrow> prog" where
  "runcmd (SExec argv) =
     (case argv of [] \<Rightarrow> Exit 1
      | arg0 # _ \<Rightarrow> Exec arg0 argv (\<lambda>_. fprintf 2 (''exec '' @ arg0 @ '' failed'' @ [NL]) (Exit 0)))"
| "runcmd (SRedir cmd file mode fd) =
     Close fd (\<lambda>_. Open file mode (\<lambda>r.
       if r < 0 then fprintf 2 (''open '' @ file @ '' failed'' @ [NL]) (Exit 1) else runcmd cmd))"
| "runcmd (SList left right) =
     fork1 (\<lambda>pid. if pid = 0 then runcmd left else Wait (\<lambda>_. runcmd right))"
| "runcmd (SPipe left right) =
     Pipe (\<lambda>(r, p0, p1).
       if r < 0 then sh_panic ''pipe''
       else fork1 (\<lambda>pid.
         if pid = 0 then
           Close 1 (\<lambda>_. Dup p1 (\<lambda>_. Close p0 (\<lambda>_. Close p1 (\<lambda>_. runcmd left))))
         else fork1 (\<lambda>pid.
           if pid = 0 then
             Close 0 (\<lambda>_. Dup p0 (\<lambda>_. Close p0 (\<lambda>_. Close p1 (\<lambda>_. runcmd right))))
           else Close p0 (\<lambda>_. Close p1 (\<lambda>_. Wait (\<lambda>_. Wait (\<lambda>_. Exit 0)))))))"
| "runcmd (SBack cmd) = fork1 (\<lambda>pid. if pid = 0 then runcmd cmd else Exit 0)"

text \<open>\<^verbatim>\<open>gets\<close>, with \<open>n\<close> more bytes of room before the terminating NUL; \<open>buf\<close> is what was read.\<close>

primrec gets :: "nat \<Rightarrow> string \<Rightarrow> (string \<Rightarrow> prog) \<Rightarrow> prog" where
  "gets 0 buf k = k buf"
| "gets (Suc n) buf k =
     Read 0 (\<lambda>r. case r of None \<Rightarrow> k buf
       | Some c \<Rightarrow> if c = NL \<or> c = CHR 0x0D then k (buf @ [c]) else gets n (buf @ [c]) k)"

text \<open>\<^verbatim>\<open>getcmd\<close>: the line as a C string, that is up to its first NUL; an empty one ends the shell.\<close>

definition getcmd :: "nat \<Rightarrow> (string option \<Rightarrow> prog) \<Rightarrow> prog" where
  "getcmd nbuf k =
     fprintf 2 ''$ '' (gets (nbuf - 1) [] (\<lambda>buf.
       let s = takeWhile (\<lambda>c. c \<noteq> NUL) buf in if s = [] then k None else k (Some s)))"

primrec open_console :: "nat \<Rightarrow> prog \<Rightarrow> prog" where
  "open_console 0 k = Out_of_fuel"
| "open_console (Suc n) k =
     Open ''console'' O_RDWR (\<lambda>fd.
       if 0 \<le> fd then if 3 \<le> fd then Close fd (\<lambda>_. k) else open_console n k else k)"

definition run_line :: "string \<Rightarrow> prog" where
  "run_line buf = (case parsecmd buf of Inl e \<Rightarrow> sh_panic e | Inr (c, buf) \<Rightarrow> runcmd (meaning buf c))"

definition sh_line :: "string \<Rightarrow> prog \<Rightarrow> prog" where
  "sh_line buf k =
     (if take 3 buf = ''cd '' then
        let dir = drop 3 (butlast buf)
        in Chdir dir (\<lambda>r. if r < 0 then fprintf 2 (''cannot cd '' @ dir @ [NL]) k else k)
      else fork1 (\<lambda>pid. if pid = 0 then run_line buf else Wait (\<lambda>_. k)))"

primrec sh_loop :: "nat \<Rightarrow> prog" where
  "sh_loop 0 = Out_of_fuel"
| "sh_loop (Suc n) = getcmd 100 (\<lambda>l. case l of None \<Rightarrow> Exit 0 | Some buf \<Rightarrow> sh_line buf (sh_loop n))"

definition sh_main :: "nat \<Rightarrow> prog" where
  "sh_main n = open_console n (sh_loop n)"


section \<open>Which programs run with which descriptors\<close>

text \<open>
  The processes of a program tree, on a system whose \<^verbatim>\<open>fork\<close> and \<^verbatim>\<open>pipe\<close> succeed and whose
  \<^verbatim>\<open>open\<close> succeeds on the files of \<open>opens\<close>.  A process has a name, from which the names of its
  children and pipes are made, and a table of descriptors; new descriptors are the lowest free
  ones, as \<^verbatim>\<open>fdalloc\<close> gives them out.  An event is the start of a program, or a wait, with the
  table at that point.
\<close>

datatype obj =
    Inherited int
  | File string uint32
  | Read_end "nat list"
  | Write_end "nat list"

type_synonym table = "int \<rightharpoonup> obj"

datatype event =
    Starts "string list" table
  | Waits table

definition descriptors :: "int list" where "descriptors = map int [0..<NOFILE]"

definition lowest :: "table \<Rightarrow> int" where
  "lowest t = (case find (\<lambda>fd. t fd = None) descriptors of None \<Rightarrow> - 1 | Some fd \<Rightarrow> fd)"

primrec next_name :: "nat list \<Rightarrow> nat list" where
  "next_name [] = [0]"
| "next_name (n # ns) = Suc n # ns"

definition dup_table :: "int \<Rightarrow> table \<Rightarrow> table" where
  "dup_table fd t = (if t fd = None \<or> lowest t < 0 then t else t(lowest t := t fd))"

definition pipe_table :: "nat list \<Rightarrow> table \<Rightarrow> table" where
  "pipe_table \<nu> t = (let t1 = t(lowest t \<mapsto> Read_end \<nu>) in t1(lowest t1 \<mapsto> Write_end \<nu>))"

primrec events :: "(string \<Rightarrow> uint32 \<Rightarrow> bool) \<Rightarrow> prog \<Rightarrow> nat list \<Rightarrow> table \<Rightarrow> event list" where
  "events opens (Exit n) \<nu> t = []"
| "events opens (Exec f argv k) \<nu> t = [Starts argv t]"
| "events opens (Fork k) \<nu> t = events opens (k 0) (0 # \<nu>) t @ events opens (k 1) (next_name \<nu>) t"
| "events opens (Wait k) \<nu> t = Waits t # events opens (k 1) \<nu> t"
| "events opens (Pipe k) \<nu> t =
     (let t1 = t(lowest t \<mapsto> Read_end \<nu>)
      in events opens (k (0, lowest t, lowest t1)) (next_name \<nu>) (pipe_table \<nu> t))"
| "events opens (Open f m k) \<nu> t =
     (if opens f m then events opens (k (lowest t)) \<nu> (t(lowest t \<mapsto> File f m)) else events opens (k (- 1)) \<nu> t)"
| "events opens (Close fd k) \<nu> t = events opens (k 0) \<nu> (t(fd := None))"
| "events opens (Dup fd k) \<nu> t = events opens (k (lowest t)) \<nu> (dup_table fd t)"
| "events opens (Chdir d k) \<nu> t = events opens (k 0) \<nu> t"
| "events opens (Read fd k) \<nu> t = events opens (k None) \<nu> t"
| "events opens (Write fd s k) \<nu> t = events opens (k (int (length s))) \<nu> t"
| "events opens Out_of_fuel \<nu> t = []"

text \<open>What a command means: who is connected to whom.\<close>

primrec plumbing :: "(string \<Rightarrow> uint32 \<Rightarrow> bool) \<Rightarrow> scmd \<Rightarrow> nat list \<Rightarrow> table \<Rightarrow> event list" where
  "plumbing opens (SExec argv) \<nu> t = (if argv = [] then [] else [Starts argv t])"
| "plumbing opens (SRedir c f m fd) \<nu> t = (if opens f m then plumbing opens c \<nu> (t(fd \<mapsto> File f m)) else [])"
| "plumbing opens (SList c d) \<nu> t = plumbing opens c (0 # \<nu>) t @ Waits t # plumbing opens d (next_name \<nu>) t"
| "plumbing opens (SPipe c d) \<nu> t =
     plumbing opens c (0 # next_name \<nu>) (t(1 \<mapsto> Write_end \<nu>)) @
     plumbing opens d (0 # next_name (next_name \<nu>)) (t(0 \<mapsto> Read_end \<nu>)) @ [Waits t, Waits t]"
| "plumbing opens (SBack c) \<nu> t = plumbing opens c (0 # \<nu>) t"

definition standard :: "table \<Rightarrow> bool" where
  "standard t \<longleftrightarrow> dom t = {0, 1, 2}"

lemma standard_iff: "standard t \<longleftrightarrow> (\<forall>fd. t fd = None \<longleftrightarrow> fd \<notin> {0, 1, 2})"
  unfolding standard_def dom_def set_eq_iff mem_Collect_eq by (metis not_None_eq)

lemma descriptors_eq: "descriptors = [0, 1, 2, 3, 4, 5, 6, 7, 8, 9, 10, 11, 12, 13, 14, 15]"
  by code_simp

lemma lowest_standard:
  assumes "standard t"
  shows "lowest t = 3" "lowest (t(3 \<mapsto> x)) = 4" "lowest (t(3 \<mapsto> x, 4 \<mapsto> y, 1 := None)) = 1" "lowest (t(3 \<mapsto> x, 4 \<mapsto> y, 0 := None)) = 0"
    "lowest (t(0 := None)) = 0" "lowest (t(1 := None)) = 1"
proof -
  have "t 0 \<noteq> None" "t 1 \<noteq> None" "t 2 \<noteq> None" "t 3 = None" "t 4 = None" using assms by (auto simp: standard_iff)
  then show "lowest t = 3" "lowest (t(3 \<mapsto> x)) = 4" "lowest (t(3 \<mapsto> x, 4 \<mapsto> y, 1 := None)) = 1"
    "lowest (t(3 \<mapsto> x, 4 \<mapsto> y, 0 := None)) = 0" "lowest (t(0 := None)) = 0" "lowest (t(1 := None)) = 1"
    unfolding lowest_def descriptors_eq by simp_all
qed

lemma standard_upd: "standard t \<Longrightarrow> fd \<in> {0, 1} \<Longrightarrow> standard (t(fd \<mapsto> x))"
  by (auto simp: standard_def)

lemma events_fprintf: "events opens (fprintf fd s k) \<nu> t = events opens k \<nu> t"
  by (induction s) simp_all

lemma pipe_tables:
  assumes "standard t"
  shows "pipe_table \<nu> t = t(3 \<mapsto> Read_end \<nu>, 4 \<mapsto> Write_end \<nu>)"
    "(pipe_table \<nu> t)(3 := None, 4 := None) = t"
    "(dup_table 4 ((pipe_table \<nu> t)(1 := None)))(3 := None, 4 := None) = t(1 \<mapsto> Write_end \<nu>)"
    "(dup_table 3 ((pipe_table \<nu> t)(0 := None)))(3 := None, 4 := None) = t(0 \<mapsto> Read_end \<nu>)"
proof -
  have N: "t 3 = None" "t 4 = None" using assms by (auto simp: standard_iff)
  show p: "pipe_table \<nu> t = t(3 \<mapsto> Read_end \<nu>, 4 \<mapsto> Write_end \<nu>)"
    using lowest_standard [OF assms] by (simp add: pipe_table_def Let_def)
  show "(pipe_table \<nu> t)(3 := None, 4 := None) = t" using N p by (auto simp: fun_eq_iff)
  show "(dup_table 4 ((pipe_table \<nu> t)(1 := None)))(3 := None, 4 := None) = t(1 \<mapsto> Write_end \<nu>)"
    "(dup_table 3 ((pipe_table \<nu> t)(0 := None)))(3 := None, 4 := None) = t(0 \<mapsto> Read_end \<nu>)"
    using N lowest_standard(3,4) [OF assms] by (auto simp: fun_eq_iff p dup_table_def)
qed

lemma runcmd_events:
  "scmd_ok c \<Longrightarrow> standard t \<Longrightarrow> events opens (runcmd c) \<nu> t = plumbing opens c \<nu> t"
proof (induction c arbitrary: \<nu> t)
  case (SExec ws)
  then show ?case by (cases ws) auto
next
  case (SRedir c f m fd)
  have fd: "fd \<in> {0, 1}" "lowest (t(fd := None)) = fd"
    using SRedir.prems lowest_standard(5,6) [OF SRedir.prems(2)] by (auto simp: redir_ok_def)
  have "events opens (runcmd c) \<nu> (t(fd \<mapsto> File f m)) = plumbing opens c \<nu> (t(fd \<mapsto> File f m))"
    by (rule SRedir.IH [OF _ standard_upd [OF SRedir.prems(2) fd(1)]]) (use SRedir.prems(1) in simp)
  then show ?case using fd by (auto simp: events_fprintf simp del: fun_upd_apply)
next
  case (SPipe c d)
  note P = pipe_tables [OF SPipe.prems(2)] lowest_standard(1,2) [OF SPipe.prems(2)]
  have "standard (t(1 \<mapsto> Write_end \<nu>))" "standard (t(0 \<mapsto> Read_end \<nu>))" using standard_upd [OF SPipe.prems(2)] by simp_all
  then show ?case using SPipe.IH SPipe.prems(1) P by (simp add: fork1_def Let_def del: fun_upd_apply)
qed (simp_all add: fork1_def)


primrec table_of :: "event \<Rightarrow> table" where
  "table_of (Starts argv t) = t"
| "table_of (Waits t) = t"

lemma plumbing_standard:
  "scmd_ok c \<Longrightarrow> standard t \<Longrightarrow> e \<in> set (plumbing opens c \<nu> t) \<Longrightarrow> standard (table_of e)"
proof (induction c arbitrary: \<nu> t)
  case (SRedir c f m fd)
  have "fd \<in> {0, 1}" using SRedir.prems(1) by (auto simp: redir_ok_def)
  then show ?case using SRedir.IH [OF _ standard_upd [OF SRedir.prems(2)]] SRedir.prems(1,3)
    by (auto simp del: fun_upd_apply split: if_splits)
next
  case (SPipe c d)
  have s: "standard (t(1 \<mapsto> Write_end \<nu>))" "standard (t(0 \<mapsto> Read_end \<nu>))" using standard_upd [OF SPipe.prems(2)] by simp_all
  show ?case using SPipe.IH(1) [OF _ s(1)] SPipe.IH(2) [OF _ s(2)] SPipe.prems by (auto simp del: fun_upd_apply)
qed (auto split: if_splits)

text \<open>The built-in command drops the last character of its line, whether or not it is the newline.\<close>

lemma cd_drops_last:
  "sh_line (''cd '' @ dir @ [c]) k = Chdir dir (\<lambda>r. if r < 0 then fprintf 2 (''cannot cd '' @ dir @ [NL]) k else k)"
  by (simp add: sh_line_def Let_def butlast_append)

text \<open>
  C31.  The shell connects the programs of a command as the command says.  Run by a process whose
  open descriptors are 0, 1 and 2, the system calls of \<^verbatim>\<open>runcmd\<close> start exactly the programs of the
  command; the left side of a pipe has the write end as its descriptor 1, the right side the read
  end as its descriptor 0, a redirection replaces descriptor 0 or 1 by the file, and a redirection
  whose file cannot be opened starts nothing.  Every program is started, and every wait is made,
  with descriptors 0, 1 and 2 only: no end of a pipe leaks, so a reader sees the end of file when
  its writers are gone.
\<close>

theorem runcmd_plumbing:
  assumes "scmd_ok c" "standard t"
  shows "events opens (runcmd c) \<nu> t = plumbing opens c \<nu> t \<and>
    (\<forall>e\<in>set (events opens (runcmd c) \<nu> t). dom (table_of e) = {0, 1, 2})"
  using runcmd_events [OF assms] plumbing_standard [OF assms] by (auto simp: standard_def)

theorem runcmd_plumbing_witness:
  "let t = [0 \<mapsto> Inherited 0, 1 \<mapsto> Inherited 1, 2 \<mapsto> Inherited 2];
       c = SPipe (SExec [''ls'']) (SRedir (SExec [''grep'', ''x'']) ''out'' (O_WRONLY OR O_CREATE OR O_TRUNC) 1)
   in events (\<lambda>_ _. True) (runcmd c) [0] t =
     [Starts [''ls''] (t(1 \<mapsto> Write_end [0])),
      Starts [''grep'', ''x''] (t(0 \<mapsto> Read_end [0], 1 \<mapsto> File ''out'' (O_WRONLY OR O_CREATE OR O_TRUNC))),
      Waits t, Waits t]"
proof -
  let ?t = "[0 \<mapsto> Inherited 0, 1 \<mapsto> Inherited 1, 2 \<mapsto> Inherited 2] :: table"
  let ?c = "SPipe (SExec [''ls'']) (SRedir (SExec [''grep'', ''x'']) ''out'' (O_WRONLY OR O_CREATE OR O_TRUNC) 1)"
  have "scmd_ok ?c"
    by (simp add: MAXARGS_def redir_ok_def word_ok_def is_word_def is_space_def is_symbol_def whitespace_def symbols_def NUL_def)
  moreover have "standard ?t" by (auto simp: standard_def)
  ultimately show ?thesis using runcmd_plumbing [of ?c ?t "\<lambda>_ _. True" "[0]"]
    by (simp add: Let_def del: fun_upd_apply)
qed

end
