(* ===== verification/Grep.thy ===== *)
theory Grep
  imports Sh_Run
begin

text \<open>
  The program \<^verbatim>\<open>user/grep.c\<close>: its matcher for the operators \<^verbatim>\<open>^ . * $\<close>, the loop that cuts what it reads
  into lines, and \<^verbatim>\<open>main\<close>.  A pointer into a C string is the rest of the string, as in \<open>Shell\<close>.  The
  bytes a descriptor has left are a string; how many of them a call of \<^verbatim>\<open>read\<close> returns is up to the
  file behind the descriptor and a parameter, which may depend on what is left and what is asked.
\<close>

section \<open>The matcher\<close>

function matchhere :: "string \<Rightarrow> string \<Rightarrow> bool"
  and matchstar :: "char \<Rightarrow> string \<Rightarrow> string \<Rightarrow> bool"
where
  "matchhere re text =
     (if at re = NUL then True
      else if at (tl re) = CHR ''*'' then matchstar (at re) (tl (tl re)) text
      else if at re = CHR ''$'' \<and> at (tl re) = NUL then at text = NUL
      else if at text \<noteq> NUL \<and> (at re = CHR ''.'' \<or> at re = at text) then matchhere (tl re) (tl text)
      else False)"
| "matchstar c re text =
     (if matchhere re text then True
      else if at text \<noteq> NUL \<and> (at text = c \<or> c = CHR ''.'') then matchstar c re (tl text)
      else False)"
  by pat_completeness auto
termination
  by (relation "measure (case_sum (\<lambda>(re, text). 2 * length re + length text)
      (\<lambda>(c, re, text). 2 * length re + length text + 1))")
    (auto simp: at_def NUL_def split: list.splits)

fun match_from :: "string \<Rightarrow> string \<Rightarrow> bool" where
  "match_from re text =
     (if matchhere re text then True
      else case text of [] \<Rightarrow> False | c # text \<Rightarrow> if c = NUL then False else match_from re text)"

definition match :: "string \<Rightarrow> string \<Rightarrow> bool" where
  "match re text = (if at re = CHR ''^'' then matchhere (tl re) text else match_from re text)"

declare matchhere.simps [simp del] matchstar.simps [simp del] match_from.simps [simp del]

section \<open>Lines\<close>

text \<open>
  The C string that starts at a place of the buffer ends before the first NUL.  The loop over the
  lines returns what it writes and the rest of the buffer, from the last value of \<^verbatim>\<open>p\<close> on.
\<close>

definition upto_nul :: "string \<Rightarrow> string" where
  "upto_nul p = takeWhile (\<lambda>c. c \<noteq> NUL) p"

function grep_lines :: "string \<Rightarrow> string \<Rightarrow> string list \<times> string" where
  "grep_lines re p =
     (case strchr (upto_nul p) NL of
        None \<Rightarrow> ([], p)
      | Some q \<Rightarrow>
          let l = take (length (upto_nul p) - length q) p;
              (ws, r) = grep_lines re (drop (length l + 1) p)
          in ((if match re l then [l @ [NL]] else []) @ ws, r))"
  by pat_completeness auto
termination
proof (relation "measure (\<lambda>(re, p). length p)", goal_cases)
  case (2 re p q l)
  then have "p \<noteq> []" by (auto simp: upto_nul_def)
  then show ?case by simp
qed simp

declare grep_lines.simps [simp del]

definition BUF :: nat where "BUF = 1024"

text \<open>
  A call of \<^verbatim>\<open>read\<close> returns at most what is asked and what is left; an error and the end of the
  file both end the loop.
\<close>

function grep_loop :: "(string \<Rightarrow> nat \<Rightarrow> nat) \<Rightarrow> string \<Rightarrow> string \<Rightarrow> string \<Rightarrow> string list" where
  "grep_loop rd re buf inp =
     (let k = BUF - length buf - 1;
          n = min (rd inp k) (min k (length inp))
      in if n = 0 then []
         else let (ws, r) = grep_lines re (buf @ take n inp) in ws @ grep_loop rd re r (drop n inp))"
  by pat_completeness auto
termination
  by (relation "measure (\<lambda>(rd, re, buf, inp). length inp)") auto

declare grep_loop.simps [simp del]

definition grep :: "(string \<Rightarrow> nat \<Rightarrow> nat) \<Rightarrow> string \<Rightarrow> string \<Rightarrow> string list" where
  "grep rd re inp = grep_loop rd re [] inp"

text \<open>
  \<^verbatim>\<open>main\<close> gives the writes, each with its descriptor, and the exit status; \<open>opn\<close> gives the contents of
  the files that can be opened.
\<close>

primrec grep_files :: "(string \<Rightarrow> nat \<Rightarrow> nat) \<Rightarrow> (string \<Rightarrow> string option) \<Rightarrow> string \<Rightarrow> string list \<Rightarrow> (int \<times> string) list \<times> int" where
  "grep_files rd opn re [] = ([], 0)"
| "grep_files rd opn re (f # fs) =
     (case opn f of
        None \<Rightarrow> (map (\<lambda>c. (1, [c])) (''grep: cannot open '' @ f @ [NL]), 1)
      | Some inp \<Rightarrow> let (ws, st) = grep_files rd opn re fs in (map (Pair 1) (grep rd re inp) @ ws, st))"

definition grep_main :: "(string \<Rightarrow> nat \<Rightarrow> nat) \<Rightarrow> (string \<Rightarrow> string option) \<Rightarrow> string \<Rightarrow> string list \<Rightarrow> (int \<times> string) list \<times> int" where
  "grep_main rd opn stdin argv =
     (if length argv \<le> 1 then (map (\<lambda>c. (2, [c])) (''usage: grep pattern [file ...]'' @ [NL]), 1)
      else if length argv \<le> 2 then (map (Pair 1) (grep rd (argv ! 1) stdin), 0)
      else grep_files rd opn (argv ! 1) (drop 2 argv))"

section \<open>What a pattern means\<close>

text \<open>
  A pattern without its leading \<^verbatim>\<open>^\<close> is a list of single characters and of characters under a star,
  and whether it ends in \<^verbatim>\<open>$\<close>; each piece stands for a set of strings.
\<close>

datatype piece = Single char | Many char

fun re_pieces :: "string \<Rightarrow> piece list \<times> bool" where
  "re_pieces [] = ([], False)"
| "re_pieces [c] = (if c = CHR ''$'' then ([], True) else ([Single c], False))"
| "re_pieces (c # d # re) =
     (if d = CHR ''*'' then apfst ((#) (Many c)) (re_pieces re) else apfst ((#) (Single c)) (re_pieces (d # re)))"

definition re_hit :: "char \<Rightarrow> char \<Rightarrow> bool" where
  "re_hit c d = (c = CHR ''.'' \<or> d = c)"

fun re_lang :: "piece list \<Rightarrow> string set" where
  "re_lang [] = {[]}"
| "re_lang (Single c # ps) = {d # w | d w. re_hit c d \<and> w \<in> re_lang ps}"
| "re_lang (Many c # ps) = {v @ w | v w. list_all (re_hit c) v \<and> w \<in> re_lang ps}"

definition re_body :: "string \<Rightarrow> string" where
  "re_body re = (if at re = CHR ''^'' then tl re else re)"

definition re_begins :: "piece list \<times> bool \<Rightarrow> string \<Rightarrow> bool" where
  "re_begins p text = (\<exists>w post. text = w @ post \<and> w \<in> re_lang (fst p) \<and> (snd p \<longrightarrow> post = []))"

lemma re_begins_Nil: "re_begins ([], e) text = (e \<longrightarrow> text = [])"
  by (auto simp: re_begins_def)

lemma re_begins_Single: "re_begins (apfst ((#) (Single c)) p) s = (s \<noteq> [] \<and> re_hit c (hd s) \<and> re_begins p (tl s))"
  by (cases s) (auto simp: re_begins_def Cons_eq_append_conv)

lemma re_begins_Many':
  "re_begins (apfst ((#) (Many c)) p) s = (\<exists>v t. s = v @ t \<and> list_all (re_hit c) v \<and> re_begins p t)"
  (is "?l = ?r")
proof
  assume ?l
  then obtain x post where x: "s = x @ post" "x \<in> re_lang (Many c # fst p)" "snd p \<longrightarrow> post = []"
    by (auto simp: re_begins_def)
  then obtain v w where v: "x = v @ w" "list_all (re_hit c) v" "w \<in> re_lang (fst p)" by auto
  then have "re_begins p (w @ post)" using x unfolding re_begins_def by blast
  then show ?r using v x by (intro exI [of _ v] exI [of _ "w @ post"]) simp
next
  assume ?r
  then obtain v w post where v: "s = v @ w @ post" "list_all (re_hit c) v" "w \<in> re_lang (fst p)" "snd p \<longrightarrow> post = []"
    unfolding re_begins_def by blast
  then have "v @ w \<in> re_lang (Many c # fst p)" by auto
  then show ?l using v unfolding re_begins_def by (intro exI [of _ "v @ w"] exI [of _ post]) simp
qed

lemma re_begins_Many:
  "re_begins (apfst ((#) (Many c)) p) s =
     (re_begins p s \<or> s \<noteq> [] \<and> re_hit c (hd s) \<and> re_begins (apfst ((#) (Many c)) p) (tl s))"
  (is "?l = ?r")
proof
  assume ?l
  then obtain v t where "s = v @ t" "list_all (re_hit c) v" "re_begins p t" by (auto simp: re_begins_Many')
  then show ?r by (cases v) (auto simp: re_begins_Many')
next
  assume ?r
  then consider "re_begins p s" | v t where "s = (hd s # v) @ t" "list_all (re_hit c) (hd s # v)" "re_begins p t"
    by (cases s) (auto simp: re_begins_Many')
  then show ?l
  proof cases
    case 1
    then show ?thesis unfolding re_begins_Many' by (intro exI [of _ "[]"] exI [of _ s]) simp
  next
    case (2 v t)
    then show ?thesis unfolding re_begins_Many' by blast
  qed
qed

lemma matchhere_simps [simp]:
  "matchhere [] s"
  "c \<noteq> NUL \<Longrightarrow> matchhere [c] s = (if c = CHR ''$'' then at s = NUL else at s \<noteq> NUL \<and> re_hit c (at s))"
  "c \<noteq> NUL \<Longrightarrow> d \<noteq> NUL \<Longrightarrow> matchhere (c # d # re) s =
     (if d = CHR ''*'' then matchstar c re s else at s \<noteq> NUL \<and> re_hit c (at s) \<and> matchhere (d # re) (tl s))"
proof -
  show e: "matchhere [] s" for s by (simp add: matchhere.simps)
  have "NUL \<noteq> CHR ''*''" by (simp add: NUL_def)
  then show "c \<noteq> NUL \<Longrightarrow> matchhere [c] s = (if c = CHR ''$'' then at s = NUL else at s \<noteq> NUL \<and> re_hit c (at s))"
    using e by (auto simp: matchhere.simps [of "[c]"] re_hit_def)
  show "c \<noteq> NUL \<Longrightarrow> d \<noteq> NUL \<Longrightarrow> matchhere (c # d # re) s =
     (if d = CHR ''*'' then matchstar c re s else at s \<noteq> NUL \<and> re_hit c (at s) \<and> matchhere (d # re) (tl s))"
    by (auto simp: matchhere.simps [of "c # d # re"] re_hit_def)
qed

lemma matchstar_iff:
  assumes "\<And>t. NUL \<notin> set t \<Longrightarrow> matchhere re t = re_begins p t" "NUL \<notin> set s"
  shows "matchstar c re s = re_begins (apfst ((#) (Many c)) p) s"
  using assms(2)
proof (induction s)
  case Nil
  then show ?case using assms(1) [of "[]"] by (subst matchstar.simps, subst re_begins_Many) simp
next
  case (Cons d s)
  then show ?case using assms(1) [of "d # s"] by (subst matchstar.simps, subst re_begins_Many) (auto simp: re_hit_def)
qed

lemma matchhere_iff: "NUL \<notin> set re \<Longrightarrow> NUL \<notin> set s \<Longrightarrow> matchhere re s = re_begins (re_pieces re) s"
proof (induction re arbitrary: s rule: re_pieces.induct)
  case 1
  then show ?case by (simp add: re_begins_Nil)
next
  case (2 c)
  then show ?case using re_begins_Single [of c "([], False)" s] by (cases s) (auto simp: re_begins_Nil)
next
  case (3 c d re)
  show ?case
  proof (cases "d = CHR ''*''")
    case True
    have "matchstar c re s = re_begins (apfst ((#) (Many c)) (re_pieces re)) s"
      using "3.IH"(1) "3.prems" True by (intro matchstar_iff) auto
    then show ?thesis using "3.prems" True by auto
  next
    case False
    then show ?thesis using "3.IH"(2) "3.prems" by (cases s) (auto simp: re_begins_Single)
  qed
qed

lemma match_from_iff:
  "NUL \<notin> set re \<Longrightarrow> NUL \<notin> set s \<Longrightarrow> match_from re s = (\<exists>pre t. s = pre @ t \<and> re_begins (re_pieces re) t)"
proof (induction s)
  case Nil
  then show ?case by (simp add: match_from.simps matchhere_iff)
next
  case (Cons c s)
  have "(\<exists>pre t. c # s = pre @ t \<and> re_begins (re_pieces re) t) \<longleftrightarrow>
    re_begins (re_pieces re) (c # s) \<or> (\<exists>pre t. s = pre @ t \<and> re_begins (re_pieces re) t)"
    by (auto simp: Cons_eq_append_conv)
  then show ?case using Cons by (auto simp: match_from.simps [of re "c # s"] matchhere_iff)
qed

section \<open>Reading line by line\<close>

lemma upto_nul_id: "NUL \<notin> set p \<Longrightarrow> upto_nul p = p"
  by (simp add: upto_nul_def takeWhile_eq_all_conv) blast

lemma strchr_app: "c \<notin> set l \<Longrightarrow> strchr (l @ c # s) c = Some (c # s)"
  by (induction l) auto

lemma grep_lines_none: "NL \<notin> set p \<Longrightarrow> grep_lines re p = ([], p)"
proof -
  assume "NL \<notin> set p"
  then have "NL \<notin> set (upto_nul p)" by (auto simp: upto_nul_def dest: set_takeWhileD)
  then have "strchr (upto_nul p) NL = None" using strchr_iff [of "upto_nul p" NL] by blast
  then show ?thesis by (simp add: grep_lines.simps)
qed

lemma grep_lines_line:
  assumes "NL \<notin> set l" "NUL \<notin> set (l @ NL # s)"
  shows "grep_lines re (l @ NL # s) = ((if match re l then [l @ [NL]] else []) @ fst (grep_lines re s), snd (grep_lines re s))"
  using upto_nul_id [OF assms(2)] by (subst grep_lines.simps) (simp add: strchr_app [OF assms(1)] case_prod_unfold Let_def)

lemma grep_lines_app:
  assumes "NUL \<notin> set a" "NUL \<notin> set b"
  shows "fst (grep_lines re (a @ b)) = fst (grep_lines re a) @ fst (grep_lines re (snd (grep_lines re a) @ b))
    \<and> NL \<notin> set (snd (grep_lines re a)) \<and> suffix (snd (grep_lines re a)) a"
  using assms(1)
proof (induction a rule: length_induct)
  case (1 a)
  show ?case
  proof (cases "NL \<in> set a")
    case False
    then show ?thesis by (simp add: grep_lines_none)
  next
    case True
    then obtain l s where a: "a = l @ NL # s" "NL \<notin> set l" by (meson split_list_first)
    then have n: "NUL \<notin> set (l @ NL # s)" "NUL \<notin> set (l @ NL # s @ b)" using 1(2) assms(2) by auto
    have "length s < length a" "NUL \<notin> set s" using a 1(2) by auto
    with 1(1) have "fst (grep_lines re (s @ b)) = fst (grep_lines re s) @ fst (grep_lines re (snd (grep_lines re s) @ b))
      \<and> NL \<notin> set (snd (grep_lines re s)) \<and> suffix (snd (grep_lines re s)) s" by blast
    then show ?thesis using grep_lines_line [OF a(2) n(1), of re] grep_lines_line [OF a(2) n(2), of re] a(1)
      by (auto intro: suffix_appendI suffix_ConsI)
  qed
qed

text \<open>No line is longer than the buffer: no newline follows that many characters without one.\<close>

definition lines_fit :: "string \<Rightarrow> bool" where
  "lines_fit s = (\<forall>l q. suffix (l @ q) s \<longrightarrow> NL \<notin> set l \<longrightarrow> BUF - 1 \<le> length l \<longrightarrow> NL \<notin> set q)"

lemma suffix_app: "suffix r a \<Longrightarrow> suffix (r @ b) (a @ b)"
  by (auto simp: suffix_def)

lemma lines_fit_suffix: "lines_fit s \<Longrightarrow> suffix t s \<Longrightarrow> lines_fit t"
  unfolding lines_fit_def by (meson suffix_order.trans)

lemma grep_loop_lines:
  assumes rd: "\<And>inp k. inp \<noteq> [] \<Longrightarrow> 0 < k \<Longrightarrow> 0 < rd inp k"
    and "NUL \<notin> set (buf @ inp)" "NL \<notin> set buf" "length buf \<le> BUF - 1" "lines_fit (buf @ inp)"
  shows "grep_loop rd re buf inp = fst (grep_lines re (buf @ inp))"
  using assms(2-)
proof (induction inp arbitrary: buf rule: length_induct)
  case (1 inp)
  define k where "k = BUF - length buf - 1"
  define n where "n = min (rd inp k) (min k (length inp))"
  have L: "grep_loop rd re buf inp =
    (if n = 0 then [] else fst (grep_lines re (buf @ take n inp)) @ grep_loop rd re (snd (grep_lines re (buf @ take n inp))) (drop n inp))"
    unfolding grep_loop.simps [of rd re buf inp] Let_def case_prod_unfold k_def n_def ..
  show ?case
  proof (cases "n = 0")
    case True
    then have "rd inp k = 0 \<or> k = 0 \<or> inp = []" unfolding n_def by (metis length_0_conv min_def)
    then have "k = 0 \<or> inp = []" using rd [of inp k] by (cases "k = 0"; cases "inp = []") auto
    then have "NL \<notin> set (buf @ inp)"
    proof
      assume "k = 0"
      then have "BUF - 1 \<le> length buf" by (simp add: k_def)
      then show ?thesis using "1.prems"(2,4) unfolding lines_fit_def by auto
    qed (use "1.prems" in simp)
    then show ?thesis using L True grep_lines_none by simp
  next
    case False
    let ?r = "snd (grep_lines re (buf @ take n inp))"
    have N: "NUL \<notin> set (buf @ take n inp)" "NUL \<notin> set (drop n inp)"
      using "1.prems"(1) by (auto dest: in_set_takeD in_set_dropD)
    note A = grep_lines_app [OF N, of re]
    have b: "buf @ inp = (buf @ take n inp) @ drop n inp" by simp
    from A have s: "suffix (?r @ drop n inp) (buf @ inp)" unfolding b by (blast intro: suffix_app)
    have "n \<le> k" by (simp add: n_def)
    then have "length buf + n \<le> BUF - 1" using "1.prems"(3) by (simp add: k_def)
    then have "length ?r \<le> BUF - 1" using A suffix_length_le [of ?r "buf @ take n inp"] by simp
    moreover have "length (drop n inp) < length inp" using False by (auto simp: n_def)
    moreover have "NUL \<notin> set (?r @ drop n inp)" using "1.prems"(1) s by (meson set_mono_suffix subsetD)
    ultimately have "grep_loop rd re ?r (drop n inp) = fst (grep_lines re (?r @ drop n inp))"
      using 1(1) A lines_fit_suffix [OF "1.prems"(4) s] by blast
    then show ?thesis unfolding b using L False A by simp
  qed
qed

definition unlines :: "string list \<Rightarrow> string" where
  "unlines ls = concat (map (\<lambda>l. l @ [NL]) ls)"

lemma unlines_simps [simp]: "unlines [] = []" "unlines (l # ls) = l @ NL # unlines ls"
  by (simp_all add: unlines_def)

lemma lines_fit_unlines:
  assumes "\<forall>l\<in>set ls. NL \<notin> set l \<and> length l < BUF - 1" "NL \<notin> set t"
  shows "lines_fit (unlines ls @ t)"
  using assms(1)
proof (induction ls)
  case Nil
  then show ?case using assms(2) by (auto simp: lines_fit_def suffix_def)
next
  case (Cons l ls)
  have "NL \<notin> set q" if "suffix (m @ q) (l @ NL # unlines ls @ t)" "NL \<notin> set m" "BUF - 1 \<le> length m" for m q
  proof -
    from that(1) consider "suffix (m @ q) (unlines ls @ t)" | v where "suffix v l" "m @ q = v @ NL # unlines ls @ t"
      using suffix_append [of "m @ q" l "NL # unlines ls @ t"] by (auto simp: suffix_Cons)
    then show ?thesis
    proof cases
      case 1
      then show ?thesis using Cons that(2,3) unfolding lines_fit_def by simp
    next
      case (2 v)
      have "length m \<le> length v"
      proof (rule ccontr)
        assume "\<not> length m \<le> length v"
        then have "(m @ q) ! length v \<in> set m" by (simp add: nth_append)
        then show False using 2(2) that(2) by simp
      qed
      then show ?thesis using suffix_length_le [OF 2(1)] Cons.prems that(3) by simp
    qed
  qed
  then show ?case by (simp add: lines_fit_def)
qed

lemma grep_lines_unlines:
  assumes "\<forall>l\<in>set ls. NL \<notin> set l" "NUL \<notin> set (unlines ls @ t)" "NL \<notin> set t"
  shows "fst (grep_lines re (unlines ls @ t)) = map (\<lambda>l. l @ [NL]) (filter (match re) ls)"
  using assms(1,2)
proof (induction ls)
  case Nil
  then show ?case using grep_lines_none [OF assms(3)] by simp
next
  case (Cons l ls)
  then show ?case using grep_lines_line [of l "unlines ls @ t" re] by auto
qed

section \<open>Properties\<close>

text \<open>
  C38: \<^verbatim>\<open>match()\<close> finds exactly what the pattern means.  It returns 1 just when some part of the text is
  a string of the pattern's language, at the beginning of the text if the pattern starts with \<^verbatim>\<open>^\<close> and
  at its end if the pattern ends in \<^verbatim>\<open>$\<close>.
\<close>

theorem match_correct:
  assumes "NUL \<notin> set re" "NUL \<notin> set s"
  shows "match re s = (\<exists>pre w post. s = pre @ w @ post \<and> w \<in> re_lang (fst (re_pieces (re_body re))) \<and>
    (at re = CHR ''^'' \<longrightarrow> pre = []) \<and> (snd (re_pieces (re_body re)) \<longrightarrow> post = []))"
proof (cases "at re = CHR ''^''")
  case True
  then have "NUL \<notin> set (tl re)" using assms(1) by (cases re) auto
  then show ?thesis using True matchhere_iff [OF _ assms(2)] by (simp add: match_def re_body_def re_begins_def)
next
  case False
  then show ?thesis using match_from_iff [OF assms(1,2)] by (simp add: match_def re_body_def re_begins_def) blast
qed

theorem match_correct_witness: "match ''^b*.$'' ''bba''"
proof -
  have p: "re_pieces ''b*.$'' = ([Many CHR ''b'', Single CHR ''.''], True)" by simp
  have "''a'' \<in> re_lang [Single CHR ''.'']" "list_all (re_hit CHR ''b'') ''bb''" by (simp_all add: re_hit_def)
  then have "''bb'' @ ''a'' \<in> re_lang [Many CHR ''b'', Single CHR ''.'']" unfolding re_lang.simps(3) by blast
  then show ?thesis using match_correct [of "''^b*.$''" "''bba''"] p by (simp add: NUL_def re_body_def)
qed

text \<open>
  C39: \<^verbatim>\<open>grep()\<close> writes exactly the matching lines, in order, however \<^verbatim>\<open>read\<close> cuts the input into
  pieces, provided every line fits into the buffer and the input has no NUL.  A last line without
  newline is never written.
\<close>

theorem grep_correct:
  assumes "\<And>inp k. inp \<noteq> [] \<Longrightarrow> 0 < k \<Longrightarrow> 0 < rd inp k"
    and "\<forall>l\<in>set ls. NL \<notin> set l \<and> length l < BUF - 1" "NL \<notin> set t" "NUL \<notin> set (unlines ls @ t)"
  shows "grep rd re (unlines ls @ t) = map (\<lambda>l. l @ [NL]) (filter (match re) ls)"
proof -
  have "lines_fit ([] @ unlines ls @ t)" using lines_fit_unlines [OF assms(2,3)] by simp
  then have "grep rd re (unlines ls @ t) = fst (grep_lines re (unlines ls @ t))"
    using grep_loop_lines [of rd "[]" "unlines ls @ t" re] assms(1,4) by (simp add: grep_def)
  then show ?thesis using grep_lines_unlines [of ls t re] assms(2-4) by simp
qed

theorem grep_correct_witness:
  "grep (\<lambda>inp k. 1) ''^b'' (unlines [''ab'', ''ba'', ''b''] @ ''bc'') = [''ba'' @ [NL], ''b'' @ [NL]]"
proof -
  have "match ''^b'' ''ba''" "match ''^b'' ''b''" "\<not> match ''^b'' ''ab''" by (simp_all add: match_def NUL_def re_hit_def)
  then show ?thesis using grep_correct [of "\<lambda>inp k. 1" "[''ab'', ''ba'', ''b'']" "''bc''" "''^b''"]
    by (simp add: NL_def NUL_def BUF_def)
qed

end
